(* ===== verification/Crc32.thy ===== *)
theory Crc32
  imports Carwatch_Prelude
begin

text \<open>
  The checksum of the on-disk records: \<open>src/store/crc32.c\<close>. The table is copied from the
  source; the reference is the bitwise CRC-32 (reflected, polynomial \<open>0xEDB88320\<close>) the
  source's comment names. The locale \<open>reflected_crc\<close> states what the detection arguments need
  of one byte step (it is linear over exclusive or, it shifts out a zero byte unchanged, it
  kills no state), proves from it that every error burst of up to four bytes is seen, and is
  interpreted on the table-driven step of the code.
\<close>

section \<open>The code\<close>

definition k_table :: "u32 list" where
  "k_table =
    [0x00000000, 0x77073096, 0xEE0E612C, 0x990951BA, 0x076DC419, 0x706AF48F,
     0xE963A535, 0x9E6495A3, 0x0EDB8832, 0x79DCB8A4, 0xE0D5E91E, 0x97D2D988,
     0x09B64C2B, 0x7EB17CBD, 0xE7B82D07, 0x90BF1D91, 0x1DB71064, 0x6AB020F2,
     0xF3B97148, 0x84BE41DE, 0x1ADAD47D, 0x6DDDE4EB, 0xF4D4B551, 0x83D385C7,
     0x136C9856, 0x646BA8C0, 0xFD62F97A, 0x8A65C9EC, 0x14015C4F, 0x63066CD9,
     0xFA0F3D63, 0x8D080DF5, 0x3B6E20C8, 0x4C69105E, 0xD56041E4, 0xA2677172,
     0x3C03E4D1, 0x4B04D447, 0xD20D85FD, 0xA50AB56B, 0x35B5A8FA, 0x42B2986C,
     0xDBBBC9D6, 0xACBCF940, 0x32D86CE3, 0x45DF5C75, 0xDCD60DCF, 0xABD13D59,
     0x26D930AC, 0x51DE003A, 0xC8D75180, 0xBFD06116, 0x21B4F4B5, 0x56B3C423,
     0xCFBA9599, 0xB8BDA50F, 0x2802B89E, 0x5F058808, 0xC60CD9B2, 0xB10BE924,
     0x2F6F7C87, 0x58684C11, 0xC1611DAB, 0xB6662D3D, 0x76DC4190, 0x01DB7106,
     0x98D220BC, 0xEFD5102A, 0x71B18589, 0x06B6B51F, 0x9FBFE4A5, 0xE8B8D433,
     0x7807C9A2, 0x0F00F934, 0x9609A88E, 0xE10E9818, 0x7F6A0DBB, 0x086D3D2D,
     0x91646C97, 0xE6635C01, 0x6B6B51F4, 0x1C6C6162, 0x856530D8, 0xF262004E,
     0x6C0695ED, 0x1B01A57B, 0x8208F4C1, 0xF50FC457, 0x65B0D9C6, 0x12B7E950,
     0x8BBEB8EA, 0xFCB9887C, 0x62DD1DDF, 0x15DA2D49, 0x8CD37CF3, 0xFBD44C65,
     0x4DB26158, 0x3AB551CE, 0xA3BC0074, 0xD4BB30E2, 0x4ADFA541, 0x3DD895D7,
     0xA4D1C46D, 0xD3D6F4FB, 0x4369E96A, 0x346ED9FC, 0xAD678846, 0xDA60B8D0,
     0x44042D73, 0x33031DE5, 0xAA0A4C5F, 0xDD0D7CC9, 0x5005713C, 0x270241AA,
     0xBE0B1010, 0xC90C2086, 0x5768B525, 0x206F85B3, 0xB966D409, 0xCE61E49F,
     0x5EDEF90E, 0x29D9C998, 0xB0D09822, 0xC7D7A8B4, 0x59B33D17, 0x2EB40D81,
     0xB7BD5C3B, 0xC0BA6CAD, 0xEDB88320, 0x9ABFB3B6, 0x03B6E20C, 0x74B1D29A,
     0xEAD54739, 0x9DD277AF, 0x04DB2615, 0x73DC1683, 0xE3630B12, 0x94643B84,
     0x0D6D6A3E, 0x7A6A5AA8, 0xE40ECF0B, 0x9309FF9D, 0x0A00AE27, 0x7D079EB1,
     0xF00F9344, 0x8708A3D2, 0x1E01F268, 0x6906C2FE, 0xF762575D, 0x806567CB,
     0x196C3671, 0x6E6B06E7, 0xFED41B76, 0x89D32BE0, 0x10DA7A5A, 0x67DD4ACC,
     0xF9B9DF6F, 0x8EBEEFF9, 0x17B7BE43, 0x60B08ED5, 0xD6D6A3E8, 0xA1D1937E,
     0x38D8C2C4, 0x4FDFF252, 0xD1BB67F1, 0xA6BC5767, 0x3FB506DD, 0x48B2364B,
     0xD80D2BDA, 0xAF0A1B4C, 0x36034AF6, 0x41047A60, 0xDF60EFC3, 0xA867DF55,
     0x316E8EEF, 0x4669BE79, 0xCB61B38C, 0xBC66831A, 0x256FD2A0, 0x5268E236,
     0xCC0C7795, 0xBB0B4703, 0x220216B9, 0x5505262F, 0xC5BA3BBE, 0xB2BD0B28,
     0x2BB45A92, 0x5CB36A04, 0xC2D7FFA7, 0xB5D0CF31, 0x2CD99E8B, 0x5BDEAE1D,
     0x9B64C2B0, 0xEC63F226, 0x756AA39C, 0x026D930A, 0x9C0906A9, 0xEB0E363F,
     0x72076785, 0x05005713, 0x95BF4A82, 0xE2B87A14, 0x7BB12BAE, 0x0CB61B38,
     0x92D28E9B, 0xE5D5BE0D, 0x7CDCEFB7, 0x0BDBDF21, 0x86D3D2D4, 0xF1D4E242,
     0x68DDB3F8, 0x1FDA836E, 0x81BE16CD, 0xF6B9265B, 0x6FB077E1, 0x18B74777,
     0x88085AE6, 0xFF0F6A70, 0x66063BCA, 0x11010B5C, 0x8F659EFF, 0xF862AE69,
     0x616BFFD3, 0x166CCF45, 0xA00AE278, 0xD70DD2EE, 0x4E048354, 0x3903B3C2,
     0xA7672661, 0xD06016F7, 0x4969474D, 0x3E6E77DB, 0xAED16A4A, 0xD9D65ADC,
     0x40DF0B66, 0x37D83BF0, 0xA9BCAE53, 0xDEBB9EC5, 0x47B2CF7F, 0x30B5FFE9,
     0xBDBDF21C, 0xCABAC28A, 0x53B39330, 0x24B4A3A6, 0xBAD03605, 0xCDD70693,
     0x54DE5729, 0x23D967BF, 0xB3667A2E, 0xC4614AB8, 0x5D681B02, 0x2A6F2B94,
     0xB40BBE37, 0xC30C8EA1, 0x5A05DF1B, 0x2D02EF8D]"

text \<open>One iteration of the loop of \<open>rec_crc32\<close>.\<close>

definition crc_step :: "u32 \<Rightarrow> u8 \<Rightarrow> u32" where
  "crc_step c p = k_table ! unat ((c XOR ucast p) AND 0xFF) XOR drop_bit 8 c"

definition rec_crc32 :: "bytes \<Rightarrow> u32 \<Rightarrow> u32" where
  "rec_crc32 buf len = foldl crc_step 0xFFFFFFFF (take (unat len) buf) XOR 0xFFFFFFFF"

section \<open>The bitwise reference\<close>

definition crc_bit :: "u32 \<Rightarrow> u32" where
  "crc_bit c = (if bit c 0 then drop_bit 1 c XOR 0xEDB88320 else drop_bit 1 c)"

definition crc_bits :: "u32 \<Rightarrow> u32" where
  "crc_bits c = (crc_bit ^^ 8) c"

definition crc32_bitwise :: "bytes \<Rightarrow> u32" where
  "crc32_bitwise bs = foldl (\<lambda>c b. crc_bits (c XOR ucast b)) 0xFFFFFFFF bs XOR 0xFFFFFFFF"

lemma crc_bits_unfold:
  "crc_bits c = crc_bit (crc_bit (crc_bit (crc_bit (crc_bit (crc_bit (crc_bit (crc_bit c)))))))"
  by (simp add: crc_bits_def numeral_eq_Suc)

subsection \<open>The bit step is linear, and kills no state\<close>

lemma crc_bit_xor: "crc_bit (x XOR y) = crc_bit x XOR crc_bit y"
proof -
  have "drop_bit 1 (x XOR y) = drop_bit 1 x XOR drop_bit 1 y" by simp
  moreover have "bit (x XOR y) 0 \<longleftrightarrow> bit x 0 \<noteq> bit y 0" by (simp add: bit_xor_iff)
  ultimately show ?thesis by (auto simp: crc_bit_def ac_simps simp del: bit_0)
qed

lemma crc_bits_xor: "crc_bits (x XOR y) = crc_bits x XOR crc_bits y"
  by (simp add: crc_bits_unfold crc_bit_xor)

text \<open>
  A linear table is generated by its entries at the powers of two: \<open>xor_table\<close> lists the
  exclusive ors of all subsets of its argument. So the 256 entries of the source's table are
  checked against the bitwise step by eight bitwise steps and 255 exclusive ors.
\<close>

primrec xor_table :: "u32 list \<Rightarrow> u32 list" where
  "xor_table [] = [0]"
| "xor_table (p # ps) = xor_table ps @ map ((XOR) p) (xor_table ps)"

lemma map_crc_bits_xor_table: "map crc_bits (xor_table ps) = xor_table (map crc_bits ps)"
proof (induction ps)
  case Nil
  show ?case by (simp add: crc_bits_unfold crc_bit_def)
next
  case (Cons p ps)
  have "map crc_bits (map ((XOR) p) xs) = map ((XOR) (crc_bits p)) (map crc_bits xs)" for xs
    by (induction xs) (simp_all add: crc_bits_xor)
  then show ?case by (simp add: Cons.IH del: map_map)
qed

lemma bytes_xor_table: "map word_of_nat [0..<256] = xor_table [128, 64, 32, 16, 8, 4, 2, 1]"
  by (simp add: upt_conv_Cons)

lemma k_table_xor_table: "k_table = xor_table (map crc_bits [128, 64, 32, 16, 8, 4, 2, 1])"
  by (simp add: k_table_def crc_bits_unfold crc_bit_def)

text \<open>Every entry of the table is the bitwise step of its index.\<close>

lemma k_table_bitwise: "k_table = map crc_bits (map word_of_nat [0..<256])"
  by (simp only: bytes_xor_table map_crc_bits_xor_table k_table_xor_table)

lemma k_table_nth: "i < 256 \<Longrightarrow> k_table ! i = crc_bits (word_of_nat i)"
  by (simp add: k_table_bitwise)

lemma crc_bit_eq_0: "crc_bit x = 0 \<Longrightarrow> x = 0"
proof (cases "bit x 0")
  case True
  have "bit (drop_bit 1 x XOR 0xEDB88320) 31"
    using bit_imp_le_length [of x 32] by (auto simp: bit_simps)
  moreover assume "crc_bit x = 0"
  ultimately show "x = 0" using True by (simp add: crc_bit_def)
next
  case False
  assume "crc_bit x = 0"
  with False have d: "drop_bit 1 x = 0" by (simp add: crc_bit_def)
  show "x = 0"
  proof (rule bit_word_eqI)
    fix n assume "n < LENGTH(32)"
    show "bit x n = bit 0 n"
    proof (cases n)
      case 0 with False show ?thesis by simp
    next
      case (Suc m)
      then have "bit x n = bit (drop_bit 1 x) m" by (simp add: bit_drop_bit_eq)
      with d show ?thesis by simp
    qed
  qed
qed

lemma crc_bits_eq_0: "crc_bits x = 0 \<Longrightarrow> x = 0"
  unfolding crc_bits_unfold by (blast dest: crc_bit_eq_0)

lemma crc_bits_low_zero: "take_bit 8 x = 0 \<Longrightarrow> crc_bits x = drop_bit 8 x"
proof -
  assume low: "take_bit 8 x = 0"
  have "\<not> bit x n" if "n < 8" for n
    using that low by (metis bit_0_eq bit_take_bit_iff bot_apply bot_bool_def)
  then have "(crc_bit ^^ k) x = drop_bit k x" if "k \<le> 8" for k
    using that
  proof (induction k)
    case (Suc k)
    then show ?case by (simp add: crc_bit_def bit_drop_bit_eq drop_bit_drop_bit del: bit_0)
  qed simp
  then show ?thesis by (simp add: crc_bits_def)
qed

lemma crc_step_bits: "crc_step c b = crc_bits (c XOR ucast b)"
proof -
  let ?x = "c XOR ucast b :: u32"
  have split: "?x = take_bit 8 ?x XOR (?x XOR take_bit 8 ?x)"
    by (rule bit_word_eqI) (auto simp: bit_simps)
  have hi0: "take_bit 8 (?x XOR take_bit 8 ?x) = 0" by simp
  have "drop_bit 8 (?x XOR take_bit 8 ?x) = drop_bit 8 c"
    by (rule bit_word_eqI) (auto simp: bit_simps dest: bit_imp_le_length)
  then have "crc_bits ?x = crc_bits (take_bit 8 ?x) XOR drop_bit 8 c"
    using crc_bits_xor [of "take_bit 8 ?x" "?x XOR take_bit 8 ?x"] crc_bits_low_zero [OF hi0] split
    by simp
  moreover have "?x AND 0xFF = take_bit 8 ?x"
    by (simp add: take_bit_eq_mask mask_eq_exp_minus_1)
  moreover have "unat (take_bit 8 y) < 256" for y :: u32
    using take_bit_nat_less_exp [of 8 "unat y"] by (simp add: unsigned_take_bit_eq)
  moreover have "word_of_nat (unat y) = y" for y :: u32
    by simp
  ultimately show ?thesis
    by (simp only: crc_step_def k_table_nth)
qed

section \<open>What a linear byte step detects\<close>

text \<open>
  A checksum that absorbs a byte into its state by exclusive or and then applies \<open>S\<close>. The
  laws are those of a reflected CRC with a 32-bit register.
\<close>

locale reflected_crc =
  fixes S :: "u32 \<Rightarrow> u32"
  assumes S_xor: "S (x XOR y) = S x XOR S y"
    and S_shift: "take_bit 8 x = 0 \<Longrightarrow> S x = drop_bit 8 x"
    and S_eq_0: "S x = 0 \<Longrightarrow> x = 0"
begin

definition run :: "u32 \<Rightarrow> bytes \<Rightarrow> u32" where
  "run c bs = foldl (\<lambda>c b. S (c XOR ucast b)) c bs"

lemma run_Nil [simp]: "run c [] = c"
  by (simp add: run_def)

lemma run_Cons [simp]: "run c (b # bs) = run (S (c XOR ucast b)) bs"
  by (simp add: run_def)

lemma run_append: "run c (as @ bs) = run (run c as) bs"
  by (simp add: run_def)

lemma S_inj: "S x = S y \<longleftrightarrow> x = y"
proof
  assume "S x = S y"
  then have "S (x XOR y) = 0" by (simp add: S_xor)
  then show "x = y" using S_eq_0 by (metis xor.right_neutral xor_self_eq bit.xor_left_self)
qed simp

lemma pow_S_inj: "(S ^^ n) x = (S ^^ n) y \<longleftrightarrow> x = y"
  by (induction n) (simp_all add: S_inj)

lemma run_inj: "run c bs = run d bs \<longleftrightarrow> c = d"
proof (induction bs arbitrary: c d)
  case (Cons b bs)
  have "(c XOR ucast b = d XOR ucast b) = (c = d)"
    by (metis bit.xor_left_self xor.commute)
  then show ?case by (simp add: Cons.IH S_inj)
qed simp

text \<open>Up to four bytes can be absorbed at once, as one little-endian word.\<close>

lemma run_word:
  "length bs \<le> 4 \<Longrightarrow> run c bs = (S ^^ length bs) (c XOR le_word bs)"
proof (induction bs arbitrary: c)
  case Nil
  then show ?case by simp
next
  case (Cons b bs)
  let ?w = "le_word bs :: u32"
  have "push_bit 8 ?w AND ucast b = 0"
    by (rule bit_word_eqI) (auto simp: bit_simps dest: bit_imp_le_length)
  then have w: "le_word (b # bs) = ucast b XOR push_bit 8 ?w"
    by (rule_tac bit_word_eqI) (auto simp: bit_simps dest: bit_imp_le_length)
  have "drop_bit 8 (push_bit 8 ?w) = ?w"
    using Cons.prems by (intro bit_word_eqI) (auto simp: bit_simps bit_le_word)
  moreover have "take_bit 8 (push_bit 8 ?w) = 0"
    by (rule bit_word_eqI) (auto simp: bit_simps)
  ultimately have "S (push_bit 8 ?w) = ?w"
    by (simp add: S_shift)
  then have "run c (b # bs) = (S ^^ length bs) (S (c XOR (ucast b XOR push_bit 8 ?w)))"
    using Cons by (simp add: S_xor xor.assoc)
  then show ?case by (simp only: w funpow_Suc_right length_Cons o_apply)
qed

text \<open>Two texts that differ only inside a window of four bytes leave different states.\<close>

lemma burst_detected:
  assumes "length ds = length es" and "length ds \<le> 4" and "ds \<noteq> es"
  shows "run c (pre @ ds @ post) \<noteq> run c (pre @ es @ post)"
proof
  assume "run c (pre @ ds @ post) = run c (pre @ es @ post)"
  then have "run (run c pre) ds = run (run c pre) es"
    by (simp add: run_append run_inj)
  then have "run c pre XOR le_word ds = run c pre XOR le_word es"
    using assms by (simp add: run_word pow_S_inj)
  then have "le_word ds = (le_word es :: u32)"
    by (metis bit.xor_left_self)
  then have "le_bytes (length ds) (le_word ds :: u32) = le_bytes (length es) (le_word es :: u32)"
    using assms by simp
  then show False using assms by (simp add: le_bytes_le_word)
qed

text \<open>
  Appending the complemented checksum makes a code word: the register then ends in a value
  that does not depend on the text, and only the right four bytes do that.
\<close>

lemma codeword_iff:
  assumes "length t = 4"
  shows "run c (bs @ t) = (S ^^ 4) 0xFFFFFFFF \<longleftrightarrow> le_word t = run c bs XOR 0xFFFFFFFF"
proof -
  have "run c (bs @ t) = (S ^^ 4) (run c bs XOR le_word t)"
    using assms by (simp add: run_append run_word)
  then have "run c (bs @ t) = (S ^^ 4) 0xFFFFFFFF \<longleftrightarrow> run c bs XOR le_word t = 0xFFFFFFFF"
    by (simp only: pow_S_inj)
  also have "\<dots> \<longleftrightarrow> le_word t = run c bs XOR 0xFFFFFFFF"
    by (metis bit.xor_left_self)
  finally show ?thesis .
qed

end

interpretation crc: reflected_crc crc_bits
  by unfold_locales (auto simp: crc_bits_xor crc_bits_low_zero dest: crc_bits_eq_0)

lemma rec_crc32_run: "rec_crc32 buf len = crc.run 0xFFFFFFFF (take (unat len) buf) XOR 0xFFFFFFFF"
proof -
  have "crc_step = (\<lambda>c b. crc_bits (c XOR ucast b))"
    by (intro ext) (rule crc_step_bits)
  then show ?thesis by (simp add: rec_crc32_def crc.run_def)
qed

section \<open>Properties\<close>

text \<open>C13: the table-driven checksum of the code is the bitwise CRC-32 of the bytes it is given.\<close>

theorem rec_crc32_is_bitwise: "rec_crc32 buf len = crc32_bitwise (take (unat len) buf)"
  by (simp add: rec_crc32_run crc.run_def crc32_bitwise_def)

end
