(* ===== verification/Log_Src.thy ===== *)
theory Log_Src
  imports Carwatch_Prelude
begin

text \<open>
  Provenance labels and levels: \<open>include/common/log.h\<close>. The log line itself is in \<open>Log_Line\<close>.
\<close>

section \<open>Labels and levels\<close>

datatype log_level = LOG_DEBUG | LOG_INFO | LOG_WARN | LOG_ERROR | LOG_FATAL

text \<open>The numbers of \<open>data_src_t\<close>, as the byte that travels in ring slots and records.\<close>

abbreviation (input) SRC_INVALID :: u8 where "SRC_INVALID \<equiv> 0"
abbreviation (input) SRC_LIVE :: u8 where "SRC_LIVE \<equiv> 1"
abbreviation (input) SRC_REPLAY :: u8 where "SRC_REPLAY \<equiv> 2"
abbreviation (input) SRC_SYNTH :: u8 where "SRC_SYNTH \<equiv> 3"

definition SRC_IS_VALID :: "u8 \<Rightarrow> bool" where
  "SRC_IS_VALID s \<longleftrightarrow> s \<ge> SRC_LIVE \<and> s \<le> SRC_SYNTH"

lemma SRC_IS_VALID_cases: "SRC_IS_VALID s \<longleftrightarrow> s = SRC_LIVE \<or> s = SRC_REPLAY \<or> s = SRC_SYNTH"
proof -
  have "s = 1 \<or> s = 2 \<or> s = 3" if "1 \<le> s" "s \<le> 3"
  proof -
    have "unat s = 1 \<or> unat s = 2 \<or> unat s = 3"
      using that by (simp add: word_le_nat_alt) linarith
    moreover have "s = word_of_nat (unat s)" by simp
    ultimately show ?thesis by (metis of_nat_1 of_nat_numeral)
  qed
  then show ?thesis by (auto simp: SRC_IS_VALID_def)
qed

end
