(* ===== verification/Store_Record.thy ===== *)
theory Store_Record
  imports Crc32 Log_Src
begin

text \<open>
  The on-disk record format: \<open>include/store/record.h\<close> and \<open>src/store/record.c\<close>. The structs
  are records; \<open>memcpy\<close> between a struct and a byte buffer is the pair of layout functions
  (\<open>bytes_of_hdr\<close> and \<open>hdr_of_bytes\<close> for the header). \<open>rec_encode\<close> returns the bytes it
  writes, or \<open>None\<close> where the C function returns 0; \<open>rec_decode\<close> returns the status, or the
  header, the body and the total size. The locale \<open>frame_codec\<close> is what the write-ahead log
  relies on, and it is interpreted here on these two functions.
\<close>

section \<open>Constants and structs\<close>

abbreviation (input) REC_MAGIC :: u32 where "REC_MAGIC \<equiv> 0x31525743"
abbreviation (input) REC_HDR_SIZE :: nat where "REC_HDR_SIZE \<equiv> 40"
abbreviation (input) REC_CRC_SIZE :: nat where "REC_CRC_SIZE \<equiv> 4"
abbreviation (input) REC_EVENT_TEXT_MAX :: nat where "REC_EVENT_TEXT_MAX \<equiv> 200"
abbreviation (input) REC_MAX_BODY :: nat where "REC_MAX_BODY \<equiv> 4 + REC_EVENT_TEXT_MAX"
abbreviation (input) REC_MAX_SIZE :: nat where "REC_MAX_SIZE \<equiv> REC_HDR_SIZE + REC_MAX_BODY + REC_CRC_SIZE"
abbreviation (input) REC_RAW_MAX :: nat where "REC_RAW_MAX \<equiv> 5"

abbreviation (input) REC_SAMPLE :: u16 where "REC_SAMPLE \<equiv> 1"
abbreviation (input) REC_BEGIN :: u16 where "REC_BEGIN \<equiv> 2"
abbreviation (input) REC_COMMIT :: u16 where "REC_COMMIT \<equiv> 3"
abbreviation (input) REC_BOOT :: u16 where "REC_BOOT \<equiv> 4"
abbreviation (input) REC_SHUTDOWN :: u16 where "REC_SHUTDOWN \<equiv> 5"
abbreviation (input) REC_EVENT :: u16 where "REC_EVENT \<equiv> 6"

record rec_hdr =
  h_magic :: u32
  h_kind :: u16
  h_body_len :: u16
  h_seq :: u64
  h_mono_ns :: u64
  h_wall_ns :: u64
  h_src :: u8
  h_flags :: u8
  h_reserved :: u16
  h_boot_id :: u32

datatype rec_status =
  REC_OK | REC_SHORT | REC_BAD_MAGIC | REC_BAD_KIND | REC_BAD_LEN | REC_BAD_CRC | REC_BAD_SRC

text \<open>The bodies. A sample's \<open>float\<close> is kept as its 32 bits: no code computes with it.\<close>

record rec_sample =
  s_mode :: u8
  s_pid :: u8
  s_raw_len :: u8
  s_raw :: bytes
  s_value :: u32

record rec_commit =
  c_txn_id :: u64
  c_records :: u32
  c_reserved :: u32

record rec_boot =
  b_prev_end :: u8
  b_bytes_truncated :: u32
  b_records_lost :: u32

record rec_event =
  e_code :: u16
  e_len :: u16
  e_text :: bytes

section \<open>Struct layout\<close>

text \<open>The integer at offset \<open>off\<close>, \<open>n\<close> bytes wide.\<close>

definition field :: "nat \<Rightarrow> nat \<Rightarrow> bytes \<Rightarrow> 'a::len word" where
  "field off n buf = le_word (take n (drop off buf))"

definition bytes_of_hdr :: "rec_hdr \<Rightarrow> bytes" where
  "bytes_of_hdr h =
     le_bytes 4 (h_magic h) @ le_bytes 2 (h_kind h) @ le_bytes 2 (h_body_len h) @
     le_bytes 8 (h_seq h) @ le_bytes 8 (h_mono_ns h) @ le_bytes 8 (h_wall_ns h) @
     le_bytes 1 (h_src h) @ le_bytes 1 (h_flags h) @ le_bytes 2 (h_reserved h) @
     le_bytes 4 (h_boot_id h)"

definition hdr_of_bytes :: "bytes \<Rightarrow> rec_hdr" where
  "hdr_of_bytes buf =
     \<lparr>h_magic = field 0 4 buf, h_kind = field 4 2 buf, h_body_len = field 6 2 buf,
      h_seq = field 8 8 buf, h_mono_ns = field 16 8 buf, h_wall_ns = field 24 8 buf,
      h_src = field 32 1 buf, h_flags = field 33 1 buf, h_reserved = field 34 2 buf,
      h_boot_id = field 36 4 buf\<rparr>"

definition bytes_of_sample :: "rec_sample \<Rightarrow> bytes" where
  "bytes_of_sample s =
     [s_mode s, s_pid s, s_raw_len s] @ take 5 (s_raw s @ replicate 5 0) @ le_bytes 4 (s_value s)"

definition sample_of_bytes :: "bytes \<Rightarrow> rec_sample" where
  "sample_of_bytes b =
     \<lparr>s_mode = field 0 1 b, s_pid = field 1 1 b, s_raw_len = field 2 1 b,
      s_raw = take 5 (drop 3 b), s_value = field 8 4 b\<rparr>"

definition bytes_of_begin :: "u64 \<Rightarrow> bytes" where
  "bytes_of_begin txn = le_bytes 8 txn"

definition bytes_of_commit :: "rec_commit \<Rightarrow> bytes" where
  "bytes_of_commit c = le_bytes 8 (c_txn_id c) @ le_bytes 4 (c_records c) @ le_bytes 4 (c_reserved c)"

definition bytes_of_boot :: "rec_boot \<Rightarrow> bytes" where
  "bytes_of_boot b =
     [b_prev_end b, 0, 0, 0] @ le_bytes 4 (b_bytes_truncated b) @ le_bytes 4 (b_records_lost b)"

definition bytes_of_shutdown :: "u8 \<Rightarrow> bytes" where
  "bytes_of_shutdown reason = reason # replicate 7 0"

text \<open>The first \<open>4 + len\<close> bytes of an event struct, which is what goes to disk.\<close>

definition bytes_of_event :: "rec_event \<Rightarrow> bytes" where
  "bytes_of_event e = le_bytes 2 (e_code e) @ le_bytes 2 (e_len e) @ e_text e"

section \<open>Encoding and decoding\<close>

definition body_len_ok :: "u16 \<Rightarrow> u16 \<Rightarrow> bool" where
  "body_len_ok kind body_len =
     (if kind = REC_SAMPLE then body_len = 12
      else if kind = REC_BEGIN then body_len = 8
      else if kind = REC_COMMIT then body_len = 16
      else if kind = REC_BOOT then body_len = 12
      else if kind = REC_SHUTDOWN then body_len = 8
      else if kind = REC_EVENT then body_len \<ge> 4 \<and> unat body_len \<le> REC_MAX_BODY
      else False)"

definition kind_ok :: "u16 \<Rightarrow> bool" where
  "kind_ok kind \<longleftrightarrow> kind \<ge> REC_SAMPLE \<and> kind \<le> REC_EVENT"

definition event_ok :: "bytes \<Rightarrow> u16 \<Rightarrow> bool" where
  "event_ok body body_len =
     (let text_len = (field 2 2 body :: u16)
      in unat text_len \<le> REC_EVENT_TEXT_MAX \<and> (ucast text_len :: u32) + 4 = ucast body_len)"

text \<open>
  \<open>out\<close> is \<open>None\<close> for a null pointer and \<open>Some cap\<close> for a buffer of \<open>cap\<close> bytes; a null
  \<open>hdr\<close> or \<open>body\<close> is \<open>None\<close>. The result is the bytes written at \<open>out\<close>.
\<close>

definition rec_encode :: "nat option \<Rightarrow> rec_hdr option \<Rightarrow> bytes option \<Rightarrow> bytes option" where
  "rec_encode out hdr body =
     (case (out, hdr, body) of
        (Some cap, Some h0, Some bdy) \<Rightarrow>
          if \<not> kind_ok (h_kind h0) \<or> \<not> body_len_ok (h_kind h0) (h_body_len h0) then None
          else if \<not> SRC_IS_VALID (h_src h0) then None
          else if h_kind h0 = REC_EVENT \<and> \<not> event_ok bdy (h_body_len h0) then None
          else
            let total = REC_HDR_SIZE + unat (h_body_len h0) + REC_CRC_SIZE
            in if cap < total then None
               else
                 let h = h0\<lparr>h_magic := REC_MAGIC, h_reserved := 0\<rparr>;
                     covered = bytes_of_hdr h @ take (unat (h_body_len h0)) bdy;
                     crc = rec_crc32 covered (of_nat (REC_HDR_SIZE + unat (h_body_len h0)))
                 in Some (covered @ le_bytes 4 crc)
      | _ \<Rightarrow> None)"

definition rec_decode :: "bytes \<Rightarrow> rec_status + (rec_hdr \<times> bytes \<times> nat)" where
  "rec_decode buf =
     (if length buf < REC_HDR_SIZE then Inl REC_SHORT
      else
        let h = hdr_of_bytes buf
        in if h_magic h \<noteq> REC_MAGIC then Inl REC_BAD_MAGIC
           else if \<not> kind_ok (h_kind h) then Inl REC_BAD_KIND
           else if \<not> body_len_ok (h_kind h) (h_body_len h) then Inl REC_BAD_LEN
           else
             let n = unat (h_body_len h);
                 total = REC_HDR_SIZE + n + REC_CRC_SIZE
             in if length buf < total then Inl REC_SHORT
                else if rec_crc32 buf (of_nat (REC_HDR_SIZE + n)) \<noteq> field (REC_HDR_SIZE + n) 4 buf
                  then Inl REC_BAD_CRC
                else if \<not> SRC_IS_VALID (h_src h) then Inl REC_BAD_SRC
                else if h_kind h = REC_EVENT \<and> \<not> event_ok (drop REC_HDR_SIZE buf) (h_body_len h)
                  then Inl REC_BAD_LEN
                else Inr (h, take n (drop REC_HDR_SIZE buf), total))"

fun rec_status_name :: "rec_status \<Rightarrow> string" where
  "rec_status_name REC_OK = ''ok''"
| "rec_status_name REC_SHORT = ''short''"
| "rec_status_name REC_BAD_MAGIC = ''bad_magic''"
| "rec_status_name REC_BAD_KIND = ''bad_kind''"
| "rec_status_name REC_BAD_LEN = ''bad_len''"
| "rec_status_name REC_BAD_CRC = ''bad_crc''"
| "rec_status_name REC_BAD_SRC = ''bad_src''"

section \<open>Layout lemmas\<close>

lemma length_bytes_of_hdr [simp, size_simps]: "length (bytes_of_hdr h) = 40"
  by (simp add: bytes_of_hdr_def)

lemma hdr_of_bytes_of_hdr [simp, codec_simps]: "hdr_of_bytes (bytes_of_hdr h @ rest) = h"
  by (simp add: hdr_of_bytes_def bytes_of_hdr_def field_def)

lemma bytes_of_hdr_of_bytes [codec_simps]:
  assumes "40 \<le> length buf"
  shows "bytes_of_hdr (hdr_of_bytes buf) = take 40 buf"
proof -
  have f: "le_bytes n (field off n buf :: 'a::len word) = take n (drop off buf)"
    if "off + n \<le> 40" "8 * n \<le> LENGTH('a)" for off n
    using that assms by (simp add: field_def le_bytes_le_word)
  have "take 40 buf = take 4 (drop 0 buf) @ take 2 (drop 4 buf) @ take 2 (drop 6 buf) @
     take 8 (drop 8 buf) @ take 8 (drop 16 buf) @ take 8 (drop 24 buf) @ take 1 (drop 32 buf) @
     take 1 (drop 33 buf) @ take 2 (drop 34 buf) @ take 4 (drop 36 buf)"
    using take_add [of 4 36 buf] take_add [of 2 34 "drop 4 buf"] take_add [of 2 32 "drop 6 buf"]
      take_add [of 8 24 "drop 8 buf"] take_add [of 8 16 "drop 16 buf"] take_add [of 8 8 "drop 24 buf"]
      take_add [of 1 7 "drop 32 buf"] take_add [of 1 6 "drop 33 buf"] take_add [of 2 4 "drop 34 buf"]
    by simp
  then show ?thesis
    by (simp add: bytes_of_hdr_def hdr_of_bytes_def f del: le_bytes.simps One_nat_def)
qed


section \<open>Frames\<close>

text \<open>
  A frame is what a good record looks like on disk. \<open>rec_ok\<close> collects the checks the encoder
  makes before it writes, and \<open>frame\<close> the bytes it then writes.
\<close>

definition rec_ok :: "rec_hdr \<Rightarrow> bytes \<Rightarrow> bool" where
  "rec_ok h body \<longleftrightarrow>
     h_magic h = REC_MAGIC \<and> kind_ok (h_kind h) \<and> body_len_ok (h_kind h) (h_body_len h) \<and>
     SRC_IS_VALID (h_src h) \<and> (h_kind h = REC_EVENT \<longrightarrow> event_ok body (h_body_len h)) \<and>
     length body = unat (h_body_len h)"

definition frame :: "rec_hdr \<Rightarrow> bytes \<Rightarrow> bytes" where
  "frame h body =
     (let covered = bytes_of_hdr h @ body
      in covered @ le_bytes 4 (rec_crc32 covered (of_nat (length covered))))"

lemma length_frame [simp, size_simps]: "length (frame h body) = 44 + length body"
  by (simp add: frame_def Let_def)

lemma body_len_ok_le: "body_len_ok k n \<Longrightarrow> unat n \<le> REC_MAX_BODY"
  by (auto simp: body_len_ok_def split: if_splits)

lemma rec_ok_len: "rec_ok h body \<Longrightarrow> length body \<le> REC_MAX_BODY"
  by (auto simp: rec_ok_def dest: body_len_ok_le)

lemma unat_u32_small: "n \<le> 1000 \<Longrightarrow> unat (word_of_nat n :: u32) = n"
  by (simp add: unsigned_of_nat take_bit_nat_eq_self)

lemma event_ok_append: "2 + 2 \<le> length body \<Longrightarrow> event_ok (body @ xs) n = event_ok body n"
  by (simp add: event_ok_def field_def)

lemma event_ok_take: "4 \<le> unat n \<Longrightarrow> event_ok (take (unat n) body) n = event_ok body n"
  by (simp add: event_ok_def field_def drop_take min_def)

lemma event_body_len: "kind_ok k \<Longrightarrow> body_len_ok REC_EVENT n \<Longrightarrow> 4 \<le> unat n"
  by (simp add: body_len_ok_def word_le_nat_alt)

lemma rec_encode_Some_iff:
  "rec_encode (Some cap) (Some h) (Some body) = Some out \<longleftrightarrow>
     (let n = unat (h_body_len h); h' = h\<lparr>h_magic := REC_MAGIC, h_reserved := 0\<rparr>
      in kind_ok (h_kind h) \<and> body_len_ok (h_kind h) (h_body_len h) \<and> SRC_IS_VALID (h_src h) \<and>
         (h_kind h = REC_EVENT \<longrightarrow> event_ok body (h_body_len h)) \<and> 44 + n \<le> cap \<and>
         out = bytes_of_hdr h' @ take n body @
           le_bytes 4 (rec_crc32 (bytes_of_hdr h' @ take n body) (of_nat (40 + n))))"
  by (auto simp: rec_encode_def Let_def)

lemma rec_encode_frame:
  assumes "length body = unat (h_body_len h)"
  shows "rec_encode (Some cap) (Some h) (Some body) =
     (let h' = h\<lparr>h_magic := REC_MAGIC, h_reserved := 0\<rparr>
      in if rec_ok h' body \<and> 44 + length body \<le> cap then Some (frame h' body) else None)"
  using assms by (auto simp: rec_encode_def rec_ok_def frame_def Let_def)

lemma field_append [simp]: "off + n \<le> length xs \<Longrightarrow> field off n (xs @ ys) = field off n xs"
  by (simp add: field_def)

lemma rec_decode_frame:
  assumes "rec_ok h body"
  shows "rec_decode (frame h body @ rest) = Inr (h, body, 44 + length body)"
proof -
  define buf where "buf = frame h body @ rest"
  have n: "unat (h_body_len h) = length body" and len: "length body \<le> 204"
    using assms rec_ok_len [OF assms] by (auto simp: rec_ok_def)
  have buf: "buf = bytes_of_hdr h @ body @
      le_bytes 4 (rec_crc32 (bytes_of_hdr h @ body) (of_nat (40 + length body))) @ rest"
    by (simp add: buf_def frame_def Let_def)
  have h: "hdr_of_bytes buf = h"
    unfolding buf by simp
  have crc: "rec_crc32 buf (of_nat (40 + length body)) =
      rec_crc32 (bytes_of_hdr h @ body) (of_nat (40 + length body))"
    unfolding buf rec_crc32_def using len by (simp add: unat_u32_small del: of_nat_add)
  have stored: "field (40 + length body) 4 buf =
      rec_crc32 (bytes_of_hdr h @ body) (of_nat (40 + length body))"
    unfolding buf field_def by simp
  have ev: "event_ok (drop 40 buf) (h_body_len h) = event_ok body (h_body_len h)"
    if "h_kind h = REC_EVENT"
  proof -
    have "4 \<le> length body"
      using assms that n event_body_len [of "h_kind h" "h_body_len h"] by (simp add: rec_ok_def)
    then show ?thesis unfolding buf by (simp add: event_ok_append)
  qed
  have body: "take (length body) (drop 40 buf) = body"
    unfolding buf by simp
  have "44 + length body \<le> length buf" by (simp add: buf)
  then have "rec_decode buf = Inr (h, body, 44 + length body)"
    using assms ev
    by (simp add: rec_decode_def h n crc stored body rec_ok_def Let_def del: of_nat_add)
  then show ?thesis by (simp only: buf_def)
qed

lemma rec_decode_OkD:
  assumes "rec_decode buf = Inr (h, body, n)"
  shows "rec_ok h body" and "n = 44 + length body" and "n \<le> length buf"
    and "take n buf = frame h body"
proof -
  let ?l = "unat (h_body_len h)"
  from assms have hdr: "40 \<le> length buf" "h = hdr_of_bytes buf" and total: "n = 44 + ?l" "n \<le> length buf"
    and body: "body = take ?l (drop 40 buf)"
    and crc: "rec_crc32 buf (of_nat (40 + ?l)) = field (40 + ?l) 4 buf"
    and checks: "h_magic h = REC_MAGIC" "kind_ok (h_kind h)" "body_len_ok (h_kind h) (h_body_len h)"
      "SRC_IS_VALID (h_src h)" "h_kind h = REC_EVENT \<longrightarrow> event_ok (drop 40 buf) (h_body_len h)"
    by (auto simp: rec_decode_def Let_def split: if_splits)
  have l: "length body = ?l" using body total by simp
  show "n = 44 + length body" and "n \<le> length buf" using l total by auto
  show "rec_ok h body"
    using checks l body event_ok_take [of "h_body_len h" "drop 40 buf"]
      event_body_len [of "h_kind h" "h_body_len h"] by (auto simp: rec_ok_def)
  have covered: "bytes_of_hdr h @ body = take (40 + ?l) buf"
    using hdr body by (simp add: bytes_of_hdr_of_bytes take_add)
  have u: "unat (word_of_nat (40 + ?l) :: u32) = 40 + ?l"
    using body_len_ok_le [OF checks(3)] by (simp add: unat_u32_small del: of_nat_add)
  have "rec_crc32 (bytes_of_hdr h @ body) (of_nat (40 + ?l)) = field (40 + ?l) 4 buf"
    using crc unfolding covered rec_crc32_def u by simp
  moreover have "le_bytes 4 (field (40 + ?l) 4 buf :: u32) = take 4 (drop (40 + ?l) buf)"
    using total by (simp add: field_def le_bytes_le_word)
  moreover have "take n buf = take (40 + ?l) buf @ take 4 (drop (40 + ?l) buf)"
    unfolding total(1) by (simp flip: take_add add: add.assoc add.commute)
  ultimately show "take n buf = frame h body"
    using l by (simp add: frame_def Let_def covered [symmetric])
qed

text \<open>A decoded record is a frame, and nothing else decodes.\<close>

lemma rec_decode_Ok_iff:
  "rec_decode buf = Inr (h, body, n) \<longleftrightarrow>
     rec_ok h body \<and> n = 44 + length body \<and> (\<exists>rest. buf = frame h body @ rest)"
  by (metis append_take_drop_id rec_decode_OkD rec_decode_frame)

lemma rec_decode_torn:
  assumes "rec_ok h body" and "k < 44 + length body"
  shows "rec_decode (take k (frame h body)) = Inl REC_SHORT"
proof (cases "k < 40")
  case True
  then show ?thesis by (simp add: rec_decode_def)
next
  case False
  have n: "unat (h_body_len h) = length body"
    using assms(1) by (simp add: rec_ok_def)
  obtain rest where "take k (frame h body) = bytes_of_hdr h @ rest"
    using False by (force simp: frame_def Let_def)
  then have "hdr_of_bytes (take k (frame h body)) = h" by simp
  with False assms n show ?thesis
    by (simp add: rec_decode_def rec_ok_def Let_def)
qed

section \<open>Damage\<close>

lemma crc_check_codeword:
  assumes "44 + l \<le> length buf" and "l \<le> REC_MAX_BODY"
  shows "rec_crc32 buf (of_nat (40 + l)) = field (40 + l) 4 buf \<longleftrightarrow>
    crc.run 0xFFFFFFFF (take (44 + l) buf) = (crc_bits ^^ 4) 0xFFFFFFFF"
proof -
  have "unat (word_of_nat (40 + l) :: u32) = 40 + l"
    using assms by (simp add: unat_u32_small del: of_nat_add)
  moreover have "take (44 + l) buf = take (40 + l) buf @ take 4 (drop (40 + l) buf)"
    by (simp flip: take_add add: add.assoc add.commute)
  ultimately show ?thesis
    using assms crc.codeword_iff [of "take 4 (drop (40 + l) buf)" "0xFFFFFFFF" "take (40 + l) buf"]
    by (auto simp: rec_crc32_run field_def)
qed

lemma hdr_fields_prefix:
  assumes "take 8 buf' = take 8 buf"
  shows "h_magic (hdr_of_bytes buf') = h_magic (hdr_of_bytes buf)"
    and "h_kind (hdr_of_bytes buf') = h_kind (hdr_of_bytes buf)"
    and "h_body_len (hdr_of_bytes buf') = h_body_len (hdr_of_bytes buf)"
proof -
  have eq: "take n (drop off buf') = take n (drop off buf)" if "off + n \<le> 8" for off n
  proof -
    have "take n (drop off (take 8 xs)) = take n (drop off xs)" for xs :: bytes
      using that by (simp add: drop_take min_def)
    then show ?thesis using assms by metis
  qed
  show "h_magic (hdr_of_bytes buf') = h_magic (hdr_of_bytes buf)"
    and "h_kind (hdr_of_bytes buf') = h_kind (hdr_of_bytes buf)"
    and "h_body_len (hdr_of_bytes buf') = h_body_len (hdr_of_bytes buf)"
    using eq [of 0 4] by (simp_all add: hdr_of_bytes_def field_def eq)
qed

lemma rec_decode_bad_crc:
  assumes ok: "rec_decode buf = Inr (h, body, n)"
    and frame8: "take 8 buf' = take 8 buf" and len: "n \<le> length buf'"
    and run: "crc.run 0xFFFFFFFF (take n buf') \<noteq> crc.run 0xFFFFFFFF (take n buf)"
  shows "rec_decode buf' = Inl REC_BAD_CRC"
proof -
  let ?l = "unat (h_body_len h)"
  have l: "length body = ?l" "?l \<le> 204" "n = 44 + ?l" "n \<le> length buf"
    using rec_decode_OkD [OF ok] rec_ok_len by (auto simp: rec_ok_def)
  have good: "rec_crc32 buf (of_nat (40 + ?l)) = field (40 + ?l) 4 buf"
    and h: "h = hdr_of_bytes buf"
    using ok by (auto simp: rec_decode_def Let_def split: if_splits)
  have "rec_crc32 buf' (of_nat (40 + ?l)) \<noteq> field (40 + ?l) 4 buf'"
    using good run l len by (simp add: crc_check_codeword del: of_nat_add)
  moreover have "h_magic (hdr_of_bytes buf') = h_magic h" "h_kind (hdr_of_bytes buf') = h_kind h"
    "h_body_len (hdr_of_bytes buf') = h_body_len h"
    using hdr_fields_prefix [OF frame8] h by auto
  ultimately show ?thesis
    using rec_decode_OkD(1) [OF ok] l len
    by (simp add: rec_decode_def Let_def rec_ok_def del: of_nat_add)
qed

section \<open>The interface the log relies on\<close>

text \<open>
  A codec of self-delimiting frames: a frame reads back whatever follows it, a proper prefix
  of a frame does not read at all, and reading makes progress.
\<close>

locale frame_codec =
  fixes enc :: "'r \<Rightarrow> bytes" and dec :: "bytes \<Rightarrow> ('r \<times> nat) option" and ok :: "'r \<Rightarrow> bool"
  assumes dec_enc: "ok r \<Longrightarrow> dec (enc r @ rest) = Some (r, length (enc r))"
    and dec_torn: "ok r \<Longrightarrow> k < length (enc r) \<Longrightarrow> dec (take k (enc r)) = None"
    and dec_frame: "dec buf = Some (r, n) \<Longrightarrow>
      ok r \<and> 0 < n \<and> n \<le> length buf \<and> take n buf = enc r"
begin

text \<open>The frames at the front of a buffer, up to the first place that does not decode.\<close>

function frames :: "bytes \<Rightarrow> 'r list" where
  "frames buf = (case dec buf of None \<Rightarrow> [] | Some (r, n) \<Rightarrow> r # frames (drop n buf))"
  by pat_completeness auto
termination
  by (relation "measure length") (auto dest: dec_frame)

declare frames.simps [simp del]

lemma frames_None: "dec buf = None \<Longrightarrow> frames buf = []"
  by (simp add: frames.simps)

lemma frames_enc: "ok r \<Longrightarrow> frames (enc r @ rest) = r # frames rest"
  by (simp add: frames.simps [of "enc r @ rest"] dec_enc)

lemma enc_nonempty: "ok r \<Longrightarrow> enc r \<noteq> []"
  using dec_enc [of r "[]"] dec_frame by fastforce

lemma frames_concat:
  "\<forall>r \<in> set rs. ok r \<Longrightarrow> frames (concat (map enc rs) @ rest) = rs @ frames rest"
  by (induction rs) (simp_all add: frames_enc)

lemma dec_Nil: "dec [] = None"
  by (cases "dec []") (auto dest: dec_frame)

text \<open>Reading a log cut at any byte gives exactly the records whose last byte is before the cut.\<close>

primrec whole :: "nat \<Rightarrow> 'r list \<Rightarrow> 'r list" where
  "whole k [] = []"
| "whole k (r # rs) = (if length (enc r) \<le> k then r # whole (k - length (enc r)) rs else [])"

lemma frames_cut:
  "\<forall>r \<in> set rs. ok r \<Longrightarrow> frames (take k (concat (map enc rs))) = whole k rs"
proof (induction rs arbitrary: k)
  case Nil
  show ?case by (simp add: frames_None dec_Nil)
next
  case (Cons r rs)
  then show ?case
    by (cases "length (enc r) \<le> k") (simp_all add: frames_enc frames_None dec_torn)
qed

lemma frames_ok: "r \<in> set (frames buf) \<Longrightarrow> ok r"
proof (induction buf rule: frames.induct)
  case (1 buf)
  then show ?case
    by (cases "dec buf") (auto simp: frames.simps [of buf] dest: dec_frame)
qed

text \<open>The frames of a buffer are laid out back to back at its front.\<close>

lemma frames_prefix: "\<exists>rest. buf = concat (map enc (frames buf)) @ rest \<and> dec rest = None"
proof (induction buf rule: frames.induct)
  case (1 buf)
  show ?case
  proof (cases "dec buf")
    case None
    then show ?thesis by (simp add: frames_None)
  next
    case (Some p)
    then obtain r n where p: "dec buf = Some (r, n)" by (cases p) auto
    with 1 obtain rest where "drop n buf = concat (map enc (frames (drop n buf))) @ rest"
      "dec rest = None" by blast
    moreover have "buf = enc r @ drop n buf"
      using dec_frame [OF p] by (metis append_take_drop_id)
    ultimately have "buf = concat (map enc (frames buf)) @ rest"
      using p by (simp add: frames.simps [of buf])
    with \<open>dec rest = None\<close> show ?thesis by blast
  qed
qed

end

definition frame_of :: "rec_hdr \<times> bytes \<Rightarrow> bytes" where
  "frame_of r = frame (fst r) (snd r)"

definition read_frame :: "bytes \<Rightarrow> ((rec_hdr \<times> bytes) \<times> nat) option" where
  "read_frame buf = (case rec_decode buf of Inl _ \<Rightarrow> None | Inr (h, body, n) \<Rightarrow> Some ((h, body), n))"

definition frame_ok :: "rec_hdr \<times> bytes \<Rightarrow> bool" where
  "frame_ok r = rec_ok (fst r) (snd r)"

lemma read_frame_Some:
  "read_frame buf = Some (r, n) \<longleftrightarrow> rec_decode buf = Inr (fst r, snd r, n)"
  by (cases r) (auto simp: read_frame_def split: sum.splits prod.splits)

interpretation rc: frame_codec frame_of read_frame frame_ok
proof unfold_locales
  fix r rest assume "frame_ok r"
  then show "read_frame (frame_of r @ rest) = Some (r, length (frame_of r))"
    by (simp add: read_frame_Some frame_of_def frame_ok_def rec_decode_frame)
next
  fix r k assume "frame_ok r" "k < length (frame_of r)"
  then show "read_frame (take k (frame_of r)) = None"
    by (simp add: read_frame_def frame_of_def frame_ok_def rec_decode_torn)
next
  fix buf r n assume "read_frame buf = Some (r, n)"
  then show "frame_ok r \<and> 0 < n \<and> n \<le> length buf \<and> take n buf = frame_of r"
    using rec_decode_OkD [of buf "fst r" "snd r" n]
    by (simp add: read_frame_Some frame_of_def frame_ok_def)
qed

lemma length_frame_of [simp, size_simps]: "length (frame_of r) = 44 + length (snd r)"
  by (simp add: frame_of_def)

lemma le_bytes_numeral:
  "le_bytes (numeral k) w = ucast w # le_bytes (pred_numeral k) (drop_bit 8 w)"
  by (simp add: numeral_eq_Suc)

lemma rec_encode_SomeD:
  assumes "rec_encode (Some cap) (Some h) (Some body) = Some out"
    and "unat (h_body_len h) \<le> length body"
  defines "h' \<equiv> h\<lparr>h_magic := REC_MAGIC, h_reserved := 0\<rparr>"
  shows "out = frame h' (take (unat (h_body_len h)) body)"
    and "rec_ok h' (take (unat (h_body_len h)) body)" and "44 + unat (h_body_len h) \<le> cap"
  using assms event_ok_take [of "h_body_len h" body] event_body_len [of "h_kind h" "h_body_len h"]
  by (auto simp: rec_encode_Some_iff Let_def frame_def rec_ok_def min_def)

lemma rec_decode_burst:
  assumes "rec_decode (pre @ ds @ post) = Inr (h, body, n)"
    and "length es = length ds" and "length ds \<le> 4" and "es \<noteq> ds"
    and "8 \<le> length pre" and "length pre + length ds \<le> n"
  shows "rec_decode (pre @ es @ post) = Inl REC_BAD_CRC"
proof (rule rec_decode_bad_crc [OF assms(1)])
  let ?m = "n - length pre - length ds"
  show "take 8 (pre @ es @ post) = take 8 (pre @ ds @ post)" using assms(5) by simp
  show "n \<le> length (pre @ es @ post)" using rec_decode_OkD(3) [OF assms(1)] assms(2) by simp
  have "take n (pre @ ds @ post) = pre @ ds @ take ?m post"
    and "take n (pre @ es @ post) = pre @ es @ take ?m post"
    using assms(2,6) by auto
  then show "crc.run 0xFFFFFFFF (take n (pre @ es @ post)) \<noteq> crc.run 0xFFFFFFFF (take n (pre @ ds @ post))"
    using crc.burst_detected [of es ds] assms(2-4) by (simp only:) simp
qed

section \<open>Properties\<close>

text \<open>C8: a record that \<open>rec_encode\<close> wrote is read back by \<open>rec_decode\<close>, whatever bytes follow it
  in the file: the same header (with the magic number set and the reserved field zeroed, as the
  encoder does), the same body, and the record's length as the step to the next record.\<close>

theorem rec_roundtrip:
  assumes "rec_encode (Some cap) (Some h) (Some body) = Some out"
    and "unat (h_body_len h) \<le> length body"
  shows "length out \<le> cap \<and> rec_decode (out @ rest) =
    Inr (h\<lparr>h_magic := REC_MAGIC, h_reserved := 0\<rparr>, take (unat (h_body_len h)) body, length out)"
  using rec_encode_SomeD [OF assms] assms(2) by (simp add: rec_decode_frame)

definition sample_hdr :: rec_hdr where
  "sample_hdr = \<lparr>h_magic = 0, h_kind = REC_SAMPLE, h_body_len = 12, h_seq = 7, h_mono_ns = 1000,
     h_wall_ns = 2000, h_src = SRC_LIVE, h_flags = 0, h_reserved = 0, h_boot_id = 1\<rparr>"

lemma sample_hdr_ok: "length body = 12 \<Longrightarrow> rec_ok (sample_hdr\<lparr>h_magic := REC_MAGIC\<rparr>) body"
  by (simp add: rec_ok_def sample_hdr_def kind_ok_def body_len_ok_def SRC_IS_VALID_def)

lemma sample_hdr_encode:
  "length body = 12 \<Longrightarrow> rec_encode (Some 56) (Some sample_hdr) (Some body) =
     Some (frame (sample_hdr\<lparr>h_magic := REC_MAGIC\<rparr>) body)"
  using sample_hdr_ok [of body] by (simp add: rec_encode_frame Let_def sample_hdr_def)

theorem rec_roundtrip_witness:
  "\<exists>out. rec_encode (Some 56) (Some sample_hdr) (Some (replicate 12 1)) = Some out \<and>
     rec_decode (out @ [1, 2, 3]) = Inr (sample_hdr\<lparr>h_magic := REC_MAGIC, h_reserved := 0\<rparr>,
       replicate 12 1, length out) \<and> length out \<le> 56"
proof -
  have enc: "rec_encode (Some 56) (Some sample_hdr) (Some (replicate 12 1)) =
      Some (frame (sample_hdr\<lparr>h_magic := REC_MAGIC\<rparr>) (replicate 12 1))"
    by (rule sample_hdr_encode) simp
  have len: "unat (h_body_len sample_hdr) \<le> length (replicate 12 (1 :: u8))"
    by (simp add: sample_hdr_def)
  show ?thesis
    using rec_roundtrip [OF enc len, of "[1, 2, 3]"] enc
    by (simp add: sample_hdr_def)
qed

text \<open>C12: what \<open>rec_decode\<close> accepts is exactly what \<open>rec_encode\<close> writes: encoding the decoded
  header and body again, into a buffer of the record's size, gives the bytes that were read.
  (The reserved field, which the encoder zeroes and the decoder does not check, must be zero.)\<close>

theorem rec_decode_canonical:
  assumes "rec_decode buf = Inr (h, body, n)" and "h_reserved h = 0"
  shows "rec_encode (Some n) (Some h) (Some body) = Some (take n buf)"
proof -
  note d = rec_decode_OkD [OF assms(1)]
  have "h\<lparr>h_magic := REC_MAGIC, h_reserved := 0\<rparr> = h"
    using d(1) assms(2) by (simp add: rec_ok_def)
  then show ?thesis
    using d by (simp add: rec_encode_frame Let_def rec_ok_def)
qed

theorem rec_decode_canonical_witness:
  "rec_encode (Some 56) (Some (sample_hdr\<lparr>h_magic := REC_MAGIC\<rparr>)) (Some (replicate 12 9)) =
     Some (take 56 (frame (sample_hdr\<lparr>h_magic := REC_MAGIC\<rparr>) (replicate 12 9) @ [0, 0]))"
proof (rule rec_decode_canonical)
  show "rec_decode (frame (sample_hdr\<lparr>h_magic := REC_MAGIC\<rparr>) (replicate 12 9) @ [0, 0]) =
      Inr (sample_hdr\<lparr>h_magic := REC_MAGIC\<rparr>, replicate 12 9, 56)"
    using rec_decode_frame [OF sample_hdr_ok, of "replicate 12 9" "[0, 0]"] by simp
  show "h_reserved (sample_hdr\<lparr>h_magic := REC_MAGIC\<rparr>) = 0" by (simp add: sample_hdr_def)
qed

text \<open>C11: a torn record is never taken for a whole one: every proper prefix of what \<open>rec_encode\<close>
  wrote decodes to \<open>REC_SHORT\<close>, whatever the cut.\<close>

theorem rec_torn_short:
  assumes "rec_encode (Some cap) (Some h) (Some body) = Some out"
    and "unat (h_body_len h) \<le> length body" and "k < length out"
  shows "rec_decode (take k out) = Inl REC_SHORT"
  using rec_encode_SomeD [OF assms(1,2)] assms(2,3) by (simp add: rec_decode_torn)

theorem rec_torn_short_witness:
  "\<exists>out. rec_encode (Some 56) (Some sample_hdr) (Some (replicate 12 1)) = Some out \<and>
     rec_decode (take 50 out) = Inl REC_SHORT"
proof -
  have enc: "rec_encode (Some 56) (Some sample_hdr) (Some (replicate 12 1)) =
      Some (frame (sample_hdr\<lparr>h_magic := REC_MAGIC\<rparr>) (replicate 12 1))"
    by (rule sample_hdr_encode) simp
  show ?thesis
    using rec_torn_short [OF enc, of 50] enc by (simp add: sample_hdr_def)
qed

text \<open>C6: damage is found. Overwrite any run of up to four bytes of a good record, anywhere after
  its first eight bytes (magic, kind and length) and up to and including its stored checksum:
  unless nothing changed, \<open>rec_decode\<close> answers \<open>REC_BAD_CRC\<close>.\<close>

theorem rec_burst_detected:
  assumes "rec_decode (pre @ ds @ post) = Inr (h, body, n)"
    and "length es = length ds" and "length ds \<le> 4" and "es \<noteq> ds"
    and "8 \<le> length pre" and "length pre + length ds \<le> n"
  shows "rec_decode (pre @ es @ post) = Inl REC_BAD_CRC"
  using assms by (rule rec_decode_burst)

theorem rec_burst_detected_witness:
  "\<exists>post. rec_decode ([67, 87, 82, 49, 1, 0, 12, 0] @ [7] @ post) =
       Inr (sample_hdr\<lparr>h_magic := REC_MAGIC\<rparr>, replicate 12 1, 56) \<and>
     rec_decode ([67, 87, 82, 49, 1, 0, 12, 0] @ [6] @ post) = Inl REC_BAD_CRC"
proof -
  let ?f = "frame (sample_hdr\<lparr>h_magic := REC_MAGIC\<rparr>) (replicate 12 1)"
  let ?pre = "[67, 87, 82, 49, 1, 0, 12, 0] :: bytes"
  have "\<exists>post. ?f = ?pre @ [7] @ post"
    by (simp add: frame_def Let_def bytes_of_hdr_def sample_hdr_def le_bytes_numeral)
  then obtain post where f: "?f = ?pre @ [7] @ post" by blast
  have "rec_decode (?f @ []) = Inr (sample_hdr\<lparr>h_magic := REC_MAGIC\<rparr>, replicate 12 1, 44 + 12)"
    using rec_decode_frame [OF sample_hdr_ok, of "replicate 12 1" "[]"] by simp
  then have d: "rec_decode (?pre @ [7] @ post) = Inr (sample_hdr\<lparr>h_magic := REC_MAGIC\<rparr>, replicate 12 1, 56)"
    unfolding f by simp
  show ?thesis
    using d rec_burst_detected [OF d, of "[6]"] by auto
qed

end
