(* ===== verification/C_Text.thy ===== *)
theory C_Text
  imports Carwatch_Prelude "HOL-Library.Char_ord"
begin

text \<open>
  The C library's text conversions that the sources use: number printing
  (\<open>%u\<close>, \<open>%llu\<close>, \<open>%lld\<close>, \<open>%x\<close>, \<open>%016x\<close>), \<open>snprintf\<close> into a bounded buffer, and
  \<open>sscanf\<close> with literal text, \<open>%u\<close>, \<open>%x\<close> and \<open>%s\<close>, and the searches \<open>memchr\<close>, \<open>memmem\<close> and
  \<open>strcspn\<close>. Text is a list of characters; a C string
  ends at its first NUL.
\<close>

section \<open>Characters and bytes\<close>

definition str_of_bytes :: "bytes \<Rightarrow> string" where
  "str_of_bytes bs = map (\<lambda>b. char_of (unat b)) bs"

definition bytes_of_str :: "string \<Rightarrow> bytes" where
  "bytes_of_str s = map (\<lambda>c. of_nat (of_char c)) s"

lemma length_bytes_of_str [simp, size_simps]: "length (bytes_of_str s) = length s"
  by (simp add: bytes_of_str_def)

lemma length_str_of_bytes [simp, size_simps]: "length (str_of_bytes b) = length b"
  by (simp add: str_of_bytes_def)

lemma unat_of_char [simp]: "unat (word_of_nat (of_char c) :: u8) = of_char c"
  by (simp add: unsigned_of_nat take_bit_nat_eq_self)

lemma str_of_bytes_of_str [simp]: "str_of_bytes (bytes_of_str s) = s"
  by (simp add: str_of_bytes_def bytes_of_str_def comp_def)

text \<open>The string a \<open>char *\<close> points to: the bytes before the first NUL.\<close>

definition c_str :: "string \<Rightarrow> string" where
  "c_str s = takeWhile (\<lambda>c. c \<noteq> CHR 0x00) s"

lemma c_str_append_nul [simp]: "CHR 0x00 \<notin> set s \<Longrightarrow> c_str (s @ CHR 0x00 # t) = s"
  unfolding c_str_def by (induction s) auto

lemma c_str_id: "CHR 0x00 \<notin> set s \<Longrightarrow> c_str s = s"
  unfolding c_str_def by (induction s) auto

section \<open>Printing numbers\<close>

definition digit_char :: "nat \<Rightarrow> char" where
  "digit_char d = char_of (if d < 10 then 48 + d else 87 + d)"

text \<open>The value of a digit character in a base up to 16, either case.\<close>

definition digit_val :: "nat \<Rightarrow> char \<Rightarrow> nat option" where
  "digit_val base c =
     (let n = of_char c :: nat;
          v = (if 48 \<le> n \<and> n \<le> 57 then n - 48
               else if 97 \<le> n \<and> n \<le> 102 then n - 87
               else if 65 \<le> n \<and> n \<le> 70 then n - 55 else base)
      in if v < base then Some v else None)"

fun print_nat :: "nat \<Rightarrow> nat \<Rightarrow> string" where
  "print_nat base n =
     (if base \<le> 1 \<or> n < base then [digit_char n]
      else print_nat base (n div base) @ [digit_char (n mod base)])"

declare print_nat.simps [simp del]

definition read_digits :: "nat \<Rightarrow> string \<Rightarrow> nat" where
  "read_digits base s = foldl (\<lambda>a c. a * base + the (digit_val base c)) 0 s"

abbreviation is_digit_of :: "nat \<Rightarrow> char \<Rightarrow> bool" where
  "is_digit_of base c \<equiv> digit_val base c \<noteq> None"

lemma digit_val_digit_char:
  assumes "d < base" and "base \<le> 16"
  shows "digit_val base (digit_char d) = Some d"
proof -
  have "of_char (digit_char d) = (if d < 10 then 48 + d else 87 + d)"
    using assms by (simp add: digit_char_def)
  then show ?thesis using assms by (simp add: digit_val_def Let_def)
qed

lemma read_digits_snoc:
  "read_digits base (s @ [c]) = read_digits base s * base + the (digit_val base c)"
  by (simp add: read_digits_def)

lemma read_print_nat: "1 < base \<Longrightarrow> base \<le> 16 \<Longrightarrow> read_digits base (print_nat base n) = n"
proof (induction base n rule: print_nat.induct)
  case (1 base n)
  then show ?case
    by (cases "n < base")
      (simp_all add: print_nat.simps [of base n] read_digits_snoc digit_val_digit_char,
       simp add: read_digits_def digit_val_digit_char)
qed

lemma print_nat_digits:
  "1 < base \<Longrightarrow> base \<le> 16 \<Longrightarrow> c \<in> set (print_nat base n) \<Longrightarrow> is_digit_of base c"
proof (induction base n rule: print_nat.induct)
  case (1 base n)
  then show ?case
    by (cases "n < base")
      (auto simp: print_nat.simps [of base n] digit_val_digit_char)
qed

lemma print_nat_nonempty [simp]: "print_nat base n \<noteq> []"
  by (simp add: print_nat.simps [of base n])

lemma length_print_nat: "1 < base \<Longrightarrow> n < base ^ k \<Longrightarrow> 0 < k \<Longrightarrow> length (print_nat base n) \<le> k"
proof (induction k arbitrary: n)
  case 0
  then show ?case by simp
next
  case (Suc k)
  show ?case
  proof (cases "n < base")
    case True
    then show ?thesis by (simp add: print_nat.simps [of base n])
  next
    case False
    then have "k \<noteq> 0" using Suc.prems by (cases k) auto
    moreover have "n div base < base ^ k"
      using Suc.prems by (simp add: less_mult_imp_div_less mult.commute)
    ultimately have "length (print_nat base (n div base)) \<le> k"
      using Suc.IH Suc.prems(1) by simp
    then show ?thesis using False by (simp add: print_nat.simps [of base n])
  qed
qed

text \<open>\<open>%x\<close>, \<open>%u\<close> and \<open>%llu\<close>, \<open>%lld\<close>, and zero padding to a minimum width as in \<open>%016x\<close>.\<close>

definition fmt_x :: "'a::len word \<Rightarrow> string" where
  "fmt_x v = print_nat 16 (unat v)"

definition fmt_u :: "'a::len word \<Rightarrow> string" where
  "fmt_u v = print_nat 10 (unat v)"

definition fmt_d :: "'a::len word \<Rightarrow> string" where
  "fmt_d v = (let i = sint v in (if i < 0 then ''-'' else []) @ print_nat 10 (nat \<bar>i\<bar>))"

definition zero_pad :: "nat \<Rightarrow> string \<Rightarrow> string" where
  "zero_pad w s = replicate (w - length s) CHR ''0'' @ s"

text \<open>\<open>snprintf (out, n, ...)\<close>: what it leaves in the buffer before the NUL, and its result.\<close>

definition snprintf :: "nat \<Rightarrow> string \<Rightarrow> string \<times> nat" where
  "snprintf n s = (take (n - 1) s, length s)"

section \<open>Scanning\<close>

definition isspace :: "char \<Rightarrow> bool" where
  "isspace c \<longleftrightarrow> c = CHR '' '' \<or> (9 \<le> (of_char c :: nat) \<and> (of_char c :: nat) \<le> 13)"

text \<open>
  The subject sequence of \<open>strtoul\<close> in base 10 or 16, at most \<open>w\<close> characters of it: an
  optional sign, in base 16 an optional \<open>0x\<close>, and one digit or more. The value saturates at
  \<open>ULONG_MAX\<close> and is then negated when the sign was a minus.
\<close>

definition scan_sign :: "string \<Rightarrow> bool \<times> string" where
  "scan_sign s = (case s of c # r \<Rightarrow> if c = CHR ''-'' then (True, r)
                                   else if c = CHR ''+'' then (False, r) else (False, s)
                  | [] \<Rightarrow> (False, []))"

definition scan_prefix :: "nat \<Rightarrow> string \<Rightarrow> string" where
  "scan_prefix base s =
     (case s of c # d # r \<Rightarrow>
        if base = 16 \<and> c = CHR ''0'' \<and> (d = CHR ''x'' \<or> d = CHR ''X'') then r else s
      | _ \<Rightarrow> s)"

definition scan_num :: "nat \<Rightarrow> nat \<Rightarrow> string \<Rightarrow> (u64 \<times> string) option" where
  "scan_num base w s =
     (let s1 = dropWhile isspace s;
          (neg, s2) = scan_sign (take w s1);
          s3 = scan_prefix base s2;
          ds = takeWhile (is_digit_of base) s3;
          v = of_nat (min (read_digits base ds) (2 ^ 64 - 1)) :: u64
      in if ds = [] then None
         else Some (if neg then - v else v, drop (length (take w s1) - length s3 + length ds) s1))"

datatype scan_dir = Lit char | Blank | Conv_u | Conv_x "nat option" | Conv_s nat
datatype scan_val = VNum u64 | VStr string

text \<open>
  The values \<open>sscanf\<close> assigns, in order; its result is their number. \<open>Blank\<close> is white space
  in the format, \<open>Conv_x None\<close>, \<open>Conv_x (Some w)\<close> and \<open>Conv_s w\<close> are \<open>%x\<close>, \<open>%wx\<close> and \<open>%ws\<close>.
\<close>

fun sscanf :: "scan_dir list \<Rightarrow> string \<Rightarrow> scan_val list" where
  "sscanf [] s = []"
| "sscanf (Lit c # ds) s = (case s of d # r \<Rightarrow> if c = d then sscanf ds r else [] | [] \<Rightarrow> [])"
| "sscanf (Blank # ds) s = sscanf ds (dropWhile isspace s)"
| "sscanf (Conv_u # ds) s =
     (case scan_num 10 (length s) s of None \<Rightarrow> [] | Some (v, r) \<Rightarrow> VNum v # sscanf ds r)"
| "sscanf (Conv_x w # ds) s =
     (case scan_num 16 (case w of None \<Rightarrow> length s | Some n \<Rightarrow> n) s of None \<Rightarrow> [] | Some (v, r) \<Rightarrow> VNum v # sscanf ds r)"
| "sscanf (Conv_s w # ds) s =
     (let s1 = dropWhile isspace s;
          t = take w (takeWhile (\<lambda>c. \<not> isspace c) s1)
      in if t = [] then [] else VStr t # sscanf ds (drop (length t) s1))"

definition lits :: "string \<Rightarrow> scan_dir list" where
  "lits s = map Lit s"

lemma sscanf_lits [simp]: "sscanf (lits s @ ds) (s @ t) = sscanf ds t"
  unfolding lits_def by (induction s) simp_all

section \<open>What was printed is scanned back\<close>

lemma digit_not_special:
  assumes "is_digit_of 16 c"
  shows "\<not> isspace c" and "c \<noteq> CHR ''-''" and "c \<noteq> CHR ''+''" and "c \<noteq> CHR ''x''" and "c \<noteq> CHR ''X''"
    and "c \<noteq> CHR 0x00" and "c \<noteq> CHR '' ''"
  using assms by (auto simp: digit_val_def isspace_def Let_def split: if_splits)

lemma is_digit_10_16: "is_digit_of 10 c \<Longrightarrow> is_digit_of 16 c"
  by (auto simp: digit_val_def Let_def split: if_splits)

lemma takeWhile_append_stop:
  "\<forall>x \<in> set xs. P x \<Longrightarrow> (ys \<noteq> [] \<Longrightarrow> \<not> P (hd ys)) \<Longrightarrow> takeWhile P (xs @ ys) = xs"
  by (cases ys) (simp_all add: takeWhile_append2)

lemma scan_num_digits:
  assumes "base = 10 \<or> base = 16" and "\<forall>c \<in> set ds. is_digit_of base c" and "ds \<noteq> []"
    and "rest \<noteq> [] \<Longrightarrow> \<not> is_digit_of base (hd rest)"
    and "rest \<noteq> [] \<Longrightarrow> hd rest \<noteq> CHR ''x'' \<and> hd rest \<noteq> CHR ''X''"
    and "length ds \<le> w"
  shows "scan_num base w (ds @ rest) =
     Some (of_nat (min (read_digits base ds) (2 ^ 64 - 1)), rest)"
proof -
  have d16: "is_digit_of 16 c" if "c \<in> set ds" for c
    using that assms(1,2) is_digit_10_16 by blast
  obtain c cs where ds: "ds = c # cs" using assms(3) by (cases ds) auto
  define t where "t = take (w - length ds) rest"
  have wt: "take w (ds @ rest) = ds @ t" using assms(6) by (simp add: t_def)
  have sp: "dropWhile isspace (ds @ rest) = ds @ rest"
    using d16 digit_not_special(1) by (auto simp: ds)
  have sg: "scan_sign (ds @ t) = (False, ds @ t)"
    using d16 [of c] digit_not_special(2,3) [of c] by (simp add: ds scan_sign_def)
  have hdt: "t \<noteq> [] \<Longrightarrow> rest \<noteq> [] \<and> hd t = hd rest"
    by (cases rest) (auto simp: t_def take_Cons')
  have pre: "scan_prefix base (ds @ t) = ds @ t"
  proof (cases cs)
    case Nil
    have "hd t \<noteq> CHR ''x'' \<and> hd t \<noteq> CHR ''X''" if "t \<noteq> []"
      using that hdt assms(5) by auto
    then show ?thesis by (cases t) (auto simp: Nil ds scan_prefix_def)
  next
    case (Cons d _)
    then show ?thesis
      using d16 [of d] digit_not_special(4,5) [of d] by (auto simp: ds scan_prefix_def)
  qed
  have tw: "takeWhile (is_digit_of base) (ds @ t) = ds"
    by (rule takeWhile_append_stop) (use assms(2,4) hdt in auto)
  show ?thesis
    unfolding scan_num_def Let_def sp wt sg prod.case pre tw using assms(3) by (auto simp: sp)
qed

lemma scan_num_fmt_x:
  assumes "rest \<noteq> [] \<Longrightarrow> \<not> is_digit_of 16 (hd rest) \<and> hd rest \<noteq> CHR ''x'' \<and> hd rest \<noteq> CHR ''X''"
    and "length (fmt_x v) \<le> w"
  shows "scan_num 16 w (fmt_x (v :: u64) @ rest) = Some (v, rest)"
proof -
  have "unat v \<le> 2 ^ 64 - 1" using unsigned_less [of v, where ?'a = nat] by simp
  then show ?thesis
    using scan_num_digits [of 16 "fmt_x v" rest w] assms print_nat_digits [of 16 _ "unat v"]
    by (auto simp: fmt_x_def read_print_nat)
qed

lemma scan_num_fmt_u:
  assumes "rest \<noteq> [] \<Longrightarrow> \<not> is_digit_of 10 (hd rest) \<and> hd rest \<noteq> CHR ''x'' \<and> hd rest \<noteq> CHR ''X''"
    and "length (fmt_u v) \<le> w" and "LENGTH('a::len) \<le> 64"
  shows "scan_num 10 w (fmt_u (v :: 'a word) @ rest) = Some (ucast v, rest)"
proof -
  have "unat v < 2 ^ LENGTH('a)" by (rule unsigned_less)
  also have "(2 :: nat) ^ LENGTH('a) \<le> 2 ^ 64" using assms(3) by (rule power_increasing) simp
  finally have "unat v \<le> 2 ^ 64 - 1" by simp
  then show ?thesis
    using scan_num_digits [of 10 "fmt_u v" rest w] assms print_nat_digits [of 10 _ "unat v"]
    by (auto simp: fmt_u_def read_print_nat)
qed

lemma fmt_x_nonempty [simp]: "fmt_x v \<noteq> []" by (simp add: fmt_x_def)
lemma fmt_u_nonempty [simp]: "fmt_u v \<noteq> []" by (simp add: fmt_u_def)

lemma length_fmt_x: "length (fmt_x (v :: u64)) \<le> 16"
  unfolding fmt_x_def using unsigned_less [of v, where ?'a = nat] by (intro length_print_nat) simp_all

lemma length_fmt_u: "length (fmt_u (v :: u32)) \<le> 10"
  unfolding fmt_u_def using unsigned_less [of v, where ?'a = nat] by (intro length_print_nat) simp_all

lemma length_fmt_u64: "length (fmt_u (v :: u64)) \<le> 20"
  unfolding fmt_u_def using unsigned_less [of v, where ?'a = nat] by (intro length_print_nat) simp_all

section \<open>Searching\<close>

lemma char_le_nat: "(c \<le> d) = ((of_char c :: nat) \<le> of_char d)"
  by (simp add: less_eq_char_def)

text \<open>\<open>memchr\<close>: the position of the first occurrence.\<close>

definition memchr :: "char \<Rightarrow> string \<Rightarrow> nat option" where
  "memchr c s = (if c \<in> set s then Some (length (takeWhile (\<lambda>d. d \<noteq> c) s)) else None)"

lemma memchr_append: "c \<notin> set s \<Longrightarrow> memchr c (s @ c # t) = Some (length s)"
  by (induction s) (auto simp: memchr_def)

lemma memchr_Some: "memchr c s = Some i \<longleftrightarrow> i < length s \<and> s ! i = c \<and> c \<notin> set (take i s)"
proof
  assume "memchr c s = Some i"
  then have i: "c \<in> set s" "i = length (takeWhile (\<lambda>d. d \<noteq> c) s)" by (auto simp: memchr_def split: if_splits)
  have "i < length s" using i(1) unfolding i(2) by (induction s) auto
  moreover have "s ! i = c" using i(2) nth_length_takeWhile [of "\<lambda>d. d \<noteq> c" s] \<open>i < length s\<close> by simp
  moreover have "c \<notin> set (take i s)" by (metis (mono_tags, lifting) i(2) set_takeWhileD takeWhile_eq_take)
  ultimately show "i < length s \<and> s ! i = c \<and> c \<notin> set (take i s)" by simp
next
  assume a: "i < length s \<and> s ! i = c \<and> c \<notin> set (take i s)"
  then have "s = take i s @ c # drop (Suc i) s" using id_take_nth_drop [of i s] by simp
  then show "memchr c s = Some i" using memchr_append [of c "take i s" "drop (Suc i) s"] a by (metis length_take min.absorb4)
qed

lemma memchr_None [simp]: "memchr c s = None \<longleftrightarrow> c \<notin> set s"
  by (simp add: memchr_def)

lemma memchr_split:
  assumes "memchr c s = Some i"
  shows "s = take i s @ c # drop (i + 1) s" "c \<notin> set (take i s)" "i < length s"
  using assms id_take_nth_drop [of i s] by (auto simp: memchr_Some)

text \<open>\<open>memmem\<close>: the position of the first occurrence of a text.\<close>

fun memmem :: "string \<Rightarrow> string \<Rightarrow> nat option" where
  "memmem [] pat = (if pat = [] then Some 0 else None)"
| "memmem (c # s) pat = (if take (length pat) (c # s) = pat then Some 0 else map_option Suc (memmem s pat))"

lemma memmem_bound: "memmem s pat = Some e \<Longrightarrow> e + length pat \<le> length s \<and> take (length pat) (drop e s) = pat"
proof (induction s arbitrary: e)
  case (Cons c s)
  then show ?case
    by (cases e) (auto split: if_splits simp: min_def dest!: arg_cong [where f = length])
qed (auto split: if_splits)

lemma memmem_append: "memmem s pat = Some e \<Longrightarrow> memmem (s @ t) pat = Some e"
proof (induction s arbitrary: e)
  case Nil
  then show ?case by (cases t) (auto split: if_splits)
next
  case (Cons c s)
  show ?case
  proof (cases "take (length pat) (c # s) = pat")
    case True
    then have "length pat \<le> length (c # s)" by (metis length_take min.cobounded1)
    then have "take (length pat) ((c # s) @ t) = pat" using True by (simp only: take_append) simp
    then show ?thesis using True Cons.prems by simp
  next
    case False
    then obtain e' where e: "memmem s pat = Some e'" "e = Suc e'" using Cons.prems by auto
    have "length pat \<le> length s" using memmem_bound [OF e(1)] by simp
    then have "take (length pat) (c # s @ t) \<noteq> pat" using False by (simp add: take_Cons' split: if_splits)
    then show ?thesis using Cons.IH [OF e(1)] e(2) by simp
  qed
qed

lemma memmem_late: "memmem s pat = None \<Longrightarrow> memmem (s @ t) pat = Some e \<Longrightarrow> length s < e + length pat"
proof (induction s arbitrary: e)
  case Nil
  then show ?case by (cases pat) (auto split: if_splits)
next
  case (Cons c s)
  have n: "take (length pat) (c # s) \<noteq> pat" "memmem s pat = None" using Cons.prems(1) by (auto split: if_splits)
  show ?case
  proof (cases e)
    case 0
    then have "take (length pat) (c # s @ t) = pat" using Cons.prems(2) by (auto split: if_splits)
    then have "\<not> length pat \<le> length (c # s)" using n(1) by (metis append_Cons append.right_neutral diff_is_0_eq take0 take_append)
    then show ?thesis using 0 by simp
  next
    case (Suc e')
    then have "memmem (s @ t) pat = Some e'" using Cons.prems(2) by (auto split: if_splits)
    then show ?thesis using Cons.IH [OF n(2)] Suc by simp
  qed
qed

lemma memmem_found: "take (length pat) (drop e s) = pat \<Longrightarrow> e \<le> length s \<Longrightarrow> memmem s pat \<noteq> None"
proof (induction s arbitrary: e)
  case (Cons c s)
  then show ?case by (cases e) auto
qed auto

text \<open>\<open>strcspn\<close>: the length before the first of some characters.\<close>

definition strcspn :: "string \<Rightarrow> string \<Rightarrow> nat" where
  "strcspn p reject = length (takeWhile (\<lambda>c. c \<notin> set reject) p)"

lemma strcspn_le: "strcspn p reject \<le> length p"
  by (simp add: strcspn_def length_takeWhile_le)

lemma strcspn_append: "\<forall>c \<in> set s. c \<notin> set rej \<Longrightarrow> t = [] \<or> hd t \<in> set rej \<Longrightarrow> strcspn (s @ t) rej = length s"
  by (induction s) (cases t; auto simp: strcspn_def)+

end
