(* ===== verification/Wal_Scan.thy ===== *)
theory Wal_Scan
  imports Store_Record C_Text
begin

text \<open>
  Recovery's reading of one segment: \<open>wal_scan\<close> of \<open>src/store/wal.c\<close>. The loop over the
  bytes is \<open>scan_loop\<close>, its body \<open>scan_record\<close>, and its locals are the record \<open>scan_state\<close>.
  The abstract view is a log of batches (\<open>is_batch\<close>, \<open>apply_batch\<close>); the lemmas relate the
  two for a log cut at any byte and for arbitrary bytes.
\<close>

section \<open>Constants and data\<close>

abbreviation (input) WAL_NAMESPACES :: nat where "WAL_NAMESPACES \<equiv> 2"
abbreviation (input) WAL_EV_RING_GEN :: u16 where "WAL_EV_RING_GEN \<equiv> 0x0501"
abbreviation (input) WAL_EV_RING_SEQ :: u16 where "WAL_EV_RING_SEQ \<equiv> 0x0502"
abbreviation (input) REC_MODE_BOX :: u8 where "REC_MODE_BOX \<equiv> 0x00"

record wal_scan_t =
  sc_committed_len :: nat
  sc_any_committed :: bool
  sc_ended_clean :: bool
  sc_last_seq :: u64
  sc_last_txn :: u64
  sc_last_boot_id :: u32
  sc_samples_committed :: u32
  sc_records_lost :: u32
  sc_last_mono :: "u64 list"
  sc_ring_gen :: "u64 list"
  sc_has_ring_seq :: "bool list"
  sc_ring_seq :: "u64 list"

text \<open>\<open>memset (out, 0, sizeof *out)\<close>.\<close>

definition scan_zero :: wal_scan_t where
  "scan_zero = \<lparr>sc_committed_len = 0, sc_any_committed = False, sc_ended_clean = False,
     sc_last_seq = 0, sc_last_txn = 0, sc_last_boot_id = 0, sc_samples_committed = 0,
     sc_records_lost = 0, sc_last_mono = replicate WAL_NAMESPACES 0,
     sc_ring_gen = replicate WAL_NAMESPACES 0, sc_has_ring_seq = replicate WAL_NAMESPACES False,
     sc_ring_seq = replicate WAL_NAMESPACES 0\<rparr>"

text \<open>The locals of \<open>wal_scan\<close>: what the open batch would contribute if its COMMIT turns up.\<close>

record scan_state =
  st_out :: wal_scan_t
  st_in_batch :: bool
  st_txn :: u64
  st_samples :: u32
  st_mono :: "u64 list"
  st_gen :: "u64 list"
  st_ring_seq :: "u64 list"
  st_has_ring_seq :: "bool list"
  st_last_kind :: u16

definition scan_start :: scan_state where
  "scan_start = \<lparr>st_out = scan_zero, st_in_batch = False, st_txn = 0, st_samples = 0,
     st_mono = replicate WAL_NAMESPACES 0, st_gen = replicate WAL_NAMESPACES 0,
     st_ring_seq = replicate WAL_NAMESPACES 0, st_has_ring_seq = replicate WAL_NAMESPACES False,
     st_last_kind = 0\<rparr>"

section \<open>The scan\<close>

definition ns_of :: "rec_sample \<Rightarrow> nat" where
  "ns_of s = (if s_mode s = REC_MODE_BOX then 1 else 0)"

text \<open>\<open>"ns=%u gen=%lx"\<close> and \<open>"ns=%u seq=%lx"\<close>. The namespace is an \<open>unsigned\<close>, the second
  number a \<open>uint64_t\<close>; \<open>None\<close> unless both were read and the namespace exists.\<close>

definition note_fmt :: "string \<Rightarrow> scan_dir list" where
  "note_fmt word = lits ''ns='' @ [Conv_u] @ [Blank] @ lits word @ [Conv_x None]"

definition scan_note :: "string \<Rightarrow> string \<Rightarrow> (nat \<times> u64) option" where
  "scan_note word text =
     (case sscanf (note_fmt word) (c_str text) of
        [VNum ns, VNum g] \<Rightarrow>
          if unat (ucast ns :: u32) < WAL_NAMESPACES then Some (unat (ucast ns :: u32), g) else None
      | _ \<Rightarrow> None)"

definition scan_event :: "bytes \<Rightarrow> scan_state \<Rightarrow> scan_state" where
  "scan_event body st =
     (let code = (field 0 2 body :: u16);
          len = unat (field 2 2 body :: u16);
          text = str_of_bytes (take len (drop 4 body));
          st1 = (if code = WAL_EV_RING_GEN
                 then (case scan_note ''gen='' text of
                         Some (ns, g) \<Rightarrow> st\<lparr>st_gen := (st_gen st)[ns := g]\<rparr> | None \<Rightarrow> st)
                 else st)
      in if code = WAL_EV_RING_SEQ
         then (case scan_note ''seq='' text of
                 Some (ns, g) \<Rightarrow> st1\<lparr>st_ring_seq := (st_ring_seq st1)[ns := g],
                                    st_has_ring_seq := (st_has_ring_seq st1)[ns := True]\<rparr>
               | None \<Rightarrow> st1)
         else st1)"

text \<open>One turn of the loop at offset \<open>off\<close>, after \<open>rec_decode\<close>; \<open>None\<close> is a \<open>break\<close>.\<close>

definition scan_record :: "nat \<Rightarrow> nat \<Rightarrow> rec_hdr \<Rightarrow> bytes \<Rightarrow> scan_state \<Rightarrow> scan_state option" where
  "scan_record off sz h body st =
     (let out = st_out st;
          keep = (\<lambda>s. Some (s\<lparr>st_last_kind := h_kind h\<rparr>))
      in if h_kind h = REC_BEGIN then
           if st_in_batch st then None
           else keep (st\<lparr>st_in_batch := True, st_txn := field 0 8 body, st_samples := 0,
                  st_mono := sc_last_mono out, st_gen := sc_ring_gen out,
                  st_ring_seq := sc_ring_seq out, st_has_ring_seq := sc_has_ring_seq out\<rparr>)
         else if \<not> st_in_batch st then None
         else if h_kind h = REC_COMMIT then
           if (field 0 8 body :: u64) \<noteq> st_txn st then None
           else keep (st\<lparr>st_in_batch := False,
                  st_out := out\<lparr>sc_committed_len := off + sz, sc_any_committed := True,
                    sc_ended_clean := (st_last_kind st = REC_SHUTDOWN),
                    sc_last_seq := h_seq h, sc_last_txn := st_txn st,
                    sc_last_boot_id := h_boot_id h,
                    sc_samples_committed := sc_samples_committed out + st_samples st,
                    sc_last_mono := st_mono st, sc_ring_gen := st_gen st,
                    sc_ring_seq := st_ring_seq st, sc_has_ring_seq := st_has_ring_seq st\<rparr>,
                  st_samples := 0\<rparr>)
         else if h_kind h = REC_SAMPLE then
           keep (st\<lparr>st_samples := st_samples st + 1,
                  st_mono := (st_mono st)[ns_of (sample_of_bytes body) := h_mono_ns h]\<rparr>)
         else if h_kind h = REC_EVENT then keep (scan_event body st)
         else keep st)"

lemma rec_decode_size: "rec_decode buf = Inr (h, body, n) \<Longrightarrow> 0 < n \<and> n \<le> length buf"
  using rec_decode_OkD(2,3) by fastforce

function scan_loop :: "bytes \<Rightarrow> nat \<Rightarrow> scan_state \<Rightarrow> scan_state" where
  "scan_loop buf off st =
     (if off < length buf then
        (case rec_decode (drop off buf) of
           Inl _ \<Rightarrow> st
         | Inr (h, body, sz) \<Rightarrow>
             (case scan_record off sz h body st of
                None \<Rightarrow> st
              | Some st' \<Rightarrow> scan_loop buf (off + sz) st'))
      else st)"
  by pat_completeness auto
termination
  by (relation "measure (\<lambda>(buf, off, st). length buf - off)") (auto dest!: rec_decode_size)

declare scan_loop.simps [simp del]

definition wal_scan :: "bytes \<Rightarrow> wal_scan_t" where
  "wal_scan buf =
     (let st = scan_loop buf 0 scan_start
      in if st_in_batch st then (st_out st)\<lparr>sc_records_lost := st_samples st\<rparr> else st_out st)"

section \<open>The scan over whole records\<close>

text \<open>The same loop over the records at the front of the buffer.\<close>

fun scan_frames :: "nat \<Rightarrow> (rec_hdr \<times> bytes) list \<Rightarrow> scan_state \<Rightarrow> scan_state" where
  "scan_frames off [] st = st"
| "scan_frames off (r # rs) st =
     (case scan_record off (length (frame_of r)) (fst r) (snd r) st of
        None \<Rightarrow> st
      | Some st' \<Rightarrow> scan_frames (off + length (frame_of r)) rs st')"

lemma scan_loop_frames: "scan_loop buf off st = scan_frames off (rc.frames (drop off buf)) st"
proof (induction buf off st rule: scan_loop.induct)
  case (1 buf off st)
  show ?case
  proof (cases "rec_decode (drop off buf)")
    case (Inl e)
    then have "rc.frames (drop off buf) = []"
      by (intro rc.frames_None) (simp add: read_frame_def)
    with Inl show ?thesis by (simp add: scan_loop.simps [of buf off])
  next
    case (Inr p)
    then obtain h body sz where d: "rec_decode (drop off buf) = Inr (h, body, sz)"
      by (cases p) auto
    note ok = rec_decode_OkD [OF d]
    have off: "off < length buf" using ok(2,3) by simp
    have fr: "rc.frames (drop off buf) = (h, body) # rc.frames (drop (off + sz) buf)"
      using d by (simp add: rc.frames.simps [of "drop off buf"] read_frame_def add.commute)
    have sz: "length (frame_of (h, body)) = sz" using ok(2) by simp
    show ?thesis
    proof (cases "scan_record off sz h body st")
      case None
      with d off show ?thesis by (simp add: scan_loop.simps [of buf off] fr sz del: length_frame_of)
    next
      case (Some st')
      with 1 [OF off d refl refl Some] d off show ?thesis
        by (simp add: scan_loop.simps [of buf off] fr sz del: length_frame_of)
    qed
  qed
qed

section \<open>A log as batches\<close>

text \<open>
  The abstract log: a list of batches, each a BEGIN, records that are neither BEGIN nor
  COMMIT, and a COMMIT of the same transaction. An open batch lacks its COMMIT.
\<close>

type_synonym rec = "rec_hdr \<times> bytes"

abbreviation kind_of :: "rec \<Rightarrow> u16" where "kind_of r \<equiv> h_kind (fst r)"
abbreviation txn_of :: "rec \<Rightarrow> u64" where "txn_of r \<equiv> field 0 8 (snd r)"

definition open_part :: "rec list \<Rightarrow> bool" where
  "open_part ps \<longleftrightarrow> ps \<noteq> [] \<and> kind_of (hd ps) = REC_BEGIN \<and>
     (\<forall>r \<in> set (tl ps). kind_of r \<noteq> REC_BEGIN \<and> kind_of r \<noteq> REC_COMMIT)"

definition is_batch :: "rec list \<Rightarrow> bool" where
  "is_batch rs \<longleftrightarrow> rs \<noteq> [] \<and> open_part (butlast rs) \<and> kind_of (last rs) = REC_COMMIT \<and>
     txn_of (last rs) = txn_of (hd rs)"

text \<open>What a list of records says: how many samples, the newest time stamp of each
  namespace, the newest ring generation and ring position noted in the events.\<close>

definition n_samples :: "rec list \<Rightarrow> nat" where
  "n_samples rs = length (filter (\<lambda>r. kind_of r = REC_SAMPLE) rs)"

definition mono_upd :: "u64 list \<Rightarrow> rec \<Rightarrow> u64 list" where
  "mono_upd m r = (if kind_of r = REC_SAMPLE
                   then m[ns_of (sample_of_bytes (snd r)) := h_mono_ns (fst r)] else m)"

definition rec_note :: "u16 \<Rightarrow> string \<Rightarrow> rec \<Rightarrow> (nat \<times> u64) option" where
  "rec_note code word r =
     (if kind_of r = REC_EVENT \<and> field 0 2 (snd r) = code
      then scan_note word (str_of_bytes (take (unat (field 2 2 (snd r) :: u16)) (drop 4 (snd r))))
      else None)"

definition gen_upd :: "u64 list \<Rightarrow> rec \<Rightarrow> u64 list" where
  "gen_upd m r = (case rec_note WAL_EV_RING_GEN ''gen='' r of Some (ns, g) \<Rightarrow> m[ns := g] | None \<Rightarrow> m)"

definition seq_upd :: "u64 list \<Rightarrow> rec \<Rightarrow> u64 list" where
  "seq_upd m r = (case rec_note WAL_EV_RING_SEQ ''seq='' r of Some (ns, g) \<Rightarrow> m[ns := g] | None \<Rightarrow> m)"

definition has_upd :: "bool list \<Rightarrow> rec \<Rightarrow> bool list" where
  "has_upd m r = (case rec_note WAL_EV_RING_SEQ ''seq='' r of Some (ns, g) \<Rightarrow> m[ns := True] | None \<Rightarrow> m)"

definition bytes_of_log :: "rec list \<Rightarrow> bytes" where
  "bytes_of_log rs = concat (map frame_of rs)"

definition summary :: "rec list list \<Rightarrow> wal_scan_t" where
  "summary bs =
     (let rs = concat bs
      in \<lparr>sc_committed_len = length (bytes_of_log rs),
          sc_any_committed = (bs \<noteq> []),
          sc_ended_clean = (bs \<noteq> [] \<and> kind_of (last (butlast (last bs))) = REC_SHUTDOWN),
          sc_last_seq = (if bs = [] then 0 else h_seq (fst (last (last bs)))),
          sc_last_txn = (if bs = [] then 0 else txn_of (last (last bs))),
          sc_last_boot_id = (if bs = [] then 0 else h_boot_id (fst (last (last bs)))),
          sc_samples_committed = of_nat (n_samples rs),
          sc_records_lost = 0,
          sc_last_mono = foldl mono_upd [0, 0] rs,
          sc_ring_gen = foldl gen_upd [0, 0] rs,
          sc_has_ring_seq = foldl has_upd [False, False] rs,
          sc_ring_seq = foldl seq_upd [0, 0] rs\<rparr>)"

text \<open>Splitting a list of records into whole batches and an open one, up to the first record
  that fits neither.\<close>

fun log_split :: "rec list list \<Rightarrow> rec list \<Rightarrow> rec list \<Rightarrow> rec list list \<times> rec list" where
  "log_split bs ps [] = (bs, ps)"
| "log_split bs ps (r # rs) =
     (if kind_of r = REC_BEGIN then (if ps = [] then log_split bs [r] rs else (bs, ps))
      else if ps = [] then (bs, ps)
      else if kind_of r = REC_COMMIT then
        (if txn_of r = txn_of (hd ps) then log_split (bs @ [ps @ [r]]) [] rs else (bs, ps))
      else log_split bs (ps @ [r]) rs)"

lemma bytes_of_log_simps [simp]:
  "bytes_of_log [] = []" "bytes_of_log (r # rs) = frame_of r @ bytes_of_log rs"
  "bytes_of_log (rs @ rs') = bytes_of_log rs @ bytes_of_log rs'"
  by (simp_all add: bytes_of_log_def)

lemma n_samples_simps [simp]:
  "n_samples [] = 0" "n_samples (rs @ rs') = n_samples rs + n_samples rs'"
  "n_samples (r # rs) = (if kind_of r = REC_SAMPLE then 1 else 0) + n_samples rs"
  by (simp_all add: n_samples_def)

text \<open>The state of the scan after the batches \<open>bs\<close> and the open part \<open>ps\<close>.\<close>

definition scanned :: "rec list list \<Rightarrow> rec list \<Rightarrow> scan_state \<Rightarrow> bool" where
  "scanned bs ps st \<longleftrightarrow>
     st_out st = summary bs \<and> st_in_batch st = (ps \<noteq> []) \<and>
     (ps \<noteq> [] \<longrightarrow> st_txn st = txn_of (hd ps) \<and> st_samples st = of_nat (n_samples ps) \<and>
        st_mono st = foldl mono_upd [0, 0] (concat bs @ ps) \<and>
        st_gen st = foldl gen_upd [0, 0] (concat bs @ ps) \<and>
        st_ring_seq st = foldl seq_upd [0, 0] (concat bs @ ps) \<and>
        st_has_ring_seq st = foldl has_upd [False, False] (concat bs @ ps) \<and>
        st_last_kind st = kind_of (last ps))"

lemma scanned_start: "scanned [] [] scan_start"
  by (simp add: scanned_def scan_start_def summary_def scan_zero_def Let_def numeral_2_eq_2)

lemmas upd_defs = mono_upd_def gen_upd_def seq_upd_def has_upd_def rec_note_def

lemma scan_event_note:
  "scan_event (snd r) st\<lparr>st_last_kind := k\<rparr> =
     st\<lparr>st_gen := gen_upd (st_gen st) r, st_ring_seq := seq_upd (st_ring_seq st) r,
        st_has_ring_seq := has_upd (st_has_ring_seq st) r, st_last_kind := k\<rparr>"
  if "kind_of r = REC_EVENT"
proof -
  let ?t = "str_of_bytes (take (unat (field 2 2 (snd r) :: u16)) (drop 4 (snd r)))"
  consider "field 0 2 (snd r) = WAL_EV_RING_GEN" | "field 0 2 (snd r) = WAL_EV_RING_SEQ"
    | "field 0 2 (snd r) \<noteq> WAL_EV_RING_GEN" "field 0 2 (snd r) \<noteq> WAL_EV_RING_SEQ" by blast
  then show ?thesis
  proof cases
    case 1
    then show ?thesis using that
      by (cases "scan_note ''gen='' ?t")
        (auto simp: scan_event_def gen_upd_def seq_upd_def has_upd_def rec_note_def Let_def)
  next
    case 2
    then show ?thesis using that
      by (cases "scan_note ''seq='' ?t")
        (auto simp: scan_event_def gen_upd_def seq_upd_def has_upd_def rec_note_def Let_def)
  next
    case 3
    then show ?thesis
      by (simp add: scan_event_def gen_upd_def seq_upd_def has_upd_def rec_note_def Let_def)
  qed
qed

lemma scan_begin:
  assumes "scanned bs ps st" and "kind_of r = REC_BEGIN"
  shows "ps \<noteq> [] \<Longrightarrow> scan_record off sz (fst r) (snd r) st = None"
    and "ps = [] \<Longrightarrow> \<exists>st'. scan_record off sz (fst r) (snd r) st = Some st' \<and> scanned bs [r] st'"
  using assms by (auto simp: scan_record_def scanned_def Let_def summary_def upd_defs)

lemma scan_outside:
  "scanned bs [] st \<Longrightarrow> kind_of r \<noteq> REC_BEGIN \<Longrightarrow> scan_record off sz (fst r) (snd r) st = None"
  by (simp add: scan_record_def scanned_def Let_def)

lemma upd_other:
  "kind_of r \<noteq> REC_SAMPLE \<Longrightarrow> mono_upd m r = m"
  "kind_of r \<noteq> REC_EVENT \<Longrightarrow> gen_upd m r = m"
  "kind_of r \<noteq> REC_EVENT \<Longrightarrow> seq_upd m r = m"
  "kind_of r \<noteq> REC_EVENT \<Longrightarrow> has_upd h r = h"
  by (simp_all add: upd_defs)

lemma summary_snoc:
  assumes "kind_of r = REC_COMMIT" and "ps \<noteq> []"
  shows "summary (bs @ [ps @ [r]]) =
    (summary bs)\<lparr>sc_committed_len := length (bytes_of_log (concat bs @ ps)) + length (frame_of r),
       sc_any_committed := True, sc_ended_clean := (kind_of (last ps) = REC_SHUTDOWN),
       sc_last_seq := h_seq (fst r), sc_last_txn := txn_of r, sc_last_boot_id := h_boot_id (fst r),
       sc_samples_committed := of_nat (n_samples (concat bs)) + of_nat (n_samples ps),
       sc_last_mono := foldl mono_upd [0, 0] (concat bs @ ps),
       sc_ring_gen := foldl gen_upd [0, 0] (concat bs @ ps),
       sc_ring_seq := foldl seq_upd [0, 0] (concat bs @ ps),
       sc_has_ring_seq := foldl has_upd [False, False] (concat bs @ ps)\<rparr>"
  using assms by (simp add: summary_def Let_def upd_other)

lemma scan_commit:
  assumes "scanned bs ps st" and "kind_of r = REC_COMMIT" and "ps \<noteq> []"
    and "off = length (bytes_of_log (concat bs @ ps))"
  shows "txn_of r \<noteq> txn_of (hd ps) \<Longrightarrow> scan_record off (length (frame_of r)) (fst r) (snd r) st = None"
    and "txn_of r = txn_of (hd ps) \<Longrightarrow>
      \<exists>st'. scan_record off (length (frame_of r)) (fst r) (snd r) st = Some st' \<and>
        scanned (bs @ [ps @ [r]]) [] st'"
proof -
  assume "txn_of r \<noteq> txn_of (hd ps)"
  then show "scan_record off (length (frame_of r)) (fst r) (snd r) st = None"
    using assms(1-3) by (simp add: scan_record_def scanned_def)
next
  have n: "sc_samples_committed (summary bs) = of_nat (n_samples (concat bs))"
    by (simp add: summary_def Let_def)
  assume "txn_of r = txn_of (hd ps)"
  then show "\<exists>st'. scan_record off (length (frame_of r)) (fst r) (snd r) st = Some st' \<and>
      scanned (bs @ [ps @ [r]]) [] st'"
    using assms by (simp add: scan_record_def scanned_def summary_snoc n del: length_frame_of)
qed

lemma scan_item:
  assumes "scanned bs ps st" and "kind_of r \<noteq> REC_BEGIN" and "kind_of r \<noteq> REC_COMMIT" and "ps \<noteq> []"
  shows "\<exists>st'. scan_record off sz (fst r) (snd r) st = Some st' \<and> scanned bs (ps @ [r]) st'"
proof (cases "kind_of r = REC_EVENT")
  case True
  then show ?thesis
    using assms scan_event_note [OF True]
    by (simp add: scan_record_def scanned_def Let_def mono_upd_def)
next
  case False
  then show ?thesis
    using assms by (simp add: scan_record_def scanned_def Let_def upd_defs)
qed

lemma scan_frames_split:
  assumes "scanned bs ps st" and "off = length (bytes_of_log (concat bs @ ps))"
  shows "case log_split bs ps rs of (bs', ps') \<Rightarrow> scanned bs' ps' (scan_frames off rs st)"
  using assms
proof (induction rs arbitrary: bs ps off st)
  case Nil
  then show ?case by simp
next
  case (Cons r rs)
  consider "kind_of r = REC_BEGIN" "ps = []" | "kind_of r = REC_BEGIN" "ps \<noteq> []"
    | "kind_of r \<noteq> REC_BEGIN" "ps = []"
    | "kind_of r = REC_COMMIT" "ps \<noteq> []" "txn_of r = txn_of (hd ps)"
    | "kind_of r = REC_COMMIT" "ps \<noteq> []" "txn_of r \<noteq> txn_of (hd ps)"
    | "kind_of r \<noteq> REC_BEGIN" "kind_of r \<noteq> REC_COMMIT" "ps \<noteq> []" by blast
  then show ?case
  proof cases
    case 1
    then show ?thesis
      using scan_begin(2) [OF Cons.prems(1), of r off "length (frame_of r)"] Cons.IH Cons.prems(2)
      by fastforce
  next
    case 2
    then show ?thesis using scan_begin(1) [OF Cons.prems(1)] Cons.prems by simp
  next
    case 3
    then show ?thesis using scan_outside Cons.prems by simp
  next
    case 4
    obtain st' where st': "scan_record off (length (frame_of r)) (fst r) (snd r) st = Some st'"
      and sc: "scanned (bs @ [ps @ [r]]) [] st'"
      using scan_commit(2) [OF Cons.prems(1) 4(1,2) Cons.prems(2) 4(3)] by blast
    show ?thesis
      using Cons.IH [OF sc, of "off + length (frame_of r)"] st' 4 Cons.prems(2)
      by (simp del: length_frame_of)
  next
    case 5
    then show ?thesis using scan_commit(1) [OF Cons.prems(1) 5(1,2) Cons.prems(2)] Cons.prems by simp
  next
    case 6
    obtain st' where st': "scan_record off (length (frame_of r)) (fst r) (snd r) st = Some st'"
      and sc: "scanned bs (ps @ [r]) st'"
      using scan_item [OF Cons.prems(1) 6] by blast
    show ?thesis
      using Cons.IH [OF sc, of "off + length (frame_of r)"] st' 6 Cons.prems(2)
      by (simp del: length_frame_of)
  qed
qed

lemma wal_scan_split:
  assumes "log_split [] [] (rc.frames buf) = (bs, ps)"
  shows "wal_scan buf = (summary bs)\<lparr>sc_records_lost := of_nat (n_samples ps)\<rparr>"
proof -
  have "scanned bs ps (scan_loop buf 0 scan_start)"
    using scan_frames_split [OF scanned_start, of 0 "rc.frames buf"] assms
    by (simp add: scan_loop_frames)
  then show ?thesis
    by (cases "ps = []") (auto simp: wal_scan_def scanned_def Let_def summary_def)
qed

section \<open>Splitting a log\<close>

lemma open_part_snoc:
  "open_part ps \<Longrightarrow> kind_of r \<noteq> REC_BEGIN \<Longrightarrow> kind_of r \<noteq> REC_COMMIT \<Longrightarrow> open_part (ps @ [r])"
  by (cases ps) (auto simp: open_part_def)

lemma log_split_inv:
  assumes "\<forall>b \<in> set bs. is_batch b" and "ps = [] \<or> open_part ps" and "log_split bs ps rs = (bs', ps')"
  shows "(\<forall>b \<in> set bs'. is_batch b) \<and> (ps' = [] \<or> open_part ps') \<and>
    (\<exists>rest. concat bs @ ps @ rs = concat bs' @ ps' @ rest)"
  using assms
proof (induction rs arbitrary: bs ps)
  case Nil
  then show ?case by auto
next
  case (Cons r rs)
  consider "kind_of r = REC_BEGIN" "ps = []"
    | "kind_of r = REC_COMMIT" "ps \<noteq> []" "txn_of r = txn_of (hd ps)"
    | "kind_of r \<noteq> REC_BEGIN" "kind_of r \<noteq> REC_COMMIT" "ps \<noteq> []"
    | "log_split bs ps (r # rs) = (bs, ps)"
    by (cases "kind_of r = REC_BEGIN"; cases "ps = []"; cases "kind_of r = REC_COMMIT";
        cases "txn_of r = txn_of (hd ps)") simp_all
  then show ?case
  proof cases
    case 1
    then show ?thesis
      using Cons.IH [of bs "[r]"] Cons.prems by (simp add: open_part_def)
  next
    case 2
    then have "is_batch (ps @ [r])" using Cons.prems(2) by (auto simp: is_batch_def)
    then have bs: "\<forall>b \<in> set (bs @ [ps @ [r]]). is_batch b" using Cons.prems(1) by simp
    have sp: "log_split (bs @ [ps @ [r]]) [] rs = (bs', ps')" using Cons.prems(3) 2 by simp
    show ?thesis using Cons.IH [OF bs _ sp] by simp
  next
    case 3
    then have "open_part (ps @ [r])" using open_part_snoc Cons.prems(2) by simp
    moreover have "log_split bs (ps @ [r]) rs = (bs', ps')" using Cons.prems(3) 3 by simp
    ultimately show ?thesis using Cons.IH [OF Cons.prems(1), of "ps @ [r]"] by simp
  next
    case 4
    then show ?thesis using Cons.prems by auto
  qed
qed

lemma log_split_items:
  assumes "ps \<noteq> []" and "\<forall>r \<in> set qs. kind_of r \<noteq> REC_BEGIN \<and> kind_of r \<noteq> REC_COMMIT"
  shows "log_split bs ps (qs @ rs) = log_split bs (ps @ qs) rs"
  using assms by (induction qs arbitrary: ps) simp_all

lemma log_split_open:
  assumes "open_part qs"
  shows "log_split bs [] (qs @ rs) = log_split bs qs rs"
proof -
  obtain q qs' where q: "qs = q # qs'" using assms by (cases qs) (auto simp: open_part_def)
  then show ?thesis
    using assms log_split_items [of "[q]" qs' bs rs] by (simp add: open_part_def)
qed

lemma is_batchE:
  assumes "is_batch b"
  obtains qs c where "b = qs @ [c]" and "open_part qs" and "kind_of c = REC_COMMIT"
    and "txn_of c = txn_of (hd qs)" and "qs \<noteq> []"
proof
  show "b = butlast b @ [last b]" and "open_part (butlast b)" and "kind_of (last b) = REC_COMMIT"
    and ne: "butlast b \<noteq> []"
    using assms by (auto simp: is_batch_def open_part_def)
  have "hd (butlast b) = hd b" using ne by (cases b) auto
  then show "txn_of (last b) = txn_of (hd (butlast b))"
    using assms by (simp add: is_batch_def)
qed

lemma log_split_batch:
  assumes "is_batch b"
  shows "log_split bs [] (b @ rs) = log_split (bs @ [b]) [] rs"
proof -
  obtain qs c where "b = qs @ [c]" "open_part qs" "kind_of c = REC_COMMIT"
    "txn_of c = txn_of (hd qs)" "qs \<noteq> []" using is_batchE [OF assms] .
  then show ?thesis using log_split_open [of qs bs "c # rs"] by simp
qed

lemma log_split_batches:
  "\<forall>b \<in> set cs. is_batch b \<Longrightarrow> log_split bs [] (concat cs @ rs) = log_split (bs @ cs) [] rs"
  by (induction cs arbitrary: bs) (simp_all add: log_split_batch)

lemma open_part_take: "open_part qs \<Longrightarrow> 0 < n \<Longrightarrow> open_part (take n qs)"
  by (cases qs; cases n) (auto simp: open_part_def dest: in_set_takeD)

lemma log_split_torn:
  assumes "is_batch b" and "n < length b"
  shows "log_split bs [] (take n b) = (bs, take n b)"
proof -
  obtain qs c where b: "b = qs @ [c]" "open_part qs" using is_batchE [OF assms(1)] by metis
  then show ?thesis
    using assms(2) log_split_open [OF open_part_take, of qs n bs "[]"] by (cases n) auto
qed

text \<open>A log of whole batches, followed by anything that does not read as a record.\<close>

definition log_ok :: "rec list list \<Rightarrow> bool" where
  "log_ok bs \<longleftrightarrow> (\<forall>b \<in> set bs. is_batch b \<and> (\<forall>r \<in> set b. frame_ok r))"

lemma log_ok_simps [simp]:
  "log_ok []" "log_ok (b # bs) \<longleftrightarrow> is_batch b \<and> (\<forall>r \<in> set b. frame_ok r) \<and> log_ok bs"
  "log_ok (bs @ cs) \<longleftrightarrow> log_ok bs \<and> log_ok cs"
  by (auto simp: log_ok_def)

lemma frames_log:
  "log_ok bs \<Longrightarrow> rc.frames (bytes_of_log (concat bs) @ rest) = concat bs @ rc.frames rest"
  unfolding bytes_of_log_def by (rule rc.frames_concat) (auto simp: log_ok_def)

lemma wal_scan_log:
  assumes "log_ok bs"
  shows "wal_scan (bytes_of_log (concat bs)) = summary bs"
proof -
  have "log_split [] [] (rc.frames (bytes_of_log (concat bs))) = (bs, [])"
    using frames_log [OF assms, of "[]"] log_split_batches [of bs "[]" "[]"] assms
    by (simp add: rc.frames_None rc.dec_Nil log_ok_def)
  then show ?thesis by (simp add: wal_scan_split summary_def Let_def)
qed

text \<open>Any bytes at all: what the scan keeps is a log of whole batches.\<close>

lemma wal_scan_bytes:
  obtains bs ps where "log_ok bs" and "ps = [] \<or> open_part ps"
    and "wal_scan buf = (summary bs)\<lparr>sc_records_lost := of_nat (n_samples ps)\<rparr>"
    and "take (sc_committed_len (wal_scan buf)) buf = bytes_of_log (concat bs)"
    and "sc_committed_len (wal_scan buf) \<le> length buf"
proof -
  obtain bs ps where sp: "log_split [] [] (rc.frames buf) = (bs, ps)" by fastforce
  note scan = wal_scan_split [OF sp]
  obtain rest where inv: "\<forall>b \<in> set bs. is_batch b" "ps = [] \<or> open_part ps"
    and fr: "rc.frames buf = concat bs @ ps @ rest"
    using log_split_inv [OF _ _ sp] by auto
  have "\<forall>r \<in> set (concat bs). frame_ok r"
    using rc.frames_ok [of _ buf] fr by auto
  then have ok: "log_ok bs" using inv(1) by (auto simp: log_ok_def)
  obtain junk where "buf = bytes_of_log (rc.frames buf) @ junk"
    using rc.frames_prefix [of buf] by (auto simp: bytes_of_log_def)
  then have buf: "buf = bytes_of_log (concat bs) @ bytes_of_log (ps @ rest) @ junk"
    by (simp add: fr)
  have len: "sc_committed_len (wal_scan buf) = length (bytes_of_log (concat bs))"
    by (simp add: scan summary_def Let_def)
  show thesis
    by (rule that [OF ok inv(2) scan]) (subst len, subst buf, simp)+
qed

section \<open>A log cut at any byte\<close>

text \<open>The batches that lie wholly before byte \<open>k\<close>, and the samples that lie wholly before it.\<close>

fun batches_within :: "nat \<Rightarrow> rec list list \<Rightarrow> rec list list" where
  "batches_within k [] = []"
| "batches_within k (b # bs) =
     (let n = length (bytes_of_log b) in if n \<le> k then b # batches_within (k - n) bs else [])"

definition samples_within :: "nat \<Rightarrow> rec list list \<Rightarrow> nat" where
  "samples_within k bs = n_samples (rc.whole k (concat bs))"

lemma whole_append:
  "rc.whole k (rs @ rs') =
     (if length (bytes_of_log rs) \<le> k then rs @ rc.whole (k - length (bytes_of_log rs)) rs'
      else rc.whole k rs)"
  by (induction rs arbitrary: k) (auto simp: bytes_of_log_def)

lemma whole_torn: "k < length (bytes_of_log rs) \<Longrightarrow> \<exists>n < length rs. rc.whole k rs = take n rs"
proof (induction rs arbitrary: k)
  case Nil
  then show ?case by simp
next
  case (Cons r rs)
  show ?case
  proof (cases "length (frame_of r) \<le> k")
    case True
    then have "k - length (frame_of r) < length (bytes_of_log rs)" using Cons.prems by simp
    from Cons.IH [OF this] obtain n where "n < length rs"
      "rc.whole (k - length (frame_of r)) rs = take n rs" by blast
    then show ?thesis using True by (intro exI [of _ "Suc n"]) (simp del: length_frame_of)
  next
    case False
    then show ?thesis by (intro exI [of _ 0]) (simp del: length_frame_of)
  qed
qed

lemma whole_batches:
  assumes "log_ok bs"
  shows "\<exists>ps. rc.whole k (concat bs) = concat (batches_within k bs) @ ps \<and>
    (\<forall>cs. log_split cs [] ps = (cs, ps)) \<and> log_ok (batches_within k bs)"
  using assms
proof (induction bs arbitrary: k)
  case Nil
  then show ?case by simp
next
  case (Cons b bs)
  show ?case
  proof (cases "length (bytes_of_log b) \<le> k")
    case True
    then show ?thesis using Cons.IH [of "k - length (bytes_of_log b)"] Cons.prems
      by (auto simp: whole_append Let_def)
  next
    case False
    then obtain n where "n < length b" "rc.whole k b = take n b"
      using whole_torn [of k b] by auto
    then show ?thesis using False Cons.prems log_split_torn [of b n] by (auto simp: whole_append Let_def)
  qed
qed

lemma wal_scan_take:
  assumes "log_ok bs"
  shows "wal_scan (take k (bytes_of_log (concat bs))) =
    (summary (batches_within k bs))
      \<lparr>sc_records_lost := of_nat (samples_within k bs - n_samples (concat (batches_within k bs)))\<rparr>"
proof -
  obtain ps where w: "rc.whole k (concat bs) = concat (batches_within k bs) @ ps"
    and sp: "\<And>cs. log_split cs [] ps = (cs, ps)" and ok: "log_ok (batches_within k bs)"
    using whole_batches [OF assms, of k] by blast
  have "rc.frames (take k (bytes_of_log (concat bs))) = concat (batches_within k bs) @ ps"
    using rc.frames_cut [of "concat bs" k] assms w by (auto simp: bytes_of_log_def log_ok_def)
  then have "log_split [] [] (rc.frames (take k (bytes_of_log (concat bs)))) = (batches_within k bs, ps)"
    using log_split_batches [of "batches_within k bs" "[]" ps] ok sp by (simp add: log_ok_def)
  then show ?thesis using wal_scan_split w by (simp add: samples_within_def)
qed

lemma txn_fields [simp, codec_simps]:
  "field 0 8 (bytes_of_begin txn) = txn" "field 0 8 (bytes_of_commit c) = c_txn_id c"
  "length (bytes_of_begin txn) = 8" "length (bytes_of_commit c) = 16"
  "length (bytes_of_sample sm) = 12"
  by (simp_all add: field_def bytes_of_begin_def bytes_of_commit_def bytes_of_sample_def)

section \<open>Damage\<close>

lemma wal_scan_stops:
  assumes "log_ok bs" and "qs = [] \<or> open_part qs" and "\<forall>r \<in> set qs. frame_ok r" and "read_frame junk = None"
  shows "wal_scan (bytes_of_log (concat bs @ qs) @ junk) =
    (summary bs)\<lparr>sc_records_lost := of_nat (n_samples qs)\<rparr>"
proof -
  have "rc.frames (bytes_of_log (concat bs @ qs) @ junk) = concat bs @ qs"
    using rc.frames_concat [of "concat bs @ qs" junk] rc.frames_None [OF assms(4)] assms(1,3)
    by (auto simp: bytes_of_log_def log_ok_def)
  then have "log_split [] [] (rc.frames (bytes_of_log (concat bs @ qs) @ junk)) = (bs, qs)"
    using log_split_batches [of bs "[]" qs] log_split_open [of qs bs "[]"] assms(1,2)
    by (auto simp: log_ok_def)
  then show ?thesis by (rule wal_scan_split)
qed

section \<open>Ring notes\<close>

text \<open>The event text \<open>"ns=%u gen=%lx"\<close> or \<open>"ns=%u seq=%lx"\<close>.\<close>

definition note_text :: "string \<Rightarrow> u32 \<Rightarrow> u64 \<Rightarrow> string" where
  "note_text word ns g = ''ns='' @ fmt_u ns @ '' '' @ word @ fmt_x g"

lemma length_note_text: "length word = 4 \<Longrightarrow> length (note_text word ns g) \<le> 34"
  using length_fmt_u [of ns] length_fmt_x [of g] by (simp add: note_text_def)

lemma fmt_no_nul: "CHR 0x00 \<notin> set (fmt_u v)" "CHR 0x00 \<notin> set (fmt_x v)"
  using print_nat_digits [of 10 _ "unat v"] print_nat_digits [of 16 _ "unat v"]
    digit_not_special(6) is_digit_10_16
  by (fastforce simp: fmt_u_def fmt_x_def)+

lemma scan_note_text:
  assumes "unat ns < WAL_NAMESPACES" and "word = ''gen='' \<or> word = ''seq=''"
  shows "scan_note word (note_text word ns g) = Some (unat ns, g)"
proof -
  have nul: "CHR 0x00 \<notin> set (note_text word ns g)"
    using assms(2) fmt_no_nul(1) [of ns] fmt_no_nul(2) [of g] by (auto simp: note_text_def)
  have sp: "\<not> isspace (hd word)" "word \<noteq> []" using assms(2) by (auto simp: isspace_def)
  have u: "scan_num 10 (length (fmt_u ns @ '' '' @ word @ fmt_x g)) (fmt_u ns @ '' '' @ word @ fmt_x g)
      = Some (ucast ns, '' '' @ word @ fmt_x g)"
    by (rule scan_num_fmt_u) (auto simp: digit_val_def)
  have x: "scan_num 16 (length (fmt_x g)) (fmt_x g) = Some (g, [])"
    using scan_num_fmt_x [of "[]" g] by simp
  have lw: "sscanf (lits word @ [Conv_x None]) (word @ fmt_x g) = [VNum g]"
    by (simp add: x)
  have ds: "dropWhile isspace ('' '' @ word @ fmt_x g) = word @ fmt_x g"
    using sp by (cases word) (auto simp: isspace_def)
  have "sscanf (note_fmt word) (note_text word ns g) = [VNum (ucast ns), VNum g]"
    unfolding note_fmt_def note_text_def sscanf_lits
    using u ds lw by simp
  moreover have "(ucast (ucast ns :: u64) :: u32) = ns"
    by (rule bit_word_eqI) (simp add: bit_simps)
  ultimately show ?thesis
    using assms(1) nul by (simp add: scan_note_def c_str_id)
qed

section \<open>Properties\<close>

text \<open>C18: power loss at any instant. Take a log of whole batches and cut it at any byte \<open>k\<close>:
  the scan keeps exactly the batches whose last byte is before the cut (its result is the
  summary of those batches: their length, last sequence and transaction numbers, sample count,
  newest time stamps and ring positions), and reports as lost exactly the samples that are
  readable after them.\<close>

theorem wal_scan_cut:
  assumes "log_ok bs"
  shows "wal_scan (take k (bytes_of_log (concat bs))) =
    (summary (batches_within k bs))
      \<lparr>sc_records_lost := of_nat (samples_within k bs - n_samples (concat (batches_within k bs)))\<rparr>"
  using assms by (rule wal_scan_take)

definition demo_rec :: "u16 \<Rightarrow> u64 \<Rightarrow> bytes \<Rightarrow> rec" where
  "demo_rec kind seq body =
     (\<lparr>h_magic = REC_MAGIC, h_kind = kind, h_body_len = of_nat (length body), h_seq = seq,
       h_mono_ns = 0, h_wall_ns = 0, h_src = SRC_SYNTH, h_flags = 0, h_reserved = 0,
       h_boot_id = 1\<rparr>, body)"

definition demo_batch :: "u64 \<Rightarrow> u64 \<Rightarrow> rec list" where
  "demo_batch txn seq =
     [demo_rec REC_BEGIN seq (bytes_of_begin txn),
      demo_rec REC_SAMPLE (seq + 1) (bytes_of_sample \<lparr>s_mode = 1, s_pid = 12, s_raw_len = 0, s_raw = [], s_value = 0\<rparr>),
      demo_rec REC_COMMIT (seq + 2) (bytes_of_commit \<lparr>c_txn_id = txn, c_records = 1, c_reserved = 0\<rparr>)]"

lemma demo_log_ok: "log_ok [demo_batch 1 0, demo_batch 2 3]"
  by (simp add: demo_batch_def demo_rec_def is_batch_def open_part_def frame_ok_def rec_ok_def
      kind_ok_def body_len_ok_def SRC_IS_VALID_def)

lemma demo_lengths:
  "length (bytes_of_log (demo_batch txn seq)) = 168" "n_samples (demo_batch txn seq) = 1"
  by (simp_all add: demo_batch_def demo_rec_def)

theorem wal_scan_cut_witness:
  "wal_scan (take 300 (bytes_of_log (concat [demo_batch 1 0, demo_batch 2 3]))) =
     (summary [demo_batch 1 0])\<lparr>sc_records_lost := 1\<rparr>"
proof -
  have "batches_within 300 [demo_batch 1 0, demo_batch 2 3] = [demo_batch 1 0]"
    by (simp add: demo_lengths Let_def)
  moreover have "samples_within 300 [demo_batch 1 0, demo_batch 2 3] = 2"
    by (simp add: samples_within_def demo_batch_def demo_rec_def)
  ultimately show ?thesis
    using wal_scan_cut [OF demo_log_ok, of 300] by (simp add: demo_lengths)
qed

text \<open>C19: whatever bytes the newest segment holds, what recovery keeps is a log of whole batches,
  its summary is what the scan reports, and recovering a second time keeps the same bytes and
  finds nothing to lose.\<close>

theorem wal_scan_keeps_batches:
  "\<exists>bs. log_ok bs \<and>
     sc_committed_len (wal_scan buf) \<le> length buf \<and>
     take (sc_committed_len (wal_scan buf)) buf = bytes_of_log (concat bs) \<and>
     wal_scan buf = (summary bs)\<lparr>sc_records_lost := sc_records_lost (wal_scan buf)\<rparr> \<and>
     wal_scan (take (sc_committed_len (wal_scan buf)) buf) = (wal_scan buf)\<lparr>sc_records_lost := 0\<rparr>"
proof -
  obtain bs ps where *: "log_ok bs" "wal_scan buf = (summary bs)\<lparr>sc_records_lost := of_nat (n_samples ps)\<rparr>"
    "take (sc_committed_len (wal_scan buf)) buf = bytes_of_log (concat bs)"
    "sc_committed_len (wal_scan buf) \<le> length buf"
    using wal_scan_bytes [of buf] by metis
  have "wal_scan (take (sc_committed_len (wal_scan buf)) buf) = summary bs"
    using wal_scan_log [OF *(1)] *(3) by simp
  moreover have "summary bs = (wal_scan buf)\<lparr>sc_records_lost := 0\<rparr>"
    using *(2) by (simp add: summary_def Let_def)
  moreover have "wal_scan buf = (summary bs)\<lparr>sc_records_lost := sc_records_lost (wal_scan buf)\<rparr>"
    by (simp add: *(2))
  ultimately show ?thesis using *(1,3,4) by (intro exI [of _ bs] conjI) (assumption | simp only:)+
qed

text \<open>C21: damage is never replayed. Overwrite up to four consecutive bytes of any one record of a good
  log, its BEGIN and its COMMIT included, from the record's ninth byte on (the eight before hold the magic number, the kind and
  the body's length, which the framing rests on): recovery keeps exactly the batches before the one that
  holds the damaged record, nothing of that batch and nothing after it, and reports as lost the samples of that batch
  before the damage.\<close>

theorem wal_scan_damaged:
  assumes "log_ok (bs @ [qs @ r # qs'] @ cs)"
    and "frame_of r = pre @ ds @ post" and "length es = length ds" and "length ds \<le> 4"
    and "es \<noteq> ds" and "8 \<le> length pre"
  shows "wal_scan (bytes_of_log (concat bs @ qs) @ pre @ es @ post @ bytes_of_log (qs' @ concat cs)) =
    (summary bs)\<lparr>sc_records_lost := of_nat (n_samples qs)\<rparr>"
proof -
  let ?rest = "bytes_of_log (qs' @ concat cs)"
  have ok: "log_ok bs" "is_batch (qs @ r # qs')" "\<forall>x \<in> set qs. frame_ok x" "frame_ok r"
    using assms(1) by simp_all
  have "open_part (butlast (qs @ r # qs'))" using ok(2) by (simp add: is_batch_def)
  then have "open_part (qs @ butlast (r # qs'))" by (simp add: butlast_append)
  then have op: "qs = [] \<or> open_part qs" by (auto simp: open_part_def)
  have "rec_decode (pre @ ds @ (post @ ?rest)) = Inr (fst r, snd r, length (frame_of r))"
    using rec_decode_frame [of "fst r" "snd r" ?rest] ok(4) assms(2) length_frame_of [of r]
    by (simp add: frame_ok_def frame_of_def)
  then have "rec_decode (pre @ es @ (post @ ?rest)) = Inl REC_BAD_CRC"
    by (rule rec_decode_burst) (use assms in simp_all)
  then have "read_frame (pre @ es @ post @ ?rest) = None" by (simp add: read_frame_def)
  then show ?thesis using wal_scan_stops [OF ok(1) op ok(3)] by simp
qed

lemma frame_split:
  "frame_of r = bytes_of_hdr (fst r) @ snd r @ le_bytes 4 (rec_crc32 (bytes_of_hdr (fst r) @ snd r)
     (of_nat (40 + length (snd r))))"
  by (simp add: frame_of_def frame_def Let_def)

theorem wal_scan_damaged_witness:
  "\<exists>post. wal_scan (bytes_of_log (demo_batch 1 0 @ take 1 (demo_batch 2 3)) @
       bytes_of_hdr (fst (demo_batch 2 3 ! 1)) @ [7] @ post) = (summary [demo_batch 1 0])\<lparr>sc_records_lost := 0\<rparr>"
proof -
  let ?b = "demo_batch 2 3"
  obtain post where post: "frame_of (?b ! 1) = bytes_of_hdr (fst (?b ! 1)) @ [1] @ post"
    by (simp add: frame_split demo_batch_def demo_rec_def bytes_of_sample_def)
  have split: "demo_batch 2 3 = take 1 ?b @ ?b ! 1 # drop 2 ?b"
    by (simp add: demo_batch_def)
  have "wal_scan (bytes_of_log (concat [demo_batch 1 0] @ take 1 ?b) @ bytes_of_hdr (fst (?b ! 1)) @ [7] @
      post @ bytes_of_log (drop 2 ?b @ concat [])) =
    (summary [demo_batch 1 0])\<lparr>sc_records_lost := of_nat (n_samples (take 1 ?b))\<rparr>"
    by (rule wal_scan_damaged [OF _ post])
      (use demo_log_ok split in \<open>simp_all add: demo_batch_def\<close>)
  moreover have "n_samples (take 1 ?b) = 0" by (simp add: demo_batch_def demo_rec_def)
  ultimately show ?thesis by auto
qed

text \<open>What \<open>storaged\<close> writes into a ring note, recovery reads back: the namespace and the full
  64-bit generation or sequence number, for both kinds of note.\<close>

theorem ring_note_roundtrip:
  assumes "unat ns < WAL_NAMESPACES" and "word = ''gen='' \<or> word = ''seq=''"
  shows "scan_note word (note_text word ns g) = Some (unat ns, g)"
  using assms by (rule scan_note_text)

theorem ring_note_roundtrip_witness:
  "scan_note ''seq='' (note_text ''seq='' 1 0xFFFFFFFFFFFFFFFF) = Some (1, 0xFFFFFFFFFFFFFFFF)"
  using ring_note_roundtrip [of 1 "''seq=''" "0xFFFFFFFFFFFFFFFF"] by simp

end
