(* ===== verification/Files.thy ===== *)
theory Files
  imports C_Text "HOL-Library.Sublist"
begin

text \<open>
  The operating system as the log sees it: files in directories, the clocks, and system calls
  that can fail. Every call that can fail takes its outcome from the script in the world, so a
  theorem for all scripts covers every pattern of errors, short writes and interruptions. When
  the script runs out the process stops there (a crash or a kill), which is the result
  \<open>None\<close>; the world is then what it left behind. A power cut keeps of each file a prefix that
  includes what was last made durable (\<open>image_of\<close>).
\<close>

section \<open>Files and outcomes\<close>

datatype outcome = Done nat | Interrupted | Failed

text \<open>\<open>f_synced\<close> is the length known to be on disk; \<open>f_old\<close> are contents that a truncation not
  yet made durable has replaced, which a power cut can bring back; \<open>f_entry\<close> tells whether
  the file's directory entry is on disk. \<open>wd_refused\<close> is a history that no operation reads: the calls of
  \<open>ftruncate\<close> that failed, with their file and length, newest first.\<close>

record sfile =
  f_data :: bytes
  f_old :: "bytes list"
  f_synced :: nat
  f_entry :: bool

record world =
  wd_files :: "(string \<times> sfile) list"
  wd_script :: "outcome list"
  wd_mono :: "nat \<Rightarrow> (u64 \<times> u64) option"
  wd_wall :: "nat \<Rightarrow> (u64 \<times> u64) option"
  wd_refused :: "(string \<times> nat) list"

definition image_of :: "sfile \<Rightarrow> bytes \<Rightarrow> bool" where
  "image_of f img \<longleftrightarrow>
     f_synced f \<le> length img \<and> (\<exists>d \<in> set (f_data f # f_old f). prefix img d)"

definition the_file :: "string \<Rightarrow> world \<Rightarrow> sfile option" where
  "the_file p wd = map_of (wd_files wd) p"

definition upd_file :: "string \<Rightarrow> (sfile \<Rightarrow> sfile) \<Rightarrow> world \<Rightarrow> world" where
  "upd_file p g wd = wd\<lparr>wd_files := map (\<lambda>(q, f). (q, if q = p then g f else f)) (wd_files wd)\<rparr>"

lemma the_file_upd [simp]:
  "the_file q (upd_file p g wd) = (if q = p then map_option g (the_file p wd) else the_file q wd)"
proof -
  have "map_of (map (\<lambda>(q, f). (q, if q = p then g f else f)) fs) q =
      (if q = p then map_option g (map_of fs p) else map_of fs q)" for fs :: "(string \<times> sfile) list"
    by (induction fs) auto
  then show ?thesis by (simp add: the_file_def upd_file_def)
qed

lemma upd_file_script [simp]: "wd_script (upd_file p g wd) = wd_script wd" "wd_refused (upd_file p g wd) = wd_refused wd"
  by (simp_all add: upd_file_def)

named_theorems wp_simps \<open>weakest preconditions of the system calls\<close>

section \<open>Sequencing\<close>

type_synonym 'a io = "world \<Rightarrow> 'a option \<times> world"

definition ret :: "'a \<Rightarrow> 'a io" where
  "ret x wd = (Some x, wd)"

definition andthen :: "'a io \<Rightarrow> ('a \<Rightarrow> 'b io) \<Rightarrow> 'b io" where
  "andthen m f wd = (case m wd of (None, wd') \<Rightarrow> (None, wd') | (Some x, wd') \<Rightarrow> f x wd')"

text \<open>The outcome of the next system call.\<close>

definition sys :: "outcome io" where
  "sys wd = (case wd_script wd of [] \<Rightarrow> (None, wd) | oc # ocs \<Rightarrow> (Some oc, wd\<lparr>wd_script := ocs\<rparr>))"

definition sys_ok :: "bool io" where
  "sys_ok = andthen sys (\<lambda>oc. ret (case oc of Done _ \<Rightarrow> True | _ \<Rightarrow> False))"

text \<open>\<open>wal_now_mono\<close> and \<open>wal_now_wall\<close>: seconds and nanoseconds, or 0 when the clock fails.\<close>

definition ns_of_clock :: "(u64 \<times> u64) option \<Rightarrow> u64" where
  "ns_of_clock r = (case r of None \<Rightarrow> 0 | Some (sec, nsec) \<Rightarrow> sec * 1000000000 + nsec)"

definition wal_now_mono :: "u64 io" where
  "wal_now_mono wd = (Some (ns_of_clock (wd_mono wd 0)), wd\<lparr>wd_mono := \<lambda>i. wd_mono wd (Suc i)\<rparr>)"

definition wal_now_wall :: "u64 io" where
  "wal_now_wall wd = (Some (ns_of_clock (wd_wall wd 0)), wd\<lparr>wd_wall := \<lambda>i. wd_wall wd (Suc i)\<rparr>)"

section \<open>System calls\<close>

text \<open>A descriptor is the path it was opened on, or \<open>None\<close> for \<open>-1\<close>; the log never unlinks or
  renames. Every call on \<open>-1\<close> fails with \<open>EBADF\<close>.\<close>

type_synonym fd = "string option"

definition sys_write :: "fd \<Rightarrow> bytes \<Rightarrow> outcome io" where
  "sys_write fd bs =
     (case fd of None \<Rightarrow> ret Failed
      | Some p \<Rightarrow> andthen sys (\<lambda>oc. case oc of
            Done n \<Rightarrow> (\<lambda>wd. (Some (Done (min n (length bs))),
                upd_file p (\<lambda>f. f\<lparr>f_data := f_data f @ take n bs\<rparr>) wd))
          | _ \<Rightarrow> ret oc))"

definition sys_fsync :: "fd \<Rightarrow> bool io" where
  "sys_fsync fd =
     (case fd of None \<Rightarrow> ret False
      | Some p \<Rightarrow> andthen sys_ok (\<lambda>good.
          if good then (\<lambda>wd. (Some True,
            upd_file p (\<lambda>f. f\<lparr>f_old := [], f_synced := length (f_data f)\<rparr>) wd))
          else ret False))"

text \<open>\<open>ftruncate\<close> to a length not above the file's (the log only ever shortens).\<close>

definition sys_ftruncate :: "fd \<Rightarrow> nat \<Rightarrow> bool io" where
  "sys_ftruncate fd n =
     (case fd of None \<Rightarrow> ret False
      | Some p \<Rightarrow> andthen sys_ok (\<lambda>good.
          if good then (\<lambda>wd. (Some True,
            upd_file p (\<lambda>f. f\<lparr>f_old := f_data f # f_old f, f_data := take n (f_data f),
                              f_synced := min n (f_synced f)\<rparr>) wd))
          else (\<lambda>wd. (Some False, wd\<lparr>wd_refused := (p, n) # wd_refused wd\<rparr>))))"

definition sys_close :: "fd \<Rightarrow> bool io" where
  "sys_close fd = (case fd of None \<Rightarrow> ret False | Some p \<Rightarrow> sys_ok)"

text \<open>\<open>open\<close> with \<open>O_CREAT | O_EXCL\<close>, and of an existing file.\<close>

definition sys_create :: "string \<Rightarrow> fd io" where
  "sys_create p = andthen sys_ok (\<lambda>good wd.
     if good \<and> the_file p wd = None
     then (Some (Some p), wd\<lparr>wd_files := wd_files wd @
             [(p, \<lparr>f_data = [], f_old = [], f_synced = 0, f_entry = False\<rparr>)]\<rparr>)
     else (Some None, wd))"

definition sys_open :: "string \<Rightarrow> fd io" where
  "sys_open p = andthen sys_ok (\<lambda>good wd.
     (Some (if good \<and> the_file p wd \<noteq> None then Some p else None), wd))"

text \<open>The names in a directory: the files directly under it.\<close>

definition in_dir :: "string \<Rightarrow> string \<Rightarrow> bool" where
  "in_dir dir p \<longleftrightarrow> prefix (dir @ ''/'') p \<and> CHR ''/'' \<notin> set (drop (length dir + 1) p)"

definition dir_entries :: "string \<Rightarrow> world \<Rightarrow> string list" where
  "dir_entries dir wd = map (drop (length dir + 1)) (filter (in_dir dir) (map fst (wd_files wd)))"

text \<open>\<open>fsync\<close> of the directory: its entries are on disk.\<close>

definition entries_synced :: "string \<Rightarrow> world \<Rightarrow> world" where
  "entries_synced dir wd = wd\<lparr>wd_files :=
     map (\<lambda>(p, f). (p, if in_dir dir p then f\<lparr>f_entry := True\<rparr> else f)) (wd_files wd)\<rparr>"

section \<open>Reasoning about calls\<close>

text \<open>\<open>wp m Q wd\<close>: however \<open>m\<close> ends when run in \<open>wd\<close>, by a result or by a crash, \<open>Q\<close> holds of the
  end. The rules compute it through a sequence of calls.\<close>

definition wp :: "'a io \<Rightarrow> ('a option \<Rightarrow> world \<Rightarrow> bool) \<Rightarrow> world \<Rightarrow> bool" where
  "wp m Q wd \<longleftrightarrow> Q (fst (m wd)) (snd (m wd))"

lemma wpD: "wp m Q wd \<Longrightarrow> m wd = (r, wd') \<Longrightarrow> Q r wd'"
  by (simp add: wp_def)

lemma wpI: "(\<And>r wd'. m wd = (r, wd') \<Longrightarrow> Q r wd') \<Longrightarrow> wp m Q wd"
  by (simp add: wp_def)

lemma wp_mono: "wp m Q wd \<Longrightarrow> (\<And>r wd'. Q r wd' \<Longrightarrow> R r wd') \<Longrightarrow> wp m R wd"
  by (simp add: wp_def)

lemma wp_ret [wp_simps]: "wp (ret x) Q wd = Q (Some x) wd"
  by (simp add: wp_def ret_def)

lemma wp_andthen [wp_simps]:
  "wp (andthen m f) Q wd = wp m (\<lambda>r wd'. case r of None \<Rightarrow> Q None wd' | Some x \<Rightarrow> wp (f x) Q wd') wd"
  by (simp add: wp_def andthen_def split: prod.splits option.splits)

lemma wp_lambda [wp_simps]: "wp (\<lambda>wd. (Some x, g wd)) Q wd = Q (Some x) (g wd)"
  by (simp add: wp_def)

text \<open>Two worlds with the same files, and a call that no truncation failed in.\<close>

abbreviation same_files :: "world \<Rightarrow> world \<Rightarrow> bool" where
  "same_files wd wd' \<equiv> wd_files wd' = wd_files wd"

abbreviation same_refused :: "world \<Rightarrow> world \<Rightarrow> bool" where
  "same_refused wd wd' \<equiv> wd_refused wd' = wd_refused wd"

lemma the_file_cong: "wd_files wd' = wd_files wd \<Longrightarrow> the_file p wd' = the_file p wd"
  by (simp add: the_file_def)

lemma the_file_script [simp]: "the_file p (wd\<lparr>wd_script := s\<rparr>) = the_file p wd"
  by (simp add: the_file_def)

lemma wp_sys_ok: "(\<And>r wd'. same_files wd wd' \<Longrightarrow> same_refused wd wd' \<Longrightarrow> Q r wd') \<Longrightarrow> wp sys_ok Q wd"
  by (auto simp: wp_def sys_ok_def andthen_def sys_def ret_def split: list.splits)

lemma wp_clock:
  "(\<And>x wd'. same_files wd wd' \<Longrightarrow> same_refused wd wd' \<Longrightarrow> Q (Some x) wd') \<Longrightarrow> wp wal_now_mono Q wd"
  "(\<And>x wd'. same_files wd wd' \<Longrightarrow> same_refused wd wd' \<Longrightarrow> Q (Some x) wd') \<Longrightarrow> wp wal_now_wall Q wd"
  by (simp_all add: wp_def wal_now_mono_def wal_now_wall_def)

lemma wp_sys_close:
  "(\<And>r wd'. same_files wd wd' \<Longrightarrow> same_refused wd wd' \<Longrightarrow> Q r wd') \<Longrightarrow> wp (sys_close fd) Q wd"
  by (auto simp: sys_close_def wp_simps intro: wp_sys_ok split: option.splits)

text \<open>A call that changes the world by \<open>g\<close> when it succeeds and by \<open>k\<close> when it fails.\<close>

lemma wp_checked:
  assumes "\<And>wd'. same_files wd wd' \<Longrightarrow> same_refused wd wd' \<Longrightarrow> Q None wd'"
    and "\<And>wd'. same_files wd wd' \<Longrightarrow> same_refused wd wd' \<Longrightarrow> Q (Some False) (k wd')"
    and "\<And>wd'. same_files wd wd' \<Longrightarrow> same_refused wd wd' \<Longrightarrow> Q (Some True) (g wd')"
  shows "wp (andthen sys_ok (\<lambda>good. if good then (\<lambda>wd. (Some True, g wd)) else (\<lambda>wd. (Some False, k wd)))) Q wd"
  unfolding wp_andthen
proof (rule wp_sys_ok)
  fix r wd1 assume 1: "same_files wd wd1" "same_refused wd wd1"
  show "case r of None \<Rightarrow> Q None wd1
    | Some x \<Rightarrow> wp (if x then (\<lambda>wd. (Some True, g wd)) else (\<lambda>wd. (Some False, k wd))) Q wd1"
    using assms(1) [OF 1] assms(2) [OF 1] assms(3) [OF 1] by (simp add: wp_lambda split: option.splits)
qed

lemma wp_sys_fsync:
  assumes "the_file p wd = Some f"
    and "\<And>r wd'. same_files wd wd' \<Longrightarrow> r \<noteq> Some True \<Longrightarrow> same_refused wd wd' \<Longrightarrow> Q r wd'"
    and "\<And>wd'. the_file p wd' = Some (f\<lparr>f_old := [], f_synced := length (f_data f)\<rparr>) \<Longrightarrow>
           (\<forall>q. q \<noteq> p \<longrightarrow> the_file q wd' = the_file q wd) \<Longrightarrow> same_refused wd wd' \<Longrightarrow> Q (Some True) wd'"
  shows "wp (sys_fsync (Some p)) Q wd"
  unfolding sys_fsync_def option.case ret_def
proof (rule wp_checked)
  fix wd1 assume 1: "same_files wd wd1" "same_refused wd wd1"
  have same: "the_file q wd1 = the_file q wd" for q by (rule the_file_cong) (rule 1)
  show "Q (Some True) (upd_file p (\<lambda>f. f\<lparr>f_old := [], f_synced := length (f_data f)\<rparr>) wd1)"
    by (rule assms(3)) (simp_all add: same assms(1) 1(2))
qed (simp_all add: assms(2))

lemma wp_sys_ftruncate:
  assumes "the_file p wd = Some f"
    and "\<And>r wd'. same_files wd wd' \<Longrightarrow> r \<noteq> Some True \<Longrightarrow>
      wd_refused wd' = (if r = None then [] else [(p, n)]) @ wd_refused wd \<Longrightarrow> Q r wd'"
    and "\<And>wd'. the_file p wd' = Some (f\<lparr>f_old := f_data f # f_old f, f_data := take n (f_data f),
             f_synced := min n (f_synced f)\<rparr>) \<Longrightarrow>
           (\<forall>q. q \<noteq> p \<longrightarrow> the_file q wd' = the_file q wd) \<Longrightarrow> same_refused wd wd' \<Longrightarrow> Q (Some True) wd'"
  shows "wp (sys_ftruncate (Some p) n) Q wd"
  unfolding sys_ftruncate_def option.case
proof (rule wp_checked)
  fix wd1 assume 1: "same_files wd wd1" "same_refused wd wd1"
  have same: "the_file q wd1 = the_file q wd" for q by (rule the_file_cong) (rule 1)
  show "Q (Some True) (upd_file p (\<lambda>f. f\<lparr>f_old := f_data f # f_old f, f_data := take n (f_data f),
      f_synced := min n (f_synced f)\<rparr>) wd1)"
    by (rule assms(3)) (simp_all add: same assms(1) 1(2))
qed (simp_all add: assms(2))

end
