(* ===== verification/Wal.thy ===== *)
theory Wal
  imports Wal_Scan Files
begin

text \<open>
  The write-ahead log: the rest of \<open>src/store/wal.c\<close> and \<open>include/store/wal.h\<close>. \<open>wal\<close> is
  \<open>wal_t\<close>; its buffer is kept as the bytes written so far, so \<open>w->len\<close> is their number. The
  operations run in the world of \<open>Files\<close>; a result \<open>None\<close> is a crash inside the operation.
  Log lines written on the way are not modelled.
\<close>

section \<open>Data\<close>

abbreviation (input) WAL_SEGMENT_BYTES :: nat where "WAL_SEGMENT_BYTES \<equiv> 16 * 1024 * 1024"
abbreviation (input) WAL_BATCH_SAMPLES :: u32 where "WAL_BATCH_SAMPLES \<equiv> 64"
abbreviation (input) WAL_BATCH_NS :: u64 where "WAL_BATCH_NS \<equiv> 1000000000"
abbreviation (input) WAL_BUF_BYTES :: nat where "WAL_BUF_BYTES \<equiv> 64 * 56 + 32 * REC_MAX_SIZE"

datatype rec_prev_end = REC_PREV_CLEAN | REC_PREV_RECOVERED | REC_PREV_FIRST

fun prev_end_code :: "rec_prev_end \<Rightarrow> u8" where
  "prev_end_code REC_PREV_CLEAN = 0"
| "prev_end_code REC_PREV_RECOVERED = 1"
| "prev_end_code REC_PREV_FIRST = 2"

record wal =
  w_dir :: string
  w_fd :: fd
  w_seg_bytes :: u64
  w_next_seq :: u64
  w_next_txn :: u64
  w_boot_id :: u32
  w_src :: u8
  w_flags :: u8
  w_recovered :: wal_scan_t
  w_prev_end :: rec_prev_end
  w_truncated :: u64
  w_open_batch :: bool
  w_batch_seq0 :: u64
  w_batch_mono :: u64
  w_batch_samples :: u32
  w_buf :: bytes

text \<open>\<open>memset (w, 0, sizeof *w)\<close>, then \<open>w->fd = -1\<close>.\<close>

definition wal_zero :: wal where
  "wal_zero = \<lparr>w_dir = [], w_fd = None, w_seg_bytes = 0, w_next_seq = 0, w_next_txn = 0,
     w_boot_id = 0, w_src = 0, w_flags = 0, w_recovered = scan_zero, w_prev_end = REC_PREV_CLEAN,
     w_truncated = 0, w_open_batch = False, w_batch_seq0 = 0, w_batch_mono = 0,
     w_batch_samples = 0, w_buf = []\<rparr>"

section \<open>Segment files\<close>

text \<open>\<open>"log-%16lx.%7s"\<close>.\<close>

definition seg_name_fmt :: "scan_dir list" where
  "seg_name_fmt = lits ''log-'' @ [Conv_x (Some 16)] @ lits ''.'' @ [Conv_s 7]"

definition seg_of_name :: "string \<Rightarrow> u64 option" where
  "seg_of_name name =
     (case sscanf seg_name_fmt (c_str name) of
        [VNum s, VStr tail] \<Rightarrow> if tail = ''cwr'' then Some s else None
      | _ \<Rightarrow> None)"

text \<open>The loop of \<open>newest_segment\<close> over the directory; \<open>None\<close> while none was found.\<close>

fun newest_of :: "u64 option \<Rightarrow> string list \<Rightarrow> u64 option" where
  "newest_of found [] = found"
| "newest_of found (name # names) =
     newest_of (case seg_of_name name of
                  Some s \<Rightarrow> (case found of None \<Rightarrow> Some s
                            | Some first \<Rightarrow> if s > first then Some s else found)
                | None \<Rightarrow> found) names"

text \<open>\<open>Inl ()\<close> when the directory cannot be opened (result -2), else what was found.\<close>

definition newest_segment :: "string \<Rightarrow> (unit + u64 option) io" where
  "newest_segment dir =
     andthen sys_ok (\<lambda>good.
       if \<not> good then ret (Inl ())
       else (\<lambda>wd. andthen sys_ok (\<lambda>_. ret (Inr (newest_of None (dir_entries dir wd)))) wd))"

definition seg_path :: "nat \<Rightarrow> string \<Rightarrow> u64 \<Rightarrow> string" where
  "seg_path n dir first_seq =
     fst (snprintf n (dir @ ''/log-'' @ zero_pad 16 (fmt_x first_seq) @ ''.cwr''))"

definition sync_dir :: "string \<Rightarrow> bool io" where
  "sync_dir dir =
     andthen sys_ok (\<lambda>opened.
       if \<not> opened then ret False
       else andthen sys_ok (\<lambda>synced.
         andthen (\<lambda>wd. (Some (), if synced then entries_synced dir wd else wd)) (\<lambda>_.
           andthen sys_ok (\<lambda>_. ret synced))))"

text \<open>The boolean is whether the C function returns 0.\<close>

definition create_segment :: "wal \<Rightarrow> u64 \<Rightarrow> (bool \<times> wal) io" where
  "create_segment w first_seq =
     (let path = seg_path 256 (w_dir w) first_seq
      in andthen (sys_create path) (\<lambda>fd.
           if fd = None then ret (False, w)
           else andthen (sync_dir (w_dir w)) (\<lambda>synced.
             if \<not> synced then andthen (sys_close fd) (\<lambda>_. ret (False, w))
             else ret (True, w\<lparr>w_fd := fd, w_seg_bytes := 0\<rparr>))))"

text \<open>The \<open>pread\<close> loop: the bytes read, or \<open>None\<close> on an error or an early end of file.\<close>

function read_all :: "string \<Rightarrow> nat \<Rightarrow> bytes \<Rightarrow> bytes option io" where
  "read_all path size0 got wd =
     (if length got < size0 then
        (case wd_script wd of
           [] \<Rightarrow> (None, wd)
         | oc # ocs \<Rightarrow>
             let wd1 = wd\<lparr>wd_script := ocs\<rparr>
             in case oc of
                  Interrupted \<Rightarrow> read_all path size0 got wd1
                | Failed \<Rightarrow> (Some None, wd1)
                | Done n \<Rightarrow>
                    let content = (case the_file path wd of None \<Rightarrow> [] | Some f \<Rightarrow> f_data f);
                        chunk = take (min n (size0 - length got)) (drop (length got) content)
                    in if chunk = [] then (Some None, wd1)
                       else read_all path size0 (got @ chunk) wd1)
      else (Some (Some got), wd))"
  by pat_completeness auto
termination
  by (relation "measure (\<lambda>(path, size0, got, wd). length (wd_script wd))") auto

declare read_all.simps [simp del]

text \<open>The end of \<open>recover_segment\<close>: what the scan found becomes the state of the log.\<close>

definition recovered_wal :: "wal \<Rightarrow> string \<Rightarrow> bytes \<Rightarrow> wal" where
  "recovered_wal w path data =
     (let sc = wal_scan data; keep = sc_committed_len sc
      in w\<lparr>w_recovered := sc,
           w_prev_end := (if sc_ended_clean sc \<and> keep = length data then REC_PREV_CLEAN
                          else REC_PREV_RECOVERED),
           w_truncated := of_nat (length data - keep),
           w_fd := Some path, w_seg_bytes := of_nat keep\<rparr>)"

text \<open>The label \<open>out\<close> of \<open>recover_segment\<close>: the descriptor is closed.\<close>

definition fail_close :: "fd \<Rightarrow> wal \<Rightarrow> (bool \<times> wal) io" where
  "fail_close fd w = andthen (sys_close fd) (\<lambda>_. ret (False, w))"

text \<open>After the scan: the file is cut back to its last COMMIT.\<close>

definition cut_back :: "wal \<Rightarrow> string \<Rightarrow> bytes \<Rightarrow> (bool \<times> wal) io" where
  "cut_back w path data =
     (let w' = recovered_wal w path data;
          keep = sc_committed_len (w_recovered w');
          failed = w\<lparr>w_recovered := w_recovered w'\<rparr>
      in if keep < length data then
           andthen (sys_ftruncate (Some path) keep) (\<lambda>cut.
             if \<not> cut then fail_close (Some path) failed
             else andthen (sys_fsync (Some path)) (\<lambda>synced.
               if \<not> synced then fail_close (Some path) failed else ret (True, w')))
         else ret (True, w'))"

definition recover_segment :: "wal \<Rightarrow> u64 \<Rightarrow> (bool \<times> wal) io" where
  "recover_segment w first_seq =
     (let path = seg_path 256 (w_dir w) first_seq
      in andthen (sys_open path) (\<lambda>fd.
           if fd = None then ret (False, w)
           else andthen sys_ok (\<lambda>stat_ok.
             if \<not> stat_ok then fail_close fd w
             else andthen sys_ok (\<lambda>malloc_ok.
               if \<not> malloc_ok then fail_close fd w
               else (\<lambda>wd.
                 let size0 = (case the_file path wd of None \<Rightarrow> 0 | Some f \<Rightarrow> length (f_data f))
                 in andthen (read_all path size0 []) (\<lambda>r.
                      case r of None \<Rightarrow> fail_close fd w
                      | Some data \<Rightarrow> cut_back w path data) wd)))))"

section \<open>Batches\<close>

definition append :: "wal \<Rightarrow> u16 \<Rightarrow> u8 \<Rightarrow> u64 \<Rightarrow> u64 \<Rightarrow> bytes \<Rightarrow> u16 \<Rightarrow> wal option" where
  "append w kind src mono_ns wall_ns body body_len =
     (let h = \<lparr>h_magic = 0, h_kind = kind, h_body_len = body_len, h_seq = w_next_seq w,
               h_mono_ns = mono_ns, h_wall_ns = wall_ns, h_src = src, h_flags = w_flags w,
               h_reserved = 0, h_boot_id = w_boot_id w\<rparr>
      in case rec_encode (Some (WAL_BUF_BYTES - length (w_buf w))) (Some h) (Some body) of
           None \<Rightarrow> None
         | Some out \<Rightarrow> Some (w\<lparr>w_buf := w_buf w @ out, w_next_seq := w_next_seq w + 1\<rparr>))"

text \<open>The boolean is whether the C function returns 0. The buffer can be left with a BEGIN in it
  when the record itself is refused.\<close>

definition wal_begin :: "wal \<Rightarrow> (bool \<times> wal) io" where
  "wal_begin w0 =
     (let w = w0\<lparr>w_batch_seq0 := w_next_seq w0\<rparr>
      in andthen wal_now_mono (\<lambda>mono. andthen wal_now_wall (\<lambda>wall.
           case append w REC_BEGIN (w_src w) mono wall (bytes_of_begin (w_next_txn w)) 8 of
             None \<Rightarrow> ret (False, w)
           | Some w1 \<Rightarrow> andthen wal_now_mono (\<lambda>now.
               ret (True, w1\<lparr>w_open_batch := True, w_batch_mono := now, w_batch_samples := 0\<rparr>)))))"

definition wal_add :: "wal \<Rightarrow> u16 \<Rightarrow> u8 \<Rightarrow> u64 \<Rightarrow> u64 \<Rightarrow> bytes \<Rightarrow> u16 \<Rightarrow> (bool \<times> wal) io" where
  "wal_add w kind src mono_ns wall_ns body body_len =
     (if length (w_buf w) + REC_HDR_SIZE + unat body_len + REC_CRC_SIZE +
         REC_HDR_SIZE + 16 + REC_CRC_SIZE > WAL_BUF_BYTES
      then ret (False, w)
      else andthen (if w_open_batch w then ret (True, w) else wal_begin w) (\<lambda>(good, w1).
        if \<not> good then ret (False, w1)
        else case append w1 kind src mono_ns wall_ns body body_len of
               None \<Rightarrow> ret (False, w1)
             | Some w2 \<Rightarrow> ret (True, if kind = REC_SAMPLE
                 then w2\<lparr>w_batch_samples := w_batch_samples w2 + 1\<rparr> else w2)))"

definition wal_due :: "wal \<Rightarrow> u64 \<Rightarrow> bool" where
  "wal_due w now_mono_ns \<longleftrightarrow>
     w_open_batch w \<and> (w_batch_samples w \<ge> WAL_BATCH_SAMPLES \<or>
                       now_mono_ns - w_batch_mono w \<ge> WAL_BATCH_NS)"

definition drop_batch :: "wal \<Rightarrow> wal" where
  "drop_batch w = w\<lparr>w_buf := [], w_open_batch := False, w_batch_samples := 0,
                    w_next_seq := w_batch_seq0 w\<rparr>"

text \<open>The write loop: whether everything was written. A crash inside it leaves what was written.\<close>

function write_all :: "fd \<Rightarrow> bytes \<Rightarrow> bool io" where
  "write_all fd rest wd =
     (if rest = [] then (Some True, wd)
      else case fd of
        None \<Rightarrow> (Some False, wd)
      | Some p \<Rightarrow>
          (case sys_write fd rest wd of
             (None, wd1) \<Rightarrow> (None, wd1)
           | (Some Interrupted, wd1) \<Rightarrow> write_all fd rest wd1
           | (Some Failed, wd1) \<Rightarrow> (Some False, wd1)
           | (Some (Done n), wd1) \<Rightarrow> write_all fd (drop n rest) wd1))"
  by pat_completeness auto
termination
  by (relation "measure (\<lambda>(fd, rest, wd). length (wd_script wd))")
    (auto simp: sys_write_def andthen_def sys_def ret_def split: list.splits outcome.splits)

declare write_all.simps [simp del]

definition commit_undo :: "wal \<Rightarrow> (bool \<times> wal) io" where
  "commit_undo w =
     andthen (sys_ftruncate (w_fd w) (unat (w_seg_bytes w))) (\<lambda>_. ret (False, drop_batch w))"

definition commit_done :: "wal \<Rightarrow> (bool \<times> wal) io" where
  "commit_done w0 =
     (let w = w0\<lparr>w_seg_bytes := w_seg_bytes w0 + of_nat (length (w_buf w0)), w_buf := [],
                 w_open_batch := False, w_batch_samples := 0, w_next_txn := w_next_txn w0 + 1\<rparr>
      in if unat (w_seg_bytes w) \<ge> WAL_SEGMENT_BYTES
         then andthen (sys_close (w_fd w)) (\<lambda>_. create_segment (w\<lparr>w_fd := None\<rparr>) (w_next_seq w))
         else ret (True, w))"

definition wal_commit :: "wal \<Rightarrow> (bool \<times> wal) io" where
  "wal_commit w =
     (if \<not> w_open_batch w then ret (True, w)
      else andthen wal_now_mono (\<lambda>mono. andthen wal_now_wall (\<lambda>wall.
        case append w REC_COMMIT (w_src w) mono wall
               (bytes_of_commit \<lparr>c_txn_id = w_next_txn w, c_records = w_batch_samples w, c_reserved = 0\<rparr>) 16 of
          None \<Rightarrow> ret (False, drop_batch w)
        | Some w1 \<Rightarrow>
            andthen (write_all (w_fd w1) (w_buf w1)) (\<lambda>written.
              if \<not> written then commit_undo w1
              else andthen (sys_fsync (w_fd w1)) (\<lambda>synced.
                if \<not> synced then commit_undo w1 else commit_done w1)))))"

section \<open>Opening and closing\<close>

definition boot_record :: "wal \<Rightarrow> rec_boot" where
  "boot_record w =
     \<lparr>b_prev_end = prev_end_code (w_prev_end w),
      b_bytes_truncated = (if w_truncated w > 0xFFFFFFFF then 0xFFFFFFFF else ucast (w_truncated w)),
      b_records_lost = sc_records_lost (w_recovered w)\<rparr>"

text \<open>The part of \<open>wal_open\<close> after the segment is open: the boot batch.\<close>

definition open_boot :: "wal \<Rightarrow> u8 \<Rightarrow> (bool \<times> wal) io" where
  "open_boot w src =
     andthen wal_now_mono (\<lambda>mono. andthen wal_now_wall (\<lambda>wall.
       andthen (wal_add w REC_BOOT src mono wall (bytes_of_boot (boot_record w)) 12) (\<lambda>(added, w1).
         andthen (if added then wal_commit w1 else ret (False, w1)) (\<lambda>(good, w2).
           if good then ret (True, w2)
           else andthen (if w_fd w2 = None then ret True else sys_close (w_fd w2))
                  (\<lambda>_. ret (False, w2\<lparr>w_fd := None\<rparr>))))))"

text \<open>The counters that go on from the recovered segment.\<close>

definition resume :: "wal \<Rightarrow> u64 \<Rightarrow> wal" where
  "resume w first =
     (let sc = w_recovered w
      in w\<lparr>w_next_seq := (if sc_any_committed sc then sc_last_seq sc + 1 else first),
           w_next_txn := sc_last_txn sc + 1, w_boot_id := sc_last_boot_id sc + 1\<rparr>)"

text \<open>What \<open>wal_open\<close> does with the result of \<open>newest_segment\<close>.\<close>

definition open_segment :: "wal \<Rightarrow> u8 \<Rightarrow> unit + u64 option \<Rightarrow> (bool \<times> wal) io" where
  "open_segment w0 src found =
     (case found of
        Inl _ \<Rightarrow> ret (False, w0)
      | Inr None \<Rightarrow>
          andthen (create_segment (w0\<lparr>w_prev_end := REC_PREV_FIRST, w_next_seq := 0,
                                     w_next_txn := 1, w_boot_id := 1\<rparr>) 0)
            (\<lambda>(good, w1). if \<not> good then ret (False, w1) else open_boot w1 src)
      | Inr (Some first) \<Rightarrow>
          andthen (recover_segment w0 first)
            (\<lambda>(good, w1). if \<not> good then ret (False, w1) else open_boot (resume w1 first) src))"

definition wal_open :: "string \<Rightarrow> u8 \<Rightarrow> u8 \<Rightarrow> (bool \<times> wal) io" where
  "wal_open dir src flags =
     (let (d, n) = snprintf 200 dir;
          w0 = wal_zero\<lparr>w_src := src, w_flags := flags, w_dir := d\<rparr>
      in if n \<ge> 200 then ret (False, w0)
         else andthen sys_ok (\<lambda>made.
           if \<not> made then ret (False, w0)
           else andthen (newest_segment dir) (open_segment w0 src)))"

text \<open>The SHUTDOWN batch of \<open>wal_close\<close>.\<close>

definition close_batch :: "wal \<Rightarrow> u8 \<Rightarrow> (bool \<times> wal) io" where
  "close_batch w reason =
     andthen wal_now_mono (\<lambda>mono. andthen wal_now_wall (\<lambda>wall.
       andthen (wal_add w REC_SHUTDOWN (w_src w) mono wall (bytes_of_shutdown reason) 8)
         (\<lambda>(added, w1). if added then wal_commit w1 else ret (False, w1))))"

definition wal_close :: "wal \<Rightarrow> u8 \<Rightarrow> (bool \<times> wal) io" where
  "wal_close w reason =
     andthen (wal_commit w) (\<lambda>(rc, w1).
       andthen (if rc then close_batch w1 reason else ret (False, w1)) (\<lambda>(rc2, w2).
         andthen (if w_fd w2 = None then ret True else sys_close (w_fd w2)) (\<lambda>closed.
           ret (rc2 \<and> closed, w2\<lparr>w_fd := None\<rparr>))))"

section \<open>The batch in the buffer\<close>

text \<open>The record \<open>append\<close> writes.\<close>

definition rec_of :: "wal \<Rightarrow> u16 \<Rightarrow> u8 \<Rightarrow> u64 \<Rightarrow> u64 \<Rightarrow> bytes \<Rightarrow> rec" where
  "rec_of w kind src mono_ns wall_ns body =
     (\<lparr>h_magic = REC_MAGIC, h_kind = kind, h_body_len = of_nat (length body), h_seq = w_next_seq w,
       h_mono_ns = mono_ns, h_wall_ns = wall_ns, h_src = src, h_flags = w_flags w,
       h_reserved = 0, h_boot_id = w_boot_id w\<rparr>, body)"

lemma append_eq:
  assumes "unat body_len \<le> length body"
  shows "append w kind src mt wt body body_len =
     (let r = rec_of w kind src mt wt (take (unat body_len) body)
      in if frame_ok r \<and> length (w_buf w) + length (frame_of r) \<le> WAL_BUF_BYTES
         then Some (w\<lparr>w_buf := w_buf w @ frame_of r, w_next_seq := w_next_seq w + 1\<rparr>) else None)"
proof -
  let ?b = "take (unat body_len) body"
  let ?h = "\<lparr>h_magic = 0, h_kind = kind, h_body_len = body_len, h_seq = w_next_seq w,
               h_mono_ns = mt, h_wall_ns = wt, h_src = src, h_flags = w_flags w,
               h_reserved = 0, h_boot_id = w_boot_id w\<rparr>"
  have l: "length ?b = unat body_len" "word_of_nat (length ?b) = body_len"
    using assms by simp_all
  have r: "rec_of w kind src mt wt ?b = (?h\<lparr>h_magic := REC_MAGIC, h_reserved := 0\<rparr>, ?b)"
    using l by (simp add: rec_of_def min_def)
  have "rec_encode (Some cap) (Some ?h) (Some body) = rec_encode (Some cap) (Some ?h) (Some ?b)" for cap
    using event_ok_take [of body_len body] event_body_len [of kind body_len]
    by (auto simp: rec_encode_def Let_def min_def)
  then show ?thesis
    unfolding append_def Let_def r
    using rec_encode_frame [of ?b ?h "WAL_BUF_BYTES - length (w_buf w)"] l
    by (auto simp: frame_ok_def frame_of_def Let_def)
qed

text \<open>
  The invariant of the buffer: it holds whole records, an open batch of the next transaction
  when a batch is open and nothing otherwise, numbered consecutively from \<open>batch_seq0\<close> and
  carrying this boot's number, with room left for the COMMIT.
\<close>

definition numbered :: "u64 \<Rightarrow> rec list \<Rightarrow> bool" where
  "numbered n rs \<longleftrightarrow> (\<forall>i < length rs. h_seq (fst (rs ! i)) = n + of_nat i)"

definition buf_at :: "wal \<Rightarrow> rec list \<Rightarrow> bool" where
  "buf_at w rs \<longleftrightarrow>
     w_buf w = bytes_of_log rs \<and> (\<forall>r \<in> set rs. frame_ok r) \<and>
     (\<forall>r \<in> set rs. h_boot_id (fst r) = w_boot_id w) \<and> SRC_IS_VALID (w_src w) \<and>
     length (w_buf w) + 60 \<le> WAL_BUF_BYTES \<and>
     (if w_open_batch w
      then open_part rs \<and> txn_of (hd rs) = w_next_txn w \<and> numbered (w_batch_seq0 w) rs \<and>
           w_next_seq w = w_batch_seq0 w + of_nat (length rs) \<and>
           w_batch_samples w = of_nat (n_samples rs)
      else rs = [] \<and> w_batch_samples w = 0)"

lemma numbered_snoc:
  "numbered n (rs @ [r]) \<longleftrightarrow> numbered n rs \<and> h_seq (fst r) = n + of_nat (length rs)"
  by (auto simp: numbered_def nth_append less_Suc_eq)

lemma rec_of_simps [simp]:
  "kind_of (rec_of w k s m wl b) = k" "snd (rec_of w k s m wl b) = b"
  "h_seq (fst (rec_of w k s m wl b)) = w_next_seq w"
  "h_boot_id (fst (rec_of w k s m wl b)) = w_boot_id w"
  "h_src (fst (rec_of w k s m wl b)) = s" "h_mono_ns (fst (rec_of w k s m wl b)) = m"
  by (simp_all add: rec_of_def)

lemma frame_ok_begin_commit:
  assumes "SRC_IS_VALID s"
  shows "frame_ok (rec_of w REC_BEGIN s m wl (bytes_of_begin t))"
    and "frame_ok (rec_of w REC_COMMIT s m wl (bytes_of_commit c))"
  using assms by (simp_all add: frame_ok_def rec_of_def rec_ok_def kind_ok_def body_len_ok_def)

lemma append_begin:
  assumes "SRC_IS_VALID (w_src w)" and "w_buf w = []"
  shows "append w REC_BEGIN (w_src w) m wl (bytes_of_begin t) 8 =
    Some (w\<lparr>w_buf := frame_of (rec_of w REC_BEGIN (w_src w) m wl (bytes_of_begin t)),
            w_next_seq := w_next_seq w + 1\<rparr>)"
  using assms frame_ok_begin_commit(1) [OF assms(1)] by (simp add: append_eq Let_def)

lemma append_commit:
  assumes "SRC_IS_VALID (w_src w)" and "length (w_buf w) + 60 \<le> WAL_BUF_BYTES"
  shows "append w REC_COMMIT (w_src w) m wl (bytes_of_commit c) 16 =
    Some (w\<lparr>w_buf := w_buf w @ frame_of (rec_of w REC_COMMIT (w_src w) m wl (bytes_of_commit c)),
            w_next_seq := w_next_seq w + 1\<rparr>)"
  using assms frame_ok_begin_commit(2) [OF assms(1)] by (simp add: append_eq Let_def)

text \<open>What the operations on the buffer leave alone.\<close>

definition same_log :: "wal \<Rightarrow> wal \<Rightarrow> bool" where
  "same_log w w' \<longleftrightarrow> w_fd w' = w_fd w \<and> w_seg_bytes w' = w_seg_bytes w \<and> w_next_txn w' = w_next_txn w \<and>
     w_dir w' = w_dir w \<and> w_src w' = w_src w \<and> w_boot_id w' = w_boot_id w \<and>
     w_flags w' = w_flags w \<and> w_recovered w' = w_recovered w \<and> w_prev_end w' = w_prev_end w"

lemma same_log_refl [simp]: "same_log w w"
  by (simp add: same_log_def)

lemma same_log_trans: "same_log w w' \<Longrightarrow> same_log w' w'' \<Longrightarrow> same_log w w''"
  by (simp add: same_log_def)

text \<open>The clocks are the only part of the world these operations touch.\<close>

definition clocks_only :: "world \<Rightarrow> world \<Rightarrow> bool" where
  "clocks_only wd wd' \<longleftrightarrow> wd_files wd' = wd_files wd \<and> wd_script wd' = wd_script wd \<and> wd_refused wd' = wd_refused wd"

lemma clocks_only_refl [simp]: "clocks_only wd wd"
  by (simp add: clocks_only_def)

lemma clocks_only_file: "clocks_only wd wd' \<Longrightarrow> the_file p wd' = the_file p wd"
  by (simp add: clocks_only_def the_file_def)

lemma clock_reads:
  "\<exists>t wd'. wal_now_mono wd = (Some t, wd') \<and> clocks_only wd wd'"
  "\<exists>t wd'. wal_now_wall wd = (Some t, wd') \<and> clocks_only wd wd'"
  by (simp_all add: wal_now_mono_def wal_now_wall_def clocks_only_def)

lemma run_clock:
  assumes "\<And>t wd'. clocks_only wd wd' \<Longrightarrow> \<exists>x wd''. f t wd' = (Some x, wd'') \<and> P x \<and> clocks_only wd' wd''"
  shows "\<exists>x wd''. andthen wal_now_mono f wd = (Some x, wd'') \<and> P x \<and> clocks_only wd wd''"
    and "\<exists>x wd''. andthen wal_now_wall f wd = (Some x, wd'') \<and> P x \<and> clocks_only wd wd''"
  using clock_reads [of wd] assms by (fastforce simp: andthen_def clocks_only_def)+

definition begun :: "wal \<Rightarrow> u64 \<Rightarrow> u64 \<Rightarrow> u64 \<Rightarrow> wal" where
  "begun w mt wt now =
     w\<lparr>w_batch_seq0 := w_next_seq w,
       w_buf := frame_of (rec_of w REC_BEGIN (w_src w) mt wt (bytes_of_begin (w_next_txn w))),
       w_next_seq := w_next_seq w + 1, w_open_batch := True, w_batch_mono := now,
       w_batch_samples := 0\<rparr>"

lemma rec_of_seq0 [simp]: "rec_of (w\<lparr>w_batch_seq0 := n\<rparr>) k s m wl b = rec_of w k s m wl b"
  by (simp add: rec_of_def)

lemma begun_buf_at:
  assumes "buf_at w []"
  shows "buf_at (begun w mt wt now)
    [rec_of w REC_BEGIN (w_src w) mt wt (bytes_of_begin (w_next_txn w))]"
  using assms frame_ok_begin_commit(1) [of "w_src w" w]
  by (simp add: buf_at_def begun_def open_part_def numbered_def)

lemma wal_begin_run:
  assumes "buf_at w []" and "\<not> w_open_batch w"
  shows "\<exists>x wd'. wal_begin w wd = (Some x, wd') \<and> (\<exists>mt wt now. x = (True, begun w mt wt now)) \<and>
    clocks_only wd wd'"
proof -
  let ?w = "w\<lparr>w_batch_seq0 := w_next_seq w\<rparr>"
  have s: "SRC_IS_VALID (w_src ?w)" "w_buf ?w = []" using assms by (simp_all add: buf_at_def)
  show ?thesis
    unfolding wal_begin_def Let_def append_begin [OF s] option.case
    by (rule run_clock, rule run_clock(2), rule run_clock) (auto simp: ret_def begun_def)
qed

lemma begun_props [simp]:
  "same_log w (begun w mt wt now)" "w_open_batch (begun w mt wt now)"
  "w_batch_seq0 (begun w mt wt now) = w_next_seq w" "length (w_buf (begun w mt wt now)) = 52"
  by (simp_all add: begun_def same_log_def rec_of_def)

text \<open>Adding a record: the pure part, on an open batch.\<close>

definition added :: "wal \<Rightarrow> rec \<Rightarrow> wal" where
  "added w r = w\<lparr>w_buf := w_buf w @ frame_of r, w_next_seq := w_next_seq w + 1,
     w_batch_samples := w_batch_samples w + (if kind_of r = REC_SAMPLE then 1 else 0)\<rparr>"

lemma added_buf_at:
  assumes "buf_at w rs" and "w_open_batch w" and "frame_ok r" and "h_seq (fst r) = w_next_seq w"
    and "h_boot_id (fst r) = w_boot_id w"
    and "kind_of r \<noteq> REC_BEGIN" and "kind_of r \<noteq> REC_COMMIT"
    and "length (w_buf w) + length (frame_of r) + 60 \<le> WAL_BUF_BYTES"
  shows "buf_at (added w r) (rs @ [r])"
proof -
  have "open_part rs" "open_part (rs @ [r])" and "hd (rs @ [r]) = hd rs"
    using assms open_part_snoc by (auto simp: buf_at_def open_part_def)
  then show ?thesis
    using assms by (simp add: buf_at_def added_def numbered_snoc)
qed

lemma added_props [simp]:
  "same_log w (added w r)" "w_open_batch (added w r) = w_open_batch w"
  "w_batch_seq0 (added w r) = w_batch_seq0 w"
  by (simp_all add: added_def same_log_def)

text \<open>
  What \<open>wal_add\<close> does, on every branch: refused for lack of room, with nothing changed;
  refused because the record is not valid, with at most a BEGIN added; or added.
\<close>

definition room_for :: "wal \<Rightarrow> u16 \<Rightarrow> bool" where
  "room_for w body_len \<longleftrightarrow> length (w_buf w) + 104 + unat body_len \<le> WAL_BUF_BYTES"

lemma wal_add_full:
  "\<not> room_for w body_len \<Longrightarrow> wal_add w kind src mt wt body body_len wd = (Some (False, w), wd)"
  by (simp add: wal_add_def room_for_def ret_def)

definition add_rec :: "wal \<Rightarrow> u16 \<Rightarrow> u8 \<Rightarrow> u64 \<Rightarrow> u64 \<Rightarrow> bytes \<Rightarrow> bool \<times> wal" where
  "add_rec w kind src mt wt body =
     (let r = rec_of w kind src mt wt body in if frame_ok r then (True, added w r) else (False, w))"

lemma frame_ok_len: "frame_ok r \<Longrightarrow> length (snd r) \<le> REC_MAX_BODY"
  using rec_ok_len by (simp add: frame_ok_def)

lemma add_rec_append:
  assumes "unat body_len \<le> length body"
    and "length (w_buf w) + 44 + unat body_len \<le> WAL_BUF_BYTES \<or> length (w_buf w) = 52"
  shows "(case append w kind src mt wt body body_len of
            None \<Rightarrow> ret (False, w)
          | Some w2 \<Rightarrow> ret (True, if kind = REC_SAMPLE
              then w2\<lparr>w_batch_samples := w_batch_samples w2 + 1\<rparr> else w2)) =
    ret (add_rec w kind src mt wt (take (unat body_len) body))"
proof -
  define r where "r = rec_of w kind src mt wt (take (unat body_len) body)"
  have "length (w_buf w) + length (frame_of r) \<le> WAL_BUF_BYTES" if "frame_ok r"
    using frame_ok_len [OF that] assms by (auto simp: r_def min_def split: if_splits)
  moreover have "kind_of r = kind" by (simp add: r_def)
  ultimately show ?thesis
    by (simp add: append_eq [OF assms(1)] r_def [symmetric] Let_def added_def add_rec_def
        del: length_frame_of)
qed

lemma wal_add_open:
  assumes "w_open_batch w" and "room_for w body_len" and "unat body_len \<le> length body"
  shows "wal_add w kind src mt wt body body_len wd =
    (Some (add_rec w kind src mt wt (take (unat body_len) body)), wd)"
proof -
  have room: "\<not> length (w_buf w) + 40 + unat body_len + 4 + 40 + 16 + 4 > WAL_BUF_BYTES"
    using assms(2) by (simp add: room_for_def)
  show ?thesis
    unfolding wal_add_def if_not_P [OF room] if_P [OF assms(1)]
    using room by (simp add: andthen_def ret_def [of "(True, w)"] add_rec_append [OF assms(3)])
      (simp add: ret_def)
qed

lemma wal_add_closed:
  assumes "\<not> w_open_batch w" and "buf_at w []" and "room_for w body_len"
    and "unat body_len \<le> length body"
  shows "\<exists>m0 w0 n0 wd'. clocks_only wd wd' \<and> wal_add w kind src mt wt body body_len wd =
      (Some (add_rec (begun w m0 w0 n0) kind src mt wt (take (unat body_len) body)), wd')"
proof -
  obtain m0 w0 n0 wd' where b: "wal_begin w wd = (Some (True, begun w m0 w0 n0), wd')"
    and c: "clocks_only wd wd'" using wal_begin_run [OF assms(2,1), of wd] by auto
  have room: "\<not> length (w_buf w) + 40 + unat body_len + 4 + 40 + 16 + 4 > WAL_BUF_BYTES"
    using assms(3) by (simp add: room_for_def)
  have "wal_add w kind src mt wt body body_len wd =
      (Some (add_rec (begun w m0 w0 n0) kind src mt wt (take (unat body_len) body)), wd')"
    unfolding wal_add_def if_not_P [OF room] if_not_P [OF assms(1)]
    by (simp add: andthen_def b add_rec_append [OF assms(4)]) (simp add: ret_def)
  with c show ?thesis by blast
qed

lemma add_rec_spec:
  assumes "buf_at w rs" and "w_open_batch w" and "kind \<noteq> REC_BEGIN" and "kind \<noteq> REC_COMMIT"
    and "length (w_buf w) + 104 + length body \<le> WAL_BUF_BYTES \<or> length (w_buf w) = 52"
    and "add_rec w kind src mt wt body = (good, w')"
  shows "same_log w w' \<and> w_open_batch w' \<and>
    (good = frame_ok (rec_of w kind src mt wt body)) \<and>
    buf_at w' (if good then rs @ [rec_of w kind src mt wt body] else rs)"
proof -
  let ?r = "rec_of w kind src mt wt body"
  have "buf_at (added w ?r) (rs @ [?r])" if "frame_ok ?r"
    by (rule added_buf_at) (use assms frame_ok_len [OF that] that in auto)
  then show ?thesis using assms(1,2,6) by (auto simp: add_rec_def Let_def split: if_splits)
qed

lemma wal_add_spec:
  assumes "buf_at w rs" and "kind \<noteq> REC_BEGIN" and "kind \<noteq> REC_COMMIT" and "unat body_len \<le> length body"
  shows "\<exists>good w' wd' rs0. wal_add w kind src mt wt body body_len wd = (Some (good, w'), wd') \<and>
    clocks_only wd wd' \<and> same_log w w' \<and>
    (if room_for w body_len
     then w_open_batch w' \<and> (if rs = [] then length rs0 = 1 else rs0 = rs) \<and>
          (\<exists>r. good = frame_ok r \<and> kind_of r = kind \<and> h_src (fst r) = src \<and> h_mono_ns (fst r) = mt \<and>
               snd r = take (unat body_len) body \<and> buf_at w' (if good then rs0 @ [r] else rs0))
     else \<not> good \<and> w' = w)"
proof (cases "room_for w body_len")
  case False
  then show ?thesis by (auto simp: wal_add_full)
next
  case room: True
  show ?thesis
  proof (cases "w_open_batch w")
    case True
    let ?r = "rec_of w kind src mt wt (take (unat body_len) body)"
    obtain good w' where a: "add_rec w kind src mt wt (take (unat body_len) body) = (good, w')"
      by fastforce
    have "rs \<noteq> []" using assms(1) True by (auto simp: buf_at_def open_part_def)
    moreover have "same_log w w' \<and> w_open_batch w' \<and> good = frame_ok ?r \<and>
        buf_at w' (if good then rs @ [?r] else rs)"
      by (rule add_rec_spec [OF assms(1) True assms(2,3) _ a])
        (use room assms(4) in \<open>simp add: room_for_def min_def\<close>)
    moreover from this have "\<exists>r. good = frame_ok r \<and> kind_of r = kind \<and> h_src (fst r) = src \<and> h_mono_ns (fst r) = mt \<and>
        snd r = take (unat body_len) body \<and> buf_at w' (if good then rs @ [r] else rs)"
      by (intro exI [of _ ?r]) auto
    ultimately show ?thesis
      using room wal_add_open [OF True room assms(4), of kind src mt wt wd] a
      by (intro exI [of _ good] exI [of _ w'] exI [of _ wd] exI [of _ rs])
        (simp only: if_True if_False clocks_only_refl simp_thms)
  next
    case False
    then have rs: "rs = []" "buf_at w []" using assms(1) by (auto simp: buf_at_def)
    obtain m0 w0 n0 wd' where c: "clocks_only wd wd'"
      and e: "wal_add w kind src mt wt body body_len wd =
        (Some (add_rec (begun w m0 w0 n0) kind src mt wt (take (unat body_len) body)), wd')"
      using wal_add_closed [OF False rs(2) room assms(4)] by blast
    let ?w = "begun w m0 w0 n0"
    let ?b = "rec_of w REC_BEGIN (w_src w) m0 w0 (bytes_of_begin (w_next_txn w))"
    let ?r = "rec_of ?w kind src mt wt (take (unat body_len) body)"
    obtain good w' where a: "add_rec ?w kind src mt wt (take (unat body_len) body) = (good, w')"
      by fastforce
    have "same_log ?w w' \<and> w_open_batch w' \<and> good = frame_ok ?r \<and>
        buf_at w' (if good then [?b] @ [?r] else [?b])"
      by (rule add_rec_spec [OF begun_buf_at [OF rs(2)] _ assms(2,3) _ a]) simp_all
    moreover from this have "\<exists>r. good = frame_ok r \<and> kind_of r = kind \<and> h_src (fst r) = src \<and> h_mono_ns (fst r) = mt \<and>
        snd r = take (unat body_len) body \<and> buf_at w' (if good then [?b] @ [r] else [?b])"
      by (intro exI [of _ ?r]) auto
    moreover have "length [?b] = 1" by simp
    ultimately show ?thesis
      using room e c a rs(1) same_log_trans [OF begun_props(1) [of w m0 w0 n0], of w']
      by (intro exI [of _ good] exI [of _ w'] exI [of _ wd'] exI [of _ "[?b]"])
        (simp only: if_True if_False simp_thms)
  qed
qed

end
