(* ===== verification/Wal_Commit.thy ===== *)
theory Wal_Commit
  imports Wal
begin

text \<open>
  Commits against a file that can be cut off at any moment: every way \<open>wal_commit\<close> can end
  (\<open>commit_end\<close>), what a power cut can leave of the segment in each case (\<open>commit_images\<close>), and
  from these that a batch is recovered whole or not at all and that an acknowledged batch is
  never lost.
\<close>

section \<open>Committing\<close>

text \<open>The write loop leaves the file extended by a prefix of the batch, all of it when it
  reports success.\<close>

lemma write_all_wp:
  assumes "the_file p wd = Some f"
  shows "wp (write_all (Some p) bs) (\<lambda>r wd'. \<exists>m \<le> length bs.
      the_file p wd' = Some (f\<lparr>f_data := f_data f @ take m bs\<rparr>) \<and>
      (\<forall>q. q \<noteq> p \<longrightarrow> the_file q wd' = the_file q wd) \<and> (r = Some True \<longrightarrow> m = length bs) \<and> same_refused wd wd') wd"
  using assms
proof (induction "Some p" bs wd arbitrary: f rule: write_all.induct)
  case (1 rest wd)
  show ?case
  proof (cases "rest = [] \<or> wd_script wd = []")
    case True
    then show ?thesis using 1(3)
      by (auto simp: wp_def write_all.simps sys_write_def andthen_def sys_def
          intro: exI [of _ 0])
  next
    case False
    then obtain oc ocs where sc: "wd_script wd = oc # ocs" and ne: "rest \<noteq> []"
      by (cases "wd_script wd") auto
    let ?wd = "wd\<lparr>wd_script := ocs\<rparr>"
    show ?thesis
    proof (cases oc)
      case (Done n)
      let ?wd2 = "upd_file p (\<lambda>f. f\<lparr>f_data := f_data f @ take n rest\<rparr>) ?wd"
      let ?n = "min n (length rest)"
      have w: "sys_write (Some p) rest wd = (Some (Done ?n), ?wd2)"
        by (simp add: sys_write_def andthen_def sys_def sc Done)
      have f2: "the_file p ?wd2 = Some (f\<lparr>f_data := f_data f @ take n rest\<rparr>)"
        using 1(3) by simp
      have e: "write_all (Some p) rest wd = write_all (Some p) (drop ?n rest) ?wd2"
        using ne w by (subst write_all.simps) simp
      note IH = 1(1) [OF ne refl w [symmetric] refl refl f2]
      show ?thesis unfolding wp_def e
        using IH [unfolded wp_def]
      proof (elim exE conjE, goal_cases)
        case (1 m)
        have "take n rest @ take m (drop ?n rest) = take (?n + m) rest"
          by (simp add: take_add min_def)
        with 1 show ?case by (intro exI [of _ "?n + m"]) auto
      qed
    next
      case Interrupted
      have w: "sys_write (Some p) rest wd = (Some Interrupted, ?wd)"
        by (simp add: sys_write_def andthen_def sys_def ret_def sc Interrupted)
      have e: "write_all (Some p) rest wd = write_all (Some p) rest ?wd"
        using ne w by (subst write_all.simps) simp
      show ?thesis unfolding wp_def e
        using 1(2) [OF ne refl w [symmetric] refl refl, of f] 1(3) by (simp add: wp_def)
    next
      case Failed
      have w: "sys_write (Some p) rest wd = (Some Failed, ?wd)"
        by (simp add: sys_write_def andthen_def sys_def ret_def sc Failed)
      then show ?thesis using ne 1(3)
        by (auto simp: wp_def write_all.simps [of "Some p" rest wd] intro: exI [of _ 0])
    qed
  qed
qed

section \<open>What recovery finds in a file\<close>

definition recovers :: "bytes \<Rightarrow> rec list list \<Rightarrow> bool" where
  "recovers img bs \<longleftrightarrow> log_ok bs \<and> wal_scan img = (summary bs)\<lparr>sc_records_lost := sc_records_lost (wal_scan img)\<rparr>"

lemma recoversI: "log_ok bs \<Longrightarrow> wal_scan img = (summary bs)\<lparr>sc_records_lost := n\<rparr> \<Longrightarrow> recovers img bs"
  by (simp add: recovers_def)

lemma log_split_extends: "log_split bs ps rs = (bs', ps') \<Longrightarrow> \<exists>cs. bs' = bs @ cs"
  by (induction rs arbitrary: bs ps) (fastforce split: if_splits)+

text \<open>Batches at the front of a file are recovered whatever follows them.\<close>

lemma recovers_prefix:
  assumes "log_ok bs"
  shows "\<exists>cs. recovers (bytes_of_log (concat bs) @ junk) (bs @ cs)"
proof -
  let ?buf = "bytes_of_log (concat bs) @ junk"
  obtain bs' ps where sp: "log_split [] [] (rc.frames ?buf) = (bs', ps)" by fastforce
  have "log_split bs [] (rc.frames junk) = (bs', ps)"
    using sp frames_log [OF assms, of junk] log_split_batches [of bs "[]"] assms
    by (simp add: log_ok_def)
  then obtain cs where cs: "bs' = bs @ cs" using log_split_extends by blast
  have "log_ok bs'"
    using log_split_inv [OF _ _ sp] rc.frames_ok [of _ ?buf] by (fastforce simp: log_ok_def)
  then show ?thesis using recoversI [OF _ wal_scan_split [OF sp]] cs by blast
qed

lemma batches_within_append:
  "length (bytes_of_log (concat bs)) \<le> k \<Longrightarrow>
     batches_within k (bs @ cs) = bs @ batches_within (k - length (bytes_of_log (concat bs))) cs"
  by (induction bs arbitrary: k) (auto simp: Let_def)

text \<open>A file that ends inside, or right after, its last batch.\<close>

lemma recovers_torn:
  assumes "log_ok (bs @ [b])" and "prefix img (bytes_of_log (concat (bs @ [b])))"
    and "length (bytes_of_log (concat bs)) \<le> length img"
  shows "recovers img (if img = bytes_of_log (concat (bs @ [b])) then bs @ [b] else bs)"
proof -
  define B where "B = bytes_of_log (concat (bs @ [b]))"
  obtain zs where zs: "B = img @ zs" using assms(2) by (auto simp: B_def elim: prefixE)
  have img: "img = take (length img) B" and full: "length img = length B \<longleftrightarrow> img = B"
    and le: "length img \<le> length B" by (simp_all add: zs)
  have lB: "length B = length (bytes_of_log (concat bs)) + length (bytes_of_log b)"
    by (simp add: B_def)
  have bw: "batches_within (length img) (bs @ [b]) = (if img = B then bs @ [b] else bs)"
    unfolding batches_within_append [OF assms(3)] full [symmetric] using assms(3) le lB
    by (auto simp: Let_def)
  note scan = wal_scan_take [OF assms(1), of "length img", folded B_def, unfolded bw img [symmetric]]
  show ?thesis
    unfolding B_def [symmetric] by (rule recoversI [OF _ scan]) (use assms(1) in simp)
qed

section \<open>The state of the open segment\<close>

definition file_is :: "string \<Rightarrow> world \<Rightarrow> bytes \<Rightarrow> bytes list \<Rightarrow> nat \<Rightarrow> bool" where
  "file_is p wd D old n \<longleftrightarrow>
     (\<exists>f. the_file p wd = Some f \<and> f_data f = D \<and> f_old f = old \<and> f_synced f = n \<and> f_entry f)"

text \<open>The open segment holds exactly the batches \<open>bs\<close>, all of them on disk.\<close>

definition log_at :: "wal \<Rightarrow> world \<Rightarrow> rec list list \<Rightarrow> bool" where
  "log_at w wd bs \<longleftrightarrow> log_ok bs \<and> length (w_dir w) < 200 \<and>
     (let D = bytes_of_log (concat bs)
      in unat (w_seg_bytes w) = length D \<and> length D < WAL_SEGMENT_BYTES \<and>
         (\<exists>p old. w_fd w = Some p \<and> file_is p wd D old (length D) \<and> (\<forall>d \<in> set old. prefix D d)))"

lemma file_is_same: "wd_files wd' = wd_files wd \<Longrightarrow> file_is p wd' D old n = file_is p wd D old n"
  by (simp add: file_is_def the_file_def)

lemma file_is_clocks: "clocks_only wd wd' \<Longrightarrow> file_is p wd' D old n = file_is p wd D old n"
  by (rule file_is_same) (simp add: clocks_only_def)

subsection \<open>Segment names\<close>

definition seg_name :: "u64 \<Rightarrow> string" where
  "seg_name s = ''log-'' @ zero_pad 16 (fmt_x s) @ ''.cwr''"

lemma zero_pad_digits: "c \<in> set (zero_pad 16 (fmt_x (s :: u64))) \<Longrightarrow> is_digit_of 16 c"
  using print_nat_digits [of 16 c "unat s"]
  by (auto simp: zero_pad_def fmt_x_def digit_val_def)

lemma length_zero_pad: "length (zero_pad 16 (fmt_x (s :: u64))) = 16"
  using length_fmt_x [of s] by (simp add: zero_pad_def)

lemma seg_path_eq: "length dir < 200 \<Longrightarrow> seg_path 256 dir s = dir @ ''/'' @ seg_name s"
  by (simp add: seg_path_def snprintf_def seg_name_def length_zero_pad)

lemma seg_path_in_dir: "length dir < 200 \<Longrightarrow> in_dir dir (seg_path 256 dir s)"
  using zero_pad_digits [of "CHR ''/''" s]
  by (auto simp: seg_path_eq in_dir_def seg_name_def digit_val_def prefix_def)

subsection \<open>Creating a segment\<close>

lemma the_file_entries:
  "the_file p (entries_synced dir wd) =
     map_option (\<lambda>f. if in_dir dir p then f\<lparr>f_entry := True\<rparr> else f) (the_file p wd)"
proof -
  have "map_of (map (\<lambda>(p, f). (p, if in_dir dir p then f\<lparr>f_entry := True\<rparr> else f)) fs) p =
      map_option (\<lambda>f. if in_dir dir p then f\<lparr>f_entry := True\<rparr> else f) (map_of fs p)"
    for fs :: "(string \<times> sfile) list"
    by (induction fs) auto
  then show ?thesis by (simp add: the_file_def entries_synced_def)
qed

definition keeps_files :: "world \<Rightarrow> world \<Rightarrow> bool" where
  "keeps_files wd wd' \<longleftrightarrow> (\<forall>p D old n. file_is p wd D old n \<longrightarrow> file_is p wd' D old n)"

lemma keeps_refl: "wd_files wd' = wd_files wd \<Longrightarrow> keeps_files wd wd'"
  by (simp add: keeps_files_def file_is_def the_file_def)

lemma keeps_trans: "keeps_files wd wd' \<Longrightarrow> keeps_files wd' wd'' \<Longrightarrow> keeps_files wd wd''"
  by (simp add: keeps_files_def)

lemma keeps_entries: "keeps_files wd (entries_synced dir wd)"
  unfolding keeps_files_def file_is_def the_file_entries by fastforce

lemma wp_sync_dir:
  assumes "\<And>r wd'. keeps_files wd wd' \<Longrightarrow> r \<noteq> Some True \<Longrightarrow> Q r wd'"
    and "\<And>wd'. keeps_files wd wd' \<Longrightarrow> (\<forall>p. the_file p wd' = the_file p (entries_synced dir wd)) \<Longrightarrow>
      Q (Some True) wd'"
  shows "wp (sync_dir dir) Q wd"
proof (rule wpI)
  fix r wd' assume run: "sync_dir dir wd = (r, wd')"
  have fe: "wd_files (entries_synced dir (wd\<lparr>wd_script := s\<rparr>)) = wd_files (entries_synced dir wd)" for s
    by (simp add: entries_synced_def)
  have e: "wd_files wd' = wd_files wd \<or> wd_files wd' = wd_files (entries_synced dir wd)"
    and t: "r = Some True \<Longrightarrow> wd_files wd' = wd_files (entries_synced dir wd)"
    using run by (auto simp: sync_dir_def andthen_def sys_ok_def sys_def ret_def fe
        split: list.splits outcome.splits if_splits)
  have k: "keeps_files wd wd'"
    using e
  proof
    assume "wd_files wd' = wd_files wd" then show ?thesis by (rule keeps_refl)
  next
    assume "wd_files wd' = wd_files (entries_synced dir wd)"
    then show ?thesis using keeps_trans [OF keeps_entries keeps_refl] by blast
  qed
  show "Q r wd'"
  proof (cases "r = Some True")
    case True
    then show ?thesis using assms(2) [OF k] t by (simp add: the_file_def)
  next
    case False
    then show ?thesis using assms(1) [OF k] by simp
  qed
qed

lemma wp_create_segment:
  assumes "length (w_dir w) < 200"
    and "\<And>wd'. keeps_files wd wd' \<Longrightarrow> Q None wd'"
    and "\<And>wd'. keeps_files wd wd' \<Longrightarrow> Q (Some (False, w)) wd'"
    and "\<And>wd' p. keeps_files wd wd' \<Longrightarrow> p = seg_path 256 (w_dir w) s \<Longrightarrow> file_is p wd' [] [] 0 \<Longrightarrow>
      Q (Some (True, w\<lparr>w_fd := Some p, w_seg_bytes := 0\<rparr>)) wd'"
  shows "wp (create_segment w s) Q wd"
proof -
  let ?p = "seg_path 256 (w_dir w) s"
  let ?new = "\<lparr>f_data = [], f_old = [], f_synced = 0, f_entry = False\<rparr>"
  have created: "wp (\<lambda>wd. if good \<and> the_file ?p wd = None
        then (Some (Some ?p), wd\<lparr>wd_files := wd_files wd @ [(?p, ?new)]\<rparr>) else (Some None, wd))
      (\<lambda>r wd'. case r of None \<Rightarrow> Q None wd' | Some fd \<Rightarrow>
         wp (if fd = None then ret (False, w)
             else andthen (sync_dir (w_dir w)) (\<lambda>synced.
               if \<not> synced then andthen (sys_close fd) (\<lambda>_. ret (False, w))
               else ret (True, w\<lparr>w_fd := fd, w_seg_bytes := 0\<rparr>))) Q wd') wd1"
    if "same_files wd wd1" for good wd1
  proof (cases "good \<and> the_file ?p wd1 = None")
    case False
    then show ?thesis using assms(3) [OF keeps_refl [OF that]] by (auto simp: wp_def ret_def)
  next
    case True
    let ?wd2 = "wd1\<lparr>wd_files := wd_files wd1 @ [(?p, ?new)]\<rparr>"
    have f: "the_file q ?wd2 = (if q = ?p then Some ?new else the_file q wd1)" for q
      using True by (auto simp: the_file_def map_add_def split: option.splits)
    have "the_file q wd1 = the_file q wd" for q by (rule the_file_cong) (rule that)
    then have k2: "keeps_files wd ?wd2"
      using True f by (auto simp: keeps_files_def file_is_def)
    have "wp (andthen (sync_dir (w_dir w)) (\<lambda>synced.
               if \<not> synced then andthen (sys_close (Some ?p)) (\<lambda>_. ret (False, w))
               else ret (True, w\<lparr>w_fd := Some ?p, w_seg_bytes := 0\<rparr>))) Q ?wd2"
      unfolding wp_andthen
    proof (rule wp_sync_dir)
      fix r wd3 assume k3: "keeps_files ?wd2 wd3" and "r \<noteq> Some True"
      note k = keeps_trans [OF k2 k3]
      have "wp (andthen (sys_close (Some ?p)) (\<lambda>_. ret (False, w))) Q wd3"
        unfolding wp_andthen
        by (rule wp_sys_close)
          (use assms(2,3) keeps_trans [OF k keeps_refl] in \<open>auto simp: wp_ret split: option.splits\<close>)
      with \<open>r \<noteq> Some True\<close> assms(2) [OF k] show
        "case r of None \<Rightarrow> Q None wd3 | Some synced \<Rightarrow>
          wp (if \<not> synced then andthen (sys_close (Some ?p)) (\<lambda>_. ret (False, w))
              else ret (True, w\<lparr>w_fd := Some ?p, w_seg_bytes := 0\<rparr>)) Q wd3"
        by (auto split: option.splits)
    next
      fix wd3 assume k3: "keeps_files ?wd2 wd3"
        and f3: "\<forall>q. the_file q wd3 = the_file q (entries_synced (w_dir w) ?wd2)"
      have "file_is ?p wd3 [] [] 0"
        using f3 f seg_path_in_dir [OF assms(1)] by (simp add: file_is_def the_file_entries)
      then show "case Some True of None \<Rightarrow> Q None wd3 | Some synced \<Rightarrow>
          wp (if \<not> synced then andthen (sys_close (Some ?p)) (\<lambda>_. ret (False, w))
              else ret (True, w\<lparr>w_fd := Some ?p, w_seg_bytes := 0\<rparr>)) Q wd3"
        using assms(4) [OF keeps_trans [OF k2 k3] refl] by (simp add: wp_ret)
    qed
    with True show ?thesis by (simp add: wp_def)
  qed
  show ?thesis
    unfolding create_segment_def Let_def wp_andthen sys_create_def
  proof (rule wp_sys_ok, goal_cases)
    case (1 r wd1)
    then show ?case
      using assms(2) [OF keeps_refl [OF 1(1)]] created [OF 1(1)] by (cases r) (simp_all only: option.case)
  qed
qed

section \<open>Every way a commit can end\<close>

definition committed :: "wal \<Rightarrow> bytes \<Rightarrow> wal" where
  "committed w B = w\<lparr>w_seg_bytes := w_seg_bytes w + of_nat (length B), w_buf := [],
     w_open_batch := False, w_batch_samples := 0, w_next_txn := w_next_txn w + 1,
     w_next_seq := w_next_seq w + 1\<rparr>"

text \<open>
  \<open>commit_end R w p D B old n r wd'\<close>: the commit of the bytes \<open>B\<close> to the file \<open>p\<close>, which held \<open>D\<close>
  with its first \<open>n\<close> bytes on disk, ended with the result \<open>r\<close> in the world \<open>wd'\<close>; \<open>R\<close> are the truncations
  refused before it.
\<close>

inductive commit_end :: "(string \<times> nat) list \<Rightarrow> wal \<Rightarrow> string \<Rightarrow> bytes \<Rightarrow> bytes \<Rightarrow> bytes list \<Rightarrow> nat \<Rightarrow>
    (bool \<times> wal) option \<Rightarrow> world \<Rightarrow> bool"
  for R w p D B old n where
  crashed: "file_is p wd' (D @ take m B) old n \<Longrightarrow> commit_end R w p D B old n None wd'"
| undone: "file_is p wd' D ((D @ take m B) # old) (min (length D) n) \<Longrightarrow> wd_refused wd' = R \<Longrightarrow>
    commit_end R w p D B old n (Some (False, drop_batch w)) wd'"
| undo_failed: "file_is p wd' (D @ take m B) old n \<Longrightarrow> wd_refused wd' = (p, length D) # R \<Longrightarrow>
    commit_end R w p D B old n (Some (False, drop_batch w)) wd'"
| durable: "file_is p wd' (D @ B) [] (length (D @ B)) \<Longrightarrow>
    unat (w_seg_bytes (committed w B)) < WAL_SEGMENT_BYTES \<Longrightarrow>
    commit_end R w p D B old n (Some (True, committed w B)) wd'"
| rolled: "file_is p wd' (D @ B) [] (length (D @ B)) \<Longrightarrow> file_is q wd' [] [] 0 \<Longrightarrow>
    unat (w_seg_bytes (committed w B)) \<ge> WAL_SEGMENT_BYTES \<Longrightarrow> q = seg_path 256 (w_dir w) (w_next_seq w + 1) \<Longrightarrow>
    commit_end R w p D B old n (Some (True, (committed w B)\<lparr>w_fd := Some q, w_seg_bytes := 0\<rparr>)) wd'"
| roll_crashed: "file_is p wd' (D @ B) [] (length (D @ B)) \<Longrightarrow> commit_end R w p D B old n None wd'"
| roll_failed: "file_is p wd' (D @ B) [] (length (D @ B)) \<Longrightarrow>
    unat (w_seg_bytes (committed w B)) \<ge> WAL_SEGMENT_BYTES \<Longrightarrow>
    commit_end R w p D B old n (Some (False, (committed w B)\<lparr>w_fd := None\<rparr>)) wd'"

inductive_cases commit_end_TrueE: "commit_end R w p D B old n (Some (True, w')) wd'"
inductive_cases commit_end_FalseE: "commit_end R w p D B old n (Some (False, w')) wd'"

lemma keeps_file: "keeps_files wd wd' \<Longrightarrow> file_is p wd D old n \<Longrightarrow> file_is p wd' D old n"
  by (simp add: keeps_files_def)

lemma wp_commit_done:
  assumes "w_buf w1 = B" and "file_is p wd (D @ B) [] (length (D @ B))" and "length (w_dir w1) < 200"
    and "w1 = w\<lparr>w_buf := B, w_next_seq := w_next_seq w + 1\<rparr>"
  shows "wp (commit_done w1) (commit_end R w p D B old n) wd"
proof -
  have c: "w1\<lparr>w_seg_bytes := w_seg_bytes w1 + of_nat (length (w_buf w1)), w_buf := [],
       w_open_batch := False, w_batch_samples := 0, w_next_txn := w_next_txn w1 + 1\<rparr> = committed w B"
    using assms(1,4) by (simp add: committed_def)
  have s: "w_next_seq (committed w B) = w_next_seq w1" by (simp add: committed_def assms(4))
  have dir: "length (w_dir ((committed w B)\<lparr>w_fd := None\<rparr>)) < 200"
    using assms(3,4) by (simp add: committed_def)
  show ?thesis
  proof (cases "unat (w_seg_bytes (committed w B)) \<ge> WAL_SEGMENT_BYTES")
    case False
    then show ?thesis
      using commit_end.durable [OF assms(2)] unfolding commit_done_def Let_def c
      by (simp add: wp_ret not_le)
  next
    case True
    show ?thesis
      unfolding commit_done_def Let_def c if_P [OF True] wp_andthen
    proof (rule wp_sys_close, goal_cases)
      case (1 r wd1)
      have k1: "keeps_files wd wd1" by (rule keeps_refl) (rule 1(1))
      have "wp (create_segment ((committed w B)\<lparr>w_fd := None\<rparr>) (w_next_seq (committed w B))) (commit_end R w p D B old n) wd1"
      proof (rule wp_create_segment [OF dir])
        fix wd2 assume k2: "keeps_files wd1 wd2"
        note f = keeps_file [OF keeps_trans [OF k1 k2] assms(2)]
        show "commit_end R w p D B old n None wd2" by (rule commit_end.roll_crashed [OF f])
        show "commit_end R w p D B old n (Some (False, (committed w B)\<lparr>w_fd := None\<rparr>)) wd2"
          by (rule commit_end.roll_failed [OF f True])
        fix q assume "q = seg_path 256 (w_dir ((committed w B)\<lparr>w_fd := None\<rparr>)) (w_next_seq (committed w B))" "file_is q wd2 [] [] 0"
        from commit_end.rolled [OF f this(2) True] this(1)
        show "commit_end R w p D B old n
            (Some (True, (committed w B)\<lparr>w_fd := None, w_fd := Some q, w_seg_bytes := 0\<rparr>)) wd2" by (simp add: committed_def)
      qed
      moreover have "commit_end R w p D B old n None wd1"
        by (rule commit_end.roll_crashed) (rule keeps_file [OF k1 assms(2)])
      ultimately show ?case by (cases r) (simp_all only: option.case)
    qed
  qed
qed

lemma wp_commit_undo:
  assumes "file_is p wd (D @ take m B) old n" and "w_fd w1 = Some p"
    and "unat (w_seg_bytes w1) = length D" and "drop_batch w1 = drop_batch w" and "wd_refused wd = R"
  shows "wp (commit_undo w1) (commit_end R w p D B old n) wd"
proof -
  obtain f where f: "the_file p wd = Some f" "f_data f = D @ take m B" "f_old f = old"
    "f_synced f = n" "f_entry f" using assms(1) by (auto simp: file_is_def)
  show ?thesis
    unfolding commit_undo_def assms(2,3) wp_andthen
  proof (rule wp_sys_ftruncate [OF f(1)], goal_cases)
    case (1 r wd1)
    have f1: "file_is p wd1 (D @ take m B) old n"
      using assms(1) unfolding file_is_same [OF 1(1)] .
    show ?case
      using commit_end.crashed [OF f1] commit_end.undo_failed [OF f1] 1(3) assms(5)
      by (cases r) (simp_all add: wp_ret assms(4))
  next
    case (2 wd1)
    have "file_is p wd1 D ((D @ take m B) # old) (min (length D) n)"
      using 2(1) f by (simp add: file_is_def)
    from commit_end.undone [OF this] 2(3) assms(5) show ?case by (simp add: wp_ret assms(4))
  qed
qed

text \<open>The record that closes the open batch.\<close>

definition commit_rec :: "wal \<Rightarrow> u64 \<Rightarrow> u64 \<Rightarrow> rec" where
  "commit_rec w mt wt = rec_of w REC_COMMIT (w_src w) mt wt
     (bytes_of_commit \<lparr>c_txn_id = w_next_txn w, c_records = w_batch_samples w, c_reserved = 0\<rparr>)"

lemma wal_commit_wp:
  assumes "buf_at w rs" and "w_open_batch w" and "w_fd w = Some p" and "length (w_dir w) < 200"
    and "file_is p wd D old n" and "unat (w_seg_bytes w) = length D"
  shows "wp (wal_commit w) (\<lambda>r wd'. \<exists>mt wt.
      commit_end (wd_refused wd) w p D (bytes_of_log (rs @ [commit_rec w mt wt])) old n r wd') wd"
proof -
  define w1 where "w1 = (\<lambda>mt wt. w\<lparr>w_buf := bytes_of_log (rs @ [commit_rec w mt wt]),
      w_next_seq := w_next_seq w + 1\<rparr>)"
  have buf: "w_buf w = bytes_of_log rs" and src: "SRC_IS_VALID (w_src w)"
    and room: "length (w_buf w) + 60 \<le> WAL_BUF_BYTES" using assms(1) by (auto simp: buf_at_def)
  have app: "append w REC_COMMIT (w_src w) mt wt (bytes_of_commit
      \<lparr>c_txn_id = w_next_txn w, c_records = w_batch_samples w, c_reserved = 0\<rparr>) 16 = Some (w1 mt wt)"
    for mt wt
    using append_commit [OF src room] by (simp add: w1_def commit_rec_def buf)
  have w1: "w_fd (w1 mt wt) = Some p" "w_buf (w1 mt wt) = bytes_of_log (rs @ [commit_rec w mt wt])"
    "unat (w_seg_bytes (w1 mt wt)) = length D" "drop_batch (w1 mt wt) = drop_batch w"
    "length (w_dir (w1 mt wt)) < 200"
    "w1 mt wt = w\<lparr>w_buf := bytes_of_log (rs @ [commit_rec w mt wt]), w_next_seq := w_next_seq w + 1\<rparr>"
    for mt wt
    using assms by (simp_all add: w1_def drop_batch_def)
  have opened: "\<not> \<not> w_open_batch w" using assms(2) by simp
  have main: "wp (andthen (write_all (w_fd (w1 mt wt)) (w_buf (w1 mt wt))) (\<lambda>written.
        if \<not> written then commit_undo (w1 mt wt)
        else andthen (sys_fsync (w_fd (w1 mt wt))) (\<lambda>synced.
          if \<not> synced then commit_undo (w1 mt wt) else commit_done (w1 mt wt))))
      (commit_end (wd_refused wd) w p D (bytes_of_log (rs @ [commit_rec w mt wt])) old n) wd1"
    if f0: "file_is p wd1 D old n" and R: "same_refused wd wd1" for mt wt wd1
  proof -
    let ?B = "bytes_of_log (rs @ [commit_rec w mt wt])"
    let ?R = "wd_refused wd" and ?Q = "commit_end (wd_refused wd) w p D ?B old n"
    obtain f where f: "the_file p wd1 = Some f" "f_data f = D" "f_old f = old"
      "f_synced f = n" "f_entry f" using f0 by (auto simp: file_is_def)
    note undo = wp_commit_undo [OF _ w1(1,3,4)]
    show ?thesis
      unfolding wp_andthen w1(1,2)
    proof (rule wp_mono [OF write_all_wp [OF f(1)]], elim exE conjE, goal_cases)
      case (1 r wd2 m)
      have f2: "file_is p wd2 (D @ take m ?B) old n"
        using 1(2) f by (simp add: file_is_def)
      have R2: "wd_refused wd2 = ?R" using 1(5) R by simp
      have "wp (sys_fsync (Some p)) (\<lambda>r wd'. case r of None \<Rightarrow> ?Q None wd'
          | Some synced \<Rightarrow> wp (if \<not> synced then commit_undo (w1 mt wt) else commit_done (w1 mt wt)) ?Q wd') wd2"
        if "r = Some True"
      proof (rule wp_sys_fsync [OF 1(2)], goal_cases)
        case (1 r3 wd3)
        have f3: "file_is p wd3 (D @ take m ?B) old n"
          using f2 unfolding file_is_same [OF 1(1)] .
        have "wd_refused wd3 = ?R" using 1(3) R2 by simp
        then show ?case
          using 1(2) commit_end.crashed [OF f3] undo [OF f3]
          by (cases r3) (auto simp del: bytes_of_log_simps)
      next
        case (2 wd3)
        have "file_is p wd3 (D @ ?B) [] (length (D @ ?B))"
          using 2(1) f \<open>r = Some True\<close> 1(4) by (simp add: file_is_def)
        from wp_commit_done [OF w1(2) this w1(5,6)] show ?case by simp
      qed
      then show ?case
        using commit_end.crashed [OF f2] undo [OF f2] R2
        by (cases r) (auto simp: wp_andthen simp del: bytes_of_log_simps)
    qed
  qed
  show ?thesis
    unfolding wal_commit_def app option.case if_not_P [OF opened]
    apply (rule wp_andthen [THEN iffD2], rule wp_clock(1), simp only: option.case)
    apply (rule wp_andthen [THEN iffD2], rule wp_clock(2), simp only: option.case)
    subgoal premises same for mt wd1 wt wd2
    proof -
      have "file_is p wd2 D old n"
        using assms(5) unfolding file_is_same [OF same(3)] file_is_same [OF same(1)] .
      moreover have "same_refused wd wd2" using same(2,4) by simp
      ultimately show ?thesis by (rule wp_mono [OF main]) blast
    qed
    done
qed

lemma commit_batch:
  assumes "buf_at w rs" and "w_open_batch w"
  shows "is_batch (rs @ [commit_rec w mt wt])" and "\<forall>r \<in> set (rs @ [commit_rec w mt wt]). frame_ok r"
    and "length (bytes_of_log (rs @ [commit_rec w mt wt])) \<le> WAL_BUF_BYTES"
    and "numbered (w_batch_seq0 w) (rs @ [commit_rec w mt wt])"
    and "\<forall>r \<in> set (rs @ [commit_rec w mt wt]). h_boot_id (fst r) = w_boot_id w"
proof -
  have op: "open_part rs" "txn_of (hd rs) = w_next_txn w" using assms by (auto simp: buf_at_def)
  then have "rs \<noteq> []" by (auto simp: open_part_def)
  then show "is_batch (rs @ [commit_rec w mt wt])"
    using op by (simp add: is_batch_def commit_rec_def)
  show "\<forall>r \<in> set (rs @ [commit_rec w mt wt]). frame_ok r"
    using assms frame_ok_begin_commit(2) [of "w_src w" w] by (simp add: buf_at_def commit_rec_def)
  show "length (bytes_of_log (rs @ [commit_rec w mt wt])) \<le> WAL_BUF_BYTES"
    using assms by (auto simp: buf_at_def commit_rec_def)
  show "numbered (w_batch_seq0 w) (rs @ [commit_rec w mt wt])"
    using assms by (simp add: buf_at_def commit_rec_def numbered_snoc)
  show "\<forall>r \<in> set (rs @ [commit_rec w mt wt]). h_boot_id (fst r) = w_boot_id w"
    using assms by (simp add: buf_at_def commit_rec_def)
qed

text \<open>What a power cut after the commit can leave of the file.\<close>

lemma commit_images:
  assumes "commit_end R w p D B old n r wd'" and "n \<le> length D"
  shows "\<exists>f. the_file p wd' = Some f \<and> (\<forall>img. image_of f img \<longrightarrow> n \<le> length img \<and>
    (\<exists>d \<in> set ((D @ B) # old). prefix img d) \<and> (\<forall>w'. r = Some (True, w') \<longrightarrow> img = D @ B))"
proof -
  have pre: "prefix img (D @ B)" if "prefix img (D @ take m B)" for img m
    by (rule prefix_order.trans [OF that]) (simp add: take_is_prefix)
  have full: "img = D @ B" if "length (D @ B) \<le> length img" "prefix img (D @ B)" for img
    using that by (metis prefix_length_prefix prefix_order.eq_iff prefix_order.refl)
  show ?thesis
    using assms(1)
  proof cases
    case (crashed m)
    then show ?thesis using pre by (auto simp: file_is_def image_of_def)
  next
    case (undone m)
    then show ?thesis 
      using pre [of _ 0] pre assms(2) by (auto simp: file_is_def image_of_def)
  next
    case (undo_failed m)
    then show ?thesis using pre by (auto simp: file_is_def image_of_def)
  next
    case durable
    then show ?thesis using full assms(2) by (auto simp: file_is_def image_of_def)
  next
    case (rolled q)
    then show ?thesis using full assms(2) by (auto simp: file_is_def image_of_def)
  next
    case roll_crashed
    then show ?thesis using full assms(2) by (auto simp: file_is_def image_of_def)
  next
    case roll_failed
    then show ?thesis using full assms(2) by (auto simp: file_is_def image_of_def)
  qed
qed

lemma log_atD:
  assumes "log_at w wd bs"
  obtains p old where "w_fd w = Some p" and "log_ok bs" and "length (w_dir w) < 200"
    and "file_is p wd (bytes_of_log (concat bs)) old (length (bytes_of_log (concat bs)))"
    and "unat (w_seg_bytes w) = length (bytes_of_log (concat bs))"
    and "length (bytes_of_log (concat bs)) < WAL_SEGMENT_BYTES"
    and "\<forall>d \<in> set old. prefix (bytes_of_log (concat bs)) d"
  using assms by (auto simp: log_at_def Let_def)

lemma commit_ends:
  assumes "log_at w wd bs" and "buf_at w rs" and "w_open_batch w" and "wal_commit w wd = (r, wd')"
  obtains p old c where "w_fd w = Some p" and "log_ok (bs @ [rs @ [c]])"
    and "numbered (w_batch_seq0 w) (rs @ [c])"
    and "file_is p wd (bytes_of_log (concat bs)) old (length (bytes_of_log (concat bs)))"
    and "\<forall>d \<in> set old. prefix (bytes_of_log (concat bs)) d"
    and "commit_end (wd_refused wd) w p (bytes_of_log (concat bs)) (bytes_of_log (rs @ [c])) old (length (bytes_of_log (concat bs))) r wd'"
    and "length (bytes_of_log (rs @ [c])) \<le> WAL_BUF_BYTES"
proof -
  obtain p old where l: "w_fd w = Some p" "log_ok bs" "length (w_dir w) < 200"
    "file_is p wd (bytes_of_log (concat bs)) old (length (bytes_of_log (concat bs)))"
    "unat (w_seg_bytes w) = length (bytes_of_log (concat bs))"
    "\<forall>d \<in> set old. prefix (bytes_of_log (concat bs)) d"
    using log_atD [OF assms(1)] by metis
  obtain mt wt where e: "commit_end (wd_refused wd) w p (bytes_of_log (concat bs))
      (bytes_of_log (rs @ [commit_rec w mt wt])) old (length (bytes_of_log (concat bs))) r wd'"
    using wpD [OF wal_commit_wp [OF assms(2,3) l(1,3,4,5)] assms(4)] by blast
  note b = commit_batch [OF assms(2,3), of mt wt]
  show thesis
    by (rule that [OF l(1) _ b(4) l(4,6) e b(3)]) (use l(2) b(1,2) in simp)
qed

lemma seg_bytes_committed:
  assumes "unat (w_seg_bytes w) = length D" and "length D < 2 ^ 63" and "length B \<le> WAL_BUF_BYTES"
  shows "unat (w_seg_bytes (committed w B)) = length (D @ B)"
proof -
  have "w_seg_bytes w = word_of_nat (length D)" using assms(1) by (simp flip: assms(1))
  then show ?thesis
    using assms unat_of_nat_u64 [of "length D + length B"] by (simp add: committed_def)
qed

lemma committed_props [simp]:
  "w_next_txn (committed w B) = w_next_txn w + 1" "w_next_seq (committed w B) = w_next_seq w + 1"
  "w_recovered (committed w B) = w_recovered w" "w_prev_end (committed w B) = w_prev_end w"
  "w_boot_id (committed w B) = w_boot_id w" "w_fd (committed w B) = w_fd w"
  "w_dir (committed w B) = w_dir w" "w_src (committed w B) = w_src w"
  by (simp_all add: committed_def)

lemma buf_at_after:
  assumes "buf_at w rs"
  shows "buf_at (drop_batch w) []" and "buf_at (committed w B) []"
    and "buf_at ((committed w B)\<lparr>w_fd := fd\<rparr>) []"
    and "buf_at ((committed w B)\<lparr>w_fd := fd, w_seg_bytes := n\<rparr>) []"
  using assms by (auto simp: buf_at_def drop_batch_def committed_def)

text \<open>The log after a commit that returned 0: the batches \<open>bs\<close>, or a new segment when they fill one.\<close>

definition log_grown :: "wal \<Rightarrow> world \<Rightarrow> rec list list \<Rightarrow> bool" where
  "log_grown w wd bs \<longleftrightarrow> (if length (bytes_of_log (concat bs)) < WAL_SEGMENT_BYTES then log_at w wd bs
     else log_at w wd [] \<and> w_fd w = Some (seg_path 256 (w_dir w) (w_next_seq w)))"

lemma log_grownD: "log_grown w wd bs \<Longrightarrow> log_at w wd bs \<or> log_at w wd []"
  by (simp add: log_grown_def split: if_splits)

lemma commit_true:
  assumes "buf_at w rs" and "w_open_batch w" and "w_fd w = Some p" and "length (w_dir w) < 200"
    and "file_is p wd D old n" and "unat (w_seg_bytes w) = length D"
    and "D = bytes_of_log (concat bs)" and "log_ok bs" and "length D < 2 ^ 63"
    and "wal_commit w wd = (Some (True, w'), wd')"
  shows "\<exists>c. log_ok (bs @ [rs @ [c]]) \<and> numbered (w_batch_seq0 w) (rs @ [c]) \<and>
    (\<forall>r \<in> set (rs @ [c]). h_boot_id (fst r) = w_boot_id w) \<and> buf_at w' [] \<and>
    w_next_txn w' = w_next_txn w + 1 \<and> w_next_seq w' = w_next_seq w + 1 \<and>
    w_recovered w' = w_recovered w \<and> w_prev_end w' = w_prev_end w \<and> w_boot_id w' = w_boot_id w \<and>
    file_is p wd' (bytes_of_log (concat (bs @ [rs @ [c]]))) [] (length (bytes_of_log (concat (bs @ [rs @ [c]])))) \<and>
    log_grown w' wd' (bs @ [rs @ [c]]) \<and>
    (length (bytes_of_log (concat (bs @ [rs @ [c]]))) < WAL_SEGMENT_BYTES \<longrightarrow> w_fd w' = Some p)"
proof -
  obtain mt wt where e: "commit_end (wd_refused wd) w p D (bytes_of_log (rs @ [commit_rec w mt wt])) old n (Some (True, w')) wd'"
    using wpD [OF wal_commit_wp [OF assms(1-6)] assms(10)] by blast
  let ?c = "commit_rec w mt wt"
  let ?B = "bytes_of_log (rs @ [?c])"
  note b = commit_batch [OF assms(1,2), of mt wt]
  have ok: "log_ok (bs @ [rs @ [?c]])" using assms(8) b(1,2) by simp
  note seg = seg_bytes_committed [OF assms(6,9) b(3)]
  have DB: "D @ ?B = bytes_of_log (concat (bs @ [rs @ [?c]]))" using assms(7) by simp
  have "log_grown w' wd' (bs @ [rs @ [?c]]) \<and>
      (length (bytes_of_log (concat (bs @ [rs @ [?c]]))) < WAL_SEGMENT_BYTES \<longrightarrow> w_fd w' = Some p)"
    using e
  proof cases
    case durable
    then have "log_at w' wd' (bs @ [rs @ [?c]])"
      unfolding log_at_def Let_def DB [symmetric] using assms(3,4) ok seg
      by (simp add: exI [of _ "[]"] del: bytes_of_log_simps)
    then show ?thesis
      unfolding log_grown_def DB [symmetric] using durable assms(3) seg by (simp del: bytes_of_log_simps)
  next
    case (rolled q)
    then have "log_at w' wd' []" using assms(4) by (auto simp: log_at_def)
    then show ?thesis
      unfolding log_grown_def DB [symmetric] using rolled seg by (simp del: bytes_of_log_simps)
  qed simp_all
  moreover have "buf_at w' [] \<and> w_next_txn w' = w_next_txn w + 1 \<and> w_next_seq w' = w_next_seq w + 1 \<and>
      w_recovered w' = w_recovered w \<and> w_prev_end w' = w_prev_end w \<and> w_boot_id w' = w_boot_id w"
    and "file_is p wd' (D @ ?B) [] (length (D @ ?B))"
    using e by (cases, simp_all add: buf_at_after [OF assms(1)] del: bytes_of_log_simps)+
  ultimately show ?thesis using ok b(4,5) unfolding DB by blast
qed

text \<open>After a commit that returned -1 the log is as it was, unless the truncation that undoes the batch was
  refused, or the batch is durable and fills the segment but the next one could not be created.\<close>

lemma commit_failure:
  assumes "log_at w wd bs" and "buf_at w rs" and "w_open_batch w" and "wal_commit w wd = (Some (False, w'), wd')"
  shows "buf_at w' [] \<and> (\<exists>p c. w_fd w = Some p \<and> log_ok (bs @ [rs @ [c]]) \<and> (let D = bytes_of_log (concat bs);
      D' = bytes_of_log (concat (bs @ [rs @ [c]])) in
      w_next_seq w' = w_batch_seq0 w \<and> w_next_txn w' = w_next_txn w \<and> log_at w' wd' bs \<and> w_fd w' = Some p \<and>
      wd_refused wd' = wd_refused wd
    \<or> w_next_seq w' = w_batch_seq0 w \<and> w_next_txn w' = w_next_txn w \<and> wd_refused wd' = (p, length D) # wd_refused wd \<and>
      (\<exists>m old. file_is p wd' (take m D') old (length D))
    \<or> w_fd w' = None \<and> WAL_SEGMENT_BYTES \<le> length D' \<and> file_is p wd' D' [] (length D')))"
proof -
  obtain p old c where e: "w_fd w = Some p" "log_ok (bs @ [rs @ [c]])"
    "\<forall>d \<in> set old. prefix (bytes_of_log (concat bs)) d"
    "commit_end (wd_refused wd) w p (bytes_of_log (concat bs)) (bytes_of_log (rs @ [c])) old (length (bytes_of_log (concat bs))) (Some (False, w')) wd'"
    "length (bytes_of_log (rs @ [c])) \<le> WAL_BUF_BYTES"
    by (rule commit_ends [OF assms])
  let ?D = "bytes_of_log (concat bs)" and ?B = "bytes_of_log (rs @ [c])"
  have l: "unat (w_seg_bytes w) = length ?D" "length ?D < WAL_SEGMENT_BYTES" "length (w_dir w) < 200"
    using assms(1) by (auto simp: log_at_def Let_def)
  have buf: "buf_at w' []" using e(4) by cases (simp_all add: buf_at_after [OF assms(2)])
  show ?thesis
    using e(4)
  proof cases
    case (undone m)
    then have "\<exists>os. file_is p wd' ?D os (length ?D) \<and> (\<forall>d \<in> set os. prefix ?D d)"
      using e(3) by (intro exI [of _ "(?D @ take m ?B) # old"]) simp
    then have "log_at w' wd' bs" using undone(1) e(1,2) l by (auto simp: log_at_def Let_def drop_batch_def)
    then show ?thesis
      using undone(1,3) buf e(1,2) by (intro conjI exI [of _ p] exI [of _ c]) (simp_all add: drop_batch_def Let_def)
  next
    case (undo_failed m)
    have "?D @ take m ?B = take (length ?D + m) (bytes_of_log (concat (bs @ [rs @ [c]])))" by simp
    then have "\<exists>m old. file_is p wd' (take m (bytes_of_log (concat (bs @ [rs @ [c]])))) old (length ?D)"
      using undo_failed(2) by metis
    then show ?thesis
      using undo_failed(1,3) buf e(1,2) by (intro conjI exI [of _ p] exI [of _ c]) (simp_all add: drop_batch_def Let_def)
  next
    case roll_failed
    have "length ?D < 2 ^ 63" using l(2) by simp
    from seg_bytes_committed [OF l(1) this e(5)] roll_failed
    have "w_fd w' = None" "WAL_SEGMENT_BYTES \<le> length (bytes_of_log (concat (bs @ [rs @ [c]])))"
      "file_is p wd' (bytes_of_log (concat (bs @ [rs @ [c]]))) [] (length (bytes_of_log (concat (bs @ [rs @ [c]]))))"
      by simp_all
    then show ?thesis using buf e(1,2) unfolding Let_def by blast
  qed simp_all
qed

end
