(* ===== verification/Wal_Open.thy ===== *)
theory Wal_Open
  imports Wal_Commit
begin

text \<open>
  Opening a log: reading and cutting back the newest segment (\<open>recover_segment\<close>), finding it by
  name (\<open>newest_segment\<close>), the boot batch, and closing. The lemmas say in what state
  \<open>wal_open\<close> leaves the log for any bytes the newest segment may hold.
\<close>

section \<open>Reading a segment\<close>

lemma read_all_wp:
  assumes "the_file p wd = Some f" and "prefix got (f_data f)"
  shows "wp (read_all p (length (f_data f)) got) (\<lambda>r wd'. wd_files wd' = wd_files wd \<and>
    (\<forall>d. r = Some (Some d) \<longrightarrow> d = f_data f)) wd"
  using assms
proof (induction p "length (f_data f)" got wd rule: read_all.induct)
  case (1 path got wd)
  show ?case
  proof (cases "length got < length (f_data f)")
    case False
    then show ?thesis using 1(4) by (auto simp: wp_def read_all.simps prefix_def)
  next
    case True
    show ?thesis
    proof (cases "wd_script wd")
      case Nil
      then show ?thesis using True by (simp add: wp_def read_all.simps)
    next
      case (Cons oc ocs)
      let ?wd = "wd\<lparr>wd_script := ocs\<rparr>"
      show ?thesis
      proof (cases oc)
        case Interrupted
        then show ?thesis using 1(2) [OF True Cons refl Interrupted] 1(3,4) True Cons
          by (simp add: wp_def read_all.simps [of path _ got wd])
      next
        case Failed
        then show ?thesis using True Cons by (simp add: wp_def read_all.simps [of path _ got wd])
      next
        case (Done n)
        let ?chunk = "take (min n (length (f_data f) - length got)) (drop (length got) (f_data f))"
        have "f_data f = got @ drop (length got) (f_data f)"
          using 1(4) by (metis prefix_def append_eq_conv_conj)
        then have pre: "prefix (got @ ?chunk) (f_data f)"
          by (metis same_prefix_prefix take_is_prefix)
        have e: "read_all path (length (f_data f)) got wd = (if ?chunk = [] then (Some None, ?wd)
            else read_all path (length (f_data f)) (got @ ?chunk) ?wd)"
          using True Cons Done 1(3) by (simp add: read_all.simps [of path _ got wd] Let_def)
        have "wp (read_all path (length (f_data f)) (got @ ?chunk)) (\<lambda>r wd'. wd_files wd' = wd_files ?wd \<and>
            (\<forall>d. r = Some (Some d) \<longrightarrow> d = f_data f)) ?wd" if "?chunk \<noteq> []"
          using 1(1) [OF True Cons refl Done refl refl] that 1(3) pre by simp
        then show ?thesis unfolding wp_def e by simp
      qed
    qed
  qed
qed

section \<open>Recovering the newest segment\<close>

definition has_data :: "string \<Rightarrow> world \<Rightarrow> bytes \<Rightarrow> bool" where
  "has_data p wd D \<longleftrightarrow> (\<exists>f. the_file p wd = Some f \<and> f_data f = D \<and> f_entry f)"

lemma has_data_file_is: "has_data p wd D \<longleftrightarrow> (\<exists>old n. file_is p wd D old n)"
  by (auto simp: has_data_def file_is_def)

lemma wp_sys_open: "(\<And>r wd'. same_files wd wd' \<Longrightarrow> Q r wd') \<Longrightarrow> wp (sys_open p) Q wd"
  unfolding sys_open_def wp_andthen
  by (rule wp_sys_ok) (auto simp: wp_def split: option.splits)

lemma wp_fail_close: "(\<And>r wd'. r = None \<or> r = Some (False, w) \<Longrightarrow> Q r wd') \<Longrightarrow> wp (fail_close fd w) Q wd"
  unfolding fail_close_def wp_andthen
  by (rule wp_sys_close) (auto simp: wp_ret split: option.splits)

lemma wp_cut_back:
  fixes f defines "keep \<equiv> sc_committed_len (wal_scan (f_data f))"
  assumes "the_file p wd = Some f" and "f_entry f"
  shows "wp (cut_back w p (f_data f)) (\<lambda>r wd'. \<forall>w'. r = Some (True, w') \<longrightarrow>
    w' = recovered_wal w p (f_data f) \<and> has_data p wd' (take keep (f_data f))) wd"
proof -
  have rec: "w_recovered (recovered_wal w p (f_data f)) = wal_scan (f_data f)"
    by (simp add: recovered_wal_def Let_def)
  let ?Q = "\<lambda>r wd'. \<forall>w'. r = Some (True, w') \<longrightarrow>
    w' = recovered_wal w p (f_data f) \<and> has_data p wd' (take keep (f_data f))"
  have fail: "wp (fail_close fd v) ?Q wd0" for fd v wd0 by (rule wp_fail_close) auto
  show ?thesis
  proof (cases "keep < length (f_data f)")
    case False
    then show ?thesis
      using assms(2,3) unfolding cut_back_def Let_def rec keep_def
      by (auto simp: wp_ret has_data_def)
  next
    case True
    show ?thesis
      unfolding cut_back_def Let_def rec keep_def [symmetric] if_P [OF True] wp_andthen
    proof (rule wp_sys_ftruncate [OF assms(2)], goal_cases)
      case (1 r wd1)
      then show ?case using fail by (cases r) auto
    next
      case (2 wd1)
      show ?case
        unfolding option.case not_True_eq_False if_False wp_andthen
      proof (rule wp_sys_fsync [OF 2(1)], goal_cases)
        case (1 r wd2)
        then show ?case using fail by (cases r) auto
      next
        case (2 wd2)
        then show ?case using assms(3) by (auto simp: wp_ret has_data_def)
      qed
    qed
  qed
qed

lemma wp_recover_segment:
  fixes f defines "keep \<equiv> sc_committed_len (wal_scan (f_data f))"
  assumes "seg_path 256 (w_dir w) first = p" and "the_file p wd = Some f" and "f_entry f"
  shows "wp (recover_segment w first) (\<lambda>r wd'. \<forall>w'. r = Some (True, w') \<longrightarrow>
    w' = recovered_wal w p (f_data f) \<and> has_data p wd' (take keep (f_data f))) wd"
    (is "wp _ ?Q _")
proof -
  have fail: "wp (fail_close fd v) ?Q wd0" for fd v wd0 by (rule wp_fail_close) auto
  have tail: "wp (\<lambda>wd. let size0 = (case the_file p wd of None \<Rightarrow> 0 | Some f \<Rightarrow> length (f_data f))
      in andthen (read_all p size0 []) (\<lambda>r. case r of None \<Rightarrow> fail_close fd w
          | Some data \<Rightarrow> cut_back w p data) wd) ?Q wd1"
    if "wd_files wd1 = wd_files wd" for wd1 fd
  proof -
    have f: "the_file p wd1 = Some f" using assms(3) that by (simp add: the_file_def)
    have "wp (andthen (read_all p (length (f_data f)) []) (\<lambda>r. case r of None \<Rightarrow> fail_close fd w
          | Some data \<Rightarrow> cut_back w p data)) ?Q wd1"
      unfolding wp_andthen
    proof (rule wp_mono [OF read_all_wp [OF f]], goal_cases)
      case (2 r wd2)
      then have "the_file p wd2 = Some f" using f by (simp add: the_file_def)
      with 2 show ?case
        using fail wp_cut_back [of p wd2 f w] assms(4)
        by (auto simp: keep_def split: option.splits)
    qed simp
    then show ?thesis by (simp only: wp_def Let_def f option.case)
  qed
  have checked: "wp (andthen sys_ok (\<lambda>good. if \<not> good then fail_close fd w else m)) ?Q wd1"
    if "wd_files wd1 = wd_files wd" and m: "\<And>wd2. wd_files wd2 = wd_files wd \<Longrightarrow> wp m ?Q wd2" for fd m wd1
    unfolding wp_andthen
  proof (rule wp_sys_ok, goal_cases)
    case (1 r wd2)
    then show ?case using fail m [of wd2] that(1) by (cases r) auto
  qed
  show ?thesis
    unfolding recover_segment_def assms(2) Let_def
    apply (rule wp_andthen [THEN iffD2], rule wp_sys_open)
    subgoal premises prems for r wd1
    proof (cases "r = None \<or> r = Some None")
      case True
      then show ?thesis by (auto simp: wp_ret)
    next
      case False
      then obtain q where r: "r = Some (Some q)" by (metis option.exhaust)
      show ?thesis
        unfolding r option.case if_not_P [OF option.distinct(2)]
        by (rule checked [OF prems], rule checked, assumption, rule tail [unfolded Let_def])
    qed
    done
qed

section \<open>Batches of one record\<close>

text \<open>A record added to an empty buffer and committed at once: BEGIN, the record, COMMIT.\<close>

lemma one_record_batch:
  assumes "buf_at w []" and "\<not> w_open_batch w" and "w_fd w = Some p" and "length (w_dir w) < 200"
    and "has_data p wd D" and "unat (w_seg_bytes w) = length D" and "D = bytes_of_log (concat bs)"
    and "log_ok bs" and "length D < 2 ^ 63" and "unat n = length body" and "length body \<le> REC_MAX_BODY"
    and "kind \<noteq> REC_BEGIN" and "kind \<noteq> REC_COMMIT"
    and add: "wal_add w kind src mt wt body n wd = (Some (True, w1), wd1)"
    and com: "wal_commit w1 wd1 = (Some (True, w'), wd')"
  shows "\<exists>r0 r1 r2. let b = [r0, r1, r2] in log_ok (bs @ [b]) \<and>
    numbered (w_next_seq w) b \<and> (\<forall>r \<in> set b. h_boot_id (fst r) = w_boot_id w) \<and>
    txn_of r0 = w_next_txn w \<and> kind_of r1 = kind \<and> snd r1 = body \<and>
    buf_at w' [] \<and> w_recovered w' = w_recovered w \<and> w_prev_end w' = w_prev_end w \<and>
    w_boot_id w' = w_boot_id w \<and> file_is p wd' (bytes_of_log (concat (bs @ [b]))) [] (length (bytes_of_log (concat (bs @ [b])))) \<and>
    log_grown w' wd' (bs @ [b])"
proof -
  have room: "room_for w n" using assms(1,2,10,11) by (auto simp: room_for_def buf_at_def)
  obtain m0 w0 n0 wd3 where c: "clocks_only wd wd3"
    and add': "wal_add w kind src mt wt body n wd =
      (Some (add_rec (begun w m0 w0 n0) kind src mt wt body), wd3)"
    using wal_add_closed [OF assms(2,1) room, of body wd kind src mt wt] assms(10) by auto
  let ?w = "begun w m0 w0 n0"
  let ?r0 = "rec_of w REC_BEGIN (w_src w) m0 w0 (bytes_of_begin (w_next_txn w))"
  let ?r1 = "rec_of ?w kind src mt wt body"
  have ar: "add_rec ?w kind src mt wt body = (True, w1)" and c1: "clocks_only wd wd1"
    using add add' c by auto
  have "same_log ?w w1" and op: "w_open_batch w1" and buf: "buf_at w1 ([?r0] @ [?r1])"
    using add_rec_spec [OF begun_buf_at [OF assms(1)] _ assms(12,13) _ ar] by simp_all
  then have sl: "same_log w w1" using same_log_trans [OF begun_props(1)] by blast
  obtain old k where fi: "file_is p wd1 D old k"
    using assms(5) c1 by (auto simp: has_data_file_is file_is_clocks)
  have w1: "w_fd w1 = Some p" "length (w_dir w1) < 200" "unat (w_seg_bytes w1) = length D"
    using sl assms(3,4,6) by (simp_all add: same_log_def)
  have seq0: "w_batch_seq0 w1 = w_next_seq w"
    using ar by (auto simp: add_rec_def Let_def split: if_splits)
  obtain c where "log_ok (bs @ [[?r0, ?r1] @ [c]])" "numbered (w_batch_seq0 w1) ([?r0, ?r1] @ [c])"
    "\<forall>r \<in> set ([?r0, ?r1] @ [c]). h_boot_id (fst r) = w_boot_id w1" "buf_at w' []"
    "w_recovered w' = w_recovered w1" "w_prev_end w' = w_prev_end w1" "w_boot_id w' = w_boot_id w1"
    "file_is p wd' (bytes_of_log (concat (bs @ [[?r0, ?r1] @ [c]]))) [] (length (bytes_of_log (concat (bs @ [[?r0, ?r1] @ [c]]))))"
    "log_grown w' wd' (bs @ [[?r0, ?r1] @ [c]])"
    using commit_true [OF buf op w1(1,2) fi w1(3) assms(7,8,9) com] by (metis append_Cons append_Nil)
  then show ?thesis
    using sl seq0
    by (intro exI [of _ ?r0] exI [of _ ?r1] exI [of _ c]) (simp add: same_log_def Let_def)
qed

section \<open>Opening\<close>

lemma run_andthenE:
  assumes "andthen m f wd = (Some y, wd'')"
  obtains x wd' where "m wd = (Some x, wd')" and "f x wd' = (Some y, wd'')"
  using assms by (auto simp: andthen_def split: prod.splits option.splits)

lemma run_clocks:
  assumes "andthen wal_now_mono (\<lambda>mono. andthen wal_now_wall (f mono)) wd = (Some y, wd'')"
  obtains mt wt wd2 where "clocks_only wd wd2" and "f mt wt wd2 = (Some y, wd'')"
proof -
  obtain mt wd1 where t1: "wal_now_mono wd = (Some mt, wd1)" and c1: "clocks_only wd wd1"
    using clock_reads(1) by blast
  obtain wt wd2 where t2: "wal_now_wall wd1 = (Some wt, wd2)" and c2: "clocks_only wd1 wd2"
    using clock_reads(2) by blast
  show thesis
    by (rule that [of wd2 mt wt]) (use assms t1 t2 c1 c2 in \<open>simp_all add: andthen_def clocks_only_def\<close>)
qed

lemma has_data_clocks: "clocks_only wd wd' \<Longrightarrow> has_data p wd' D = has_data p wd D"
  by (simp add: has_data_file_is file_is_clocks)

lemma open_boot_True:
  assumes "buf_at w []" and "\<not> w_open_batch w" and "w_fd w = Some p" and "length (w_dir w) < 200"
    and "has_data p wd D" and "unat (w_seg_bytes w) = length D" and "D = bytes_of_log (concat bs)"
    and "log_ok bs" and "length D < 2 ^ 63"
    and "open_boot w src wd = (Some (True, w'), wd')"
  shows "\<exists>r0 r1 r2. let b = [r0, r1, r2] in log_ok (bs @ [b]) \<and>
    numbered (w_next_seq w) b \<and> (\<forall>r \<in> set b. h_boot_id (fst r) = w_boot_id w) \<and>
    txn_of r0 = w_next_txn w \<and> kind_of r1 = REC_BOOT \<and> snd r1 = bytes_of_boot (boot_record w) \<and>
    buf_at w' [] \<and> w_recovered w' = w_recovered w \<and> w_prev_end w' = w_prev_end w \<and>
    w_boot_id w' = w_boot_id w \<and> file_is p wd' (bytes_of_log (concat (bs @ [b]))) [] (length (bytes_of_log (concat (bs @ [b])))) \<and>
    log_grown w' wd' (bs @ [b])"
proof -
  have len: "length (bytes_of_boot (boot_record w)) = 12" by (simp add: bytes_of_boot_def)
  obtain mt wt wd2 where c: "clocks_only wd wd2"
    and r: "andthen (wal_add w REC_BOOT src mt wt (bytes_of_boot (boot_record w)) 12) (\<lambda>(added, w1).
         andthen (if added then wal_commit w1 else ret (False, w1)) (\<lambda>(good, w2).
           if good then ret (True, w2)
           else andthen (if w_fd w2 = None then ret True else sys_close (w_fd w2))
                  (\<lambda>_. ret (False, w2\<lparr>w_fd := None\<rparr>)))) wd2 = (Some (True, w'), wd')"
    using assms(10) unfolding open_boot_def by (rule run_clocks)
  obtain w1 wd3 where "wal_add w REC_BOOT src mt wt (bytes_of_boot (boot_record w)) 12 wd2 = (Some (True, w1), wd3)"
    and "wal_commit w1 wd3 = (Some (True, w'), wd')"
    using r by (elim run_andthenE) (auto elim!: run_andthenE simp: ret_def split: if_splits)
  from one_record_batch [OF assms(1-4) _ assms(6-9) _ _ _ _ this] show ?thesis
    using assms(5) len by (simp add: has_data_clocks [OF c])
qed

lemma run_sys_ok: "sys_ok wd = (Some b, wd') \<Longrightarrow> wd_files wd' = wd_files wd"
  using wpD [OF wp_sys_ok [of wd "\<lambda>r wd'. wd_files wd' = wd_files wd"]] by blast

lemma newest_segment_run:
  assumes "newest_segment dir wd = (Some found, wd')"
  shows "wd_files wd' = wd_files wd \<and> (found = Inl () \<or> found = Inr (newest_of None (dir_entries dir wd)))"
proof -
  obtain good wd1 where s1: "sys_ok wd = (Some good, wd1)"
    and r: "(if \<not> good then ret (Inl ())
       else (\<lambda>wd. andthen sys_ok (\<lambda>_. ret (Inr (newest_of None (dir_entries dir wd)))) wd)) wd1 =
      (Some found, wd')"
    using assms unfolding newest_segment_def by (rule run_andthenE)
  note f1 = run_sys_ok [OF s1]
  show ?thesis
  proof (cases good)
    case False
    then show ?thesis using r f1 by (simp add: ret_def)
  next
    case True
    then have "andthen sys_ok (\<lambda>_. ret (Inr (newest_of None (dir_entries dir wd1)))) wd1 = (Some found, wd')"
      using r by simp
    then obtain g wd2 where "sys_ok wd1 = (Some g, wd2)"
      "ret (Inr (newest_of None (dir_entries dir wd1))) wd2 = (Some found, wd')"
      by (rule run_andthenE)
    moreover have "dir_entries dir wd1 = dir_entries dir wd" using f1 by (simp add: dir_entries_def)
    ultimately show ?thesis using run_sys_ok [of wd1 g wd2] f1 by (simp add: ret_def)
  qed
qed

lemma wal_open_segment:
  assumes "length dir < 200" and "wal_open dir src flags wd = (Some (True, w'), wd')"
  obtains wd1 where "wd_files wd1 = wd_files wd"
    and "open_segment (wal_zero\<lparr>w_src := src, w_flags := flags, w_dir := dir\<rparr>) src
      (Inr (newest_of None (dir_entries dir wd))) wd1 = (Some (True, w'), wd')"
proof -
  let ?w0 = "wal_zero\<lparr>w_src := src, w_flags := flags, w_dir := dir\<rparr>"
  have sn: "snprintf 200 dir = (dir, length dir)" and nl: "\<not> length dir \<ge> 200"
    using assms(1) by (simp_all add: snprintf_def)
  obtain made wd0 where s0: "sys_ok wd = (Some made, wd0)"
    and r0: "andthen (newest_segment dir) (open_segment ?w0 src) wd0 = (Some (True, w'), wd')"
    using assms(2) unfolding wal_open_def sn Let_def prod.case if_not_P [OF nl]
    by (elim run_andthenE) (auto simp: ret_def split: if_splits)
  obtain found wd1 where nw: "newest_segment dir wd0 = (Some found, wd1)"
    and r1: "open_segment ?w0 src found wd1 = (Some (True, w'), wd')"
    using r0 by (rule run_andthenE)
  have f0: "wd_files wd0 = wd_files wd" by (rule run_sys_ok [OF s0])
  then have "dir_entries dir wd0 = dir_entries dir wd" by (simp add: dir_entries_def)
  then have f1: "wd_files wd1 = wd_files wd"
    and "found = Inl () \<or> found = Inr (newest_of None (dir_entries dir wd))"
    using newest_segment_run [OF nw] f0 by auto
  with r1 show thesis by (auto simp: open_segment_def ret_def intro: that)
qed

lemma wal_open_found:
  assumes "length dir < 200" and "newest_of None (dir_entries dir wd) = Some first"
    and "wal_open dir src flags wd = (Some (True, w'), wd')"
  obtains w1 wd1 wd2 where "wd_files wd1 = wd_files wd"
    and "recover_segment (wal_zero\<lparr>w_src := src, w_flags := flags, w_dir := dir\<rparr>) first wd1 = (Some (True, w1), wd2)"
    and "open_boot (resume w1 first) src wd2 = (Some (True, w'), wd')"
proof -
  obtain wd1 where f1: "wd_files wd1 = wd_files wd"
    and r: "open_segment (wal_zero\<lparr>w_src := src, w_flags := flags, w_dir := dir\<rparr>) src
      (Inr (newest_of None (dir_entries dir wd))) wd1 = (Some (True, w'), wd')"
    using wal_open_segment [OF assms(1,3)] .
  show thesis
    using r unfolding assms(2) open_segment_def sum.case option.case
    by (elim run_andthenE) (auto simp: ret_def split: if_splits intro: that [OF f1])
qed

lemma summary_any: "sc_any_committed ((summary bs)\<lparr>sc_records_lost := n\<rparr>) \<longleftrightarrow> bs \<noteq> []"
  by (simp add: summary_def Let_def)

lemma wal_open_batches:
  assumes "length dir < 200" and "SRC_IS_VALID src"
    and "newest_of None (dir_entries dir wd) = Some first"
    and "the_file (seg_path 256 dir first) wd = Some f" and "f_entry f" and "length (f_data f) < 2 ^ 63"
    and "log_ok bs" and "recovers (f_data f) bs"
    and "take (sc_committed_len (wal_scan (f_data f))) (f_data f) = bytes_of_log (concat bs)"
    and "wal_open dir src flags wd = (Some (True, w'), wd')"
  shows "\<exists>r0 r1 r2. let sc = wal_scan (f_data f); b = [r0, r1, r2]; D = bytes_of_log (concat (bs @ [b])) in
    log_ok (bs @ [b]) \<and> numbered (if bs = [] then first else sc_last_seq sc + 1) b \<and>
    (\<forall>r \<in> set b. h_boot_id (fst r) = sc_last_boot_id sc + 1) \<and>
    txn_of r0 = sc_last_txn sc + 1 \<and> kind_of r1 = REC_BOOT \<and> w_recovered w' = sc \<and>
    (w_prev_end w' = REC_PREV_CLEAN \<longleftrightarrow> sc_ended_clean sc \<and> sc_committed_len sc = length (f_data f)) \<and>
    file_is (seg_path 256 dir first) wd' D [] (length D) \<and>
    log_grown w' wd' (bs @ [b]) \<and> buf_at w' []"
proof -
  let ?w0 = "wal_zero\<lparr>w_src := src, w_flags := flags, w_dir := dir\<rparr>"
  let ?p = "seg_path 256 dir first" and ?sc = "wal_scan (f_data f)"
  let ?D = "take (sc_committed_len ?sc) (f_data f)"
  obtain w1 wd1 wd2 where f1: "wd_files wd1 = wd_files wd"
    and rs: "recover_segment ?w0 first wd1 = (Some (True, w1), wd2)"
    and ob: "open_boot (resume w1 first) src wd2 = (Some (True, w'), wd')"
    by (rule wal_open_found [OF assms(1,3,10)])
  have f: "the_file ?p wd1 = Some f" using assms(4) f1 by (simp add: the_file_def)
  have w1: "w1 = recovered_wal ?w0 ?p (f_data f)" and hd: "has_data ?p wd2 ?D"
    using wpD [OF wp_recover_segment [of ?w0 first ?p wd1 f] rs] f assms(5) by simp_all
  have keep: "sc_committed_len ?sc \<le> length (f_data f)" using wal_scan_bytes [of "f_data f"] by metis
  let ?w = "resume w1 first"
  have w: "buf_at ?w []" "\<not> w_open_batch ?w" "w_fd ?w = Some ?p" "length (w_dir ?w) < 200"
    "unat (w_seg_bytes ?w) = length ?D" "length ?D < 2 ^ 63"
    using assms(1,2,6) keep
    by (simp_all add: w1 recovered_wal_def resume_def Let_def wal_zero_def buf_at_def unat_of_nat_u64)
  have "?sc = (summary bs)\<lparr>sc_records_lost := sc_records_lost ?sc\<rparr>" using assms(8) by (simp add: recovers_def)
  then have any: "sc_any_committed ?sc \<longleftrightarrow> bs \<noteq> []" by (metis summary_any)
  have ids: "w_next_seq ?w = (if bs = [] then first else sc_last_seq ?sc + 1)"
    "w_boot_id ?w = sc_last_boot_id ?sc + 1" "w_next_txn ?w = sc_last_txn ?sc + 1"
    "w_recovered ?w = ?sc"
    "w_prev_end ?w = (if sc_ended_clean ?sc \<and> sc_committed_len ?sc = length (f_data f)
       then REC_PREV_CLEAN else REC_PREV_RECOVERED)"
    using any by (simp_all add: w1 recovered_wal_def resume_def Let_def)
  show ?thesis
    using open_boot_True [OF w(1-4) hd w(5) assms(9,7) w(6) ob] unfolding ids Let_def
    by (metis rec_prev_end.distinct(1))
qed

lemma wal_open_recovered:
  assumes "length dir < 200" and "SRC_IS_VALID src"
    and "newest_of None (dir_entries dir wd) = Some first"
    and "the_file (seg_path 256 dir first) wd = Some f" and "f_entry f" and "length (f_data f) < 2 ^ 63"
    and "wal_open dir src flags wd = (Some (True, w'), wd')"
  shows "\<exists>bs r0 r1 r2. let sc = wal_scan (f_data f); b = [r0, r1, r2] in
    recovers (f_data f) bs \<and> log_ok (bs @ [b]) \<and>
    numbered (if bs = [] then first else sc_last_seq sc + 1) b \<and>
    (\<forall>r \<in> set b. h_boot_id (fst r) = sc_last_boot_id sc + 1) \<and>
    txn_of r0 = sc_last_txn sc + 1 \<and> kind_of r1 = REC_BOOT \<and> w_recovered w' = sc \<and>
    (w_prev_end w' = REC_PREV_CLEAN \<longleftrightarrow> sc_ended_clean sc \<and> sc_committed_len sc = length (f_data f)) \<and>
    prefix (bytes_of_log (concat bs)) (f_data f) \<and>
    file_is (seg_path 256 dir first) wd' (bytes_of_log (concat (bs @ [b]))) [] (length (bytes_of_log (concat (bs @ [b])))) \<and>
    log_grown w' wd' (bs @ [b]) \<and> buf_at w' []"
proof -
  obtain bs ps where bs: "log_ok bs" "wal_scan (f_data f) = (summary bs)\<lparr>sc_records_lost := of_nat (n_samples ps)\<rparr>"
    "take (sc_committed_len (wal_scan (f_data f))) (f_data f) = bytes_of_log (concat bs)"
    using wal_scan_bytes [of "f_data f"] by metis
  have r: "recovers (f_data f) bs" by (rule recoversI [OF bs(1,2)])
  have "prefix (bytes_of_log (concat bs)) (f_data f)" using bs(3) take_is_prefix by metis
  then show ?thesis using wal_open_batches [OF assms(1-6) bs(1) r bs(3) assms(7)] r unfolding Let_def by metis
qed

section \<open>Segment names\<close>

lemma read_digits_zeros: "0 < base \<Longrightarrow> read_digits base (replicate k CHR ''0'' @ ds) = read_digits base ds"
proof (induction k)
  case (Suc k)
  then show ?case by (simp add: read_digits_def digit_val_def)
qed simp

lemma seg_of_name_seg_name: "seg_of_name (seg_name s) = Some s"
proof -
  let ?z = "zero_pad 16 (fmt_x s)"
  have z: "?z \<noteq> []" "\<forall>c \<in> set ?z. is_digit_of 16 c" using zero_pad_digits by (auto simp: zero_pad_def)
  have v: "read_digits 16 ?z = unat s"
    by (simp add: zero_pad_def read_digits_zeros fmt_x_def read_print_nat)
  have "unat s \<le> 2 ^ 64 - 1" using unsigned_less [of s, where ?'a = nat] by simp
  then have n: "scan_num 16 16 (?z @ ''.cwr'') = Some (s, ''.cwr'')"
    using scan_num_digits [of 16 ?z "''.cwr''" 16] z length_zero_pad [of s] v
    by (simp add: digit_val_def)
  have "CHR 0x00 \<notin> set ?z" using zero_pad_digits [of "CHR 0x00" s] digit_not_special(6) by blast
  then have "c_str (seg_name s) = seg_name s" by (intro c_str_id) (simp add: seg_name_def)
  moreover have "sscanf seg_name_fmt (seg_name s) = [VNum s, VStr ''cwr'']"
    unfolding seg_name_fmt_def seg_name_def sscanf_lits using n
    by (simp add: lits_def isspace_def)
  ultimately show ?thesis by (simp add: seg_of_name_def)
qed

definition newer :: "u64 option \<Rightarrow> u64 \<Rightarrow> u64 option" where
  "newer found s = (case found of None \<Rightarrow> Some s | Some t \<Rightarrow> Some (max s t))"

lemma newest_of_fold: "newest_of found names = foldl newer found (List.map_filter seg_of_name names)"
  by (induction names arbitrary: found)
    (auto simp: newer_def max_def not_le List.map_filter_simps split: option.splits)

lemma foldl_newer: "foldl newer (Some t) xs = Some (Max (insert t (set xs)))"
proof (induction xs arbitrary: t)
  case (Cons x xs)
  have "Max (insert (max x t) (set xs)) = Max (insert t (insert x (set xs)))"
    by (cases "set xs = {}") (simp_all add: max.commute max.left_commute)
  then show ?case using Cons by (simp add: newer_def)
qed simp

lemma newest_of_Max:
  "newest_of None names =
     (let xs = List.map_filter seg_of_name names in if xs = [] then None else Some (Max (set xs)))"
  by (cases "List.map_filter seg_of_name names")
    (simp_all add: newest_of_fold newer_def [of None] foldl_newer Let_def)

section \<open>Closing\<close>

lemma same_log_at:
  assumes "same_log w w1" and "clocks_only wd wd1"
  shows "log_at w1 wd1 bs = log_at w wd bs"
  using assms by (simp add: log_at_def same_log_def file_is_clocks)

lemma commit_log_at:
  assumes "log_at w wd bs" and "buf_at w rs" and "w_open_batch w" and "wal_commit w wd = (Some (True, w'), wd')"
  shows "\<exists>c. log_ok (bs @ [rs @ [c]]) \<and> numbered (w_batch_seq0 w) (rs @ [c]) \<and>
    (\<forall>r \<in> set (rs @ [c]). h_boot_id (fst r) = w_boot_id w) \<and> buf_at w' [] \<and>
    w_next_txn w' = w_next_txn w + 1 \<and> w_next_seq w' = w_next_seq w + 1 \<and>
    (\<forall>p. w_fd w = Some p \<longrightarrow> file_is p wd' (bytes_of_log (concat (bs @ [rs @ [c]]))) []
      (length (bytes_of_log (concat (bs @ [rs @ [c]]))))) \<and> log_grown w' wd' (bs @ [rs @ [c]])"
proof -
  obtain p old where l: "w_fd w = Some p" "log_ok bs" "length (w_dir w) < 200"
    "file_is p wd (bytes_of_log (concat bs)) old (length (bytes_of_log (concat bs)))"
    "unat (w_seg_bytes w) = length (bytes_of_log (concat bs))"
    "length (bytes_of_log (concat bs)) < WAL_SEGMENT_BYTES"
    by (rule log_atD [OF assms(1)])
  have "length (bytes_of_log (concat bs)) < 2 ^ 63" using l(6) by simp
  from commit_true [OF assms(2,3) l(1,3,4,5) refl l(2) this assms(4)] l(1)
  show ?thesis by (simp only: option.inject) blast
qed

section \<open>Progress\<close>

lemma clocks_script: "clocks_only wd wd' \<Longrightarrow> wd_script wd' = wd_script wd"
  by (simp add: clocks_only_def)

text \<open>When the write and the fsync succeed and the segment is not full, the commit returns 0.\<close>

lemma commit_runs:
  assumes "buf_at w rs" and "w_open_batch w" and "w_fd w = Some p"
    and "wd_script wd = Done n # Done m # rest" and "WAL_BUF_BYTES \<le> n"
    and "unat (w_seg_bytes w) + WAL_BUF_BYTES < WAL_SEGMENT_BYTES"
  shows "\<exists>B wd'. wal_commit w wd = (Some (True, committed w B), wd') \<and> wd_script wd' = rest \<and> wd_refused wd' = wd_refused wd \<and>
    0 < unat (w_seg_bytes (committed w B)) \<and> unat (w_seg_bytes (committed w B)) \<le> unat (w_seg_bytes w) + WAL_BUF_BYTES"
proof -
  have src: "SRC_IS_VALID (w_src w)" and room: "length (w_buf w) + 60 \<le> WAL_BUF_BYTES"
    using assms(1) by (auto simp: buf_at_def)
  obtain mt wd1 where t1: "wal_now_mono wd = (Some mt, wd1)" and c1: "clocks_only wd wd1"
    using clock_reads(1) by blast
  obtain wt wd2 where t2: "wal_now_wall wd1 = (Some wt, wd2)" and c2: "clocks_only wd1 wd2"
    using clock_reads(2) by blast
  have sc: "wd_script wd2 = Done n # Done m # rest"
    using assms(4) c1 c2 by (simp add: clocks_script)
  define B where "B = w_buf w @ frame_of (rec_of w REC_COMMIT (w_src w) mt wt
     (bytes_of_commit \<lparr>c_txn_id = w_next_txn w, c_records = w_batch_samples w, c_reserved = 0\<rparr>))"
  have B: "length B \<le> WAL_BUF_BYTES" "B \<noteq> []"
    using room by (simp_all add: B_def flip: length_greater_0_conv)
  let ?w1 = "w\<lparr>w_buf := B, w_next_seq := w_next_seq w + 1\<rparr>"
  let ?wd3 = "upd_file p (\<lambda>f. f\<lparr>f_data := f_data f @ B\<rparr>) (wd2\<lparr>wd_script := Done m # rest\<rparr>)"
  have wr: "write_all (Some p) B wd2 = (Some True, ?wd3)"
    using B assms(5) by (simp add: write_all.simps [of _ B] write_all.simps [of _ "[]"] sys_write_def
        andthen_def sys_def sc)
  obtain wd4 where fs: "sys_fsync (Some p) ?wd3 = (Some True, wd4)" "wd_script wd4 = rest" "wd_refused wd4 = wd_refused wd"
    using c1 c2 by (simp add: sys_fsync_def andthen_def sys_ok_def sys_def ret_def clocks_only_def)
  have seg: "unat (w_seg_bytes w + word_of_nat (length B)) = unat (w_seg_bytes w) + length B"
    using unat_of_nat_u64 [of "unat (w_seg_bytes w) + length B"] B(1) assms(6) by simp
  then have "commit_done ?w1 wd4 = (Some (True, committed w B), wd4)"
    using B(1) assms(6) by (simp add: commit_done_def Let_def ret_def committed_def)
  then have "wal_commit w wd = (Some (True, committed w B), wd4)"
    unfolding wal_commit_def append_commit [OF src room]
    using assms(2,3) t1 t2 wr fs(1) by (simp add: andthen_def B_def [symmetric])
  moreover have "0 < unat (w_seg_bytes (committed w B))" "unat (w_seg_bytes (committed w B)) \<le> unat (w_seg_bytes w) + WAL_BUF_BYTES"
    using seg B by (simp_all add: committed_def)
  ultimately show ?thesis using fs(2,3) by blast
qed

lemma one_record_runs:
  assumes "buf_at w []" and "\<not> w_open_batch w" and "w_fd w = Some p"
    and "\<And>w. frame_ok (rec_of w kind src mt wt body)" and "kind \<noteq> REC_BEGIN" and "kind \<noteq> REC_COMMIT"
    and "unat k = length body"
    and "wd_script wd = Done n # Done m # rest" and "WAL_BUF_BYTES \<le> n"
    and "unat (w_seg_bytes w) + WAL_BUF_BYTES < WAL_SEGMENT_BYTES"
  shows "\<exists>w1 wd1 w' wd'. wal_add w kind src mt wt body k wd = (Some (True, w1), wd1) \<and>
    wal_commit w1 wd1 = (Some (True, w'), wd') \<and> wd_script wd' = rest \<and> w_fd w' = Some p \<and>
    unat (w_seg_bytes w') \<le> unat (w_seg_bytes w) + WAL_BUF_BYTES"
proof -
  have len: "length body \<le> REC_MAX_BODY" using frame_ok_len [OF assms(4)] by simp
  have room: "room_for w k" using assms(1,2,7) len by (auto simp: room_for_def buf_at_def)
  obtain m0 w0 n0 wd3 where c3: "clocks_only wd wd3"
    and add: "wal_add w kind src mt wt body k wd =
      (Some (add_rec (begun w m0 w0 n0) kind src mt wt body), wd3)"
    using wal_add_closed [OF assms(2,1) room, of body wd kind src mt wt] assms(7) by auto
  let ?w = "begun w m0 w0 n0"
  let ?r1 = "rec_of ?w kind src mt wt body"
  have ar: "add_rec ?w kind src mt wt body = (True, added ?w ?r1)"
    using assms(4) by (simp add: add_rec_def)
  have sl: "same_log ?w (added ?w ?r1)" and op: "w_open_batch (added ?w ?r1)"
    and buf: "buf_at (added ?w ?r1)
      ([rec_of w REC_BEGIN (w_src w) m0 w0 (bytes_of_begin (w_next_txn w))] @ [?r1])"
    using add_rec_spec [OF begun_buf_at [OF assms(1)] _ assms(5,6) _ ar] by simp_all
  have sc: "wd_script wd3 = Done n # Done m # rest" using assms(8) c3 by (simp add: clocks_script)
  have "same_log w (added ?w ?r1)" by (rule same_log_trans [OF begun_props(1) sl])
  then have fd: "w_fd (added ?w ?r1) = Some p"
    and seg: "unat (w_seg_bytes (added ?w ?r1)) + WAL_BUF_BYTES < WAL_SEGMENT_BYTES" "w_seg_bytes (added ?w ?r1) = w_seg_bytes w"
    using assms(3,10) by (simp_all add: same_log_def)
  show ?thesis using commit_runs [OF buf op fd sc assms(9) seg(1)] add ar fd seg(2) by auto
qed

lemma run_clocksI:
  assumes "\<And>mt wt wd2. wd_script wd2 = wd_script wd \<Longrightarrow> \<exists>y wd''. f mt wt wd2 = (Some y, wd'') \<and> P y wd''"
  shows "\<exists>y wd''. andthen wal_now_mono (\<lambda>mono. andthen wal_now_wall (f mono)) wd = (Some y, wd'') \<and> P y wd''"
  using assms by (simp add: andthen_def wal_now_mono_def wal_now_wall_def)

lemma open_boot_runs:
  assumes "buf_at w []" and "\<not> w_open_batch w" and "w_fd w = Some p" and "SRC_IS_VALID src"
    and "wd_script wd = Done n # Done m # rest" and "WAL_BUF_BYTES \<le> n"
    and "unat (w_seg_bytes w) + WAL_BUF_BYTES < WAL_SEGMENT_BYTES"
  shows "\<exists>y wd'. open_boot w src wd = (Some y, wd') \<and> fst y \<and> wd_script wd' = rest \<and> w_fd (snd y) = Some p \<and>
    unat (w_seg_bytes (snd y)) \<le> unat (w_seg_bytes w) + WAL_BUF_BYTES"
  unfolding open_boot_def
proof (rule run_clocksI, goal_cases)
  case (1 mt wt wd2)
  have len: "unat (12 :: u16) = length (bytes_of_boot (boot_record w))" by (simp add: bytes_of_boot_def)
  have ok: "frame_ok (rec_of w' REC_BOOT src mt wt (bytes_of_boot (boot_record w)))" for w'
    using assms(4) len by (simp add: frame_ok_def rec_of_def rec_ok_def kind_ok_def body_len_ok_def)
  have "wd_script wd2 = Done n # Done m # rest" using 1 assms(5) by simp
  from one_record_runs [OF assms(1-3) ok _ _ len this assms(6,7)]
  show ?case by (auto simp: andthen_def ret_def)
qed

lemma close_batch_runs:
  assumes "buf_at w []" and "\<not> w_open_batch w" and "w_fd w = Some p"
    and "wd_script wd = Done n # Done m # rest" and "WAL_BUF_BYTES \<le> n"
    and "unat (w_seg_bytes w) + WAL_BUF_BYTES < WAL_SEGMENT_BYTES"
  shows "\<exists>y wd'. close_batch w reason wd = (Some y, wd') \<and> fst y \<and> wd_script wd' = rest \<and> w_fd (snd y) = Some p"
  unfolding close_batch_def
proof (rule run_clocksI, goal_cases)
  case (1 mt wt wd2)
  have len: "unat (8 :: u16) = length (bytes_of_shutdown reason)" by (simp add: bytes_of_shutdown_def)
  have ok: "frame_ok (rec_of w' REC_SHUTDOWN (w_src w) mt wt (bytes_of_shutdown reason))" for w'
    using assms(1) len by (simp add: frame_ok_def rec_of_def rec_ok_def kind_ok_def body_len_ok_def buf_at_def)
  have "wd_script wd2 = Done n # Done m # rest" using 1 assms(4) by simp
  from one_record_runs [OF assms(1-3) ok _ _ len this assms(5,6)]
  show ?case by (auto simp: andthen_def ret_def)
qed

section \<open>A concrete log\<close>

definition demo_path :: string where "demo_path = ''d/'' @ seg_name 0"

definition demo_wal :: wal where
  "demo_wal = wal_zero\<lparr>w_dir := ''d'', w_fd := Some demo_path, w_src := SRC_SYNTH, w_next_txn := 1,
     w_boot_id := 1\<rparr>"

definition demo_world :: "bytes \<Rightarrow> outcome list \<Rightarrow> world" where
  "demo_world D script =
     \<lparr>wd_files = [(demo_path, \<lparr>f_data = D, f_old = [], f_synced = length D, f_entry = True\<rparr>)],
      wd_script = script, wd_mono = (\<lambda>_. Some (5, 7)), wd_wall = (\<lambda>_. None), wd_refused = []\<rparr>"

text \<open>The same with a batch opened.\<close>

definition demo_open :: wal where
  "demo_open = begun demo_wal 1 2 3"

lemma demo_buf_at: "buf_at demo_wal []"
  by (simp add: demo_wal_def wal_zero_def buf_at_def SRC_IS_VALID_def)

lemma demo_open_buf_at:
  "buf_at demo_open [rec_of demo_wal REC_BEGIN SRC_SYNTH 1 2 (bytes_of_begin 1)]"
  unfolding demo_open_def using begun_buf_at [OF demo_buf_at, of 1 2 3] by (simp add: demo_wal_def)

lemma demo_open_open: "w_open_batch demo_open" "w_fd demo_open = Some demo_path" "w_seg_bytes demo_open = 0"
  by (simp_all add: demo_open_def begun_def demo_wal_def wal_zero_def)

lemma demo_file: "the_file demo_path (demo_world D s) = Some \<lparr>f_data = D, f_old = [], f_synced = length D, f_entry = True\<rparr>"
  by (simp add: the_file_def demo_world_def)

lemma demo_log_at: "log_at demo_wal (demo_world [] s) []" "log_at demo_open (demo_world [] s) []"
  by (simp_all add: log_at_def file_is_def demo_file demo_open_def begun_def)
    (simp_all add: demo_wal_def wal_zero_def demo_file)

lemma demo_commit_runs:
  "\<exists>w' wd'. wal_commit demo_open (demo_world [] [Done 20000, Done 0]) = (Some (True, w'), wd')"
  using commit_runs [OF demo_open_buf_at demo_open_open(1,2), of "demo_world [] [Done 20000, Done 0]" 20000 0 "[]"]
  by (auto simp: demo_world_def demo_open_open)

lemma demo_commit_fails:
  "\<exists>w' wd'. wal_commit demo_open (demo_world [] [Done 20, Failed, Done 0]) = (Some (False, w'), wd') \<and>
     wd_refused wd' = [] \<and> w_fd w' = Some demo_path"
proof -
  have src: "SRC_IS_VALID (w_src demo_open)" and room: "length (w_buf demo_open) + 60 \<le> WAL_BUF_BYTES"
    using demo_open_buf_at by (auto simp: buf_at_def)
  have len: "length (w_buf demo_open) = 52" by (simp add: demo_open_def)
  then have ne: "w_buf demo_open \<noteq> []" by auto
  show ?thesis
    unfolding wal_commit_def append_commit [OF src room]
    by (simp add: ne demo_open_open len wal_now_mono_def wal_now_wall_def andthen_def demo_world_def
        write_all.simps sys_write_def sys_def ret_def sys_ftruncate_def sys_ok_def commit_undo_def upd_file_def
        drop_batch_def)
qed

lemma demo_entries: "dir_entries ''d'' (demo_world D s) = [seg_name 0]"
proof -
  have "CHR ''/'' \<notin> set (seg_name 0)"
    using zero_pad_digits [of "CHR ''/''" 0] by (auto simp: seg_name_def digit_val_def)
  then show ?thesis by (simp add: dir_entries_def demo_world_def in_dir_def demo_path_def)
qed

lemma demo_open_runs:
  "\<exists>w' wd'. wal_open ''d'' SRC_SYNTH 0
     (demo_world [] ([Done 0, Done 0, Done 0, Done 0, Done 0, Done 0, Done 20000, Done 0] @ rest)) = (Some (True, w'), wd') \<and>
     wd_script wd' = rest \<and> w_fd w' = Some demo_path \<and> unat (w_seg_bytes w') \<le> WAL_BUF_BYTES"
proof -
  let ?w0 = "wal_zero\<lparr>w_src := SRC_SYNTH, w_flags := 0, w_dir := ''d''\<rparr>"
  have mk: "sys_ok (demo_world [] (Done 0 # s)) = (Some True, demo_world [] s)" for s
    by (simp add: sys_ok_def andthen_def sys_def ret_def demo_world_def)
  have nw: "newest_segment ''d'' (demo_world [] (Done 0 # Done 0 # s)) = (Some (Inr (Some 0)), demo_world [] s)" for s
    by (simp add: newest_segment_def andthen_def mk ret_def demo_entries seg_of_name_seg_name)
  have path: "seg_path 256 ''d'' 0 = demo_path" by (simp add: seg_path_eq demo_path_def)
  have sc: "wal_scan [] = summary []" using wal_scan_log [of "[]"] by simp
  have rec: "recover_segment ?w0 0 (demo_world [] (Done 0 # Done 0 # Done 0 # s)) =
      (Some (True, recovered_wal ?w0 demo_path []), demo_world [] s)" for s
    unfolding recover_segment_def
    by (simp add: path andthen_def sys_open_def mk demo_file ret_def read_all.simps cut_back_def sc
        summary_def recovered_wal_def)
  let ?w = "resume (recovered_wal ?w0 demo_path []) 0"
  have seg: "w_seg_bytes ?w = 0" by (simp add: resume_def recovered_wal_def Let_def sc summary_def)
  have boot: "\<exists>y wd'. open_boot ?w SRC_SYNTH (demo_world [] ([Done 20000, Done 0] @ rest)) = (Some y, wd') \<and> fst y \<and>
      wd_script wd' = rest \<and> w_fd (snd y) = Some demo_path \<and> unat (w_seg_bytes (snd y)) \<le> unat (w_seg_bytes ?w) + WAL_BUF_BYTES"
    by (rule open_boot_runs [where p = demo_path and n = 20000 and m = 0])
      (simp_all add: resume_def recovered_wal_def Let_def wal_zero_def buf_at_def SRC_IS_VALID_def
        demo_world_def sc summary_def)
  show ?thesis
    using boot unfolding wal_open_def seg
    by (auto simp: snprintf_def andthen_def mk nw open_segment_def rec Let_def)
qed

section \<open>Properties\<close>

text \<open>C17: a commit is atomic and durable, whatever the system calls do and wherever the process or
  the power stops. Let the open segment hold the batches \<open>bs\<close> and the buffer an open batch with
  the records \<open>rs\<close>. However \<open>wal_commit\<close> ends, what a power cut then leaves of the file is
  recovered as a log that begins with \<open>bs\<close>; when no earlier truncation is pending it is
  recovered as \<open>bs\<close> or as \<open>bs\<close> followed by the whole new batch; and when \<open>wal_commit\<close> returned 0
  it is always the latter.\<close>

theorem wal_commit_atomic:
  assumes "log_at w wd bs" and "buf_at w rs" and "w_open_batch w" and "w_fd w = Some p"
    and "the_file p wd = Some f0" and "wal_commit w wd = (r, wd')"
  shows "\<exists>c f. log_ok (bs @ [rs @ [c]]) \<and> the_file p wd' = Some f \<and>
    (\<forall>img. image_of f img \<longrightarrow>
       (\<exists>cs. recovers img (bs @ cs)) \<and>
       (f_old f0 = [] \<longrightarrow> recovers img bs \<or> recovers img (bs @ [rs @ [c]])) \<and>
       (\<forall>w'. r = Some (True, w') \<longrightarrow> recovers img (bs @ [rs @ [c]])))"
proof -
  let ?D = "bytes_of_log (concat bs)"
  obtain q old c where q: "w_fd w = Some q" and e: "log_ok (bs @ [rs @ [c]])" "file_is q wd ?D old (length ?D)"
    "\<forall>d \<in> set old. prefix ?D d" "commit_end (wd_refused wd) w q ?D (bytes_of_log (rs @ [c])) old (length ?D) r wd'"
    by (rule commit_ends [OF assms(1-3,6)])
  have "q = p" using q assms(4) by simp
  note e = e [unfolded this]
  let ?B = "bytes_of_log (rs @ [c])"
  have DB: "?D @ ?B = bytes_of_log (concat (bs @ [rs @ [c]]))" by simp
  obtain f where f: "the_file p wd' = Some f"
    and im: "\<And>img. image_of f img \<Longrightarrow> length ?D \<le> length img \<and> (\<exists>d \<in> set ((?D @ ?B) # old). prefix img d) \<and>
      (\<forall>w'. r = Some (True, w') \<longrightarrow> img = ?D @ ?B)"
    using commit_images [OF e(4) order.refl] by blast
  have old: "old = f_old f0" using e(2) assms(5) by (simp add: file_is_def)
  have "(\<exists>cs. recovers img (bs @ cs)) \<and>
       (f_old f0 = [] \<longrightarrow> recovers img bs \<or> recovers img (bs @ [rs @ [c]])) \<and>
       (\<forall>w'. r = Some (True, w') \<longrightarrow> recovers img (bs @ [rs @ [c]]))" if "image_of f img" for img
  proof -
    note i = im [OF that]
    obtain d where d: "d \<in> set ((?D @ ?B) # old)" "prefix img d" using i by blast
    have "prefix ?D d" using d(1) e(3) by auto
    then have "prefix ?D img" using i d(2) prefix_length_prefix by blast
    then obtain junk where "img = ?D @ junk" by (auto elim: prefixE)
    then have 1: "\<exists>cs. recovers img (bs @ cs)" using recovers_prefix [of bs junk] e(1) by simp
    have 2: "recovers img (if img = ?D @ ?B then bs @ [rs @ [c]] else bs)" if "prefix img (?D @ ?B)"
      using recovers_torn [OF e(1)] that i unfolding DB by blast
    have 3: "recovers img bs \<or> recovers img (bs @ [rs @ [c]])" if "f_old f0 = []"
      using 2 d that old by (cases "img = ?D @ ?B") auto
    have 4: "recovers img (bs @ [rs @ [c]])" if "r = Some (True, w')" for w'
      using 2 i that by simp
    show ?thesis using 1 3 4 by blast
  qed
  then show ?thesis using e(1) f by blast
qed

theorem wal_commit_atomic_witness:
  "\<exists>w' wd' c f. wal_commit demo_open (demo_world [] [Done 20000, Done 0]) = (Some (True, w'), wd') \<and>
     the_file demo_path wd' = Some f \<and>
     (\<forall>img. image_of f img \<longrightarrow> recovers img [[rec_of demo_wal REC_BEGIN SRC_SYNTH 1 2 (bytes_of_begin 1), c]])"
proof -
  obtain w' wd' where r: "wal_commit demo_open (demo_world [] [Done 20000, Done 0]) = (Some (True, w'), wd')"
    using demo_commit_runs by blast
  show ?thesis
    using wal_commit_atomic [OF demo_log_at(2) demo_open_buf_at demo_open_open(1,2) demo_file r] r
    by auto
qed

text \<open>C22: a commit that returns 0 has moved the whole batch into the log: the file \<open>p\<close> that was open holds
  the batches it held and the new one, nothing else, and all of it on disk. That segment stays open, unless the
  batch has filled it (16 MiB): then a new, empty segment is open, named after the next sequence number. The buffer is empty,
  the records carry consecutive sequence numbers and this boot's number, and the transaction and sequence counters
  have moved on.\<close>

theorem wal_commit_ok:
  assumes "log_at w wd bs" and "buf_at w rs" and "w_open_batch w" and "w_fd w = Some p"
    and "wal_commit w wd = (Some (True, w'), wd')"
  shows "\<exists>c. let b = rs @ [c]; D = bytes_of_log (concat (bs @ [b])) in
    log_ok (bs @ [b]) \<and> numbered (w_batch_seq0 w) b \<and> (\<forall>r \<in> set b. h_boot_id (fst r) = w_boot_id w) \<and> buf_at w' [] \<and>
    w_next_txn w' = w_next_txn w + 1 \<and> w_next_seq w' = w_next_seq w + 1 \<and> file_is p wd' D [] (length D) \<and>
    (if length D < WAL_SEGMENT_BYTES then log_at w' wd' (bs @ [b])
     else log_at w' wd' [] \<and> w_fd w' = Some (seg_path 256 (w_dir w') (w_next_seq w')))"
  using commit_log_at [OF assms(1-3,5)] assms(4) unfolding Let_def log_grown_def by blast

theorem wal_commit_ok_witness:
  "\<exists>w' wd' c. wal_commit demo_open (demo_world [] [Done 20000, Done 0]) = (Some (True, w'), wd') \<and>
     buf_at w' [] \<and> w_next_txn w' = 2 \<and>
     log_at w' wd' [[rec_of demo_wal REC_BEGIN SRC_SYNTH 1 2 (bytes_of_begin 1), c]]"
proof -
  let ?b = "rec_of demo_wal REC_BEGIN SRC_SYNTH 1 2 (bytes_of_begin 1)"
  obtain w' wd' where r: "wal_commit demo_open (demo_world [] [Done 20000, Done 0]) = (Some (True, w'), wd')"
    using demo_commit_runs by blast
  obtain c where c: "log_ok ([] @ [[?b] @ [c]])" "buf_at w' []" "w_next_txn w' = w_next_txn demo_open + 1"
    "if length (bytes_of_log (concat ([] @ [[?b] @ [c]]))) < WAL_SEGMENT_BYTES then log_at w' wd' ([] @ [[?b] @ [c]])
     else log_at w' wd' [] \<and> w_fd w' = Some (seg_path 256 (w_dir w') (w_next_seq w'))"
    using wal_commit_ok [OF demo_log_at(2) demo_open_buf_at demo_open_open(1,2) r] unfolding Let_def by blast
  have "frame_ok ?b" "frame_ok c" using c(1) by simp_all
  then have "length (bytes_of_log (concat ([] @ [[?b] @ [c]]))) < WAL_SEGMENT_BYTES"
    using frame_ok_len [of ?b] frame_ok_len [of c] by simp
  moreover have "w_next_txn demo_open = 1" by (simp add: demo_open_def begun_def demo_wal_def)
  ultimately show ?thesis using r c(2-4) by (intro exI [of _ w'] exI [of _ wd'] exI [of _ c]) simp
qed

text \<open>C23: a commit that returns -1 leaves an empty buffer, and one of three things has happened. The batch was undone:
  the log is exactly as it was, with the counters set back so that the next batch takes the same numbers, and no
  truncation was refused. Or the call \<open>ftruncate\<close> on this file, to the length of the log before, failed: the counters
  are set back and a part of the batch stays at the end of the file. Or the batch is wholly on disk and has filled the
  segment, and the next segment could not be created: the log then has no segment open.\<close>

theorem wal_commit_failed:
  assumes "log_at w wd bs" and "buf_at w rs" and "w_open_batch w" and "w_fd w = Some p"
    and "wal_commit w wd = (Some (False, w'), wd')"
  shows "buf_at w' [] \<and> (\<exists>c. let D = bytes_of_log (concat bs); D' = bytes_of_log (concat (bs @ [rs @ [c]])) in
    log_ok (bs @ [rs @ [c]]) \<and>
    (w_next_seq w' = w_batch_seq0 w \<and> w_next_txn w' = w_next_txn w \<and> log_at w' wd' bs \<and> w_fd w' = Some p \<and>
       wd_refused wd' = wd_refused wd
     \<or> w_next_seq w' = w_batch_seq0 w \<and> w_next_txn w' = w_next_txn w \<and> wd_refused wd' = (p, length D) # wd_refused wd \<and>
       (\<exists>m old. file_is p wd' (take m D') old (length D))
     \<or> w_fd w' = None \<and> WAL_SEGMENT_BYTES \<le> length D' \<and> file_is p wd' D' [] (length D')))"
  using commit_failure [OF assms(1-3,5)] assms(4) unfolding Let_def by (simp only: option.inject) blast

theorem wal_commit_failed_witness:
  "\<exists>w' wd'. wal_commit demo_open (demo_world [] [Done 20, Failed, Done 0]) = (Some (False, w'), wd') \<and>
     buf_at w' [] \<and> log_at w' wd' [] \<and> w_next_seq w' = w_batch_seq0 demo_open \<and> w_next_txn w' = w_next_txn demo_open"
proof -
  obtain w' wd' where r: "wal_commit demo_open (demo_world [] [Done 20, Failed, Done 0]) = (Some (False, w'), wd')"
    "wd_refused wd' = []" "w_fd w' = Some demo_path"
    using demo_commit_fails by blast
  show ?thesis
    using wal_commit_failed [OF demo_log_at(2) demo_open_buf_at demo_open_open(1,2) r(1)] r unfolding Let_def by auto
qed

text \<open>adding a record. With a well-formed buffer \<open>wal_add\<close> always returns; it refuses with
  nothing changed when the record and the COMMIT to come would not both fit, so the COMMIT always
  fits later; otherwise the batch is open afterwards (a BEGIN is written when it was not), and the
  record is appended exactly when it is one the encoder accepts. The buffer stays well formed.\<close>

theorem wal_add_keeps_batch:
  assumes "buf_at w rs" and "kind \<noteq> REC_BEGIN" and "kind \<noteq> REC_COMMIT" and "unat body_len \<le> length body"
  shows "\<exists>good w' wd' rs0. wal_add w kind src mt wt body body_len wd = (Some (good, w'), wd') \<and>
    clocks_only wd wd' \<and> same_log w w' \<and>
    (if room_for w body_len
     then w_open_batch w' \<and> (if rs = [] then length rs0 = 1 else rs0 = rs) \<and>
          (\<exists>r. good = frame_ok r \<and> kind_of r = kind \<and> h_src (fst r) = src \<and> h_mono_ns (fst r) = mt \<and>
               snd r = take (unat body_len) body \<and> buf_at w' (if good then rs0 @ [r] else rs0))
     else \<not> good \<and> w' = w)"
  using assms by (rule wal_add_spec)

theorem wal_add_keeps_batch_witness:
  "\<exists>good w' wd' rs0. wal_add demo_wal REC_SAMPLE SRC_SYNTH 9 9 (replicate 12 0) 12 (demo_world [] []) =
       (Some (good, w'), wd') \<and>
    clocks_only (demo_world [] []) wd' \<and> same_log demo_wal w' \<and>
    (if room_for demo_wal 12
     then w_open_batch w' \<and> (if [] = ([] :: rec list) then length rs0 = 1 else rs0 = []) \<and>
          (\<exists>r. good = frame_ok r \<and> kind_of r = REC_SAMPLE \<and> h_src (fst r) = SRC_SYNTH \<and> h_mono_ns (fst r) = 9 \<and>
               snd r = take (unat (12 :: u16)) (replicate 12 0) \<and> buf_at w' (if good then rs0 @ [r] else rs0))
     else \<not> good \<and> w' = demo_wal)"
  by (rule wal_add_keeps_batch [OF demo_buf_at]) simp_all


text \<open>A segment cut off in its second batch, and how it is opened.\<close>

definition torn_log :: bytes where
  "torn_log = take 300 (bytes_of_log (concat [demo_batch 1 0, demo_batch 2 3]))"

lemma torn_log_scan: "wal_scan torn_log = (summary [demo_batch 1 0])\<lparr>sc_records_lost := 1\<rparr>" "length torn_log = 300"
proof -
  have "batches_within 300 [demo_batch 1 0, demo_batch 2 3] = [demo_batch 1 0]" by (simp add: demo_lengths Let_def)
  moreover have "samples_within 300 [demo_batch 1 0, demo_batch 2 3] = 2"
    by (simp add: samples_within_def demo_batch_def demo_rec_def)
  ultimately show "wal_scan torn_log = (summary [demo_batch 1 0])\<lparr>sc_records_lost := 1\<rparr>"
    using wal_scan_take [OF demo_log_ok, of 300] by (simp add: demo_lengths torn_log_def)
  show "length torn_log = 300" by (simp add: torn_log_def demo_lengths)
qed

definition open_script :: "outcome list" where
  "open_script = [Done 0, Done 0, Done 0, Done 0, Done 0, Done 0, Done 300, Done 0, Done 0, Done 20000, Done 0]"

lemma torn_open_runs: "\<exists>w' wd'. wal_open ''d'' SRC_SYNTH 0 (demo_world torn_log open_script) = (Some (True, w'), wd')"
proof -
  let ?w0 = "wal_zero\<lparr>w_src := SRC_SYNTH, w_flags := 0, w_dir := ''d''\<rparr>" and ?T = torn_log
  have mk: "sys_ok (demo_world ?T (Done 0 # s)) = (Some True, demo_world ?T s)" for s
    by (simp add: sys_ok_def andthen_def sys_def ret_def demo_world_def)
  have nw: "newest_segment ''d'' (demo_world ?T (Done 0 # Done 0 # s)) = (Some (Inr (Some 0)), demo_world ?T s)" for s
    by (simp add: newest_segment_def andthen_def mk ret_def demo_entries seg_of_name_seg_name)
  have path: "seg_path 256 ''d'' 0 = demo_path" by (simp add: seg_path_eq demo_path_def)
  have ne: "?T \<noteq> []" using torn_log_scan(2) by auto
  have end_rd: "read_all demo_path 300 ?T wd = (Some (Some ?T), wd)" for wd
    by (simp add: read_all.simps [of _ _ ?T] torn_log_scan(2))
  have rd: "read_all demo_path 300 [] (demo_world ?T (Done 300 # s)) = (Some (Some ?T), demo_world ?T s)" for s
    using demo_file [of ?T "Done 300 # s"] ne torn_log_scan(2)
    by (simp add: read_all.simps [of _ _ "[]"] end_rd Let_def) (simp add: demo_world_def end_rd)
  have keep: "sc_committed_len (wal_scan ?T) = 168" by (simp add: torn_log_scan(1) summary_def Let_def demo_lengths)
  have "\<exists>wd'. recover_segment ?w0 0 (demo_world ?T (Done 0 # Done 0 # Done 0 # Done 300 # Done 0 # Done 0 # s)) =
      (Some (True, recovered_wal ?w0 demo_path ?T), wd') \<and> wd_script wd' = s" for s
    unfolding recover_segment_def
    by (simp add: path andthen_def sys_open_def mk demo_file ret_def rd cut_back_def keep torn_log_scan(2) Let_def
        recovered_wal_def sys_ftruncate_def sys_fsync_def) (simp add: sys_ok_def andthen_def sys_def ret_def demo_world_def)
  then obtain wd1 where rec: "recover_segment ?w0 0 (demo_world ?T (Done 0 # Done 0 # Done 0 # Done 300 # Done 0 # Done 0 #
      [Done 20000, Done 0])) = (Some (True, recovered_wal ?w0 demo_path ?T), wd1)" "wd_script wd1 = [Done 20000, Done 0]" by blast
  let ?w = "resume (recovered_wal ?w0 demo_path ?T) 0"
  have "\<exists>y wd'. open_boot ?w SRC_SYNTH wd1 = (Some y, wd') \<and> fst y \<and> wd_script wd' = [] \<and> w_fd (snd y) = Some demo_path \<and>
      unat (w_seg_bytes (snd y)) \<le> unat (w_seg_bytes ?w) + WAL_BUF_BYTES"
    by (rule open_boot_runs [where p = demo_path and n = 20000 and m = 0])
      (simp_all add: resume_def recovered_wal_def Let_def wal_zero_def buf_at_def SRC_IS_VALID_def rec(2) keep)
  then show ?thesis
    unfolding wal_open_def open_script_def using rec(1)
    by (auto simp: snprintf_def andthen_def mk nw open_segment_def Let_def)
qed


text \<open>the newest segment is found by name. The name \<open>seg_path\<close> gives a segment is read back as
  its first sequence number, and \<open>newest_segment\<close> picks the largest number among the names of
  the directory that are segment names, whatever their order, and none when there is none.\<close>

theorem newest_segment_is_max:
  "seg_of_name (seg_name s) = Some s \<and>
   newest_of None names =
     (let xs = List.map_filter seg_of_name names in if xs = [] then None else Some (Max (set xs)))"
  by (simp add: seg_of_name_seg_name newest_of_Max)

text \<open>A segment that reads as cleanly ended.\<close>

definition clean_end :: "bytes \<Rightarrow> bool" where
  "clean_end D \<longleftrightarrow> sc_ended_clean (wal_scan D) \<and> sc_committed_len (wal_scan D) = length D \<and>
     sc_records_lost (wal_scan D) = 0"

lemma close_batch_clean:
  assumes "log_at w wd bs" and "buf_at w []" and "close_batch w reason wd = (Some (True, w'), wd')"
  shows "\<exists>p D. w_fd w = Some p \<and> has_data p wd' D \<and> clean_end D"
proof -
  have nop: "\<not> w_open_batch w" using assms(2) by (auto simp: buf_at_def open_part_def)
  obtain mt wt wd3 where c: "clocks_only wd wd3"
    and r4: "andthen (wal_add w REC_SHUTDOWN (w_src w) mt wt (bytes_of_shutdown reason) 8)
        (\<lambda>(added, w2). if added then wal_commit w2 else ret (False, w2)) wd3 = (Some (True, w'), wd')"
    using assms(3) unfolding close_batch_def by (rule run_clocks)
  obtain w3 wd4 where a: "wal_add w REC_SHUTDOWN (w_src w) mt wt (bytes_of_shutdown reason) 8 wd3 = (Some (True, w3), wd4)"
    and cm: "wal_commit w3 wd4 = (Some (True, w'), wd')"
    using r4 by (elim run_andthenE) (auto simp: ret_def split: if_splits)
  obtain p old where l: "w_fd w = Some p" "log_ok bs" "length (w_dir w) < 200"
    "file_is p wd (bytes_of_log (concat bs)) old (length (bytes_of_log (concat bs)))"
    "unat (w_seg_bytes w) = length (bytes_of_log (concat bs))"
    "length (bytes_of_log (concat bs)) < WAL_SEGMENT_BYTES"
    by (rule log_atD [OF assms(1)])
  have hd: "has_data p wd3 (bytes_of_log (concat bs))"
    using l(4) c by (auto simp: has_data_file_is file_is_clocks)
  have len: "unat (8 :: u16) = length (bytes_of_shutdown reason)" "length (bytes_of_shutdown reason) \<le> REC_MAX_BODY"
    by (simp_all add: bytes_of_shutdown_def)
  have b63: "length (bytes_of_log (concat bs)) < 2 ^ 63" using l(6) by simp
  obtain r0 r1 r2 where ok: "log_ok (bs @ [[r0, r1, r2]])" and k: "kind_of r1 = REC_SHUTDOWN"
    and fi: "file_is p wd' (bytes_of_log (concat (bs @ [[r0, r1, r2]]))) [] (length (bytes_of_log (concat (bs @ [[r0, r1, r2]]))))"
    using one_record_batch [OF assms(2) nop l(1,3) hd l(5) refl l(2) b63 len _ _ a cm]
    unfolding Let_def by auto
  then have d: "has_data p wd' (bytes_of_log (concat (bs @ [[r0, r1, r2]])))" by (auto simp: has_data_file_is)
  have "clean_end (bytes_of_log (concat (bs @ [[r0, r1, r2]])))"
    unfolding clean_end_def wal_scan_log [OF ok] using k by (simp add: summary_def Let_def)
  with l(1) d show ?thesis by blast
qed

lemma close_commit:
  assumes "log_at w wd bs" and "buf_at w rs" and "wal_commit w wd = (Some (True, w'), wd')"
  shows "\<exists>bs'. log_at w' wd' bs' \<and> buf_at w' [] \<and> (\<not> w_open_batch w \<longrightarrow> w' = w)"
proof (cases "w_open_batch w")
  case True
  then show ?thesis using commit_log_at [OF assms(1,2) True assms(3)] log_grownD by blast
next
  case False
  then have "w' = w" "wd' = wd" "rs = []"
    using assms(2,3) by (auto simp: wal_commit_def ret_def buf_at_def)
  then show ?thesis using assms(1,2) by blast
qed

text \<open>a clean stop is recognised. When \<open>wal_close\<close> returns 0, the segment its SHUTDOWN batch
  went to (the one open before, when no batch was pending) reads as a clean end: the scan finds a
  SHUTDOWN as the last committed record, keeps the whole file and finds nothing lost. (When that
  very batch filled the segment, \<open>wal_commit\<close> has also opened a new, empty one.)\<close>

theorem wal_close_is_clean:
  assumes "log_at w wd bs" and "buf_at w rs" and "wal_close w reason wd = (Some (True, w'), wd')"
  shows "\<exists>p D. has_data p wd' D \<and> clean_end D \<and> (\<not> w_open_batch w \<longrightarrow> w_fd w = Some p) \<and> w_fd w' = None"
proof -
  obtain w1 wd1 where c1: "wal_commit w wd = (Some (True, w1), wd1)" and
    "\<exists>w2 wd2. close_batch w1 reason wd1 = (Some (True, w2), wd2) \<and> wd_files wd' = wd_files wd2 \<and> w_fd w' = None"
    using assms(3) unfolding wal_close_def
    by (auto elim!: run_andthenE simp: ret_def sys_close_def dest!: run_sys_ok split: if_splits option.splits)
  then obtain w2 wd2 where c2: "close_batch w1 reason wd1 = (Some (True, w2), wd2)"
    and f: "wd_files wd' = wd_files wd2" and w': "w_fd w' = None" by blast
  obtain bs1 where l1: "log_at w1 wd1 bs1" "buf_at w1 []" "\<not> w_open_batch w \<longrightarrow> w1 = w"
    using close_commit [OF assms(1,2) c1] by blast
  obtain p D where "w_fd w1 = Some p" "has_data p wd2 D" "clean_end D"
    using close_batch_clean [OF l1(1,2) c2] by blast
  moreover have "has_data p wd' D = has_data p wd2 D" using f by (simp add: has_data_def the_file_def)
  ultimately show ?thesis using l1(3) w' by blast
qed

lemma demo_simps:
  "w_fd demo_wal = Some demo_path" "\<not> w_open_batch demo_wal" "w_seg_bytes demo_wal = 0"
  "wd_script (demo_world D s) = s"
  by (simp_all add: demo_wal_def wal_zero_def demo_world_def)

theorem wal_close_is_clean_witness:
  "\<exists>w' wd' p D. wal_close demo_wal 2 (demo_world [] [Done 20000, Done 0, Done 0]) = (Some (True, w'), wd') \<and>
     has_data p wd' D \<and> clean_end D"
proof -
  have "\<exists>y wd'. close_batch demo_wal 2 (demo_world [] [Done 20000, Done 0, Done 0]) = (Some y, wd') \<and>
      fst y \<and> wd_script wd' = [Done 0] \<and> w_fd (snd y) = Some demo_path"
    by (rule close_batch_runs [OF demo_buf_at demo_simps(2,1,4)]) (simp_all add: demo_simps)
  then obtain w1 wd1 where y: "close_batch demo_wal 2 (demo_world [] [Done 20000, Done 0, Done 0]) = (Some (True, w1), wd1)"
    "wd_script wd1 = [Done 0]" "w_fd w1 = Some demo_path" by auto
  obtain w' wd' where r: "wal_close demo_wal 2 (demo_world [] [Done 20000, Done 0, Done 0]) = (Some (True, w'), wd')"
    using y demo_simps(2) by (simp add: wal_close_def wal_commit_def andthen_def ret_def sys_close_def sys_ok_def sys_def)
  show ?thesis
    using wal_close_is_clean [OF demo_log_at(1) demo_buf_at r] r by blast
qed

section \<open>Two failures the caller is not told about\<close>

text \<open>The frames start with the magic number, so a stray first byte before them hides them.\<close>

lemma frame_of_magic: "frame_ok r \<Longrightarrow> \<exists>rest. frame_of r = 67 # 87 # 82 # 49 # rest"
proof -
  assume "frame_ok r"
  then have "h_magic (fst r) = REC_MAGIC" by (simp add: frame_ok_def rec_ok_def)
  then show ?thesis
    by (simp add: frame_of_def frame_def Let_def bytes_of_hdr_def le_bytes_numeral)
qed

lemma stray_byte_hides:
  assumes "frame_ok r"
  shows "wal_scan (67 # frame_of r @ rest) = scan_zero"
proof -
  obtain t where t: "frame_of r = 67 # 87 # 82 # 49 # t" using frame_of_magic [OF assms] by blast
  have "h_magic (hdr_of_bytes (67 # frame_of r @ rest)) \<noteq> REC_MAGIC"
    by (simp add: t hdr_of_bytes_def field_def)
  then have "read_frame (67 # frame_of r @ rest) = None"
    by (simp add: read_frame_def rec_decode_def Let_def)
  then have "log_split [] [] (rc.frames (67 # frame_of r @ rest)) = ([], [])"
    by (simp add: rc.frames_None)
  from wal_scan_split [OF this] show ?thesis
    by (simp add: summary_def scan_zero_def Let_def numeral_2_eq_2)
qed

text \<open>The concrete world again, with any part of the file on disk.\<close>

definition demo_disk :: "(string \<times> nat) list \<Rightarrow> bytes \<Rightarrow> nat \<Rightarrow> outcome list \<Rightarrow> world" where
  "demo_disk R D n script = (demo_world D script)\<lparr>wd_refused := R, wd_files :=
     [(demo_path, \<lparr>f_data = D, f_old = [], f_synced = n, f_entry = True\<rparr>)]\<rparr>"

lemma demo_disk_simps:
  "demo_world D s = demo_disk [] D (length D) s"
  "sys (demo_disk R D n (oc # s)) = (Some oc, demo_disk R D n s)"
  "sys_ok (demo_disk R D n (oc # s)) = (Some (case oc of Done _ \<Rightarrow> True | _ \<Rightarrow> False), demo_disk R D n s)"
  "wal_now_mono (demo_disk R D n s) = (Some 5000000007, demo_disk R D n s)"
  "wal_now_wall (demo_disk R D n s) = (Some 0, demo_disk R D n s)"
  "upd_file demo_path (\<lambda>f. f\<lparr>f_data := f_data f @ B\<rparr>) (demo_disk R D n s) = demo_disk R (D @ B) n s"
  "upd_file demo_path (\<lambda>f. f\<lparr>f_old := [], f_synced := length (f_data f)\<rparr>) (demo_disk R D n s) = demo_disk R D (length D) s"
  "(demo_disk R D n s)\<lparr>wd_refused := R'\<rparr> = demo_disk R' D n s" "wd_refused (demo_disk R D n s) = R"
  "the_file demo_path (demo_disk R D n s) = Some \<lparr>f_data = D, f_old = [], f_synced = n, f_entry = True\<rparr>"
  by (simp_all add: demo_disk_def demo_world_def sys_def sys_ok_def andthen_def ret_def wal_now_mono_def
      wal_now_wall_def ns_of_clock_def upd_file_def the_file_def)

lemma demo_write:
  "B \<noteq> [] \<Longrightarrow> write_all (Some demo_path) B (demo_disk R D n (Done k # s)) =
     write_all (Some demo_path) (drop (min k (length B)) B) (demo_disk R (D @ take k B) n s)"
  "B \<noteq> [] \<Longrightarrow> write_all (Some demo_path) B (demo_disk R D n (Failed # s)) = (Some False, demo_disk R D n s)"
  "write_all fd [] wd = (Some True, wd)"
  by (simp_all add: write_all.simps [of _ B] write_all.simps [of _ "[]"] sys_write_def andthen_def
      demo_disk_simps ret_def)

text \<open>when undoing a failed commit fails too, later batches are acknowledged and lost. Here the
  first commit writes one byte before the disk reports an error, and the truncation that should
  remove it fails; that is only logged. The next batch is written, synced and reported durable,
  but recovery finds nothing in the file.\<close>

theorem undo_failure_loses_acknowledged_batch:
  "\<exists>w1 wd1 w2 wd2 f.
     wal_commit demo_open (demo_world [] [Done 1, Failed, Failed, Done 20000, Done 0]) = (Some (False, w1), wd1) \<and>
     wal_commit (begun w1 1 2 3) wd1 = (Some (True, w2), wd2) \<and>
     the_file demo_path wd2 = Some f \<and> f_synced f = length (f_data f) \<and>
     wal_scan (f_data f) = scan_zero"
proof -
  let ?b = "rec_of demo_wal REC_BEGIN SRC_SYNTH 1 2 (bytes_of_begin 1)"
  let ?w = "drop_batch demo_open"
  let ?w2 = "begun ?w 1 2 3"
  have ok: "frame_ok ?b" and buf: "w_buf demo_open = frame_of ?b" and src: "SRC_IS_VALID (w_src demo_open)"
    and room: "length (w_buf demo_open) + 60 \<le> WAL_BUF_BYTES"
    using demo_open_buf_at by (simp_all add: buf_at_def)
  obtain t where t: "frame_of ?b = 67 # 87 # t" using frame_of_magic [OF ok] by blast
  have r1: "wal_commit demo_open (demo_world [] [Done 1, Failed, Failed, Done 20000, Done 0]) =
      (Some (False, ?w), demo_disk [(demo_path, 0)] [67] 0 [Done 20000, Done 0])"
    unfolding wal_commit_def append_commit [OF src room]
    by (simp add: demo_open_open demo_disk_simps andthen_def buf t demo_write commit_undo_def
        sys_ftruncate_def ret_def drop_batch_def)
  have b2: "w_buf ?w2 = frame_of ?b" "w_fd ?w2 = Some demo_path" "w_open_batch ?w2" "w_seg_bytes ?w2 = 0"
    by (simp_all add: begun_def drop_batch_def demo_open_open rec_of_def demo_open_def demo_wal_def wal_zero_def)
  have src2: "SRC_IS_VALID (w_src ?w2)" and room2: "length (w_buf ?w2) + 60 \<le> WAL_BUF_BYTES"
    using begun_buf_at [OF buf_at_after(1) [OF demo_open_buf_at], of 1 2 3] by (simp_all add: buf_at_def)
  define B where "B = frame_of (rec_of ?w2 REC_COMMIT (w_src ?w2) 5000000007 0 (bytes_of_commit
      \<lparr>c_txn_id = w_next_txn ?w2, c_records = w_batch_samples ?w2, c_reserved = 0\<rparr>))"
  have len: "length (frame_of ?b @ B) = 112" by (simp add: B_def rec_of_def)
  then have ne: "frame_of ?b @ B \<noteq> []" by auto
  have wr: "write_all (Some demo_path) (frame_of ?b @ B) (demo_disk [(demo_path, 0)] [67] 0 [Done 20000, Done 0]) =
      (Some True, demo_disk [(demo_path, 0)] (67 # frame_of ?b @ B) 0 [Done 0])"
    using demo_write(1) [OF ne, of "[(demo_path, 0)]" "[67]" 0 20000 "[Done 0]"] len demo_write(3) by simp
  obtain w2 where r2: "wal_commit ?w2 (demo_disk [(demo_path, 0)] [67] 0 [Done 20000, Done 0]) =
      (Some (True, w2), demo_disk [(demo_path, 0)] (67 # frame_of ?b @ B) (Suc (length (frame_of ?b @ B))) [])"
    unfolding wal_commit_def append_commit [OF src2 room2] using len
    by (simp add: b2 demo_disk_simps andthen_def B_def [symmetric] wr sys_fsync_def ret_def
        commit_done_def Let_def del: length_append length_frame_of)
  have "wal_scan (67 # frame_of ?b @ B) = scan_zero" by (rule stray_byte_hides [OF ok])
  with r1 r2 show ?thesis by (auto simp: demo_disk_simps)
qed

lemma frame_of_ne [simp]: "frame_of r \<noteq> []"
  using length_frame_of [of r] by (auto simp del: length_frame_of)

text \<open>Without a descriptor no commit succeeds.\<close>

lemma commit_no_fd:
  assumes "w_fd w = None" and "w_open_batch w" and "wal_commit w wd = (Some x, wd')"
  shows "\<not> fst x"
proof -
  have app: "w_fd w1 = None \<and> w_buf w1 \<noteq> []" if "append w REC_COMMIT s mt wt (bytes_of_commit c) 16 = Some w1" for s mt wt c w1
    using that assms(1) by (auto simp: append_eq Let_def split: if_splits)
  show ?thesis
    using assms(2,3) unfolding wal_commit_def
    by (auto simp: ret_def commit_undo_def sys_ftruncate_def write_all.simps
        elim!: run_andthenE dest!: app split: option.splits)
qed

text \<open>when a batch fills its segment and the next segment cannot be created, \<open>wal_commit\<close>
  returns -1 although the batch is wholly on disk and will be recovered, and the log is left
  without a descriptor, so that every later commit fails. The interface promises instead that
  after -1 the file is cut back and the batch discarded.\<close>

theorem rollover_failure_hides_durable_batch:
  assumes "log_at w wd bs" and "buf_at w rs" and "w_open_batch w"
    and "wal_commit w wd = (Some (False, w'), wd')" and "w_fd w' = None"
  shows "(\<exists>c p D. w_fd w = Some p \<and> log_ok (bs @ [rs @ [c]]) \<and> D = bytes_of_log (concat (bs @ [rs @ [c]])) \<and>
      file_is p wd' D [] (length D) \<and> recovers D (bs @ [rs @ [c]])) \<and>
    (\<forall>w2 wd2 x wd3. w_fd w2 = None \<and> w_open_batch w2 \<and> wal_commit w2 wd2 = (Some x, wd3) \<longrightarrow> \<not> fst x)"
proof
  obtain p old c where e: "w_fd w = Some p" "log_ok (bs @ [rs @ [c]])"
    "commit_end (wd_refused wd) w p (bytes_of_log (concat bs)) (bytes_of_log (rs @ [c])) old (length (bytes_of_log (concat bs)))
       (Some (False, w')) wd'"
    by (rule commit_ends [OF assms(1-4)])
  let ?D = "bytes_of_log (concat (bs @ [rs @ [c]]))"
  have "file_is p wd' ?D [] (length ?D)"
    using e(3) assms(5) e(1) by cases (simp_all add: drop_batch_def)
  moreover have "recovers ?D (bs @ [rs @ [c]])"
    using wal_scan_log [OF e(2)] e(2) by (simp add: recovers_def summary_def Let_def)
  ultimately show "\<exists>c p D. w_fd w = Some p \<and> log_ok (bs @ [rs @ [c]]) \<and> D = bytes_of_log (concat (bs @ [rs @ [c]])) \<and>
      file_is p wd' D [] (length D) \<and> recovers D (bs @ [rs @ [c]])"
    using e(1,2) by blast
  show "\<forall>w2 wd2 x wd3. w_fd w2 = None \<and> w_open_batch w2 \<and> wal_commit w2 wd2 = (Some x, wd3) \<longrightarrow> \<not> fst x"
    using commit_no_fd by blast
qed

text \<open>A segment with room for less than one more batch.\<close>

definition full_log :: "rec list list" where
  "full_log = replicate 99864 (demo_batch 1 0)"

lemma full_log_ok: "log_ok full_log"
  using demo_log_ok by (auto simp: full_log_def log_ok_def)

lemma full_log_length: "length (bytes_of_log (concat full_log)) = 16777152"
proof -
  have "length (bytes_of_log (concat (replicate n (demo_batch 1 0)))) = 168 * n" for n
    by (induction n) (simp_all add: demo_lengths)
  from this [of 99864] show ?thesis by (simp only: full_log_def)
qed

definition full_wal :: wal where
  "full_wal = demo_open\<lparr>w_seg_bytes := 16777152\<rparr>"

theorem rollover_failure_hides_durable_batch_witness:
  "\<exists>w' wd' D p bs. wal_commit full_wal (demo_world (bytes_of_log (concat full_log)) [Done 20000, Done 0, Done 0, Failed]) =
       (Some (False, w'), wd') \<and> file_is p wd' D [] (length D) \<and> recovers D (full_log @ bs) \<and> bs \<noteq> []"
proof -
  let ?D = "bytes_of_log (concat full_log)"
  let ?b = "rec_of demo_wal REC_BEGIN SRC_SYNTH 1 2 (bytes_of_begin 1)"
  have buf: "buf_at full_wal [?b]" using demo_open_buf_at demo_open_open(1) by (simp add: buf_at_def full_wal_def)
  have w: "w_open_batch full_wal" "w_fd full_wal = Some demo_path" "w_seg_bytes full_wal = 16777152"
    "w_dir full_wal = ''d''"
    by (simp_all add: full_wal_def demo_open_open) (simp add: demo_open_def begun_def demo_wal_def)
  have l: "log_at full_wal (demo_world ?D s) full_log" for s
    by (simp add: log_at_def Let_def full_log_ok full_log_length w file_is_def demo_file)
  have src: "SRC_IS_VALID (w_src full_wal)" and room: "length (w_buf full_wal) + 60 \<le> WAL_BUF_BYTES"
    and bb: "w_buf full_wal = frame_of ?b"
    using buf by (simp_all add: buf_at_def)
  define C where "C = frame_of (rec_of full_wal REC_COMMIT (w_src full_wal) 5000000007 0 (bytes_of_commit
      \<lparr>c_txn_id = w_next_txn full_wal, c_records = w_batch_samples full_wal, c_reserved = 0\<rparr>))"
  have len: "length (frame_of ?b @ C) = 112" by (simp add: C_def rec_of_def)
  then have ne: "frame_of ?b @ C \<noteq> []" by auto
  have wr: "write_all (Some demo_path) (frame_of ?b @ C) (demo_disk [] ?D n [Done 20000, Done 0, Done 0, Failed]) =
      (Some True, demo_disk [] (?D @ frame_of ?b @ C) n [Done 0, Done 0, Failed])" for n
    using demo_write(1) [OF ne, of "[]" ?D n 20000] len demo_write(3) by simp
  obtain w' wd' where r: "wal_commit full_wal (demo_world ?D [Done 20000, Done 0, Done 0, Failed]) = (Some (False, w'), wd')"
    and fd: "w_fd w' = None"
    unfolding wal_commit_def append_commit [OF src room] using len
    by (simp add: w bb demo_disk_simps andthen_def C_def [symmetric] wr sys_fsync_def ret_def
        commit_done_def Let_def sys_close_def create_segment_def sys_create_def
        del: length_append length_frame_of)
  show ?thesis
    using rollover_failure_hides_durable_batch [OF l buf w(1) r fd] r by blast
qed

end
