(* ===== verification/Ipc_Ring.thy ===== *)
theory Ipc_Ring
  imports Log_Src
begin

text \<open>
  The single-producer, single-consumer ring between capture and storage: \<open>include/ipc/ring.h\<close>
  and \<open>src/ipc/ring.c\<close>. The operations as the code has them, each run to its end, refine a
  bounded queue of slots (the locale \<open>slot_queue\<close>, interpreted on them). The theory
  \<open>Ring_Interleaving\<close> cuts the same code at its atomic accesses and interleaves the parties.
\<close>

section \<open>State\<close>

abbreviation (input) RING_CAPACITY :: u64 where "RING_CAPACITY \<equiv> 4096"
abbreviation (input) RING_MASK :: u64 where "RING_MASK \<equiv> 4095"
abbreviation (input) RING_MAGIC :: u32 where "RING_MAGIC \<equiv> 0x474E5243"
abbreviation (input) RING_VERSION :: u16 where "RING_VERSION \<equiv> 3"
abbreviation (input) SIZEOF_RING_SLOT :: u16 where "SIZEOF_RING_SLOT \<equiv> 40"

record ring_slot =
  sl_seq :: u64
  sl_mono_ns :: u64
  sl_mode :: u8
  sl_pid :: u8
  sl_len :: u8
  sl_src :: u8
  sl_value :: u32
  sl_data :: bytes

record ring =
  r_magic :: u32
  r_version :: u16
  r_slot_size :: u16
  r_capacity :: u32
  r_generation :: u64
  r_head :: u64
  r_tail :: u64
  r_overruns :: u64
  r_rejected :: u64
  r_slot :: "ring_slot list"

section \<open>The operations\<close>

definition zero_slot :: ring_slot where
  "zero_slot = \<lparr>sl_seq = 0, sl_mono_ns = 0, sl_mode = 0, sl_pid = 0, sl_len = 0, sl_src = 0,
     sl_value = 0, sl_data = replicate 16 0\<rparr>"

definition ring_init :: "ring \<Rightarrow> ring" where
  "ring_init r = r\<lparr>r_magic := RING_MAGIC, r_version := RING_VERSION,
     r_slot_size := SIZEOF_RING_SLOT, r_capacity := 4096,
     r_slot := replicate 4096 zero_slot,
     r_head := 0, r_tail := 0, r_overruns := 0, r_rejected := 0\<rparr>"

definition ring_layout_ok :: "ring \<Rightarrow> bool" where
  "ring_layout_ok r \<longleftrightarrow> r_magic r = RING_MAGIC \<and> r_version r = RING_VERSION \<and>
     r_slot_size r = SIZEOF_RING_SLOT \<and> r_capacity r = 4096"

text \<open>The place of position \<open>p\<close> in the slot array: \<open>p & MASK\<close>.\<close>

definition slot_ix :: "u64 \<Rightarrow> nat" where
  "slot_ix p = unat (p AND RING_MASK)"

definition ring_push :: "ring \<Rightarrow> ring_slot \<Rightarrow> ring \<times> bool" where
  "ring_push r x =
     (if \<not> SRC_IS_VALID (sl_src x) then (r\<lparr>r_rejected := r_rejected r + 1\<rparr>, False)
      else
        let head = r_head r; tail = r_tail r
        in if head - tail \<ge> RING_CAPACITY then (r\<lparr>r_overruns := r_overruns r + 1\<rparr>, False)
           else
             let slots = (r_slot r)[slot_ix head := x];
                 slots' = slots[slot_ix head := (slots ! slot_ix head)\<lparr>sl_seq := head\<rparr>]
             in (r\<lparr>r_slot := slots', r_head := head + 1\<rparr>, True))"

definition ring_peek :: "ring \<Rightarrow> u64 \<Rightarrow> ring_slot option" where
  "ring_peek r i =
     (let tail = r_tail r; head = r_head r
      in if head - tail \<le> i then None else Some (r_slot r ! slot_ix (tail + i)))"

definition ring_release :: "ring \<Rightarrow> u64 \<Rightarrow> ring \<times> bool" where
  "ring_release r n =
     (let tail = r_tail r; head = r_head r
      in if n > head - tail then (r, False) else (r\<lparr>r_tail := tail + n\<rparr>, True))"

definition ring_pop :: "ring \<Rightarrow> ring \<times> ring_slot option \<times> bool" where
  "ring_pop r =
     (case ring_peek r 0 of
        None \<Rightarrow> (r, None, False)
      | Some x \<Rightarrow> (case ring_release r 1 of (r', ok) \<Rightarrow> (r', Some x, ok)))"

definition ring_overruns :: "ring \<Rightarrow> u64" where
  "ring_overruns r = r_overruns r"

definition ring_rejected :: "ring \<Rightarrow> u64" where
  "ring_rejected r = r_rejected r"

definition ring_depth :: "ring \<Rightarrow> u64" where
  "ring_depth r = (let tail = r_tail r; head = r_head r in head - tail)"

section \<open>A bounded queue of slots\<close>

text \<open>
  What storage relies on. \<open>unread\<close> is the abstract state; \<open>stored q x\<close> is the form in which a
  pushed \<open>x\<close> is kept (the ring numbers its own slots).
\<close>

locale slot_queue =
  fixes push :: "'q \<Rightarrow> 'a \<Rightarrow> 'q \<times> bool" and peek :: "'q \<Rightarrow> u64 \<Rightarrow> 'a option"
    and release :: "'q \<Rightarrow> u64 \<Rightarrow> 'q \<times> bool"
    and unread :: "'q \<Rightarrow> 'a list" and inv :: "'q \<Rightarrow> bool"
    and admit :: "'a \<Rightarrow> bool" and stored :: "'q \<Rightarrow> 'a \<Rightarrow> 'a" and cap :: nat
  assumes push_inv: "inv q \<Longrightarrow> inv (fst (push q x))"
    and push_unread: "inv q \<Longrightarrow> unread (fst (push q x)) =
      (if admit x \<and> length (unread q) < cap then unread q @ [stored q x] else unread q)"
    and push_result: "inv q \<Longrightarrow> snd (push q x) \<longleftrightarrow> admit x \<and> length (unread q) < cap"
    and peek_unread: "inv q \<Longrightarrow> peek q i =
      (if unat i < length (unread q) then Some (unread q ! unat i) else None)"
    and release_inv: "inv q \<Longrightarrow> inv (fst (release q n))"
    and release_unread: "inv q \<Longrightarrow> unread (fst (release q n)) =
      (if unat n \<le> length (unread q) then drop (unat n) (unread q) else unread q)"
    and release_result: "inv q \<Longrightarrow> snd (release q n) \<longleftrightarrow> unat n \<le> length (unread q)"

datatype 'a queue_op = Push 'a | Release u64

context slot_queue
begin

text \<open>A history: the queue, everything it accepted, everything it released.\<close>

fun history :: "'q \<times> 'a list \<times> 'a list \<Rightarrow> 'a queue_op list \<Rightarrow> 'q \<times> 'a list \<times> 'a list" where
  "history h [] = h"
| "history (q, acc, rel) (Push x # ops) =
     (case push q x of (q', ok) \<Rightarrow> history (q', if ok then acc @ [stored q x] else acc, rel) ops)"
| "history (q, acc, rel) (Release n # ops) =
     (case release q n of (q', ok) \<Rightarrow>
        history (q', acc, if ok then rel @ take (unat n) (unread q) else rel) ops)"

lemma history_accounts:
  "inv q \<Longrightarrow> acc = rel @ unread q \<Longrightarrow> history (q, acc, rel) ops = (q', acc', rel') \<Longrightarrow>
     inv q' \<and> acc' = rel' @ unread q'"
proof (induction "(q, acc, rel)" ops arbitrary: q acc rel rule: history.induct)
  case (2 q acc rel x ops)
  obtain q1 ok where p: "push q x = (q1, ok)" by fastforce
  then have "inv q1" "ok \<longleftrightarrow> admit x \<and> length (unread q) < cap"
    "unread q1 = (if ok then unread q @ [stored q x] else unread q)"
    using push_inv [of q x] push_result [of q x] push_unread [of q x] 2 by auto
  with 2 p show ?case by (cases ok) auto
next
  case (3 q acc rel n ops)
  obtain q1 ok where p: "release q n = (q1, ok)" by fastforce
  then have "inv q1" "unread q1 = (if ok then drop (unat n) (unread q) else unread q)"
    using release_inv [of q n] release_result [of q n] release_unread [of q n] 3 by auto
  with 3 p show ?case by (cases ok) auto
qed auto

text \<open>Reading ahead and then releasing consumes exactly what was read.\<close>

lemma peek_then_release:
  assumes "inv q" and "\<forall>i < unat n. \<exists>x. peek q (word_of_nat i) = Some x"
  shows "snd (release q n)"
    and "map (\<lambda>i. the (peek q (word_of_nat i))) [0..<unat n] @ unread (fst (release q n)) = unread q"
proof -
  have u: "unat (word_of_nat i :: u64) = i" if "i < unat n" for i
  proof -
    have "unat n < 2 ^ LENGTH(64)" by (rule unsigned_less)
    then show ?thesis using that by (intro unat_of_nat_u64) simp
  qed
  have le: "unat n \<le> length (unread q)"
  proof (rule ccontr)
    assume less: "\<not> unat n \<le> length (unread q)"
    then obtain x where "peek q (word_of_nat (length (unread q))) = Some x"
      using assms(2) not_le by blast
    then show False using assms(1) u [of "length (unread q)"] less by (simp add: peek_unread)
  qed
  then show "snd (release q n)" using assms(1) by (simp add: release_result)
  have "map (\<lambda>i. the (peek q (word_of_nat i))) [0..<unat n] = take (unat n) (unread q)"
    by (rule nth_equalityI) (use le u assms(1) in \<open>simp_all add: peek_unread\<close>)
  then show "map (\<lambda>i. the (peek q (word_of_nat i))) [0..<unat n] @ unread (fst (release q n)) = unread q"
    using le assms(1) by (simp add: release_unread)
qed

end

section \<open>The ring is such a queue\<close>

lemma slot_ix_less [simp]: "slot_ix p < 4096"
proof -
  have "slot_ix p = unat (take_bit 12 p)"
    by (simp add: slot_ix_def take_bit_eq_mask mask_eq_exp_minus_1)
  then show ?thesis using take_bit_nat_less_exp [of 12 "unat p"] by (simp add: unsigned_take_bit_eq)
qed

lemma slot_ix_of_nat: "slot_ix (word_of_nat k) = k mod 4096"
proof -
  have "slot_ix (word_of_nat k) = unat (take_bit 12 (word_of_nat k :: u64))"
    by (simp add: slot_ix_def take_bit_eq_mask mask_eq_exp_minus_1)
  also have "\<dots> = take_bit 12 (take_bit 64 k)"
    by (simp only: unsigned_take_bit_eq unsigned_of_nat len_num0 len_bit0 len_bit1 len_num1) simp
  also have "\<dots> = k mod 4096"
    by (simp only: take_bit_take_bit) (simp add: take_bit_eq_mod)
  finally show ?thesis .
qed

lemma slot_ix_add_inj:
  assumes "slot_ix (t + word_of_nat i) = slot_ix (t + word_of_nat j)" and "i \<le> j" and "j < i + 4096"
  shows "i = j"
proof -
  have t: "t = word_of_nat (unat t)" by simp
  have "(unat t + i) mod 4096 = (unat t + j) mod 4096"
    using assms(1) slot_ix_of_nat [of "unat t + i"] slot_ix_of_nat [of "unat t + j"] t by simp
  then have "(unat t + j) mod 4096 = (unat t + i) mod 4096" by simp
  then have "4096 dvd (unat t + j) - (unat t + i)"
    using assms(2) by (subst (asm) mod_eq_dvd_iff_nat) auto
  then have "4096 dvd j - i" by simp
  then show ?thesis using assms(2,3) dvd_imp_le [of 4096 "j - i"] by (cases "j - i = 0") auto
qed

definition unread :: "ring \<Rightarrow> ring_slot list" where
  "unread r = map (\<lambda>i. r_slot r ! slot_ix (r_tail r + word_of_nat i)) [0..<unat (r_head r - r_tail r)]"

text \<open>
  The ring's invariant: at most a ring's worth is unread, and every unread slot carries its own
  position and a valid label.
\<close>

definition ring_inv :: "ring \<Rightarrow> bool" where
  "ring_inv r \<longleftrightarrow> length (r_slot r) = 4096 \<and> unat (r_head r - r_tail r) \<le> 4096 \<and>
     (\<forall>i < length (unread r). sl_seq (unread r ! i) = r_tail r + word_of_nat i \<and>
        SRC_IS_VALID (sl_src (unread r ! i)))"

definition stored_slot :: "ring \<Rightarrow> ring_slot \<Rightarrow> ring_slot" where
  "stored_slot r x = x\<lparr>sl_seq := r_head r\<rparr>"

lemma length_unread [simp]: "length (unread r) = unat (r_head r - r_tail r)"
  by (simp add: unread_def)

lemma unread_nth: "i < unat (r_head r - r_tail r) \<Longrightarrow>
    unread r ! i = r_slot r ! slot_ix (r_tail r + word_of_nat i)"
  by (simp add: unread_def)

lemma ring_depth_unread: "unat (ring_depth r) = length (unread r)"
  by (simp add: ring_depth_def Let_def)

lemma full_iff: "head - tail \<ge> RING_CAPACITY \<longleftrightarrow> \<not> unat (head - tail) < 4096"
  by (simp add: word_le_nat_alt not_less)

lemma ring_push_unread:
  assumes "ring_inv r" and "SRC_IS_VALID (sl_src x)" and "length (unread r) < 4096"
  shows "ring_push r x =
      (r\<lparr>r_slot := (r_slot r)[slot_ix (r_head r) := stored_slot r x], r_head := r_head r + 1\<rparr>, True)"
    and "unread (fst (ring_push r x)) = unread r @ [stored_slot r x]"
proof -
  show push: "ring_push r x =
      (r\<lparr>r_slot := (r_slot r)[slot_ix (r_head r) := stored_slot r x], r_head := r_head r + 1\<rparr>, True)"
    using assms by (simp add: ring_push_def Let_def stored_slot_def ring_inv_def full_iff)
  let ?r = "fst (ring_push r x)" and ?n = "unat (r_head r - r_tail r)"
  have r: "r_head ?r = r_head r + 1" "r_tail ?r = r_tail r"
    "r_slot ?r = (r_slot r)[slot_ix (r_head r) := stored_slot r x]"
    by (simp_all add: push)
  have h: "r_head r = r_tail r + word_of_nat ?n" by simp
  have "r_head ?r - r_tail ?r = word_of_nat (Suc ?n)" unfolding r by simp
  moreover have "Suc ?n < 2 ^ 64" using assms(3) by simp
  ultimately have n: "unat (r_head ?r - r_tail ?r) = Suc ?n"
    by (simp only: unat_of_nat_u64)
  show "unread ?r = unread r @ [stored_slot r x]"
  proof (rule nth_equalityI)
    show "length (unread ?r) = length (unread r @ [stored_slot r x])" using n by simp
  next
    fix i assume "i < length (unread ?r)"
    then have i: "i < Suc ?n" using n by simp
    show "unread ?r ! i = (unread r @ [stored_slot r x]) ! i"
    proof (cases "i = ?n")
      case True
      then show ?thesis
        using assms(1) n h [symmetric] by (simp add: unread_nth nth_append r ring_inv_def)
    next
      case False
      with i have "i < ?n" by simp
      then have "slot_ix (r_tail r + word_of_nat i) \<noteq> slot_ix (r_head r)"
        using slot_ix_add_inj [of "r_tail r" i ?n] assms(3) by auto
      with \<open>i < ?n\<close> n show ?thesis by (simp add: unread_nth nth_append r)
    qed
  qed
qed


lemma ring_push_refused:
  assumes "ring_inv r" and "\<not> (SRC_IS_VALID (sl_src x) \<and> length (unread r) < 4096)"
  shows "snd (ring_push r x) = False" and "unread (fst (ring_push r x)) = unread r"
    and "ring_inv (fst (ring_push r x))"
proof -
  obtain ov j where "ring_push r x = (r\<lparr>r_overruns := ov, r_rejected := j\<rparr>, False)"
  proof (cases "SRC_IS_VALID (sl_src x)")
    case True
    with assms have "ring_push r x = (r\<lparr>r_overruns := r_overruns r + 1, r_rejected := r_rejected r\<rparr>, False)"
      by (simp add: ring_push_def Let_def full_iff)
    then show ?thesis by (rule that)
  next
    case False
    then have "ring_push r x = (r\<lparr>r_overruns := r_overruns r, r_rejected := r_rejected r + 1\<rparr>, False)"
      by (simp add: ring_push_def)
    then show ?thesis by (rule that)
  qed
  moreover have "unread (r\<lparr>r_overruns := ov, r_rejected := j\<rparr>) = unread r" by (simp add: unread_def)
  ultimately show "snd (ring_push r x) = False" and "unread (fst (ring_push r x)) = unread r"
    and "ring_inv (fst (ring_push r x))"
    using assms(1) by (simp_all add: ring_inv_def)
qed

lemma ring_push_inv:
  assumes "ring_inv r" shows "ring_inv (fst (ring_push r x))"
proof (cases "SRC_IS_VALID (sl_src x) \<and> length (unread r) < 4096")
  case True
  let ?r = "fst (ring_push r x)"
  note p = ring_push_unread [OF assms] True
  have u: "unread ?r = unread r @ [stored_slot r x]" using p by simp
  then have len: "length (unread ?r) = Suc (length (unread r))" by simp
  have "sl_seq (unread ?r ! i) = r_tail ?r + word_of_nat i \<and> SRC_IS_VALID (sl_src (unread ?r ! i))"
    if "i < length (unread ?r)" for i
    using that assms True p(1) unfolding u len
    by (cases "i = length (unread r)") (simp_all add: nth_append ring_inv_def stored_slot_def)
  then show ?thesis
    using len assms True p(1) unfolding ring_inv_def length_unread by simp
next
  case False
  then show ?thesis using ring_push_refused [OF assms] by blast
qed

lemma ring_release_unread:
  assumes "ring_inv r"
  shows "unread (fst (ring_release r n)) =
      (if unat n \<le> length (unread r) then drop (unat n) (unread r) else unread r)"
    and "ring_inv (fst (ring_release r n))"
    and "snd (ring_release r n) \<longleftrightarrow> unat n \<le> length (unread r)"
proof -
  let ?m = "unat (r_head r - r_tail r)" and ?r = "fst (ring_release r n)"
  have le: "n > r_head r - r_tail r \<longleftrightarrow> \<not> unat n \<le> ?m"
    by (simp add: word_less_nat_alt not_le)
  show "snd (ring_release r n) \<longleftrightarrow> unat n \<le> length (unread r)"
    using le by (simp add: ring_release_def Let_def)
  show u: "unread ?r = (if unat n \<le> length (unread r) then drop (unat n) (unread r) else unread r)"
  proof (cases "unat n \<le> ?m")
    case True
    then have r: "?r = r\<lparr>r_tail := r_tail r + n\<rparr>"
      using le by (simp add: ring_release_def Let_def)
    have "r_head r - (r_tail r + n) = word_of_nat ?m - word_of_nat (unat n)" by simp
    moreover have "?m - unat n < 2 ^ 64"
    proof -
      have "?m < 2 ^ LENGTH(64)" by (rule unsigned_less)
      then show ?thesis by simp
    qed
    ultimately have "unat (r_head r - (r_tail r + n)) = ?m - unat n"
      using True unat_diff_of_nat by presburger
    then show ?thesis
      using True by (intro nth_equalityI) (simp_all add: r unread_nth add.assoc)
  next
    case False
    then show ?thesis using le by (simp add: ring_release_def Let_def)
  qed
  show "ring_inv ?r"
  proof (cases "unat n \<le> ?m")
    case True
    then have r: "?r = r\<lparr>r_tail := r_tail r + n\<rparr>"
      using le by (simp add: ring_release_def Let_def)
    have "sl_seq (unread ?r ! i) = r_tail ?r + word_of_nat i \<and> SRC_IS_VALID (sl_src (unread ?r ! i))"
      if "i < length (unread ?r)" for i
    proof -
      have "unat n + i < ?m" using that True unfolding u by simp
      then show ?thesis using assms True by (simp add: ring_inv_def u) (simp add: r add.assoc)
    qed
    moreover have "length (unread ?r) \<le> 4096" using u assms True by (simp add: ring_inv_def le_diff_conv)
    ultimately show ?thesis using assms unfolding ring_inv_def length_unread by (simp add: r)
  next
    case False
    then show ?thesis using le assms by (simp add: ring_release_def Let_def)
  qed
qed

interpretation rq: slot_queue ring_push ring_peek ring_release unread ring_inv
  "\<lambda>x. SRC_IS_VALID (sl_src x)" stored_slot 4096
proof unfold_locales
  fix q x assume q: "ring_inv q"
  show "ring_inv (fst (ring_push q x))" using q by (rule ring_push_inv)
  show "unread (fst (ring_push q x)) =
      (if SRC_IS_VALID (sl_src x) \<and> length (unread q) < 4096 then unread q @ [stored_slot q x] else unread q)"
    using ring_push_unread [OF q] ring_push_refused [OF q] by auto
  show "snd (ring_push q x) \<longleftrightarrow> SRC_IS_VALID (sl_src x) \<and> length (unread q) < 4096"
    using ring_push_unread [OF q] ring_push_refused [OF q] by (metis snd_conv)
next
  fix q i assume "ring_inv q"
  have "r_head q - r_tail q \<le> i \<longleftrightarrow> \<not> unat i < length (unread q)"
    by (simp add: word_le_nat_alt not_less)
  then show "ring_peek q i = (if unat i < length (unread q) then Some (unread q ! unat i) else None)"
    by (simp add: ring_peek_def Let_def unread_nth)
next
  fix q n assume q: "ring_inv q"
  show "ring_inv (fst (ring_release q n))" using q by (rule ring_release_unread)
  show "unread (fst (ring_release q n)) =
      (if unat n \<le> length (unread q) then drop (unat n) (unread q) else unread q)"
    using q by (rule ring_release_unread)
  show "snd (ring_release q n) \<longleftrightarrow> unat n \<le> length (unread q)"
    using q by (rule ring_release_unread)
qed

section \<open>Properties\<close>

text \<open>C14: every push is accounted for, on every branch. A slot without a valid label is refused and
  counted as rejected; a push into a full ring is refused and counted as an overrun, and no
  unread slot changes; any other slot is appended to the unread ones under its own position.
  In every case the ring's invariant is kept.\<close>

theorem ring_push_accounts:
  assumes "ring_inv r" and "ring_push r x = (r', ok)"
  shows "ring_inv r' \<and>
    (if \<not> SRC_IS_VALID (sl_src x) then \<not> ok \<and> r' = r\<lparr>r_rejected := r_rejected r + 1\<rparr>
     else if length (unread r) = 4096 then \<not> ok \<and> r' = r\<lparr>r_overruns := r_overruns r + 1\<rparr>
     else ok \<and> unread r' = unread r @ [x\<lparr>sl_seq := r_head r\<rparr>] \<and> r_tail r' = r_tail r \<and>
       r_overruns r' = r_overruns r \<and> r_rejected r' = r_rejected r)"
proof -
  have "length (unread r) \<le> 4096" using assms(1) by (simp add: ring_inv_def)
  moreover have "ring_inv r'" using ring_push_inv [OF assms(1), of x] assms(2) by simp
  moreover have "ok \<and> unread r' = unread r @ [x\<lparr>sl_seq := r_head r\<rparr>] \<and> r_tail r' = r_tail r \<and>
       r_overruns r' = r_overruns r \<and> r_rejected r' = r_rejected r"
    if "SRC_IS_VALID (sl_src x)" "length (unread r) < 4096"
    using ring_push_unread [OF assms(1) that] assms(2) by (auto simp: stored_slot_def)
  moreover have "\<not> ok \<and> r' = r\<lparr>r_overruns := r_overruns r + 1\<rparr>"
    if "SRC_IS_VALID (sl_src x)" "length (unread r) = 4096"
    using that assms(2) by (auto simp: ring_push_def Let_def full_iff)
  moreover have "\<not> ok \<and> r' = r\<lparr>r_rejected := r_rejected r + 1\<rparr>" if "\<not> SRC_IS_VALID (sl_src x)"
    using that assms(2) by (auto simp: ring_push_def)
  ultimately show ?thesis by (auto simp del: length_unread)
qed

lemma ring_init_inv: "ring_inv (ring_init r)" "unread (ring_init r) = []"
  by (simp_all add: ring_inv_def ring_init_def unread_def)

definition labelled_slot :: ring_slot where
  "labelled_slot = zero_slot\<lparr>sl_src := SRC_REPLAY\<rparr>"

definition cleared_ring :: ring where
  "cleared_ring = ring_init \<lparr>r_magic = 0, r_version = 0, r_slot_size = 0, r_capacity = 0,
     r_generation = 7, r_head = 3, r_tail = 1, r_overruns = 4, r_rejected = 5, r_slot = []\<rparr>"

lemma cleared_ring_inv: "ring_inv cleared_ring" "unread cleared_ring = []" "r_head cleared_ring = 0"
  using ring_init_inv by (simp_all add: cleared_ring_def) (simp add: ring_init_def)

theorem ring_push_accounts_witness:
  "ring_inv (fst (ring_push cleared_ring labelled_slot)) \<and> snd (ring_push cleared_ring labelled_slot) \<and>
     unread (fst (ring_push cleared_ring labelled_slot)) = [labelled_slot\<lparr>sl_seq := 0\<rparr>]"
  using ring_push_accounts [OF cleared_ring_inv(1), of labelled_slot
      "fst (ring_push cleared_ring labelled_slot)" "snd (ring_push cleared_ring labelled_slot)"]
    cleared_ring_inv
  by (simp add: labelled_slot_def SRC_IS_VALID_def del: length_unread)

text \<open>Reading ahead consumes nothing, and releasing consumes exactly what was read: if the \<open>n\<close>
  oldest unread slots can all be peeked, then \<open>ring_release r n\<close> succeeds and the peeked slots
  followed by what is left unread are what was unread before. This is the order in which
  storage takes slots, so a stop before the release loses nothing.\<close>

theorem ring_peek_then_release:
  assumes "ring_inv r" and "\<forall>i < unat n. \<exists>x. ring_peek r (word_of_nat i) = Some x"
  shows "snd (ring_release r n) \<and> ring_inv (fst (ring_release r n)) \<and>
    map (\<lambda>i. the (ring_peek r (word_of_nat i))) [0..<unat n] @ unread (fst (ring_release r n)) = unread r"
  using rq.peek_then_release [OF assms] rq.release_inv [OF assms(1)] by blast

theorem ring_peek_then_release_witness:
  "snd (ring_release (fst (ring_push cleared_ring labelled_slot)) 1) \<and>
     [labelled_slot\<lparr>sl_seq := 0\<rparr>] @ unread (fst (ring_release (fst (ring_push cleared_ring labelled_slot)) 1)) =
       [labelled_slot\<lparr>sl_seq := 0\<rparr>]"
proof -
  let ?r = "fst (ring_push cleared_ring labelled_slot)"
  have r: "ring_inv ?r" using cleared_ring_inv(1) by (rule ring_push_inv)
  have u: "unread ?r = [labelled_slot\<lparr>sl_seq := 0\<rparr>]"
    using ring_push_unread [OF cleared_ring_inv(1)] cleared_ring_inv
    by (simp_all add: labelled_slot_def SRC_IS_VALID_def stored_slot_def del: length_unread)
  with r have p: "ring_peek ?r 0 = Some (labelled_slot\<lparr>sl_seq := 0\<rparr>)"
    by (simp add: rq.peek_unread del: length_unread)
  have h: "\<forall>i < unat (1 :: u64). \<exists>x. ring_peek ?r (word_of_nat i) = Some x"
    using p by simp
  show ?thesis
    using ring_peek_then_release [OF r h] u p by simp
qed

text \<open>\<open>ring_pop\<close> returns false exactly on an empty ring, which it leaves as it was; otherwise it
  hands out the oldest unread slot and leaves the rest.\<close>

theorem ring_pop_oldest:
  assumes "ring_inv r"
  shows "ring_pop r = (case unread r of [] \<Rightarrow> (r, None, False)
    | x # xs \<Rightarrow> (fst (ring_release r 1), Some x, True)) \<and>
    unread (fst (ring_pop r)) = tl (unread r) \<and> ring_inv (fst (ring_pop r))"
proof (cases "unread r")
  case Nil
  then have "ring_peek r 0 = None" using rq.peek_unread [OF assms, of 0] by simp
  then show ?thesis using Nil assms by (simp add: ring_pop_def)
next
  case (Cons x xs)
  then have "ring_peek r 0 = Some x" using rq.peek_unread [OF assms, of 0] by simp
  moreover obtain r' ok where "ring_release r 1 = (r', ok)" by fastforce
  ultimately show ?thesis
    using Cons ring_release_unread [OF assms, of 1] by (simp add: ring_pop_def del: length_unread)
qed

theorem ring_pop_oldest_witness: "ring_pop cleared_ring = (cleared_ring, None, False)"
  using ring_pop_oldest [OF cleared_ring_inv(1)] cleared_ring_inv(2) by simp

end
