(* ===== verification/Storaged.thy ===== *)
theory Storaged
  imports Wal_Open Ipc_Ring
begin

text \<open>
  The storage daemon: \<open>src/store/main.c\<close>. It drains the rings into the write-ahead log in
  batches and releases a slot only when the batch that holds it is durable. The rings are
  shared memory, so they stand in the sources of the daemon; what the producers push between
  two turns of the main loop is an argument of the run (\<open>run_loop\<close>), which ends when
  \<open>SIGTERM\<close> is seen. Attaching a ring and catching signals are the system's part: whether
  they succeed is taken from the script of the world. The lines written to the log of the
  daemon are not modelled, the heartbeats apart.
\<close>

section \<open>Arguments\<close>

definition parse_src :: "string \<Rightarrow> u8 option" where
  "parse_src s =
     (if s = ''live'' then Some SRC_LIVE
      else if s = ''replay'' then Some SRC_REPLAY
      else if s = ''synth'' then Some SRC_SYNTH
      else None)"

text \<open>The loop over \<open>argv\<close>; \<open>None\<close> is the usage message and exit status 1.\<close>

fun storaged_args :: "string list \<Rightarrow> string \<times> u8 \<Rightarrow> (string \<times> u8) option" where
  "storaged_args [] opts = Some opts"
| "storaged_args [a] opts = None"
| "storaged_args (a # v # rest) (dir, src) =
     (if a = ''--dir'' then storaged_args rest (v, src)
      else if a = ''--src'' then
        (case parse_src v of
           Some s \<Rightarrow> storaged_args rest (dir, s)
         | None \<Rightarrow> None)
      else None)"

section \<open>A ring being drained\<close>

record source =
  so_name :: string
  so_ring :: "ring option"
  so_taken :: u64
  so_added :: bool
  so_last_seq :: u64
  so_skip :: bool
  so_skip_seq :: u64

definition source_of :: "string \<Rightarrow> ring option \<Rightarrow> source" where
  "source_of name r = \<lparr>so_name = name, so_ring = r, so_taken = 0, so_added = False,
     so_last_seq = 0, so_skip = False, so_skip_seq = 0\<rparr>"

text \<open>The event of a note: \<open>snprintf\<close> into its text, which was cleared.\<close>

definition note_event :: "u16 \<Rightarrow> string \<Rightarrow> rec_event" where
  "note_event code text0 =
     (let (t, n) = snprintf 200 text0
      in \<lparr>e_code = code, e_len = of_nat n, e_text = take 200 (bytes_of_str t @ replicate 200 0)\<rparr>)"

definition add_note :: "wal \<Rightarrow> rec_event \<Rightarrow> (bool \<times> wal) io" where
  "add_note w e =
     andthen wal_now_mono (\<lambda>mt. andthen wal_now_wall (\<lambda>wt.
       wal_add w REC_EVENT (w_src w) mt wt (bytes_of_event e) (4 + e_len e)))"

definition note_generation :: "wal \<Rightarrow> u32 \<Rightarrow> ring \<Rightarrow> (bool \<times> wal) io" where
  "note_generation w ns r =
     add_note w (note_event WAL_EV_RING_GEN (note_text ''gen='' ns (r_generation r)))"

definition note_ring_seq :: "wal \<Rightarrow> u32 \<Rightarrow> u64 \<Rightarrow> (bool \<times> wal) io" where
  "note_ring_seq w ns seq =
     add_note w (note_event WAL_EV_RING_SEQ (note_text ''seq='' ns seq))"

definition slot_sample :: "ring_slot \<Rightarrow> rec_sample" where
  "slot_sample x =
     (let raw_len = (if sl_len x < 5 then sl_len x else 5)
      in \<lparr>s_mode = sl_mode x, s_pid = sl_pid x, s_raw_len = raw_len,
          s_raw = take 5 (take (unat raw_len) (sl_data x) @ replicate 5 0),
          s_value = sl_value x\<rparr>)"

text \<open>The wall time of a slot: now, less the age its monotonic stamp shows.\<close>

definition add_sample :: "wal \<Rightarrow> ring_slot \<Rightarrow> (bool \<times> wal) io" where
  "add_sample w x =
     andthen wal_now_mono (\<lambda>now_mono. andthen wal_now_wall (\<lambda>now_wall.
       let age = (if now_mono > sl_mono_ns x then now_mono - sl_mono_ns x else 0)
       in wal_add w REC_SAMPLE (sl_src x) (sl_mono_ns x) (now_wall - age)
            (bytes_of_sample (slot_sample x)) 12))"

lemma peek_bound: "ring_peek r i = Some x \<Longrightarrow> unat i < unat (r_head r - r_tail r)"
  by (simp add: ring_peek_def Let_def word_less_nat_alt not_le split: if_splits)

lemma unat_Suc_below: "unat (i :: u64) < unat (n :: u64) \<Longrightarrow> unat (i + 1) = Suc (unat i)"
  using unsigned_less [of n, where ?'a = nat] unat_plus_if_size [of i 1] by (simp add: word_size)

function drain :: "ring \<Rightarrow> wal \<Rightarrow> source \<Rightarrow> u64 \<Rightarrow> (u64 \<times> wal \<times> source) io" where
  "drain r w s n wd =
     (if w_batch_samples w < WAL_BATCH_SAMPLES then
        (case ring_peek r (so_taken s) of
           None \<Rightarrow> (Some (n, w, s), wd)
         | Some x \<Rightarrow>
             let s1 = s\<lparr>so_taken := so_taken s + 1, so_last_seq := sl_seq x\<rparr>
             in if so_skip s \<and> sl_seq x \<le> so_skip_seq s then drain r w s1 n wd
                else case add_sample w x wd of
                  (None, wd1) \<Rightarrow> (None, wd1)
                | (Some (good, w1), wd1) \<Rightarrow>
                    if \<not> good
                    then (Some (n, w1, s1\<lparr>so_taken := so_taken s1 - 1, so_last_seq := sl_seq x - 1\<rparr>), wd1)
                    else drain r w1 (s1\<lparr>so_added := True\<rparr>) (n + 1) wd1)
      else (Some (n, w, s), wd))"
  by pat_completeness auto
termination
proof (relation "measure (\<lambda>(r, w, s, n, wd). unat (r_head r - r_tail r) - unat (so_taken s))", goal_cases)
  case 1
  then show ?case by simp
qed (auto dest!: peek_bound simp: unat_Suc_below)

declare drain.simps [simp del]

section \<open>Starting\<close>

record daemon =
  d_wal :: wal
  d_srcs :: "source list"
  d_samples :: u64
  d_next_beat :: u64
  d_beats :: "(u64 \<times> u64) list"

text \<open>The loop over the namespaces after \<open>wal_open\<close>: what to skip, and the generation note.\<close>

definition set_skip :: "wal_scan_t \<Rightarrow> nat \<Rightarrow> ring \<Rightarrow> source \<Rightarrow> source" where
  "set_skip sc ns r s =
     (if sc_ring_gen sc ! ns = r_generation r \<and> sc_has_ring_seq sc ! ns
      then s\<lparr>so_skip := True, so_skip_seq := sc_ring_seq sc ! ns\<rparr> else s)"

fun start_sources :: "nat \<Rightarrow> source list \<Rightarrow> wal \<Rightarrow> (bool \<times> source list \<times> wal) io" where
  "start_sources ns [] w = ret (True, [], w)"
| "start_sources ns (s # ss) w =
     (case so_ring s of
        None \<Rightarrow> andthen (start_sources (Suc ns) ss w) (\<lambda>(good, ss1, w1). ret (good, s # ss1, w1))
      | Some r \<Rightarrow>
          let s1 = set_skip (w_recovered w) ns r s
          in andthen (note_generation w (of_nat ns) r) (\<lambda>(noted, w1).
               andthen (if noted then wal_commit w1 else ret (False, w1)) (\<lambda>(good, w2).
                 if \<not> good then ret (False, s1 # ss, w2)
                 else andthen (start_sources (Suc ns) ss w2)
                        (\<lambda>(good, ss1, w3). ret (good, s1 # ss1, w3)))))"

text \<open>\<open>main\<close> up to the loop: \<open>None\<close> is exit status 1. \<open>ring_at\<close> is what \<open>ring_attach\<close> returns.\<close>

definition storaged_start :: "(string \<Rightarrow> ring option) \<Rightarrow> string list \<Rightarrow> daemon option io" where
  "storaged_start ring_at argv =
     (case storaged_args argv (''/var/lib/carwatch/log'', SRC_LIVE) of
        None \<Rightarrow> ret None
      | Some (dir, src) \<Rightarrow>
          andthen sys_ok (\<lambda>signals_ok.
            if \<not> signals_ok \<or> ring_at ''/carwatch-obd'' = None then ret None
            else andthen sys_ok (\<lambda>malloc_ok.
              if \<not> malloc_ok then ret None
              else andthen (wal_open dir src 0) (\<lambda>(opened, w).
                if \<not> opened then ret None
                else andthen (start_sources 0
                       [source_of ''/carwatch-obd'' (ring_at ''/carwatch-obd''),
                        source_of ''/carwatch-probe'' (ring_at ''/carwatch-probe'')] w)
                     (\<lambda>(started, srcs, w1).
                       if \<not> started then ret None
                       else andthen wal_now_mono (\<lambda>now.
                         ret (Some \<lparr>d_wal = w1, d_srcs = srcs, d_samples = 0, d_next_beat = now,
                                    d_beats = []\<rparr>)))))))"

section \<open>The main loop\<close>

abbreviation (input) HEARTBEAT_NS :: u64 where "HEARTBEAT_NS \<equiv> 3600 * 1000000000"

fun drain_all :: "source list \<Rightarrow> wal \<Rightarrow> (u64 \<times> source list \<times> wal) io" where
  "drain_all [] w = ret (0, [], w)"
| "drain_all (s # ss) w =
     andthen (case so_ring s of None \<Rightarrow> ret (0, w, s) | Some r \<Rightarrow> drain r w s 0) (\<lambda>(n, w1, s1).
       andthen (drain_all ss w1) (\<lambda>(m, ss1, w2). ret (n + m, s1 # ss1, w2)))"

text \<open>\<open>noted |= note_ring_seq (...)\<close> over the namespaces: every note is tried.\<close>

fun note_all :: "nat \<Rightarrow> source list \<Rightarrow> wal \<Rightarrow> (bool \<times> wal) io" where
  "note_all ns [] w = ret (True, w)"
| "note_all ns (s # ss) w =
     andthen (if so_added s then note_ring_seq w (of_nat ns) (so_last_seq s) else ret (True, w)) (\<lambda>(good, w1).
       andthen (note_all (Suc ns) ss w1) (\<lambda>(goods, w2). ret (good \<and> goods, w2)))"

definition restart_source :: "source \<Rightarrow> source" where
  "restart_source s = s\<lparr>so_taken := 0, so_added := False\<rparr>"

definition release_source :: "source \<Rightarrow> source" where
  "release_source s =
     (restart_source s)\<lparr>so_ring := (case so_ring s of
         None \<Rightarrow> None
       | Some r \<Rightarrow> Some (if so_taken s > 0 then fst (ring_release r (so_taken s)) else r))\<rparr>"

text \<open>The heartbeat at the end of a turn.\<close>

definition overruns_of :: "source list \<Rightarrow> u64" where
  "overruns_of srcs = sum_list (map (\<lambda>s. case so_ring s of None \<Rightarrow> 0 | Some r \<Rightarrow> ring_overruns r) srcs)"

definition end_turn :: "u64 \<Rightarrow> source list \<Rightarrow> wal \<Rightarrow> daemon \<Rightarrow> daemon io" where
  "end_turn n srcs w d0 =
     (let d = d0\<lparr>d_wal := w, d_srcs := srcs, d_samples := d_samples d0 + n\<rparr>
      in andthen wal_now_mono (\<lambda>now.
           ret (if now \<ge> d_next_beat d
                then d\<lparr>d_beats := d_beats d @ [(d_samples d, overruns_of srcs)],
                       d_next_beat := now + HEARTBEAT_NS\<rparr>
                else d)))"

definition turn :: "daemon \<Rightarrow> daemon io" where
  "turn d =
     andthen (drain_all (d_srcs d) (d_wal d)) (\<lambda>(n, srcs, w).
       andthen wal_now_mono (\<lambda>now.
         if wal_due w now \<or> ((\<exists>s \<in> set srcs. so_taken s > 0) \<and> \<not> w_open_batch w) then
           andthen (note_all 0 srcs w) (\<lambda>(noted, w1).
             andthen (if noted then wal_commit w1 else ret (False, w1)) (\<lambda>(good, w2).
               if \<not> good then ret (d\<lparr>d_wal := w2, d_srcs := map restart_source srcs\<rparr>)
               else end_turn n (map release_source srcs) w2 d))
         else end_turn n srcs w d))"

text \<open>What a producer does to the ring of a source.\<close>

definition feed :: "ring_slot list \<Rightarrow> source \<Rightarrow> source" where
  "feed xs s = s\<lparr>so_ring := map_option (\<lambda>r. fold (\<lambda>x q. fst (ring_push q x)) xs r) (so_ring s)\<rparr>"

text \<open>The turns of the main loop until \<open>g_stop\<close> is set: each entry of the schedule is what the
  producers push, ring by ring, before one turn.\<close>

fun run_loop :: "ring_slot list list list \<Rightarrow> daemon \<Rightarrow> daemon io" where
  "run_loop [] d = ret d"
| "run_loop (pushed # sched) d =
     andthen (turn (d\<lparr>d_srcs := map2 feed pushed (d_srcs d)\<rparr>)) (run_loop sched)"

section \<open>The clean stop\<close>

abbreviation (input) REC_SHUT_SIGNAL :: u8 where "REC_SHUT_SIGNAL \<equiv> 2"

definition storaged_stop :: "daemon \<Rightarrow> (bool \<times> daemon) io" where
  "storaged_stop d =
     andthen (note_all 0 (d_srcs d) (d_wal d)) (\<lambda>(_, w1).
       andthen (wal_commit w1) (\<lambda>(good, w2).
         let srcs = (if good then map (\<lambda>s. s\<lparr>so_ring := so_ring (release_source s)\<rparr>) (d_srcs d)
                     else d_srcs d)
         in andthen (wal_close w2 REC_SHUT_SIGNAL) (\<lambda>(closed, w3).
              ret (closed, d\<lparr>d_wal := w3, d_srcs := srcs\<rparr>))))"

text \<open>The exit status.\<close>

definition storaged_main :: "(string \<Rightarrow> ring option) \<Rightarrow> string list \<Rightarrow> ring_slot list list list \<Rightarrow> nat io" where
  "storaged_main ring_at argv sched =
     andthen (storaged_start ring_at argv) (\<lambda>started.
       case started of
         None \<Rightarrow> ret 1
       | Some d \<Rightarrow> andthen (run_loop sched d) (\<lambda>d1.
           andthen (storaged_stop d1) (\<lambda>(clean, d2). ret (if clean then 0 else 1))))"

section \<open>Draining\<close>

text \<open>What identifies a sample on both sides: its label, its stamp and its body.\<close>

abbreviation samples_of :: "rec list \<Rightarrow> rec list" where
  "samples_of rs \<equiv> filter (\<lambda>r. kind_of r = REC_SAMPLE) rs"

definition rec_key :: "rec \<Rightarrow> u8 \<times> u64 \<times> bytes" where
  "rec_key r = (h_src (fst r), h_mono_ns (fst r), snd r)"

definition slot_key :: "ring_slot \<Rightarrow> u8 \<times> u64 \<times> bytes" where
  "slot_key x = (sl_src x, sl_mono_ns x, bytes_of_sample (slot_sample x))"

abbreviation sample_keys :: "rec list \<Rightarrow> (u8 \<times> u64 \<times> bytes) list" where
  "sample_keys rs \<equiv> map rec_key (samples_of rs)"

text \<open>The slots of a ring that the daemon does not skip.\<close>

definition kept :: "source \<Rightarrow> ring_slot list \<Rightarrow> ring_slot list" where
  "kept s xs = filter (\<lambda>x. \<not> (so_skip s \<and> sl_seq x \<le> so_skip_seq s)) xs"

lemma kept_simps [simp]:
  "kept s [] = []" "kept s (xs @ ys) = kept s xs @ kept s ys"
  "kept s (x # xs) = (if so_skip s \<and> sl_seq x \<le> so_skip_seq s then kept s xs else x # kept s xs)"
  by (simp_all add: kept_def)

lemma kept_cong: "so_skip s' = so_skip s \<Longrightarrow> so_skip_seq s' = so_skip_seq s \<Longrightarrow> kept s' = kept s"
  by (simp add: kept_def fun_eq_iff)

text \<open>The buffer between turns: a BEGIN and at most a batch of samples, so there is always room.\<close>

definition loose :: "wal \<Rightarrow> rec list \<Rightarrow> bool" where
  "loose w rs \<longleftrightarrow> buf_at w rs \<and> (\<forall>r \<in> set rs. kind_of r = REC_BEGIN \<or> kind_of r = REC_SAMPLE) \<and>
     n_samples rs \<le> 64"

lemma frame_ok_lengths:
  "frame_ok r \<Longrightarrow> kind_of r = REC_SAMPLE \<Longrightarrow> length (snd r) = 12"
  "frame_ok r \<Longrightarrow> kind_of r = REC_BEGIN \<Longrightarrow> length (snd r) = 8"
  by (auto simp: frame_ok_def rec_ok_def body_len_ok_def)

lemma samples_length:
  "\<forall>r \<in> set rs. frame_ok r \<and> kind_of r = REC_SAMPLE \<Longrightarrow> length (bytes_of_log rs) = 56 * length rs"
  by (induction rs) (auto simp: frame_ok_lengths)

lemma loose_length:
  assumes "loose w rs"
  shows "length (w_buf w) \<le> 52 + 56 * n_samples rs"
proof (cases "w_open_batch w")
  case True
  obtain b qs where rs: "rs = b # qs" and b: "kind_of b = REC_BEGIN"
    and qs: "\<forall>r \<in> set qs. kind_of r \<noteq> REC_BEGIN"
    using assms True by (cases rs) (auto simp: loose_def buf_at_def open_part_def)
  have ok: "frame_ok b" "\<forall>r \<in> set qs. frame_ok r \<and> kind_of r = REC_SAMPLE"
    using assms rs qs by (auto simp: loose_def buf_at_def)
  then have "samples_of qs = qs" by (auto intro: filter_True)
  then have "n_samples rs = length qs" using b by (simp add: rs n_samples_def)
  moreover have "length (bytes_of_log rs) = 52 + 56 * length qs"
    using samples_length [OF ok(2)] frame_ok_lengths(2) [OF ok(1) b] by (simp add: rs)
  ultimately show ?thesis using assms by (simp add: loose_def buf_at_def)
next
  case False
  then show ?thesis using assms by (simp add: loose_def buf_at_def)
qed

lemma batch_samples_count:
  assumes "loose w rs"
  shows "w_batch_samples w = of_nat (n_samples rs)" and "w_batch_samples w < 64 \<longleftrightarrow> n_samples rs < 64"
proof -
  show "w_batch_samples w = of_nat (n_samples rs)"
    using assms by (auto simp: loose_def buf_at_def split: if_splits)
  moreover have "unat (of_nat (n_samples rs) :: u32) = n_samples rs"
    using assms by (simp add: loose_def unsigned_of_nat take_bit_nat_eq_self)
  ultimately show "w_batch_samples w < 64 \<longleftrightarrow> n_samples rs < 64"
    by (simp add: word_less_nat_alt)
qed

lemma slot_sample_length [simp]: "length (bytes_of_sample (slot_sample x)) = 12"
  by simp

text \<open>An acceptable record is added whenever there is room.\<close>

lemma frame_ok_rec_of: "frame_ok (rec_of w k s m wl b) = frame_ok (rec_of w' k s m' wl' b)"
  by (simp add: frame_ok_def rec_of_def rec_ok_def)

lemma add_rec_ok:
  assumes "buf_at w rs" and "w_open_batch w" and "kind \<noteq> REC_BEGIN" and "kind \<noteq> REC_COMMIT"
    and "length (w_buf w) + 104 + length body \<le> WAL_BUF_BYTES \<or> length (w_buf w) = 52"
    and "frame_ok (rec_of w kind src mt wt body)"
  shows "\<exists>w'. add_rec w kind src mt wt body = (True, w') \<and> same_log w w' \<and> w_open_batch w' \<and>
    buf_at w' (rs @ [rec_of w kind src mt wt body])"
  using add_rec_spec [OF assms(1-5), of src mt wt True] assms(6) by (simp add: add_rec_def Let_def)

definition grown :: "rec list \<Rightarrow> rec \<Rightarrow> rec list \<Rightarrow> bool" where
  "grown rs r rs' \<longleftrightarrow> (\<exists>bs. rs' = bs @ rs @ [r] \<and> length bs \<le> 1 \<and> (\<forall>b \<in> set bs. kind_of b = REC_BEGIN))"

lemma wal_add_ok:
  assumes "buf_at w rs" and "kind \<noteq> REC_BEGIN" and "kind \<noteq> REC_COMMIT" and "unat body_len \<le> length body"
    and "room_for w body_len" and "\<And>w'. frame_ok (rec_of w' kind src mt wt (take (unat body_len) body))"
  shows "\<exists>w' wd' w0 rs'. wal_add w kind src mt wt body body_len wd = (Some (True, w'), wd') \<and>
    clocks_only wd wd' \<and> same_log w w' \<and> w_open_batch w' \<and> buf_at w' rs' \<and>
    grown rs (rec_of w0 kind src mt wt (take (unat body_len) body)) rs'"
proof (cases "w_open_batch w")
  case True
  have "length (w_buf w) + 104 + length (take (unat body_len) body) \<le> WAL_BUF_BYTES"
    using assms(4,5) by (simp add: room_for_def min_def)
  then obtain w' where w': "add_rec w kind src mt wt (take (unat body_len) body) = (True, w')"
    "same_log w w'" "w_open_batch w'" "buf_at w' (rs @ [rec_of w kind src mt wt (take (unat body_len) body)])"
    using add_rec_ok [OF assms(1) True assms(2,3) _ assms(6)] by blast
  have "grown rs (rec_of w kind src mt wt (take (unat body_len) body))
      (rs @ [rec_of w kind src mt wt (take (unat body_len) body)])"
    unfolding grown_def by (intro exI [of _ "[]"]) simp
  then show ?thesis
    using wal_add_open [OF True assms(5,4), of kind src mt wt wd] w' clocks_only_refl [of wd] by metis
next
  case False
  then have rs: "rs = []" "buf_at w []" using assms(1) by (auto simp: buf_at_def)
  obtain m0 w0 n0 wd' where c: "clocks_only wd wd'"
    and e: "wal_add w kind src mt wt body body_len wd =
      (Some (add_rec (begun w m0 w0 n0) kind src mt wt (take (unat body_len) body)), wd')"
    using wal_add_closed [OF False rs(2) assms(5,4)] by blast
  let ?w = "begun w m0 w0 n0"
  let ?b = "rec_of w REC_BEGIN (w_src w) m0 w0 (bytes_of_begin (w_next_txn w))"
  let ?r = "rec_of ?w kind src mt wt (take (unat body_len) body)"
  obtain w' where w': "add_rec ?w kind src mt wt (take (unat body_len) body) = (True, w')"
    "same_log ?w w'" "w_open_batch w'" "buf_at w' ([?b] @ [?r])"
    using add_rec_ok [OF begun_buf_at [OF rs(2)] begun_props(2) assms(2,3) _ assms(6)] begun_props(4)
    by blast
  have "grown rs ?r ([?b] @ [?r])" unfolding grown_def by (intro exI [of _ "[?b]"]) (simp add: rs)
  then show ?thesis
    using e c w' same_log_trans [OF begun_props(1) w'(2)] by metis
qed

lemma grown_samples:
  assumes "grown rs r rs'"
  shows "sample_keys rs' = sample_keys rs @ sample_keys [r]"
    and "n_samples rs' = n_samples rs + n_samples [r]"
proof -
  obtain bs where "rs' = bs @ rs @ [r]" and b: "\<forall>b \<in> set bs. kind_of b = REC_BEGIN"
    using assms by (auto simp: grown_def)
  moreover have "samples_of bs = []" using b by (auto simp: filter_empty_conv)
  moreover then have "n_samples bs = 0" by (simp add: n_samples_def)
  ultimately show "sample_keys rs' = sample_keys rs @ sample_keys [r]"
    and "n_samples rs' = n_samples rs + n_samples [r]" by simp_all
qed

lemma grown_loose:
  assumes "loose w rs" and "grown rs r rs'" and "buf_at w' rs'" and "kind_of r = REC_SAMPLE"
    and "n_samples rs < 64"
  shows "loose w' rs'"
proof -
  obtain bs where rs': "rs' = bs @ rs @ [r]" and "\<forall>b \<in> set bs. kind_of b = REC_BEGIN"
    using assms(2) by (auto simp: grown_def)
  then have "\<forall>b \<in> set bs. kind_of b = REC_BEGIN \<or> kind_of b = REC_SAMPLE" by blast
  moreover have "n_samples rs' \<le> 64" using grown_samples(2) [OF assms(2)] assms(4,5) by simp
  ultimately show ?thesis using assms(1,3,4) by (simp add: loose_def rs' ball_Un)
qed

lemma frame_ok_sample:
  assumes "SRC_IS_VALID s" and "length b = 12"
  shows "frame_ok (rec_of w REC_SAMPLE s m wl b)"
  using assms by (simp add: frame_ok_def rec_of_def rec_ok_def kind_ok_def body_len_ok_def)

lemma add_sample_ok:
  assumes "loose w rs" and "n_samples rs < 64" and "SRC_IS_VALID (sl_src x)"
  shows "\<exists>y wd'. add_sample w x wd = (Some y, wd') \<and> (\<exists>w' rs'. y = (True, w') \<and>
    same_log w w' \<and> w_open_batch w' \<and> loose w' rs' \<and> n_samples rs' = Suc (n_samples rs) \<and>
    sample_keys rs' = sample_keys rs @ [slot_key x]) \<and> clocks_only wd wd'"
proof -
  let ?b = "bytes_of_sample (slot_sample x)"
  have buf: "buf_at w rs" using assms(1) by (simp add: loose_def)
  have room: "room_for w 12" using loose_length [OF assms(1)] assms(2) by (simp add: room_for_def)
  have ok: "frame_ok (rec_of w' REC_SAMPLE (sl_src x) (sl_mono_ns x) wt (take (unat (12::u16)) ?b))" for w' wt
    by (rule frame_ok_sample [OF assms(3)]) simp
  have "\<exists>y wd''. wal_add w REC_SAMPLE (sl_src x) (sl_mono_ns x) wt ?b 12 wd' = (Some y, wd'') \<and>
      (\<exists>w' rs'. y = (True, w') \<and> same_log w w' \<and> w_open_batch w' \<and> loose w' rs' \<and>
         n_samples rs' = Suc (n_samples rs) \<and> sample_keys rs' = sample_keys rs @ [slot_key x]) \<and>
      clocks_only wd' wd''" for wt wd'
  proof -
    obtain w' wd'' w0 rs' where a: "wal_add w REC_SAMPLE (sl_src x) (sl_mono_ns x) wt ?b 12 wd' = (Some (True, w'), wd'')"
      "clocks_only wd' wd''" "same_log w w'" "w_open_batch w'" "buf_at w' rs'"
      and g: "grown rs (rec_of w0 REC_SAMPLE (sl_src x) (sl_mono_ns x) wt (take (unat (12::u16)) ?b)) rs'"
      using wal_add_ok [OF buf _ _ _ room ok, of wt wd'] by auto
    note gs = grown_samples [OF g]
    have "loose w' rs'"
      by (rule grown_loose [OF assms(1) g a(5) _ assms(2)]) simp
    moreover have "sample_keys rs' = sample_keys rs @ [slot_key x]"
      using gs(1) by (simp add: rec_key_def slot_key_def)
    ultimately show ?thesis using a gs(2) by auto
  qed
  then show ?thesis
    unfolding add_sample_def Let_def by (intro run_clock run_clock(2)) auto
qed


text \<open>The source after \<open>drain\<close> has gone up to position \<open>t\<close> of the unread slots.\<close>

definition between :: "ring \<Rightarrow> nat \<Rightarrow> nat \<Rightarrow> ring_slot list" where
  "between r a b = drop a (take b (unread r))"

definition drained :: "ring \<Rightarrow> source \<Rightarrow> nat \<Rightarrow> source" where
  "drained r s t =
     (let xs = between r (unat (so_taken s)) t
      in s\<lparr>so_taken := of_nat t,
           so_last_seq := (if xs = [] then so_last_seq s else sl_seq (last xs)),
           so_added := (so_added s \<or> kept s xs \<noteq> [])\<rparr>)"

lemma between_step:
  assumes "a < b" and "b \<le> length (unread r)"
  shows "between r a b = unread r ! a # between r (Suc a) b"
  using assms by (simp add: between_def Cons_nth_drop_Suc [symmetric] del: length_unread)

abbreviation skips :: "source \<Rightarrow> ring_slot \<Rightarrow> bool" where
  "skips s x \<equiv> so_skip s \<and> sl_seq x \<le> so_skip_seq s"

lemma drained_step:
  assumes "unat (so_taken s) < t" and "t \<le> length (unread r)" and "x = unread r ! unat (so_taken s)"
    and "unat (so_taken s1) = Suc (unat (so_taken s))"
    and "s1 = s\<lparr>so_taken := so_taken s + 1, so_last_seq := sl_seq x, so_added := so_added s \<or> \<not> skips s x\<rparr>"
  shows "drained r s1 t = drained r s t"
    and "kept s (between r (unat (so_taken s)) t) =
      (if skips s x then [] else [x]) @ kept s1 (between r (unat (so_taken s1)) t)"
proof -
  have k: "kept s1 = kept s" by (rule kept_cong) (simp_all add: assms(5))
  show "drained r s1 t = drained r s t"
    using between_step [OF assms(1,2)] k assms(3,4)
    by (auto simp: drained_def Let_def) (simp_all add: assms(5))
  show "kept s (between r (unat (so_taken s)) t) =
      (if skips s x then [] else [x]) @ kept s1 (between r (unat (so_taken s1)) t)"
    using between_step [OF assms(1,2)] k assms(3,4) by simp
qed

lemma drain_spec:
  assumes "loose w rs" and "ring_inv r" and "unat (so_taken s) \<le> length (unread r)"
  shows "\<exists>t w' wd' rs'. drain r w s n wd =
      (Some (n + of_nat (length (kept s (between r (unat (so_taken s)) t))), w', drained r s t), wd') \<and>
    unat (so_taken s) \<le> t \<and> t \<le> length (unread r) \<and> clocks_only wd wd' \<and> same_log w w' \<and>
    loose w' rs' \<and> (w' = w \<or> w_open_batch w') \<and>
    sample_keys rs' = sample_keys rs @ map slot_key (kept s (between r (unat (so_taken s)) t)) \<and>
    (n_samples rs' = 64 \<or> t = length (unread r))"
  using assms
proof (induction r w s n wd arbitrary: rs rule: drain.induct)
  case (1 r w s n wd)
  note count = batch_samples_count [OF 1(3)]
  let ?a = "unat (so_taken s)"
  have stop: "drained r s ?a = s" "between r ?a ?a = []"
    by (simp_all add: drained_def between_def)
  show ?case
  proof (cases "n_samples rs < 64 \<and> ?a < length (unread r)")
    case False
    then have d: "drain r w s n wd = (Some (n, w, s), wd)"
      using count rq.peek_unread [OF 1(4), of "so_taken s"] by (simp add: drain.simps [of r w])
    have "n_samples rs = 64 \<or> ?a = length (unread r)"
      using False 1(3,5) by (auto simp: loose_def)
    then show ?thesis
      using 1(3,5) by (intro exI [of _ ?a] exI [of _ w] exI [of _ wd] exI [of _ rs]) (simp add: d stop)
  next
    case True
    define x where "x = unread r ! ?a"
    have peek: "ring_peek r (so_taken s) = Some x" and lt: "w_batch_samples w < 64"
      using True count rq.peek_unread [OF 1(4), of "so_taken s"] by (simp_all add: x_def)
    let ?s1 = "s\<lparr>so_taken := so_taken s + 1, so_last_seq := sl_seq x\<rparr>"
    have a1: "unat (so_taken s + 1) = Suc ?a" using unat_Suc_below [OF peek_bound [OF peek]] .
    define s1 where "s1 = s\<lparr>so_taken := so_taken s + 1, so_last_seq := sl_seq x,
      so_added := so_added s \<or> \<not> skips s x\<rparr>"
    have t1: "unat (so_taken s1) = Suc ?a" using a1 by (simp add: s1_def)
    have t1_le: "unat (so_taken s1) \<le> length (unread r)" using True t1 by simp
    show ?thesis
    proof (cases "skips s x")
      case skip: True
      have s1: "?s1 = s1" by (simp add: s1_def skip)
      have d: "drain r w s n wd = drain r w s1 n wd"
        using skip by (simp add: drain.simps [of r w s] lt peek s1 [symmetric])
      obtain t w' wd' rs' where h: "drain r w s1 n wd =
          (Some (n + of_nat (length (kept s1 (between r (unat (so_taken s1)) t))), w', drained r s1 t), wd')"
        "Suc ?a \<le> t" "t \<le> length (unread r)" "clocks_only wd wd'" "same_log w w'" "loose w' rs'"
        "w' = w \<or> w_open_batch w'"
        "sample_keys rs' = sample_keys rs @ map slot_key (kept s1 (between r (unat (so_taken s1)) t))"
        "n_samples rs' = 64 \<or> t = length (unread r)"
        using 1(1) [OF lt peek s1 [symmetric] skip 1(3,4) t1_le] unfolding t1 by blast
      note st = drained_step [OF _ h(3) x_def t1 s1_def]
      have "kept s1 (between r (unat (so_taken s1)) t) = kept s (between r ?a t)"
        using st(2) h(2) skip by simp
      then show ?thesis
        using h st(1) d by (intro exI [of _ t] exI [of _ w'] exI [of _ wd'] exI [of _ rs']) simp
    next
      case keep: False
      have s1: "?s1\<lparr>so_added := True\<rparr> = s1" by (simp add: s1_def keep)
      have valid: "SRC_IS_VALID (sl_src x)" using 1(4) True by (simp add: ring_inv_def x_def)
      obtain w1 wd1 rs1 where a: "add_sample w x wd = (Some (True, w1), wd1)" "same_log w w1" "w_open_batch w1"
        "loose w1 rs1" "sample_keys rs1 = sample_keys rs @ [slot_key x]" "clocks_only wd wd1"
        using add_sample_ok [OF 1(3) _ valid, of wd] True by auto
      have d: "drain r w s n wd = drain r w1 s1 (n + 1) wd1"
        using keep by (auto simp: drain.simps [of r w s] lt peek a(1) s1 [symmetric])
      obtain t w' wd' rs' where h: "drain r w1 s1 (n + 1) wd1 =
          (Some (n + 1 + of_nat (length (kept s1 (between r (unat (so_taken s1)) t))), w', drained r s1 t), wd')"
        "Suc ?a \<le> t" "t \<le> length (unread r)" "clocks_only wd1 wd'" "same_log w1 w'" "loose w' rs'"
        "w' = w1 \<or> w_open_batch w'"
        "sample_keys rs' = sample_keys rs1 @ map slot_key (kept s1 (between r (unat (so_taken s1)) t))"
        "n_samples rs' = 64 \<or> t = length (unread r)"
        using 1(2) [OF lt peek refl keep a(1) [symmetric] refl refl, of rs1, unfolded s1, OF _ a(4) 1(4) t1_le] unfolding t1 by blast
      note st = drained_step [OF _ h(3) x_def t1 s1_def]
      have "kept s (between r ?a t) = x # kept s1 (between r (unat (so_taken s1)) t)"
        using st(2) h(2) keep by simp
      moreover have "clocks_only wd wd'" using a(6) h(4) by (simp add: clocks_only_def)
      ultimately show ?thesis
        using h st(1) d a same_log_trans [OF a(2) h(5)]
        by (intro exI [of _ t] exI [of _ w'] exI [of _ wd'] exI [of _ rs']) auto
    qed
  qed
qed

section \<open>Notes\<close>

lemma grown_length:
  assumes "grown rs r rs'" and "buf_at w rs" and "buf_at w' rs'"
  shows "length (w_buf w') \<le> length (w_buf w) + 96 + length (snd r)"
proof -
  obtain bs where rs': "rs' = bs @ rs @ [r]" and b: "length bs \<le> 1" "\<forall>b \<in> set bs. kind_of b = REC_BEGIN"
    using assms(1) by (auto simp: grown_def)
  have "length (bytes_of_log bs) \<le> 52"
  proof (cases bs)
    case (Cons c cs)
    then have "cs = []" "kind_of c = REC_BEGIN" "frame_ok c" using b assms(3) by (auto simp: buf_at_def rs')
    then show ?thesis using Cons by (simp add: frame_ok_lengths(2))
  qed simp
  then show ?thesis using assms(2,3) by (simp add: buf_at_def rs')
qed

text \<open>The record of a note, and what recovery reads in it.\<close>

definition note_body :: "u16 \<Rightarrow> string \<Rightarrow> bytes" where
  "note_body code text0 = le_bytes 2 code @ le_bytes 2 (of_nat (length text0) :: u16) @ bytes_of_str text0"

lemma note_event_body:
  assumes "length text0 < 200"
  shows "e_len (note_event code text0) = of_nat (length text0)"
    and "length (bytes_of_event (note_event code text0)) = 204"
    and "take (unat (4 + e_len (note_event code text0))) (bytes_of_event (note_event code text0)) =
      note_body code text0"
proof -
  have n: "unat (4 + of_nat (length text0) :: u16) = 4 + length text0"
    using assms by (simp add: unsigned_of_nat take_bit_nat_eq_self unat_word_ariths(1))
  show l: "e_len (note_event code text0) = of_nat (length text0)"
    and "length (bytes_of_event (note_event code text0)) = 204"
    using assms by (simp_all add: note_event_def snprintf_def bytes_of_event_def)
  show "take (unat (4 + e_len (note_event code text0))) (bytes_of_event (note_event code text0)) =
      note_body code text0"
    unfolding l n using assms
    by (simp add: note_event_def snprintf_def bytes_of_event_def note_body_def)
qed

lemma note_body_props:
  assumes "length text0 < 200"
  shows "length (note_body code text0) = 4 + length text0" and "field 0 2 (note_body code text0) = code"
    and "field 2 2 (note_body code text0) = (of_nat (length text0) :: u16)"
    and "str_of_bytes (take (unat (field 2 2 (note_body code text0) :: u16)) (drop 4 (note_body code text0))) = text0"
proof -
  show l: "length (note_body code text0) = 4 + length text0" and "field 0 2 (note_body code text0) = code"
    and f: "field 2 2 (note_body code text0) = (of_nat (length text0) :: u16)"
    by (simp_all add: note_body_def field_def)
  have "unat (of_nat (length text0) :: u16) = length text0"
    using assms by (simp add: unsigned_of_nat take_bit_nat_eq_self)
  then show "str_of_bytes (take (unat (field 2 2 (note_body code text0) :: u16)) (drop 4 (note_body code text0))) = text0"
    unfolding f by (simp add: note_body_def)
qed

lemma frame_ok_note:
  assumes "SRC_IS_VALID s" and "length text0 < 200"
  shows "frame_ok (rec_of w REC_EVENT s m wl (note_body code text0))"
proof -
  have n: "unat (of_nat (length text0) :: u16) = length text0" "unat (4 + of_nat (length text0) :: u16) = 4 + length text0"
    using assms by (simp_all add: unsigned_of_nat take_bit_nat_eq_self unat_word_ariths(1))
  have u: "(ucast (of_nat (length text0) :: u16) :: u32) + 4 = ucast (4 + of_nat (length text0) :: u16)"
  proof -
    have "(ucast (of_nat (length text0) :: u16) :: u32) = of_nat (length text0)"
      using of_nat_unat [of "of_nat (length text0) :: u16", where ?'a = "32 word"] n(1) by metis
    moreover have "(ucast (4 + of_nat (length text0) :: u16) :: u32) = of_nat (4 + length text0)"
      using of_nat_unat [of "4 + of_nat (length text0) :: u16", where ?'a = "32 word"] n(2) by metis
    ultimately show ?thesis by (simp only:) simp
  qed
  show ?thesis
    using assms n u note_body_props [OF assms(2), of code]
    by (simp add: frame_ok_def rec_of_def rec_ok_def kind_ok_def body_len_ok_def event_ok_def Let_def word_le_nat_alt)
qed

lemma add_note_ok:
  assumes "buf_at w rs" and "length text0 < 200" and "length (w_buf w) + 308 \<le> WAL_BUF_BYTES"
  shows "\<exists>y wd'. add_note w (note_event code text0) wd = (Some y, wd') \<and>
    (\<exists>w' rs' r. y = (True, w') \<and> same_log w w' \<and> w_open_batch w' \<and> buf_at w' rs' \<and> grown rs r rs' \<and>
       kind_of r = REC_EVENT \<and> snd r = note_body code text0) \<and> clocks_only wd wd'"
proof -
  let ?e = "note_event code text0"
  have src: "SRC_IS_VALID (w_src w)" using assms(1) by (simp add: buf_at_def)
  have n: "unat (4 + e_len ?e) = 4 + length text0"
    using assms(2) by (simp add: note_event_body(1) unsigned_of_nat take_bit_nat_eq_self unat_word_ariths(1))
  have room: "room_for w (4 + e_len ?e)" using assms(2,3) n by (simp add: room_for_def)
  have len: "unat (4 + e_len ?e) \<le> length (bytes_of_event ?e)"
    unfolding n note_event_body(2) [OF assms(2)] using assms(2) by simp
  have add: "\<exists>y wd''. wal_add w REC_EVENT (w_src w) mt wt (bytes_of_event ?e) (4 + e_len ?e) wd' = (Some y, wd'') \<and>
      (\<exists>w' rs' r. y = (True, w') \<and> same_log w w' \<and> w_open_batch w' \<and> buf_at w' rs' \<and> grown rs r rs' \<and>
         kind_of r = REC_EVENT \<and> snd r = note_body code text0) \<and> clocks_only wd' wd''" for mt wt wd'
  proof -
    have ok: "frame_ok (rec_of w' REC_EVENT (w_src w) mt wt (take (unat (4 + e_len ?e)) (bytes_of_event ?e)))" for w'
      unfolding note_event_body(3) [OF assms(2)] using frame_ok_note [OF src assms(2)] .
    obtain w' wd'' w0 rs' where
      "wal_add w REC_EVENT (w_src w) mt wt (bytes_of_event ?e) (4 + e_len ?e) wd' = (Some (True, w'), wd'')"
      "clocks_only wd' wd''" "same_log w w'" "w_open_batch w'" "buf_at w' rs'"
      "grown rs (rec_of w0 REC_EVENT (w_src w) mt wt (note_body code text0)) rs'"
      using wal_add_ok [OF assms(1) _ _ len room ok, of wd'] unfolding note_event_body(3) [OF assms(2)] by auto
    then show ?thesis
      by (intro exI [of _ "(True, w')"] exI [of _ wd''] conjI exI [of _ w'] exI [of _ rs']
          exI [of _ "rec_of w0 REC_EVENT (w_src w) mt wt (note_body code text0)"]) simp_all
  qed
  show ?thesis unfolding add_note_def by (intro run_clock run_clock(2) add)
qed


lemma note_rec_reads:
  assumes "kind_of r = REC_EVENT" and "unat ns < WAL_NAMESPACES"
  shows "snd r = note_body WAL_EV_RING_SEQ (note_text ''seq='' ns g) \<Longrightarrow>
      seq_upd m r = m[unat ns := g] \<and> has_upd h r = h[unat ns := True] \<and> gen_upd m r = m"
    and "snd r = note_body WAL_EV_RING_GEN (note_text ''gen='' ns g) \<Longrightarrow>
      gen_upd m r = m[unat ns := g] \<and> seq_upd m r = m \<and> has_upd h r = h"
  using assms length_note_text [of "''seq=''" ns g] length_note_text [of "''gen=''" ns g]
    scan_note_text [OF assms(2), of "''seq=''" g] scan_note_text [OF assms(2), of "''gen=''" g]
  by (simp_all add: upd_defs note_body_props(2,4))

lemma grown_folds:
  assumes "grown rs r rs'"
  shows "foldl seq_upd m rs' = seq_upd (foldl seq_upd m rs) r"
    and "foldl has_upd h rs' = has_upd (foldl has_upd h rs) r"
    and "foldl gen_upd m rs' = gen_upd (foldl gen_upd m rs) r"
proof -
  obtain bs where rs': "rs' = bs @ rs @ [r]" and b: "\<forall>b \<in> set bs. kind_of b = REC_BEGIN"
    using assms by (auto simp: grown_def)
  have "foldl seq_upd m bs = m \<and> foldl has_upd h bs = h \<and> foldl gen_upd m bs = m" for m h
    using b by (induction bs arbitrary: m h) (auto simp: upd_other)
  then show "foldl seq_upd m rs' = seq_upd (foldl seq_upd m rs) r"
    and "foldl has_upd h rs' = has_upd (foldl has_upd h rs) r"
    and "foldl gen_upd m rs' = gen_upd (foldl gen_upd m rs) r" by (simp_all add: rs')
qed

text \<open>What the notes of a batch make of the table of the last positions.\<close>

fun noted :: "(source \<Rightarrow> 'a) \<Rightarrow> nat \<Rightarrow> source list \<Rightarrow> 'a list \<Rightarrow> 'a list" where
  "noted f ns [] m = m"
| "noted f ns (s # ss) m = noted f (Suc ns) ss (if so_added s then m[ns := f s] else m)"

lemma note_ring_seq_ok:
  assumes "buf_at w rs" and "length (w_buf w) + 308 \<le> WAL_BUF_BYTES" and "unat ns < WAL_NAMESPACES"
  shows "\<exists>w' wd' rs'. note_ring_seq w ns g wd = (Some (True, w'), wd') \<and> clocks_only wd wd' \<and>
    same_log w w' \<and> w_open_batch w' \<and> buf_at w' rs' \<and> length (w_buf w') \<le> length (w_buf w) + 134 \<and>
    sample_keys rs' = sample_keys rs \<and> n_samples rs' = n_samples rs \<and>
    (\<forall>m h. foldl seq_upd m rs' = (foldl seq_upd m rs)[unat ns := g] \<and>
       foldl has_upd h rs' = (foldl has_upd h rs)[unat ns := True] \<and> foldl gen_upd m rs' = foldl gen_upd m rs)"
proof -
  let ?t = "note_text ''seq='' ns g"
  have t: "length ?t \<le> 34" by (rule length_note_text) simp
  then obtain w' wd' rs' r where a: "note_ring_seq w ns g wd = (Some (True, w'), wd')" "clocks_only wd wd'"
    "same_log w w'" "w_open_batch w'" "buf_at w' rs'" "grown rs r rs'" "kind_of r = REC_EVENT"
    "snd r = note_body WAL_EV_RING_SEQ ?t"
    using add_note_ok [OF assms(1) _ assms(2), of ?t WAL_EV_RING_SEQ wd] unfolding note_ring_seq_def by auto
  note reads = note_rec_reads(1) [OF a(7) assms(3) a(8)]
  have "length (snd r) \<le> 38" using t note_body_props(1) [of ?t] a(8) by simp
  then show ?thesis
    using a reads grown_folds [OF a(6)] grown_samples [OF a(6)] grown_length [OF a(6) assms(1) a(5)]
    by (intro exI [of _ w'] exI [of _ wd'] exI [of _ rs']) simp
qed

lemma note_all_ok:
  assumes "buf_at w rs" and "length (w_buf w) + 308 + 134 * length ss \<le> WAL_BUF_BYTES" 
    and "ns + length ss \<le> WAL_NAMESPACES"
  shows "\<exists>w' wd' rs'. note_all ns ss w wd = (Some (True, w'), wd') \<and> clocks_only wd wd' \<and>
    same_log w w' \<and> buf_at w' rs' \<and>
    (w_open_batch w' \<longleftrightarrow> w_open_batch w \<or> (\<exists>s \<in> set ss. so_added s)) \<and>
    sample_keys rs' = sample_keys rs \<and> n_samples rs' = n_samples rs \<and>
    (\<forall>m h. foldl seq_upd m rs' = noted so_last_seq ns ss (foldl seq_upd m rs) \<and>
       foldl has_upd h rs' = noted (\<lambda>_. True) ns ss (foldl has_upd h rs) \<and>
       foldl gen_upd m rs' = foldl gen_upd m rs)"
  using assms
proof (induction ss arbitrary: ns w rs wd)
  case Nil
  then show ?case by (auto simp: ret_def)
next
  case (Cons s ss)
  have u: "unat (of_nat ns :: u32) = ns" using Cons(4) by (simp add: unsigned_of_nat take_bit_nat_eq_self)
  define first where "first = (if so_added s then note_ring_seq w (of_nat ns) (so_last_seq s) else ret (True, w))"
  obtain w1 wd1 rs1 where f: "first wd = (Some (True, w1), wd1)" "clocks_only wd wd1" "same_log w w1"
    "buf_at w1 rs1" "length (w_buf w1) \<le> length (w_buf w) + 134"
    "w_open_batch w1 \<longleftrightarrow> w_open_batch w \<or> so_added s"
    "sample_keys rs1 = sample_keys rs" "n_samples rs1 = n_samples rs"
    "\<forall>m h. foldl seq_upd m rs1 = (if so_added s then (foldl seq_upd m rs)[ns := so_last_seq s] else foldl seq_upd m rs) \<and>
       foldl has_upd h rs1 = (if so_added s then (foldl has_upd h rs)[ns := True] else foldl has_upd h rs) \<and>
       foldl gen_upd m rs1 = foldl gen_upd m rs"
  proof (cases "so_added s")
    case True
    then show ?thesis
      using that note_ring_seq_ok [OF Cons(2), of "of_nat ns" "so_last_seq s" wd] Cons(3,4) u
      by (auto simp: first_def)
  next
    case False
    then show ?thesis using that [of w wd rs] Cons(2) by (auto simp: first_def ret_def)
  qed
  obtain w2 wd2 rs2 where g: "note_all (Suc ns) ss w1 wd1 = (Some (True, w2), wd2)" "clocks_only wd1 wd2"
    "same_log w1 w2" "buf_at w2 rs2" "w_open_batch w2 \<longleftrightarrow> w_open_batch w1 \<or> (\<exists>s \<in> set ss. so_added s)"
    "sample_keys rs2 = sample_keys rs1" "n_samples rs2 = n_samples rs1"
    "\<forall>m h. foldl seq_upd m rs2 = noted so_last_seq (Suc ns) ss (foldl seq_upd m rs1) \<and>
       foldl has_upd h rs2 = noted (\<lambda>_. True) (Suc ns) ss (foldl has_upd h rs1) \<and>
       foldl gen_upd m rs2 = foldl gen_upd m rs1"
    using Cons.IH [OF f(4), of "Suc ns" wd1] f(5) Cons(3,4) by auto
  have "note_all ns (s # ss) w wd = (Some (True, w2), wd2)"
    using f(1) g(1) by (simp add: first_def andthen_def ret_def)
  moreover have "clocks_only wd wd2" using f(2) g(2) by (simp add: clocks_only_def)
  ultimately show ?case
    using f g same_log_trans [OF f(3) g(3)]
    by (intro exI [of _ w2] exI [of _ wd2] exI [of _ rs2]) simp
qed

end
