(* ===== verification/Storaged_Run.thy ===== *)
theory Storaged_Run
  imports Storaged
begin

text \<open>
  Runs of the storage daemon: what one turn of its loop does to the rings and the log, that what
  has reached the disk stays there, that a slot is released only when it is durable, and what a
  restart takes up.
\<close>

section \<open>What is on disk stays there\<close>

text \<open>Every image a power cut can leave of the file \<open>p\<close> starts with the bytes \<open>X\<close>.\<close>

definition secure :: "string \<Rightarrow> bytes \<Rightarrow> world \<Rightarrow> bool" where
  "secure p X wd \<longleftrightarrow> (\<exists>f. the_file p wd = Some f \<and> f_entry f \<and> length X \<le> f_synced f \<and>
     (\<forall>d \<in> set (f_data f # f_old f). prefix X d))"

lemma secure_image:
  assumes "secure p X wd" and "the_file p wd = Some f" and "image_of f img"
  shows "prefix X img"
proof -
  obtain d where "d \<in> set (f_data f # f_old f)" "prefix img d" "f_synced f \<le> length img"
    using assms(3) by (auto simp: image_of_def)
  moreover from this have "prefix X d" "length X \<le> length img" using assms(1,2) by (auto simp: secure_def)
  ultimately show ?thesis using prefix_length_prefix by blast
qed

lemma secure_same: "wd_files wd' = wd_files wd \<Longrightarrow> secure p X wd' = secure p X wd"
  by (simp add: secure_def the_file_def)

lemma secure_clocks: "clocks_only wd wd' \<Longrightarrow> secure p X wd' = secure p X wd"
  by (rule secure_same) (simp add: clocks_only_def)

lemma secure_upd:
  assumes "secure p X wd"
    and "\<And>f. p = q \<Longrightarrow> f_entry f \<Longrightarrow> length X \<le> f_synced f \<Longrightarrow> \<forall>d \<in> set (f_data f # f_old f). prefix X d \<Longrightarrow>
      f_entry (g f) \<and> length X \<le> f_synced (g f) \<and> (\<forall>d \<in> set (f_data (g f) # f_old (g f)). prefix X d)"
  shows "secure p X (upd_file q g wd)"
  using assms unfolding secure_def by fastforce

definition keeps_secure :: "string \<Rightarrow> bytes \<Rightarrow> 'a io \<Rightarrow> bool" where
  "keeps_secure p X m \<longleftrightarrow> (\<forall>wd. secure p X wd \<longrightarrow> secure p X (snd (m wd)))"

lemma keepsI: "(\<And>wd. secure p X wd \<Longrightarrow> secure p X (snd (m wd))) \<Longrightarrow> keeps_secure p X m"
  by (simp add: keeps_secure_def)

lemma keeps_andthen:
  "keeps_secure p X m \<Longrightarrow> (\<And>x. keeps_secure p X (f x)) \<Longrightarrow> keeps_secure p X (andthen m f)"
  by (auto simp: keeps_secure_def andthen_def split: prod.splits option.splits)

lemma keeps_if: "(b \<Longrightarrow> keeps_secure p X m) \<Longrightarrow> (\<not> b \<Longrightarrow> keeps_secure p X m') \<Longrightarrow> keeps_secure p X (if b then m else m')"
  by simp

lemma keeps_ret: "keeps_secure p X (ret x)"
  by (simp add: keeps_secure_def ret_def)

lemma keeps_files_only: "(\<And>wd. wd_files (snd (m wd)) = wd_files wd) \<Longrightarrow> keeps_secure p X m"
  unfolding keeps_secure_def using secure_same by blast

lemma keeps_clock: "keeps_secure p X wal_now_mono" "keeps_secure p X wal_now_wall"
  by (rule keeps_files_only, simp add: wal_now_mono_def wal_now_wall_def)+

lemma keeps_sys: "keeps_secure p X sys" "keeps_secure p X sys_ok"
  by (rule keeps_files_only, simp add: sys_ok_def sys_def andthen_def ret_def split: list.splits)+

lemma keeps_sys_close: "keeps_secure p X (sys_close fd)"
  by (simp add: sys_close_def keeps_ret keeps_sys split: option.splits)

lemma keeps_upd:
  assumes "\<And>wd. secure p X wd \<Longrightarrow> secure p X (h wd)"
  shows "keeps_secure p X (\<lambda>wd. (Some x, h wd))"
  using assms by (simp add: keeps_secure_def)

lemma keeps_sys_fsync: "keeps_secure p X (sys_fsync fd)"
proof -
  have "secure p X (upd_file q (\<lambda>f. f\<lparr>f_old := [], f_synced := length (f_data f)\<rparr>) wd)" if "secure p X wd" for q wd
    by (rule secure_upd [OF that]) (auto intro: prefix_length_le)
  then show ?thesis
    unfolding sys_fsync_def by (auto intro!: keeps_andthen keeps_sys keeps_if keeps_ret keeps_upd split: option.splits)
qed

lemma keeps_sys_ftruncate:
  assumes "fd = Some p \<Longrightarrow> length X \<le> n"
  shows "keeps_secure p X (sys_ftruncate fd n)"
proof -
  have "prefix X (take n d)" if "prefix X d" "length X \<le> n" for d
    using that by (metis prefix_def append_take_drop_id prefix_length_prefix take_all_iff length_take min_def prefix_length_le take_is_prefix)
  then have "secure p X (upd_file q (\<lambda>f. f\<lparr>f_old := f_data f # f_old f, f_data := take n (f_data f), f_synced := min n (f_synced f)\<rparr>) wd)"
    if "secure p X wd" "fd = Some q" for q wd
    by (intro secure_upd [OF that(1)]) (use assms that(2) in auto)
  moreover have "secure p X (wd\<lparr>wd_refused := R\<rparr>) = secure p X wd" for wd R by (rule secure_same) simp
  ultimately show ?thesis
    unfolding sys_ftruncate_def by (auto intro!: keeps_andthen keeps_sys keeps_if keeps_ret keeps_upd split: option.splits)
qed

lemma keeps_sys_write: "keeps_secure p X (sys_write fd bs)"
proof -
  have "secure p X (upd_file q (\<lambda>f. f\<lparr>f_data := f_data f @ take n bs\<rparr>) wd)" if "secure p X wd" for q n wd
    by (rule secure_upd [OF that]) (auto simp: prefix_def)
  then show ?thesis
    unfolding sys_write_def
    by (auto intro!: keeps_andthen keeps_sys keeps_ret keeps_upd split: option.splits outcome.splits)
qed

lemma keeps_write_all: "secure p X wd \<Longrightarrow> secure p X (snd (write_all fd bs wd))"
proof (induction fd bs wd rule: write_all.induct)
  case (1 fd rest wd)
  have s: "secure p X (snd (sys_write fd rest wd))"
    using keeps_sys_write [of p X fd rest] 1(3) by (simp add: keeps_secure_def)
  show ?case
    using 1 s by (subst write_all.simps) (auto split: option.splits prod.splits outcome.splits)
qed

lemma keeps_sync_dir: "keeps_secure p X (sync_dir dir)"
proof -
  have "secure p X (entries_synced dir wd)" if "secure p X wd" for wd
    using that unfolding secure_def the_file_entries by (cases "the_file p wd") auto
  then show ?thesis
    unfolding sync_dir_def by (auto intro!: keeps_andthen keeps_sys keeps_if keeps_ret keeps_upd)
qed

lemma keeps_sys_create: "keeps_secure p X (sys_create q)"
proof -
  have "secure p X (wd\<lparr>wd_files := wd_files wd @ fs\<rparr>)" if "secure p X wd" for wd fs
    using that by (auto simp: secure_def the_file_def map_add_Some_iff)
  then show ?thesis
    unfolding sys_create_def by (intro keeps_andthen keeps_sys) (auto intro!: keepsI)
qed

lemma keeps_create_segment: "keeps_secure p X (create_segment w s)"
  unfolding create_segment_def Let_def
  by (auto intro!: keeps_andthen keeps_sys_create keeps_sync_dir keeps_if keeps_ret keeps_sys_close)

lemma keeps_wal_commit:
  assumes "w_fd w = Some p \<Longrightarrow> length X \<le> unat (w_seg_bytes w)"
  shows "keeps_secure p X (wal_commit w)"
proof -
  have undo: "keeps_secure p X (commit_undo w1)" if "w_fd w1 = w_fd w" "w_seg_bytes w1 = w_seg_bytes w" for w1
    unfolding commit_undo_def that by (intro keeps_andthen keeps_sys_ftruncate keeps_ret assms)
  have done0: "keeps_secure p X (commit_done w1)" for w1
    unfolding commit_done_def Let_def
    by (intro keeps_if keeps_andthen keeps_sys_close keeps_create_segment keeps_ret)
  have "keeps_secure p X (write_all fd bs)" for fd bs by (rule keepsI) (rule keeps_write_all)
  moreover have "w_fd w1 = w_fd w \<and> w_seg_bytes w1 = w_seg_bytes w"
    if "append w k s m wl b n = Some w1" for k s m wl b n w1
    using that by (auto simp: append_def Let_def split: option.splits)
  ultimately show ?thesis
    unfolding wal_commit_def
    by (auto intro!: keeps_if keeps_ret keeps_andthen keeps_clock undo done0 keeps_sys_fsync split: option.splits)
qed

section \<open>One turn of the main loop\<close>

lemma shuffles_append:
  "zs \<in> shuffles xs ys \<Longrightarrow> zs' \<in> shuffles xs' ys' \<Longrightarrow> zs @ zs' \<in> shuffles (xs @ xs') (ys @ ys')"
proof (induction zs arbitrary: xs ys)
  case Nil
  then show ?case by simp
next
  case (Cons z zs)
  from Cons.prems(1) show ?case
    unfolding Cons_in_shuffles_iff
    using Cons.IH [OF _ Cons.prems(2)] by (auto simp: Cons_in_shuffles_iff neq_Nil_conv)
qed

lemma shuffles_snoc:
  "zs \<in> shuffles xs ys \<Longrightarrow> zs @ as \<in> shuffles (xs @ as) ys"
  "zs \<in> shuffles xs ys \<Longrightarrow> zs @ as \<in> shuffles xs (ys @ as)"
  using shuffles_append [of zs xs ys as as "[]"] shuffles_append [of zs xs ys as "[]" as] by simp_all

definition unread_of :: "source \<Rightarrow> ring_slot list" where
  "unread_of s = (case so_ring s of None \<Rightarrow> [] | Some r \<Rightarrow> unread r)"

text \<open>The slots of a source that the open batch covers, and the samples it holds of them.\<close>

definition taken_of :: "source \<Rightarrow> ring_slot list" where
  "taken_of s = take (unat (so_taken s)) (unread_of s)"

abbreviation keys_of :: "source \<Rightarrow> (u8 \<times> u64 \<times> bytes) list" where
  "keys_of s \<equiv> map slot_key (kept s (taken_of s))"

definition source_ok :: "source \<Rightarrow> bool" where
  "source_ok s \<longleftrightarrow> (\<forall>r. so_ring s = Some r \<longrightarrow> ring_inv r) \<and> unat (so_taken s) \<le> length (unread_of s) \<and>
     (so_added s \<longleftrightarrow> kept s (taken_of s) \<noteq> []) \<and>
     (taken_of s \<noteq> [] \<longrightarrow> so_last_seq s = sl_seq (last (taken_of s)))"

text \<open>\<open>s'\<close> is \<open>s\<close> with more of its ring taken.\<close>

definition same_source :: "source \<Rightarrow> source \<Rightarrow> bool" where
  "same_source s s' \<longleftrightarrow> so_ring s' = so_ring s \<and> so_skip s' = so_skip s \<and> so_skip_seq s' = so_skip_seq s"

lemma length_unread_u64: "length (unread r) < 2 ^ 64"
  using unsigned_less [of "r_head r - r_tail r", where ?'a = nat] by simp

lemma drained_ok:
  assumes "so_ring s = Some r" and "source_ok s" and "unat (so_taken s) \<le> t" and "t \<le> length (unread r)"
  shows "source_ok (drained r s t)" and "same_source s (drained r s t)"
    and "taken_of (drained r s t) = taken_of s @ between r (unat (so_taken s)) t"
proof -
  let ?s = "drained r s t" and ?xs = "between r (unat (so_taken s)) t"
  have t: "unat (of_nat t :: u64) = t" using assms(4) length_unread_u64 [of r] by (intro unat_of_nat_u64) simp
  show same: "same_source s ?s" by (simp add: same_source_def drained_def Let_def)
  have k: "kept ?s = kept s" using same by (intro kept_cong) (simp_all add: same_source_def)
  have u: "unread_of ?s = unread r" "so_taken ?s = of_nat t" using assms(1) same
    by (simp_all add: unread_of_def same_source_def drained_def Let_def)
  have tk: "taken_of s = take (unat (so_taken s)) (unread r)" using assms(1) by (simp add: taken_of_def unread_of_def)
  show app: "taken_of ?s = taken_of s @ ?xs"
    unfolding tk taken_of_def u t between_def
    using append_take_drop_id [of "unat (so_taken s)" "take t (unread r)"] assms(1,3) by (simp add: min_def unread_of_def)
  have "so_last_seq ?s = (if ?xs = [] then so_last_seq s else sl_seq (last ?xs))"
    "so_added ?s = (so_added s \<or> kept s ?xs \<noteq> [])" by (simp_all add: drained_def Let_def)
  then show "source_ok ?s"
    using assms(1,2,4) same u t unfolding source_ok_def app k kept_simps
    by (auto simp: same_source_def)
qed

lemma drain_source:
  assumes "source_ok s" and "loose w rs"
  shows "\<exists>n w' s' wd' rs'. (case so_ring s of None \<Rightarrow> ret (0, w, s) | Some r \<Rightarrow> drain r w s 0) wd =
      (Some (n, w', s'), wd') \<and> clocks_only wd wd' \<and> same_log w w' \<and> loose w' rs' \<and>
    source_ok s' \<and> same_source s s' \<and>
    (\<exists>xs. keys_of s' = keys_of s @ xs \<and> sample_keys rs' = sample_keys rs @ xs)"
proof (cases "so_ring s")
  case None
  then show ?thesis
    using assms by (intro exI [of _ 0] exI [of _ w] exI [of _ s] exI [of _ wd] exI [of _ rs])
      (simp add: ret_def same_source_def)
next
  case (Some r)
  have r: "ring_inv r" "unat (so_taken s) \<le> length (unread r)"
    using assms(1) Some by (simp_all add: source_ok_def unread_of_def)
  obtain t w' wd' rs' where d: "drain r w s 0 wd =
      (Some (0 + of_nat (length (kept s (between r (unat (so_taken s)) t))), w', drained r s t), wd')"
    "unat (so_taken s) \<le> t" "t \<le> length (unread r)" "clocks_only wd wd'" "same_log w w'" "loose w' rs'"
    "sample_keys rs' = sample_keys rs @ map slot_key (kept s (between r (unat (so_taken s)) t))"
    using drain_spec [OF assms(2) r, of 0 wd] by blast
  note ok = drained_ok [OF Some assms(1) d(2,3)]
  have "kept (drained r s t) = kept s" using ok(2) by (intro kept_cong) (simp_all add: same_source_def)
  then have keys: "keys_of (drained r s t) = keys_of s @ map slot_key (kept s (between r (unat (so_taken s)) t))"
    using ok(3) by simp
  show ?thesis
    unfolding Some option.case d(1)
    using d ok keys
    by (intro exI [of _ "0 + of_nat (length (kept s (between r (unat (so_taken s)) t)))"] exI [of _ w']
        exI [of _ "drained r s t"] exI [of _ wd'] exI [of _ rs']) auto
qed

text \<open>The samples in the buffer are those of the slots taken, each ring's in its order.\<close>

definition holds :: "rec list \<Rightarrow> source \<Rightarrow> source \<Rightarrow> bool" where
  "holds rs s0 s1 \<longleftrightarrow> sample_keys rs \<in> shuffles (keys_of s0) (keys_of s1)"

lemma drain_both:
  assumes "source_ok s0" and "source_ok s1" and "loose w rs" and "holds rs s0 s1"
  shows "\<exists>n t0 t1 w' wd' rs'. drain_all [s0, s1] w wd = (Some (n, [t0, t1], w'), wd') \<and>
    clocks_only wd wd' \<and> same_log w w' \<and> loose w' rs' \<and> holds rs' t0 t1 \<and>
    source_ok t0 \<and> source_ok t1 \<and> same_source s0 t0 \<and> same_source s1 t1"
proof -
  obtain n0 w1 t0 wd1 rs1 x0 where a: "(case so_ring s0 of None \<Rightarrow> ret (0, w, s0) | Some r \<Rightarrow> drain r w s0 0) wd =
      (Some (n0, w1, t0), wd1)" "clocks_only wd wd1" "same_log w w1" "loose w1 rs1" "source_ok t0" "same_source s0 t0"
    "keys_of t0 = keys_of s0 @ x0" "sample_keys rs1 = sample_keys rs @ x0"
    using drain_source [OF assms(1,3), of wd] by blast
  obtain n1 w2 t1 wd2 rs2 x1 where b: "(case so_ring s1 of None \<Rightarrow> ret (0, w1, s1) | Some r \<Rightarrow> drain r w1 s1 0) wd1 =
      (Some (n1, w2, t1), wd2)" "clocks_only wd1 wd2" "same_log w1 w2" "loose w2 rs2" "source_ok t1" "same_source s1 t1"
    "keys_of t1 = keys_of s1 @ x1" "sample_keys rs2 = sample_keys rs1 @ x1"
    using drain_source [OF assms(2) a(4), of wd1] by blast
  have d1: "drain_all [s1] w1 wd1 = (Some (n1, [t1], w2), wd2)"
    by (simp add: andthen_def b(1)) (simp add: ret_def)
  have d: "drain_all [s0, s1] w wd = (Some (n0 + n1, [t0, t1], w2), wd2)"
    by (subst drain_all.simps) (simp add: andthen_def [of "case so_ring s0 of None \<Rightarrow> ret (0, w, s0) | Some r \<Rightarrow> drain r w s0 0"] a(1) andthen_def [of "drain_all [s1] w1"] d1 ret_def del: drain_all.simps)
  have "sample_keys rs2 \<in> shuffles (keys_of t0) (keys_of t1)"
    unfolding a(7,8) b(7,8) using assms(4) by (intro shuffles_snoc) (simp add: holds_def)
  then show ?thesis
    using a b d same_log_trans [OF a(3) b(3)]
    by (intro exI [of _ "n0 + n1"] exI [of _ t0] exI [of _ t1] exI [of _ w2] exI [of _ wd2] exI [of _ rs2])
      (simp add: holds_def clocks_only_def)
qed

lemma loose_folds:
  assumes "loose w rs"
  shows "foldl seq_upd m rs = m" and "foldl has_upd h rs = h" and "foldl gen_upd m rs = m"
proof -
  have "\<forall>r \<in> set rs. kind_of r \<noteq> REC_EVENT" using assms by (fastforce simp: loose_def)
  then have "foldl seq_upd m rs = m \<and> foldl has_upd h rs = h \<and> foldl gen_upd m rs = m"
    by (induction rs) (auto simp: upd_other)
  then show "foldl seq_upd m rs = m" and "foldl has_upd h rs = h" and "foldl gen_upd m rs = m" by simp_all
qed

lemma end_turn_run:
  "\<exists>d' wd'. end_turn n srcs w d wd = (Some d', wd') \<and> d_wal d' = w \<and> d_srcs d' = srcs \<and> clocks_only wd wd'"
  by (simp add: end_turn_def Let_def andthen_def wal_now_mono_def ret_def clocks_only_def)

text \<open>A batch ready to be committed: the samples of the slots taken and a note for each ring.\<close>

definition batch_ready :: "wal \<Rightarrow> rec list \<Rightarrow> source \<Rightarrow> source \<Rightarrow> bool" where
  "batch_ready w rs s0 s1 \<longleftrightarrow> buf_at w rs \<and> holds rs s0 s1 \<and>
     (so_added s0 \<or> so_added s1 \<longrightarrow> w_open_batch w) \<and>
     (\<forall>m h. foldl seq_upd m rs = noted so_last_seq 0 [s0, s1] m \<and>
        foldl has_upd h rs = noted (\<lambda>_. True) 0 [s0, s1] h \<and> foldl gen_upd m rs = m)"

lemma notes_ready:
  assumes "loose w rs" and "holds rs s0 s1"
  shows "\<exists>w' wd' rs'. note_all 0 [s0, s1] w wd = (Some (True, w'), wd') \<and> clocks_only wd wd' \<and>
    same_log w w' \<and> batch_ready w' rs' s0 s1 \<and> (w_open_batch w \<longrightarrow> w_open_batch w')"
proof -
  have buf: "buf_at w rs" "length (w_buf w) \<le> 3636"
    using assms(1) loose_length [OF assms(1)] by (auto simp: loose_def)
  obtain w' wd' rs' where n: "note_all 0 [s0, s1] w wd = (Some (True, w'), wd')" "clocks_only wd wd'"
    "same_log w w'" "buf_at w' rs'"
    "w_open_batch w' \<longleftrightarrow> w_open_batch w \<or> (\<exists>s \<in> set [s0, s1]. so_added s)"
    "sample_keys rs' = sample_keys rs"
    and f: "\<forall>m h. foldl seq_upd m rs' = noted so_last_seq 0 [s0, s1] (foldl seq_upd m rs) \<and>
       foldl has_upd h rs' = noted (\<lambda>_. True) 0 [s0, s1] (foldl has_upd h rs) \<and>
       foldl gen_upd m rs' = foldl gen_upd m rs"
    using note_all_ok [OF buf(1), of "[s0, s1]" 0 wd] buf(2) by auto
  have "batch_ready w' rs' s0 s1"
    using n f assms(2) unfolding batch_ready_def holds_def loose_folds [OF assms(1)] by auto
  then show ?thesis using n by blast
qed

lemma andthen_Some: "m wd = (Some x, wd1) \<Longrightarrow> andthen m f wd = f x wd1"
  by (simp add: andthen_def)

lemma turn_after_drain:
  assumes "d_srcs d = ss" and "drain_all ss (d_wal d) wd = (Some (n, ts, w), wd1)" and "wal_now_mono wd1 = (Some now, wd2)"
  shows "turn d wd = (if wal_due w now \<or> ((\<exists>s \<in> set ts. so_taken s > 0) \<and> \<not> w_open_batch w) then
           andthen (note_all 0 ts w) (\<lambda>(noted, w1).
             andthen (if noted then wal_commit w1 else ret (False, w1)) (\<lambda>(good, w2).
               if \<not> good then ret (d\<lparr>d_wal := w2, d_srcs := map restart_source ts\<rparr>)
               else end_turn n (map release_source ts) w2 d)) wd2
         else end_turn n ts w d wd2)"
  unfolding turn_def assms(1)
  by (simp add: andthen_Some [of "drain_all ss (d_wal d)" wd, OF assms(2)] andthen_Some [of wal_now_mono wd1, OF assms(3)]
      del: note_all.simps drain_all.simps) blast

lemma turn_cases:
  assumes "d_srcs d = [s0, s1]" and "source_ok s0" and "source_ok s1" and "loose (d_wal d) rs"
    and "holds rs s0 s1" and "turn d wd = (res, wd')"
  obtains (waits) d' t0 t1 rs' where "res = Some d'" and "d_srcs d' = [t0, t1]" and "clocks_only wd wd'"
      and "same_log (d_wal d) (d_wal d')" and "loose (d_wal d') rs'" and "holds rs' t0 t1"
      and "source_ok t0" and "source_ok t1" and "same_source s0 t0" and "same_source s1 t1"
  | (commits) t0 t1 w rs' wd1 c wd2 where "same_log (d_wal d) w" and "batch_ready w rs' t0 t1"
      and "clocks_only wd wd1" and "wal_commit w wd1 = (c, wd2)" and "clocks_only wd2 wd'"
      and "source_ok t0" and "source_ok t1" and "same_source s0 t0" and "same_source s1 t1"
      and "c = None \<Longrightarrow> res = None"
      and "\<And>w'. c = Some (False, w') \<Longrightarrow> \<exists>d'. res = Some d' \<and> d_wal d' = w' \<and> d_srcs d' = [restart_source t0, restart_source t1]"
      and "\<And>w'. c = Some (True, w') \<Longrightarrow> \<exists>d'. res = Some d' \<and> d_wal d' = w' \<and> d_srcs d' = [release_source t0, release_source t1]"
proof -
  obtain n t0 t1 w wd1 rs1 where dr: "drain_all [s0, s1] (d_wal d) wd = (Some (n, [t0, t1], w), wd1)"
    and c1: "clocks_only wd wd1" and l1: "same_log (d_wal d) w" "loose w rs1" "holds rs1 t0 t1"
    and ok: "source_ok t0" "source_ok t1" "same_source s0 t0" "same_source s1 t1"
    using drain_both [OF assms(2-5), of wd] by blast
  obtain now wd2 where t: "wal_now_mono wd1 = (Some now, wd2)" and c2: "clocks_only wd1 wd2"
    using clock_reads(1) by blast
  let ?due = "wal_due w now \<or> ((\<exists>s \<in> set [t0, t1]. so_taken s > 0) \<and> \<not> w_open_batch w)"
  note run = turn_after_drain [OF assms(1) dr t]
  have c12: "clocks_only wd wd2" using c1 c2 by (simp add: clocks_only_def)
  show thesis
  proof (cases ?due)
    case False
    obtain d' wd3 where e: "end_turn n [t0, t1] w d wd2 = (Some d', wd3)" "d_wal d' = w" "d_srcs d' = [t0, t1]"
      "clocks_only wd2 wd3" using end_turn_run by blast
    have "turn d wd = (Some d', wd3)" unfolding run if_not_P [OF False] by (rule e(1))
    then have r: "res = Some d'" "wd' = wd3" using assms(6) by simp_all
    show thesis
      by (rule waits [OF r(1) e(3) _ _ _ l1(3) ok]) (use l1 e c12 r in \<open>simp_all add: clocks_only_def\<close>)
  next
    case True
    obtain w1 wd3 rs2 where n: "note_all 0 [t0, t1] w wd2 = (Some (True, w1), wd3)" "clocks_only wd2 wd3"
      "same_log w w1" "batch_ready w1 rs2 t0 t1" using notes_ready [OF l1(2,3), of wd2] by blast
    obtain c wd4 where c: "wal_commit w1 wd3 = (c, wd4)" by fastforce
    have r: "turn d wd = andthen (wal_commit w1) (\<lambda>(good, w2).
               if \<not> good then ret (d\<lparr>d_wal := w2, d_srcs := map restart_source [t0, t1]\<rparr>)
               else end_turn n (map release_source [t0, t1]) w2 d) wd3"
      unfolding run if_P [OF True] by (simp add: andthen_Some [of "note_all 0 [t0, t1] w" wd2, OF n(1)] del: note_all.simps drain_all.simps)
    have "clocks_only wd4 wd' \<and> (c = None \<longrightarrow> res = None) \<and>
        (\<forall>w'. c = Some (False, w') \<longrightarrow> (\<exists>d'. res = Some d' \<and> d_wal d' = w' \<and> d_srcs d' = [restart_source t0, restart_source t1])) \<and>
        (\<forall>w'. c = Some (True, w') \<longrightarrow> (\<exists>d'. res = Some d' \<and> d_wal d' = w' \<and> d_srcs d' = [release_source t0, release_source t1]))"
    proof (cases c)
      case None
      then show ?thesis using r c assms(6) by (simp add: andthen_def)
    next
      case (Some y)
      obtain good w2 where y: "y = (good, w2)" by fastforce
      obtain d' wd5 where e: "end_turn n [release_source t0, release_source t1] w2 d wd4 = (Some d', wd5)" "d_wal d' = w2"
        "d_srcs d' = [release_source t0, release_source t1]" "clocks_only wd4 wd5" using end_turn_run by blast
      show ?thesis
        using r assms(6) e c Some y by (cases good) (simp_all add: andthen_def ret_def)
    qed
    then show thesis
      by (intro commits [OF same_log_trans [OF l1(1) n(3)] n(4) _ c _ ok])
        (use c12 n(2) in \<open>auto simp: clocks_only_def\<close>)
  qed
qed

section \<open>Runs of the daemon\<close>

text \<open>The batch \<open>b\<close> is on disk: there is a file of which every image that a power cut can leave
  starts with whole batches, \<open>b\<close> among them.\<close>

definition on_disk :: "world \<Rightarrow> rec list \<Rightarrow> bool" where
  "on_disk wd b \<longleftrightarrow> (\<exists>p bs. log_ok bs \<and> b \<in> set bs \<and> secure p (bytes_of_log (concat bs)) wd)"

text \<open>The log can be written to, or has no segment open and every commit fails.\<close>

definition log_live :: "wal \<Rightarrow> world \<Rightarrow> bool" where
  "log_live w wd \<longleftrightarrow> (\<exists>bs. log_at w wd bs) \<or> w_fd w = None"

lemma log_live_same: "same_log w w' \<Longrightarrow> clocks_only wd wd' \<Longrightarrow> log_live w' wd' = log_live w wd"
  by (simp add: log_live_def same_log_at) (simp add: same_log_def)

lemma on_disk_clocks: "clocks_only wd wd' \<Longrightarrow> on_disk wd' b = on_disk wd b"
  by (simp add: on_disk_def secure_clocks)

lemma commit_keeps_secure:
  assumes "log_live w wd" and "wal_commit w wd = (c, wd')" and "secure p X wd"
  shows "secure p X wd'"
proof -
  have "length X \<le> unat (w_seg_bytes w)" if fd: "w_fd w = Some p"
  proof -
    obtain cs where at: "log_at w wd cs" using assms(1) fd by (auto simp: log_live_def)
    obtain q old where "w_fd w = Some q" "file_is q wd (bytes_of_log (concat cs)) old (length (bytes_of_log (concat cs)))"
      and len: "unat (w_seg_bytes w) = length (bytes_of_log (concat cs))"
      by (rule log_atD [OF at])
    then have "file_is p wd (bytes_of_log (concat cs)) old (length (bytes_of_log (concat cs)))" using fd by simp
    then show ?thesis unfolding len using assms(3) by (auto simp: secure_def file_is_def)
  qed
  then have "secure p X (snd (wal_commit w wd))"
    using keeps_wal_commit assms(3) unfolding keeps_secure_def by blast
  then show ?thesis using assms(2) by simp
qed

lemma commit_keeps_on_disk: "log_live w wd \<Longrightarrow> wal_commit w wd = (c, wd') \<Longrightarrow> on_disk wd b \<Longrightarrow> on_disk wd' b"
  unfolding on_disk_def using commit_keeps_secure by blast

lemma commit_without_fd:
  assumes "w_fd w = None" and "buf_at w rs" and "w_open_batch w" and "wal_commit w wd = (Some (good, w'), wd')"
  shows "\<not> good" and "w_fd w' = None" and "buf_at w' []"
proof -
  have src: "SRC_IS_VALID (w_src w)" and room: "length (w_buf w) + 60 \<le> WAL_BUF_BYTES"
    using assms(2) by (auto simp: buf_at_def)
  have "frame_of r \<noteq> []" for r by (simp add: frame_split) (simp add: bytes_of_hdr_def le_bytes.simps eval_nat_numeral)
  then have "good = False \<and> w' = drop_batch w"
    using assms(1,4) unfolding wal_commit_def append_commit [OF src room] if_not_P [OF iffD2 [OF not_not assms(3)]]
    by (auto simp: andthen_def wal_now_mono_def wal_now_wall_def write_all.simps commit_undo_def sys_ftruncate_def
        ret_def drop_batch_def)
  then show "\<not> good" and "w_fd w' = None" and "buf_at w' []"
    using assms(1) buf_at_after(1) [OF assms(2)] by (auto simp: drop_batch_def)
qed

text \<open>Segments with the batches that are on disk in them: \<open>L\<close> names each file once.\<close>

definition shelved :: "world \<Rightarrow> (string \<times> rec list list) list \<Rightarrow> bool" where
  "shelved wd L \<longleftrightarrow> distinct (map fst L) \<and>
     (\<forall>(p, bs) \<in> set L. log_ok bs \<and> bs \<noteq> [] \<and> secure p (bytes_of_log (concat bs)) wd)"

text \<open>The open segment is the last of \<open>L\<close>, grown since, or not among them; or no segment is open.\<close>

definition live_on :: "wal \<Rightarrow> world \<Rightarrow> (string \<times> rec list list) list \<Rightarrow> bool" where
  "live_on w wd L \<longleftrightarrow> w_fd w = None \<or> (\<exists>bs p. log_at w wd bs \<and> w_fd w = Some p \<and>
     (p \<notin> fst ` set L \<or> (\<exists>L0 bs0. L = L0 @ [(p, bs0)] \<and> prefix bs0 bs)))"

lemma live_on_live: "live_on w wd L \<Longrightarrow> log_live w wd"
  by (auto simp: live_on_def log_live_def)

lemma live_on_same: "same_log w w' \<Longrightarrow> clocks_only wd wd' \<Longrightarrow> live_on w' wd' L = live_on w wd L"
  by (simp add: live_on_def same_log_at) (simp add: same_log_def)

lemma shelved_mono:
  "shelved wd L \<Longrightarrow> (\<And>p bs. secure p (bytes_of_log (concat bs)) wd \<Longrightarrow> secure p (bytes_of_log (concat bs)) wd') \<Longrightarrow> shelved wd' L"
  by (auto simp: shelved_def)

lemma shelved_file:
  assumes "shelved wd (L0 @ L1)" and "p \<notin> fst ` set L0" and "log_ok bs" and "bs \<noteq> []"
    and "file_is p wd (bytes_of_log (concat bs)) [] (length (bytes_of_log (concat bs)))"
  shows "shelved wd (L0 @ [(p, bs)])"
proof -
  have "secure p (bytes_of_log (concat bs)) wd" using assms(5) by (auto simp: secure_def file_is_def)
  then show ?thesis using assms(1-4) by (auto simp: shelved_def)
qed

lemma bytes_of_batches:
  assumes "log_ok bs" and "bs \<noteq> []"
  shows "bytes_of_log (concat bs) \<noteq> []"
proof -
  obtain b cs where b: "bs = b # cs" "is_batch b" using assms by (cases bs) auto
  obtain r rs where "b = r # rs" using b(2) by (cases b) (auto simp: is_batch_def open_part_def)
  then show ?thesis by (simp add: b(1))
qed

lemma new_segment:
  assumes "shelved wd L" and "log_at w wd []" and "w_fd w = Some q"
  shows "q \<notin> fst ` set L"
proof
  assume "q \<in> fst ` set L"
  then obtain bs where bs: "log_ok bs" "bs \<noteq> []" "secure q (bytes_of_log (concat bs)) wd"
    using assms(1) by (auto simp: shelved_def)
  have "bytes_of_log (concat bs) = []" using bs(3) assms(2,3) by (auto simp: secure_def log_at_def file_is_def)
  then show False using bytes_of_batches [OF bs(1,2)] by simp
qed

text \<open>A commit that returns 0 puts its batch behind those that are on disk.\<close>

lemma commit_shelves:
  assumes "live_on w wd L" and "shelved wd L" and "subseq H (concat (map snd L))"
    and "buf_at w rs" and "w_open_batch w" and "wal_commit w wd = (Some (True, w'), wd')"
  shows "\<exists>c L'. kind_of c = REC_COMMIT \<and> buf_at w' [] \<and> shelved wd' L' \<and>
    subseq (H @ [rs @ [c]]) (concat (map snd L')) \<and> live_on w' wd' L'"
proof -
  have "w_fd w \<noteq> None" using commit_without_fd(1) [OF _ assms(4-6)] by blast
  then obtain bs p where at: "log_at w wd bs" "w_fd w = Some p"
    and on: "p \<notin> fst ` set L \<or> (\<exists>L0 bs0. L = L0 @ [(p, bs0)] \<and> prefix bs0 bs)"
    using assms(1) by (auto simp: live_on_def)
  obtain q old where l: "w_fd w = Some q" "log_ok bs" "length (w_dir w) < 200"
    "file_is q wd (bytes_of_log (concat bs)) old (length (bytes_of_log (concat bs)))"
    "unat (w_seg_bytes w) = length (bytes_of_log (concat bs))"
    "length (bytes_of_log (concat bs)) < WAL_SEGMENT_BYTES"
    by (rule log_atD [OF at(1)])
  have q: "q = p" using l(1) at(2) by simp
  have "length (bytes_of_log (concat bs)) < 2 ^ 63" using l(6) by simp
  from commit_true [OF assms(4,5) l(1,3,4,5) refl l(2) this assms(6)] obtain c where
    c: "log_ok (bs @ [rs @ [c]])" "buf_at w' []" "log_grown w' wd' (bs @ [rs @ [c]])"
    "file_is p wd' (bytes_of_log (concat (bs @ [rs @ [c]]))) [] (length (bytes_of_log (concat (bs @ [rs @ [c]]))))"
    "length (bytes_of_log (concat (bs @ [rs @ [c]]))) < WAL_SEGMENT_BYTES \<longrightarrow> w_fd w' = Some p"
    unfolding q by blast
  obtain L0 L1 where L: "L = L0 @ L1" "p \<notin> fst ` set L0" "prefix (concat (map snd L1)) bs"
  proof (cases "p \<in> fst ` set L")
    case False
    then show thesis by (intro that [of L "[]"]) simp_all
  next
    case True
    then obtain L0 bs0 where "L = L0 @ [(p, bs0)]" "prefix bs0 bs" using on by blast
    then show thesis using assms(2) by (intro that [of L0 "[(p, bs0)]"]) (auto simp: shelved_def)
  qed
  let ?L = "L0 @ [(p, bs @ [rs @ [c]])]"
  have "shelved wd' (L0 @ L1)"
    using shelved_mono [OF assms(2) commit_keeps_secure [OF live_on_live [OF assms(1)] assms(6)]] L(1) by simp
  then have sh: "shelved wd' ?L" by (rule shelved_file [OF _ L(2) c(1) _ c(4)]) simp
  have "subseq (concat (map snd L)) (concat (map snd L0) @ bs)"
    using L(1,3) by (auto simp: prefix_def)
  then have sub: "subseq (H @ [rs @ [c]]) (concat (map snd ?L))"
    using subseq_order.trans [OF assms(3)] list_emb_append_mono [of "(=)" H _ "[rs @ [c]]" "[rs @ [c]]"] by fastforce
  have "live_on w' wd' ?L"
  proof (cases "length (bytes_of_log (concat (bs @ [rs @ [c]]))) < WAL_SEGMENT_BYTES")
    case True
    then have "log_at w' wd' (bs @ [rs @ [c]])" "w_fd w' = Some p" using c(3,5) by (simp_all only: log_grown_def if_True)
    then show ?thesis unfolding live_on_def by blast
  next
    case False
    then have "log_at w' wd' []" "w_fd w' = Some (seg_path 256 (w_dir w') (w_next_seq w'))"
      using c(3) by (simp_all only: log_grown_def if_False)
    then show ?thesis using new_segment [OF sh] unfolding live_on_def by blast
  qed
  moreover have "kind_of c = REC_COMMIT" using c(1) by (simp add: is_batch_def)
  ultimately show ?thesis using c(2) sh sub by blast
qed

lemma restart_ok:
  assumes "source_ok s"
  shows "source_ok (restart_source s)" and "taken_of (restart_source s) = []"
    and "unread_of (restart_source s) = unread_of s" and "kept (restart_source s) = kept s"
proof -
  show "kept (restart_source s) = kept s" by (rule kept_cong) (simp_all add: restart_source_def)
qed (use assms in \<open>simp_all add: restart_source_def source_ok_def taken_of_def unread_of_def\<close>)

lemma release_ok:
  assumes "source_ok s"
  shows "source_ok (release_source s)" and "taken_of (release_source s) = []"
    and "taken_of s @ unread_of (release_source s) = unread_of s" and "kept (release_source s) = kept s"
proof -
  show "taken_of (release_source s) = []" by (simp add: release_source_def restart_source_def taken_of_def)
  show k: "kept (release_source s) = kept s"
    by (rule kept_cong) (simp_all add: release_source_def restart_source_def)
  have u: "unread_of (release_source s) = drop (unat (so_taken s)) (unread_of s) \<and>
      (\<forall>r. so_ring (release_source s) = Some r \<longrightarrow> ring_inv r)"
  proof (cases "so_ring s")
    case None
    then show ?thesis by (simp add: release_source_def unread_of_def)
  next
    case (Some r)
    have r: "ring_inv r" "unat (so_taken s) \<le> length (unread r)"
      using assms Some by (simp_all add: source_ok_def unread_of_def)
    show ?thesis
    proof (cases "so_taken s > 0")
      case True
      then show ?thesis
        using Some r ring_release_unread(1,2) [OF r(1), of "so_taken s"]
        by (simp add: release_source_def unread_of_def restart_source_def)
    next
      case False
      then have "so_taken s = 0" by (simp only: word_gt_0 not_not)
      then show ?thesis using Some r by (simp add: release_source_def unread_of_def restart_source_def)
    qed
  qed
  then show "taken_of s @ unread_of (release_source s) = unread_of s" by (simp add: taken_of_def)
  show "source_ok (release_source s)"
    using u k by (simp add: source_ok_def release_source_def restart_source_def taken_of_def)
qed

text \<open>
  The states of a run and, for each ring, everything it has accepted so far. Producers push at
  any time between turns; the rings stand still during a turn. A turn in which the system refused the truncation that
  undoes a failed commit ends the run considered here; what can follow it is the subject of
  \<open>undo_failure_loses_acknowledged_batch\<close>.
\<close>

inductive storaged_reach :: "daemon \<Rightarrow> world \<Rightarrow> daemon \<Rightarrow> world \<Rightarrow> ring_slot list list \<Rightarrow> bool"
  for d0 wd0 where
  started: "storaged_reach d0 wd0 d0 wd0 (map unread_of (d_srcs d0))"
| pushed: "storaged_reach d0 wd0 d wd acc \<Longrightarrow> ns < length (d_srcs d) \<Longrightarrow>
    so_ring (d_srcs d ! ns) = Some r \<Longrightarrow> ring_push r x = (r', ok) \<Longrightarrow>
    storaged_reach d0 wd0 (d\<lparr>d_srcs := (d_srcs d)[ns := (d_srcs d ! ns)\<lparr>so_ring := Some r'\<rparr>]\<rparr>) wd
      (if ok then acc[ns := acc ! ns @ [stored_slot r x]] else acc)"
| turned: "storaged_reach d0 wd0 d wd acc \<Longrightarrow> turn d wd = (Some d', wd') \<Longrightarrow>
    wd_refused wd' = wd_refused wd \<Longrightarrow> storaged_reach d0 wd0 d' wd' acc"

text \<open>\<open>H\<close> are batches on disk, each at its own place in the segments \<open>L\<close>; \<open>a\<close> and \<open>b\<close> are the slots released.\<close>

definition accounted :: "world \<Rightarrow> (string \<times> rec list list) list \<Rightarrow> rec list list \<Rightarrow> source \<Rightarrow> ring_slot list \<Rightarrow>
    source \<Rightarrow> ring_slot list \<Rightarrow> bool" where
  "accounted wd L H s0 a s1 b \<longleftrightarrow> shelved wd L \<and> subseq H (concat (map snd L)) \<and>
     sample_keys (concat H) \<in> shuffles (map slot_key (kept s0 a)) (map slot_key (kept s1 b))"

definition run_inv :: "daemon \<Rightarrow> world \<Rightarrow> ring_slot list list \<Rightarrow> bool" where
  "run_inv d wd acc \<longleftrightarrow> (\<exists>s0 s1 rs L H a b. d_srcs d = [s0, s1] \<and> source_ok s0 \<and> source_ok s1 \<and>
     loose (d_wal d) rs \<and> holds rs s0 s1 \<and> live_on (d_wal d) wd L \<and>
     acc = [a @ unread_of s0, b @ unread_of s1] \<and> accounted wd L H s0 a s1 b)"

lemma same_source_kept: "same_source s t \<Longrightarrow> kept t = kept s \<and> unread_of t = unread_of s"
  by (simp add: same_source_def unread_of_def) (rule kept_cong, simp_all)

lemma accounted_mono:
  assumes "accounted wd L H s0 a s1 b"
    and "\<And>p bs. secure p (bytes_of_log (concat bs)) wd \<Longrightarrow> secure p (bytes_of_log (concat bs)) wd'"
    and "kept t0 = kept s0" and "kept t1 = kept s1"
  shows "accounted wd' L H t0 a t1 b"
  using assms shelved_mono [of wd L wd'] by (simp add: accounted_def)

lemma commit_closed: "\<not> w_open_batch w \<Longrightarrow> wal_commit w wd = (Some (True, w), wd)"
  by (simp add: wal_commit_def ret_def)

lemma loose_empty: "buf_at w [] \<Longrightarrow> loose w []"
  by (simp add: loose_def)

lemma released_inv:
  assumes "batch_ready w rs t0 t1" and "source_ok t0" and "source_ok t1" and "live_on w wd1 L"
    and "wal_commit w wd1 = (Some (True, w'), wd2)" and "d_wal d' = w'"
    and "d_srcs d' = [release_source t0, release_source t1]" and "accounted wd1 L H t0 a t1 b"
  shows "run_inv d' wd2 [a @ unread_of t0, b @ unread_of t1]"
proof -
  note r0 = release_ok [OF assms(2)] and r1 = release_ok [OF assms(3)]
  have buf: "buf_at w rs" and holds: "holds rs t0 t1" using assms(1) by (auto simp: batch_ready_def)
  have H: "shelved wd1 L" "subseq H (concat (map snd L))"
    "sample_keys (concat H) \<in> shuffles (map slot_key (kept t0 a)) (map slot_key (kept t1 b))"
    using assms(8) by (auto simp: accounted_def)
  have "\<exists>L' H'. shelved wd2 L' \<and> subseq (H @ H') (concat (map snd L')) \<and>
      sample_keys (concat H') \<in> shuffles (keys_of t0) (keys_of t1) \<and> buf_at w' [] \<and> live_on w' wd2 L'"
  proof (cases "w_open_batch w")
    case True
    obtain c L' where c: "kind_of c = REC_COMMIT" "buf_at w' []" "shelved wd2 L'"
      "subseq (H @ [rs @ [c]]) (concat (map snd L'))" "live_on w' wd2 L'"
      using commit_shelves [OF assms(4) H(1,2) buf True assms(5)] by blast
    then show ?thesis using holds by (intro exI [of _ L'] exI [of _ "[rs @ [c]]"]) (simp add: holds_def)
  next
    case False
    then have "w' = w" "wd2 = wd1" "rs = []" using assms(5) buf by (auto simp: commit_closed buf_at_def)
    then show ?thesis using assms(4) H(1,2) buf holds by (intro exI [of _ L] exI [of _ "[]"]) (simp add: holds_def)
  qed
  then obtain L' H' where H': "shelved wd2 L'" "subseq (H @ H') (concat (map snd L'))"
    "sample_keys (concat H') \<in> shuffles (keys_of t0) (keys_of t1)" "buf_at w' []" "live_on w' wd2 L'" by blast
  have "sample_keys (concat (H @ H')) \<in> shuffles (map slot_key (kept t0 (a @ taken_of t0))) (map slot_key (kept t1 (b @ taken_of t1)))"
    using shuffles_append [OF _ H'(3)] H(3) by simp
  then have acc: "accounted wd2 L' (H @ H') (release_source t0) (a @ taken_of t0) (release_source t1) (b @ taken_of t1)"
    using H'(1,2) by (simp add: accounted_def r0(4) r1(4))
  have "holds [] (release_source t0) (release_source t1)" by (simp add: holds_def r0(2) r1(2))
  moreover have "[a @ unread_of t0, b @ unread_of t1] =
      [(a @ taken_of t0) @ unread_of (release_source t0), (b @ taken_of t1) @ unread_of (release_source t1)]"
    by (simp add: r0(3) r1(3))
  ultimately show ?thesis
    unfolding run_inv_def assms(6,7) using r0(1) r1(1) loose_empty [OF H'(4)] H'(5) acc by blast
qed

lemma restarted_inv:
  assumes "batch_ready w rs t0 t1" and "source_ok t0" and "source_ok t1" and "live_on w wd1 L"
    and "wal_commit w wd1 = (Some (False, w'), wd2)" and "d_wal d' = w'"
    and "d_srcs d' = [restart_source t0, restart_source t1]" and "accounted wd1 L H t0 a t1 b"
    and "wd_refused wd2 = wd_refused wd1"
  shows "run_inv d' wd2 [a @ unread_of t0, b @ unread_of t1]"
proof -
  note r0 = restart_ok [OF assms(2)] and r1 = restart_ok [OF assms(3)]
  have buf: "buf_at w rs" and op: "w_open_batch w"
    using assms(1,5) commit_closed [of w wd1] by (auto simp: batch_ready_def)
  have live: "buf_at w' [] \<and> live_on w' wd2 L"
  proof (cases "w_fd w")
    case None
    then show ?thesis using commit_without_fd(2,3) [OF None buf op assms(5)] by (simp add: live_on_def)
  next
    case (Some p)
    then obtain bs where at: "log_at w wd1 bs" "p \<notin> fst ` set L \<or> (\<exists>L0 bs0. L = L0 @ [(p, bs0)] \<and> prefix bs0 bs)"
      using assms(4) by (auto simp: live_on_def)
    have "buf_at w' []" "log_at w' wd2 bs \<and> w_fd w' = Some p \<or> w_fd w' = None"
      using commit_failure [OF at(1) buf op assms(5)] assms(9) Some by (auto simp: Let_def)
    then show ?thesis using at(2) unfolding live_on_def by blast
  qed
  have "accounted wd2 L H (restart_source t0) a (restart_source t1) b"
    by (rule accounted_mono [OF assms(8) commit_keeps_secure [OF live_on_live [OF assms(4)] assms(5)] r0(4) r1(4)])
  moreover have "holds [] (restart_source t0) (restart_source t1)" by (simp add: holds_def r0(2) r1(2))
  ultimately show ?thesis
    unfolding run_inv_def assms(6,7) using r0 r1 live loose_empty [of w'] by metis
qed

lemma turn_inv:
  assumes "run_inv d wd acc" and "turn d wd = (res, wd')"
  shows "(\<forall>d'. res = Some d' \<longrightarrow> wd_refused wd' = wd_refused wd \<longrightarrow> run_inv d' wd' acc) \<and>
    (\<exists>s0 s1 L H a b. d_srcs d = [s0, s1] \<and> acc = [a @ unread_of s0, b @ unread_of s1] \<and> accounted wd' L H s0 a s1 b)"
proof -
  obtain s0 s1 rs L H a b where i: "d_srcs d = [s0, s1]" "source_ok s0" "source_ok s1" "loose (d_wal d) rs"
    "holds rs s0 s1" "live_on (d_wal d) wd L" "acc = [a @ unread_of s0, b @ unread_of s1]" "accounted wd L H s0 a s1 b"
    using assms(1) unfolding run_inv_def by blast
  show ?thesis
    using i(1-5) assms(2)
  proof (cases rule: turn_cases)
    case (waits d' t0 t1 rs')
    note k0 = same_source_kept [OF waits(9)] and k1 = same_source_kept [OF waits(10)]
    have disk: "secure p X wd \<Longrightarrow> secure p X wd'" for p X using secure_clocks [OF waits(3)] by simp
    have "live_on (d_wal d') wd' L" using i(6) live_on_same [OF waits(4,3)] by simp
    moreover have "accounted wd' L H t0 a t1 b" by (rule accounted_mono [OF i(8) disk]) (simp_all add: k0 k1)
    moreover have "acc = [a @ unread_of t0, b @ unread_of t1]" by (simp add: i(7) k0 k1)
    ultimately have "run_inv d' wd' acc" unfolding run_inv_def waits(2) using waits(5-8) by blast
    moreover have "accounted wd' L H s0 a s1 b" by (rule accounted_mono [OF i(8) disk]) simp_all
    ultimately show ?thesis using i(1,7) waits(1) by auto
  next
    case (commits t0 t1 w rs' wd1 c wd2)
    note k0 = same_source_kept [OF commits(8)] and k1 = same_source_kept [OF commits(9)]
    have live: "live_on w wd1 L" using i(6) live_on_same [OF commits(1,3)] by simp
    have acc: "acc = [a @ unread_of t0, b @ unread_of t1]" by (simp add: i(7) k0 k1)
    have a1: "accounted wd1 L H t0 a t1 b"
      by (rule accounted_mono [OF i(8)]) (simp_all add: secure_clocks [OF commits(3)] k0 k1)
    have "accounted wd' L H s0 a s1 b"
      by (rule accounted_mono [OF a1])
        (use commit_keeps_secure [OF live_on_live [OF live] commits(4)] secure_clocks [OF commits(5)] k0 k1 in auto)
    moreover have "run_inv d' wd' acc" if d': "res = Some d'" "wd_refused wd' = wd_refused wd" for d'
    proof -
      have "run_inv d' wd2 acc"
      proof (cases c)
        case None
        then show ?thesis using commits(10) d' by simp
      next
        case (Some y)
        obtain good w' where y: "y = (good, w')" by fastforce
        show ?thesis
        proof (cases good)
          case True
          then have "d_wal d' = w'" "d_srcs d' = [release_source t0, release_source t1]"
            using commits(12) [of w'] Some y d'(1) by auto
          then show ?thesis
            unfolding acc using commits(2,4,6,7) live a1 Some y True by (intro released_inv) auto
        next
          case False
          then have e: "d_wal d' = w'" "d_srcs d' = [restart_source t0, restart_source t1]"
            using commits(11) [of w'] Some y d'(1) by auto
          have "wal_commit w wd1 = (Some (False, w'), wd2)" using commits(4) Some y False by simp
          then show ?thesis
            unfolding acc using restarted_inv [OF commits(2,6,7) live _ e a1] d'(2) commits(3,5) by (simp add: clocks_only_def)
        qed
      qed
      then show ?thesis
        using live_on_same [OF same_log_refl commits(5)] secure_clocks [OF commits(5)]
        unfolding run_inv_def accounted_def shelved_def by simp
    qed
    ultimately show ?thesis using i(1,7) by auto
  qed
qed

lemma source_push:
  assumes "source_ok s" and "so_ring s = Some r" and "ring_push r x = (r', ok)"
  defines "s' \<equiv> s\<lparr>so_ring := Some r'\<rparr>"
  shows "source_ok s'" and "taken_of s' = taken_of s" and "kept s' = kept s"
    and "unread_of s' = unread_of s @ (if ok then [stored_slot r x] else [])"
proof -
  have r: "ring_inv r" using assms(1,2) by (simp add: source_ok_def)
  have p: "ring_inv r'" "ok \<longleftrightarrow> SRC_IS_VALID (sl_src x) \<and> length (unread r) < 4096"
    "unread r' = (if SRC_IS_VALID (sl_src x) \<and> length (unread r) < 4096 then unread r @ [stored_slot r x] else unread r)"
    using rq.push_inv [OF r, of x] rq.push_result [OF r, of x] rq.push_unread [OF r, of x] by (simp_all only: assms(3) fst_conv snd_conv)
  show u: "unread_of s' = unread_of s @ (if ok then [stored_slot r x] else [])"
    using p assms(2) by (simp add: s'_def unread_of_def del: length_unread)
  show k: "kept s' = kept s" by (rule kept_cong) (simp_all add: s'_def)
  have le: "unat (so_taken s) \<le> length (unread_of s)" using assms(1) by (simp add: source_ok_def)
  show t: "taken_of s' = taken_of s" using le by (simp add: taken_of_def u) (simp add: s'_def)
  show "source_ok s'" using assms(1) p(1) le unfolding source_ok_def t k u by (simp add: s'_def)
qed

lemma push_inv:
  assumes "run_inv d wd acc" and "ns < length (d_srcs d)" and "so_ring (d_srcs d ! ns) = Some r"
    and "ring_push r x = (r', ok)"
  shows "run_inv (d\<lparr>d_srcs := (d_srcs d)[ns := (d_srcs d ! ns)\<lparr>so_ring := Some r'\<rparr>]\<rparr>) wd
      (if ok then acc[ns := acc ! ns @ [stored_slot r x]] else acc)"
proof -
  obtain s0 s1 rs L H a b where i: "d_srcs d = [s0, s1]" "source_ok s0" "source_ok s1" "loose (d_wal d) rs"
    "holds rs s0 s1" "live_on (d_wal d) wd L" "acc = [a @ unread_of s0, b @ unread_of s1]" "accounted wd L H s0 a s1 b"
    using assms(1) unfolding run_inv_def by blast
  consider "ns = 0" | "ns = 1" using assms(2) i(1) by fastforce
  then show ?thesis
  proof cases
    case 1
    define t where "t = s0\<lparr>so_ring := Some r'\<rparr>"
    have "so_ring s0 = Some r" using assms(3) by (simp add: i(1) 1)
    note t = source_push [OF i(2) this assms(4), folded t_def]
    have "(if ok then acc[ns := acc ! ns @ [stored_slot r x]] else acc) = [a @ unread_of t, b @ unread_of s1]"
      by (simp add: i(7) 1 t(4))
    moreover have "holds rs t s1" "accounted wd L H t a s1 b" using i(5,8) by (simp_all add: holds_def accounted_def t(2,3))
    ultimately show ?thesis unfolding run_inv_def using i t(1) 1 by (auto simp: t_def)
  next
    case 2
    define t where "t = s1\<lparr>so_ring := Some r'\<rparr>"
    have "so_ring s1 = Some r" using assms(3) by (simp add: i(1) 2)
    note t = source_push [OF i(3) this assms(4), folded t_def]
    have "(if ok then acc[ns := acc ! ns @ [stored_slot r x]] else acc) = [a @ unread_of s0, b @ unread_of t]"
      by (simp add: i(7) 2 t(4))
    moreover have "holds rs s0 t" "accounted wd L H s0 a t b" using i(5,8) by (simp_all add: holds_def accounted_def t(2,3))
    ultimately show ?thesis unfolding run_inv_def using i t(1) 2 by (auto simp: t_def)
  qed
qed

text \<open>The daemon at the top of its loop for the first time.\<close>

definition fresh :: "daemon \<Rightarrow> world \<Rightarrow> bool" where
  "fresh d wd \<longleftrightarrow> length (d_srcs d) = 2 \<and> (\<forall>s \<in> set (d_srcs d). source_ok s \<and> so_taken s = 0) \<and>
     buf_at (d_wal d) [] \<and> log_live (d_wal d) wd"

lemma fresh_inv:
  assumes "fresh d wd"
  shows "run_inv d wd (map unread_of (d_srcs d))"
proof -
  obtain s0 s1 where s: "d_srcs d = [s0, s1]"
    using assms by (auto simp: fresh_def numeral_2_eq_2 length_Suc_conv)
  have "taken_of s0 = []" "taken_of s1 = []" "source_ok s0" "source_ok s1"
    using assms s by (simp_all add: fresh_def taken_of_def)
  moreover have "loose (d_wal d) []" "live_on (d_wal d) wd []"
    using assms by (auto simp: fresh_def loose_empty log_live_def live_on_def log_at_def Let_def)
  moreover have "accounted wd [] [] s0 [] s1 []" by (simp add: accounted_def shelved_def)
  moreover have "holds [] s0 s1" using calculation by (simp add: holds_def)
  ultimately show ?thesis unfolding run_inv_def s by fastforce
qed

lemma reach_inv: "storaged_reach d0 wd0 d wd acc \<Longrightarrow> fresh d0 wd0 \<Longrightarrow> run_inv d wd acc"
proof (induction rule: storaged_reach.induct)
  case started
  then show ?case by (rule fresh_inv)
next
  case (pushed d wd acc ns r x r' ok)
  then show ?case using push_inv by blast
next
  case (turned d wd acc d' wd')
  then show ?case using turn_inv by blast
qed


text \<open>A turn that finds a batch's worth of slots in one ring, and a disk that works.\<close>

lemma full_drain:
  assumes "buf_at w []" and "source_ok s" and "so_ring s = Some r" and "length (unread r) = 64" and "so_taken s = 0" and "\<not> so_skip s"
  obtains w' wd' rs where "drain r w s 0 wd = (Some (64, w', drained r s 64), wd')" and "clocks_only wd wd'" and "same_log w w'"
    and "loose w' rs" and "n_samples rs = 64" and "sample_keys rs = map slot_key (unread r)"
proof -
  have r: "ring_inv r" using assms(2,3) by (simp add: source_ok_def)
  obtain t w' wd' rs where d: "drain r w s 0 wd = (Some (0 + of_nat (length (kept s (between r 0 t))), w', drained r s t), wd')"
    "t \<le> 64" "clocks_only wd wd'" "same_log w w'" "loose w' rs" "sample_keys rs = map slot_key (kept s (between r 0 t))"
    "n_samples rs = 64 \<or> t = 64"
    using drain_spec [OF loose_empty [OF assms(1)] r, of s 0 wd] assms(4,5) by (auto simp del: length_unread)
  have k: "kept s xs = xs" for xs using assms(6) by (simp add: kept_def)
  have len: "length (between r 0 t) = t" using d(2) assms(4) by (simp add: between_def del: length_unread)
  have n: "n_samples rs = t" using arg_cong [OF d(6), of length] by (simp add: k len n_samples_def del: length_unread)
  then have t: "t = 64" using d(7) by auto
  then have "between r 0 t = unread r" using assms(4) by (simp add: between_def del: length_unread)
  then show thesis using that [of w' wd' rs] d n t k len by (simp del: length_unread)
qed

lemma full_turn:
  assumes "d_srcs d = [s, s1]" and "source_ok s" and "so_ring s = Some r" and "length (unread r) = 64" and "so_taken s = 0" and "\<not> so_skip s"
    and "source_ok s1" and "so_ring s1 = None" and "so_taken s1 = 0" and "\<not> so_skip s1" and "buf_at (d_wal d) []" and "w_fd (d_wal d) = Some p"
    and "wd_script wd = Done n # Done m # rest" and "WAL_BUF_BYTES \<le> n"
    and "unat (w_seg_bytes (d_wal d)) + WAL_BUF_BYTES < WAL_SEGMENT_BYTES"
  obtains d' wd' t0 t1 where "turn d wd = (Some d', wd')" and "d_srcs d' = [t0, t1]" and "unread_of t0 = []" and "unread_of t1 = []"
    and "\<not> so_skip t0" and "\<not> so_skip t1" and "wd_refused wd' = wd_refused wd" and "wd_script wd' = rest" and "w_fd (d_wal d') = Some p"
proof -
  let ?t = "drained r s 64"
  obtain w wd1 rs where d: "drain r (d_wal d) s 0 wd = (Some (64, w, ?t), wd1)" "clocks_only wd wd1" "same_log (d_wal d) w"
    "loose w rs" "n_samples rs = 64" "sample_keys rs = map slot_key (unread r)"
    by (rule full_drain [OF assms(11,2-6), of wd])
  have all: "drain_all [s, s1] (d_wal d) wd = (Some (64, [?t, s1], w), wd1)"
    using d(1) assms(3,8) by (simp add: andthen_def ret_def)
  obtain now wd2 where now: "wal_now_mono wd1 = (Some now, wd2)" "clocks_only wd1 wd2" using clock_reads(1) by blast
  have "rs \<noteq> []" using d(5) by (auto simp: n_samples_def)
  then have op: "w_open_batch w" using d(4) by (auto simp: loose_def buf_at_def split: if_splits)
  have "\<not> w_batch_samples w < 64" using batch_samples_count(2) [OF d(4)] d(5) by simp
  then have due: "wal_due w now" using op by (simp add: wal_due_def not_less)
  note ok = drained_ok [OF assms(3,2), of 64]
  have tk: "unat (so_taken s) \<le> 64" "64 \<le> length (unread r)" using assms(4,5) by (simp_all del: length_unread)
  have t: "source_ok ?t" "same_source s ?t" "taken_of ?t = unread r" "unread_of ?t = unread r" "\<not> so_skip ?t"
    using ok(1-3) [OF tk] assms(3-6)
    by (auto simp: same_source_def taken_of_def unread_of_def between_def drained_def Let_def simp del: length_unread)
  have k: "kept q xs = xs" if "\<not> so_skip q" for q xs using that by (simp add: kept_def)
  have h: "holds rs ?t s1" using d(6) t k assms(8,9,10) by (simp add: holds_def taken_of_def unread_of_def)
  obtain w1 wd3 rs1 where n: "note_all 0 [?t, s1] w wd2 = (Some (True, w1), wd3)" "clocks_only wd2 wd3"
    "same_log w w1" "batch_ready w1 rs1 ?t s1" "w_open_batch w1" using notes_ready [OF d(4) h, of wd2] op by blast
  have sl: "w_fd w1 = Some p" "w_seg_bytes w1 = w_seg_bytes (d_wal d)" "buf_at w1 rs1"
    using d(3) n(3,4) assms(12) by (simp_all add: same_log_def batch_ready_def)
  have sc: "wd_script wd3 = Done n # Done m # rest" "wd_refused wd3 = wd_refused wd"
    using assms(13) d(2) now(2) n(2) by (simp_all add: clocks_only_def)
  obtain B wd4 where c: "wal_commit w1 wd3 = (Some (True, committed w1 B), wd4)" "wd_script wd4 = rest" "wd_refused wd4 = wd_refused wd3"
    using commit_runs [OF sl(3) n(5) sl(1) sc(1) assms(14)] sl(2) assms(15) by auto
  obtain d' wd5 where e: "end_turn 64 [release_source ?t, release_source s1] (committed w1 B) d wd4 = (Some d', wd5)"
    "d_wal d' = committed w1 B" "d_srcs d' = [release_source ?t, release_source s1]" "clocks_only wd4 wd5" using end_turn_run by blast
  have "turn d wd = (Some d', wd5)"
    unfolding turn_after_drain [OF assms(1) all now(1)] if_P [OF disjI1 [OF due]]
    using e(1) by (simp add: andthen_Some [of "note_all 0 [?t, s1] w" wd2, OF n(1)] andthen_Some [of "wal_commit w1" wd3, OF c(1)]
        del: note_all.simps)
  moreover have "unread_of (release_source ?t) = []" using release_ok(3) [OF t(1)] t(3,4) by simp
  moreover have "unread_of (release_source s1) = []" using assms(8) by (simp add: release_source_def unread_of_def)
  moreover have "\<not> so_skip (release_source ?t)" "\<not> so_skip (release_source s1)"
    using t(5) assms(10) by (simp_all add: release_source_def restart_source_def)
  ultimately show thesis
    by (rule that [OF _ e(3)]) (use e(2,4) c(2,3) sc(2) sl(1) in \<open>simp_all add: clocks_only_def\<close>)
qed

text \<open>A ring with a batch's worth of slots.\<close>

definition pushes :: "nat \<Rightarrow> ring" where
  "pushes n = ((\<lambda>q. fst (ring_push q labelled_slot)) ^^ n) cleared_ring"

lemma pushes_inv:
  "n \<le> 64 \<Longrightarrow> ring_inv (pushes n) \<and> length (unread (pushes n)) = n \<and> r_tail (pushes n) = 0 \<and> r_head (pushes n) = of_nat n"
proof (induction n)
  case 0
  then show ?case using cleared_ring_inv by (simp add: pushes_def del: length_unread) (simp add: cleared_ring_def ring_init_def)
next
  case (Suc n)
  let ?q = "pushes n"
  have i: "ring_inv ?q" "length (unread ?q) < 4096" "length (unread ?q) = n" "r_tail ?q = 0" "r_head ?q = of_nat n"
    using Suc by (simp_all del: length_unread)
  have v: "SRC_IS_VALID (sl_src labelled_slot)" by (simp add: labelled_slot_def SRC_IS_VALID_def)
  have "pushes (Suc n) = fst (ring_push ?q labelled_slot)" by (simp add: pushes_def)
  then show ?case
    using ring_push_unread [OF i(1) v i(2)] rq.push_inv [OF i(1), of labelled_slot] i(3-5) by (simp del: length_unread)
qed

definition demo_ring :: ring where
  "demo_ring = (pushes 64)\<lparr>r_generation := 7\<rparr>"

lemma demo_ring_inv: "ring_inv demo_ring" "length (unread demo_ring) = 64" "r_tail demo_ring = 0" "r_head demo_ring = 64"
  "r_generation demo_ring = 7"
proof -
  have u: "unread (q\<lparr>r_generation := g\<rparr>) = unread q" for q g by (simp add: unread_def)
  have "ring_inv (q\<lparr>r_generation := g\<rparr>) = ring_inv q" for q g by (simp add: ring_inv_def u)
  then show "ring_inv demo_ring" "length (unread demo_ring) = 64" "r_tail demo_ring = 0" "r_head demo_ring = 64"
    "r_generation demo_ring = 7"
    using pushes_inv [of 64] by (simp_all add: demo_ring_def u del: length_unread)
qed

definition demo_source :: source where
  "demo_source = source_of ''/carwatch-obd'' (Some demo_ring)"

definition demo_daemon :: daemon where
  "demo_daemon = \<lparr>d_wal = demo_wal, d_srcs = [demo_source, source_of ''/carwatch-probe'' None],
     d_samples = 0, d_next_beat = 0, d_beats = []\<rparr>"

lemma demo_source_ok: "source_ok demo_source" "unread_of demo_source = unread demo_ring"
  using demo_ring_inv(1) by (simp_all add: demo_source_def source_of_def source_ok_def taken_of_def unread_of_def)

lemma demo_fresh: "fresh demo_daemon (demo_world [] s)"
  using demo_source_ok(1) demo_buf_at demo_log_at(1) [of s]
  by (auto simp: fresh_def demo_daemon_def source_of_def source_ok_def taken_of_def unread_of_def log_live_def)
    (simp_all add: demo_source_def source_of_def)


section \<open>Starting\<close>

text \<open>The newest segment, if there is one, is a whole file of ordinary size.\<close>

definition segments_ok :: "string \<Rightarrow> world \<Rightarrow> bool" where
  "segments_ok dir wd \<longleftrightarrow> (\<forall>first. newest_of None (dir_entries dir wd) = Some first \<longrightarrow>
     (\<exists>f. the_file (seg_path 256 dir first) wd = Some f \<and> f_entry f \<and> length (f_data f) < 2 ^ 63))"

text \<open>What a start finds in the log directory.\<close>

definition found_in :: "string \<Rightarrow> world \<Rightarrow> wal_scan_t" where
  "found_in dir wd = (case newest_of None (dir_entries dir wd) of
       None \<Rightarrow> scan_zero
     | Some first \<Rightarrow> (case the_file (seg_path 256 dir first) wd of
         None \<Rightarrow> scan_zero | Some f \<Rightarrow> wal_scan (f_data f)))"

lemma wal_open_ready:
  assumes "length dir < 200" and "SRC_IS_VALID src" and "segments_ok dir wd"
    and "wal_open dir src flags wd = (Some (True, w'), wd')"
  shows "\<exists>bs. log_at w' wd' bs" and "buf_at w' []" and "w_recovered w' = found_in dir wd"
proof -
  have "(\<exists>bs. log_at w' wd' bs) \<and> buf_at w' [] \<and> w_recovered w' = found_in dir wd"
  proof (cases "newest_of None (dir_entries dir wd)")
    case (Some first)
    then obtain f where f: "the_file (seg_path 256 dir first) wd = Some f" "f_entry f" "length (f_data f) < 2 ^ 63"
      using assms(3) by (auto simp: segments_ok_def)
    obtain bs r0 r1 r2 where "log_grown w' wd' (bs @ [[r0, r1, r2]])" "buf_at w' []" "w_recovered w' = wal_scan (f_data f)"
      using wal_open_recovered [OF assms(1,2) Some f assms(4)] unfolding Let_def by blast
    then show ?thesis using log_grownD [of w' wd' "bs @ [[r0, r1, r2]]"] Some f(1) by (auto simp: found_in_def)
  next
    case None
    let ?base = "wal_zero\<lparr>w_src := src, w_flags := flags, w_dir := dir\<rparr>"
    let ?w = "?base\<lparr>w_prev_end := REC_PREV_FIRST, w_next_seq := 0, w_next_txn := 1, w_boot_id := 1\<rparr>"
    obtain wd1 where "wd_files wd1 = wd_files wd" "open_segment ?base src (Inr None) wd1 = (Some (True, w'), wd')"
      by (rule wal_open_segment [OF assms(1,4), unfolded None])
    then obtain w1 wd2 where cs: "create_segment ?w 0 wd1 = (Some (True, w1), wd2)"
      and ob: "open_boot w1 src wd2 = (Some (True, w'), wd')"
      unfolding open_segment_def sum.case option.case
      by (elim run_andthenE) (auto simp: ret_def split: if_splits)
    have dir: "length (w_dir ?w) < 200" using assms(1) by simp
    have "wp (create_segment ?w 0) (\<lambda>r wd'. \<forall>v. r = Some (True, v) \<longrightarrow>
        (\<exists>p. file_is p wd' [] [] 0 \<and> v = ?w\<lparr>w_fd := Some p, w_seg_bytes := 0\<rparr>)) wd1"
      by (rule wp_create_segment [OF dir]) auto
    from wpD [OF this cs] obtain p where p: "file_is p wd2 [] [] 0" "w1 = ?w\<lparr>w_fd := Some p, w_seg_bytes := 0\<rparr>"
      by blast
    have w1: "buf_at w1 []" "\<not> w_open_batch w1" "w_fd w1 = Some p" "length (w_dir w1) < 200"
      "unat (w_seg_bytes w1) = length ([] :: bytes)" "w_recovered w1 = scan_zero"
      using assms(1,2) by (simp_all add: p(2) wal_zero_def buf_at_def)
    have hd: "has_data p wd2 []" using p(1) by (auto simp: has_data_def file_is_def)
    have "\<exists>b. buf_at w' [] \<and> w_recovered w' = w_recovered w1 \<and> log_grown w' wd' ([] @ [b])"
      using open_boot_True [OF w1(1-4) hd w1(5) _ _ _ ob, of "[]"] unfolding Let_def by force
    then show ?thesis using w1(6) None by (auto simp: found_in_def dest: log_grownD)
  qed
  then show "\<exists>bs. log_at w' wd' bs" and "buf_at w' []" and "w_recovered w' = found_in dir wd" by blast+
qed

lemma commit_recovered:
  assumes "log_at w wd bs" and "buf_at w rs" and "wal_commit w wd = (Some (True, w'), wd')"
  shows "w_recovered w' = w_recovered w"
proof (cases "w_open_batch w")
  case True
  obtain p old where l: "w_fd w = Some p" "log_ok bs" "length (w_dir w) < 200"
    "file_is p wd (bytes_of_log (concat bs)) old (length (bytes_of_log (concat bs)))"
    "unat (w_seg_bytes w) = length (bytes_of_log (concat bs))"
    "length (bytes_of_log (concat bs)) < WAL_SEGMENT_BYTES"
    by (rule log_atD [OF assms(1)])
  have "length (bytes_of_log (concat bs)) < 2 ^ 63" using l(6) by simp
  from commit_true [OF assms(2) True l(1,3,4,5) refl l(2) this assms(3)] show ?thesis by blast
next
  case False
  then show ?thesis using assms(3) by (simp add: commit_closed)
qed

lemma note_generation_commit:
  assumes "log_at w wd bs" and "buf_at w []" and "note_generation w ns r wd = (Some (gd, w1), wd1)"
    and "wal_commit w1 wd1 = (Some (True, w2), wd2)"
  shows "\<exists>bs'. log_at w2 wd2 bs'" and "buf_at w2 []" and "w_recovered w2 = w_recovered w"
proof -
  let ?t = "note_text ''gen='' ns (r_generation r)"
  have buf: "w_buf w = []" using assms(2) by (simp add: buf_at_def)
  have t: "length ?t < 200" using length_note_text [of "''gen=''" ns "r_generation r"] by simp
  obtain w' wd' rs' where "note_generation w ns r wd = (Some (True, w'), wd')" "same_log w w'" "buf_at w' rs'"
    "clocks_only wd wd'"
    using add_note_ok [OF assms(2) t, of WAL_EV_RING_GEN wd] unfolding note_generation_def
    by (auto simp: buf)
  then have e: "same_log w w1" "buf_at w1 rs'" "clocks_only wd wd1" using assms(3) by auto
  have at: "log_at w1 wd1 bs" using assms(1) same_log_at [OF e(1,3)] by simp
  then show "\<exists>bs'. log_at w2 wd2 bs'" and "buf_at w2 []" using close_commit [OF _ e(2) assms(4)] by blast+
  show "w_recovered w2 = w_recovered w" using commit_recovered [OF at e(2) assms(4)] e(1) by (simp add: same_log_def)
qed

definition started_as :: "wal_scan_t \<Rightarrow> nat \<Rightarrow> source \<Rightarrow> source" where
  "started_as sc ns s = (case so_ring s of None \<Rightarrow> s | Some r \<Rightarrow> set_skip sc ns r s)"

lemma start_sources_ok:
  assumes "log_at w wd bs" and "buf_at w []" and "start_sources ns ss w wd = (Some (True, ss', w'), wd')"
  shows "(\<exists>bs'. log_at w' wd' bs') \<and> buf_at w' [] \<and>
    ss' = map2 (started_as (w_recovered w)) [ns..<ns + length ss] ss"
  using assms
proof (induction ss arbitrary: ns w wd bs ss')
  case Nil
  then show ?case by (auto simp: ret_def)
next
  case (Cons s ss)
  have up: "[ns..<ns + length (s # ss)] = ns # [Suc ns..<Suc ns + length ss]"
    using upt_conv_Cons [of ns "ns + length (s # ss)"] by simp
  show ?case
  proof (cases "so_ring s")
    case None
    obtain ss1 where r: "start_sources (Suc ns) ss w wd = (Some (True, ss1, w'), wd')" "ss' = s # ss1"
      using Cons.prems(3) None by (auto simp: ret_def elim!: run_andthenE)
    then show ?thesis
      using Cons.IH [OF Cons.prems(1,2) r(1)] None unfolding up by (auto simp: started_as_def)
  next
    case (Some r)
    let ?s1 = "set_skip (w_recovered w) ns r s"
    obtain gd w1 wd1 w2 wd2 ss1 where r: "note_generation w (of_nat ns) r wd = (Some (gd, w1), wd1)"
      "wal_commit w1 wd1 = (Some (True, w2), wd2)"
      "start_sources (Suc ns) ss w2 wd2 = (Some (True, ss1, w'), wd')" "ss' = ?s1 # ss1"
      using Cons.prems(3) Some unfolding start_sources.simps Let_def
      by (auto simp: ret_def elim!: run_andthenE split: if_splits)
    note n = note_generation_commit [OF Cons.prems(1,2) r(1,2)]
    obtain bs2 where at: "log_at w2 wd2 bs2" using n(1) by blast
    show ?thesis
      using Cons.IH [OF at n(2) r(3)] Some unfolding up r(4) n(3) by (simp add: started_as_def)
  qed
qed

lemma source_of_ok:
  assumes "\<And>q. r = Some q \<Longrightarrow> ring_inv q"
  shows "source_ok (started_as sc ns (source_of name r))" and "so_taken (started_as sc ns (source_of name r)) = 0"
  using assms
  by (auto simp: source_ok_def started_as_def source_of_def set_skip_def taken_of_def unread_of_def split: option.splits)

text \<open>The state in which \<open>main\<close> enters its loop.\<close>

lemma storaged_args_src:
  "storaged_args argv opts = Some (dir, src) \<Longrightarrow> SRC_IS_VALID (snd opts) \<Longrightarrow> SRC_IS_VALID src"
  by (induction argv opts rule: storaged_args.induct)
    (auto simp: parse_src_def SRC_IS_VALID_def split: if_splits)

lemma storaged_start_steps:
  assumes "storaged_args argv (''/var/lib/carwatch/log'', SRC_LIVE) = Some (dir, src)"
    and "storaged_start ring_at argv wd = (Some (Some d), wd')"
  obtains w wd2 wd3 wd4 where "SRC_IS_VALID src" and "wd_files wd2 = wd_files wd"
    and "wal_open dir src 0 wd2 = (Some (True, w), wd3)"
    and "start_sources 0 [source_of ''/carwatch-obd'' (ring_at ''/carwatch-obd''),
      source_of ''/carwatch-probe'' (ring_at ''/carwatch-probe'')] w wd3 = (Some (True, d_srcs d, d_wal d), wd4)"
    and "clocks_only wd4 wd'"
proof -
  let ?srcs = "[source_of ''/carwatch-obd'' (ring_at ''/carwatch-obd''),
    source_of ''/carwatch-probe'' (ring_at ''/carwatch-probe'')]"
  have src: "SRC_IS_VALID src" using storaged_args_src [OF assms(1)] by (simp add: SRC_IS_VALID_def)
  obtain b1 wd1 b2 wd2 w wd3 srcs w1 wd4 where
    r: "sys_ok wd = (Some b1, wd1)" "sys_ok wd1 = (Some b2, wd2)" "wal_open dir src 0 wd2 = (Some (True, w), wd3)"
    "start_sources 0 ?srcs w wd3 = (Some (True, srcs, w1), wd4)"
    and t: "andthen wal_now_mono (\<lambda>now. ret (Some \<lparr>d_wal = w1, d_srcs = srcs, d_samples = 0, d_next_beat = now,
       d_beats = []\<rparr>)) wd4 = (Some (Some d), wd')"
    using assms(2) unfolding storaged_start_def assms(1) option.case prod.case
    by (elim run_andthenE) (auto simp: ret_def simp del: start_sources.simps split: if_splits elim!: run_andthenE)
  have "wd_files wd2 = wd_files wd" using run_sys_ok [OF r(1)] run_sys_ok [OF r(2)] by simp
  moreover have "d_wal d = w1" "d_srcs d = srcs" "clocks_only wd4 wd'"
    using t by (auto simp: andthen_def wal_now_mono_def ret_def clocks_only_def)
  ultimately show thesis using that [OF src _ r(3), of wd4] r(4) by simp
qed

lemma found_in_files:
  assumes "wd_files wd' = wd_files wd"
  shows "segments_ok dir wd' = segments_ok dir wd" and "found_in dir wd' = found_in dir wd"
    and "dir_entries dir wd' = dir_entries dir wd" and "the_file q wd' = the_file q wd"
proof -
  show d: "dir_entries dir wd' = dir_entries dir wd" and f: "the_file q wd' = the_file q wd" for q
    using assms by (simp_all add: dir_entries_def the_file_def)
  show "segments_ok dir wd' = segments_ok dir wd" and "found_in dir wd' = found_in dir wd"
    using d f by (simp_all add: segments_ok_def found_in_def split: option.split)
qed

lemma storaged_start_fresh:
  assumes "\<And>name q. ring_at name = Some q \<Longrightarrow> ring_inv q"
    and "storaged_args argv (''/var/lib/carwatch/log'', SRC_LIVE) = Some (dir, src)" and "length dir < 200"
    and "segments_ok dir wd" and "storaged_start ring_at argv wd = (Some (Some d), wd')"
  shows "fresh d wd' \<and> d_srcs d =
    [started_as (found_in dir wd) 0 (source_of ''/carwatch-obd'' (ring_at ''/carwatch-obd'')),
     started_as (found_in dir wd) 1 (source_of ''/carwatch-probe'' (ring_at ''/carwatch-probe''))]"
proof -
  let ?srcs = "[source_of ''/carwatch-obd'' (ring_at ''/carwatch-obd''),
    source_of ''/carwatch-probe'' (ring_at ''/carwatch-probe'')]"
  obtain w wd2 wd3 wd4 where s: "SRC_IS_VALID src" "wd_files wd2 = wd_files wd" "wal_open dir src 0 wd2 = (Some (True, w), wd3)"
    "start_sources 0 ?srcs w wd3 = (Some (True, d_srcs d, d_wal d), wd4)" "clocks_only wd4 wd'"
    by (rule storaged_start_steps [OF assms(2,5)])
  note o = wal_open_ready [OF assms(3) s(1) _ s(3), unfolded found_in_files [OF s(2)], OF assms(4)]
  obtain bs where at: "log_at w wd3 bs" using o(1) by blast
  note st = start_sources_ok [OF at o(2) s(4), unfolded o(3)]
  have srcs: "d_srcs d = [started_as (found_in dir wd) 0 (?srcs ! 0), started_as (found_in dir wd) 1 (?srcs ! 1)]"
    using st by (simp add: upt_rec)
  have "log_live (d_wal d) wd'" using st log_live_same [OF same_log_refl s(5)] by (auto simp: log_live_def)
  then show ?thesis using st source_of_ok assms(1) unfolding fresh_def srcs by auto
qed

section \<open>Restarting\<close>

lemma filter_drop: "(\<And>i. i < length xs \<Longrightarrow> P (xs ! i) \<longleftrightarrow> k \<le> i) \<Longrightarrow> filter P xs = drop k xs"
proof (induction xs arbitrary: k)
  case (Cons x xs)
  have x: "P x \<longleftrightarrow> k = 0" using Cons.prems [of 0] by simp
  have "P (xs ! i) \<longleftrightarrow> k - 1 \<le> i" if "i < length xs" for i using Cons.prems [of "Suc i"] that by auto
  then have "filter P xs = drop (k - 1) xs" by (rule Cons.IH)
  then show ?case using x by (cases k) simp_all
qed simp

text \<open>Positions below \<open>2 ^ 64\<close>: a ring takes centuries to come near it.\<close>

definition below_wrap :: "ring \<Rightarrow> bool" where
  "below_wrap r \<longleftrightarrow> unat (r_tail r) + length (unread r) \<le> 2 ^ 64"

lemma slot_seq_unat:
  assumes "ring_inv r" and "below_wrap r" and "i < length (unread r)"
  shows "unat (sl_seq (unread r ! i)) = unat (r_tail r) + i"
proof -
  have seq: "sl_seq (unread r ! i) = r_tail r + word_of_nat i" using assms(1,3) by (simp add: ring_inv_def)
  have lt: "unat (r_tail r) + i < 2 ^ 64" using assms(2,3) by (simp add: below_wrap_def)
  then have "r_tail r + word_of_nat i = word_of_nat (unat (r_tail r) + i)" by simp
  then show ?thesis unfolding seq using unat_of_nat_u64 [OF lt] by (simp only:)
qed

lemma kept_after:
  assumes "ring_inv r" and "below_wrap r" and "0 < k" and "k \<le> length (unread r)"
    and "so_skip s" and "so_skip_seq s = sl_seq (unread r ! (k - 1))"
  shows "kept s (unread r) = drop k (unread r)"
  unfolding kept_def
proof (rule filter_drop)
  fix i assume i: "i < length (unread r)"
  have "unat (so_skip_seq s) = unat (r_tail r) + (k - 1)"
    unfolding assms(6) using assms(3,4) by (intro slot_seq_unat [OF assms(1,2)]) linarith
  then have "sl_seq (unread r ! i) \<le> so_skip_seq s \<longleftrightarrow> i \<le> k - 1"
    using slot_seq_unat [OF assms(1,2) i] by (simp add: word_le_nat_alt)
  then show "\<not> (so_skip s \<and> sl_seq (unread r ! i) \<le> so_skip_seq s) \<longleftrightarrow> k \<le> i" using assms(3,5) by auto
qed

lemma length_upds [simp]:
  "length (foldl seq_upd m rs) = length m" "length (foldl has_upd h rs) = length h"
  by (induction rs arbitrary: m h) (simp_all add: upd_defs split: option.splits prod.splits)

lemma summary_notes:
  assumes "batch_ready w rs t0 t1" and "kind_of c = REC_COMMIT" and "ns < 2" and "so_added ([t0, t1] ! ns)"
  shows "sc_has_ring_seq (summary (bs @ [rs @ [c]])) ! ns"
    and "sc_ring_seq (summary (bs @ [rs @ [c]])) ! ns = so_last_seq ([t0, t1] ! ns)"
proof -
  let ?m = "foldl seq_upd [0, 0] (concat bs)" and ?h = "foldl has_upd [False, False] (concat bs)"
  have f: "sc_ring_seq (summary (bs @ [rs @ [c]])) = noted so_last_seq 0 [t0, t1] ?m"
    "sc_has_ring_seq (summary (bs @ [rs @ [c]])) = noted (\<lambda>_. True) 0 [t0, t1] ?h"
    using assms(1,2) by (simp_all add: summary_def Let_def batch_ready_def upd_other)
  have l: "length ?m = 2" "length ?h = 2" by simp_all
  consider "ns = 0" | "ns = 1" using assms(3) by linarith
  then show "sc_has_ring_seq (summary (bs @ [rs @ [c]])) ! ns"
    and "sc_ring_seq (summary (bs @ [rs @ [c]])) ! ns = so_last_seq ([t0, t1] ! ns)"
    unfolding f using assms(4) l by (cases; auto)+
qed

lemma last_taken:
  assumes "source_ok t" and "so_ring t = Some r" and "so_added t"
  shows "0 < unat (so_taken t)" and "unat (so_taken t) \<le> length (unread r)"
    and "so_last_seq t = sl_seq (unread r ! (unat (so_taken t) - 1))"
proof -
  have "taken_of t \<noteq> []" using assms(1,3) by (auto simp: source_ok_def)
  moreover have "taken_of t = take (unat (so_taken t)) (unread r)" using assms(2) by (simp add: taken_of_def unread_of_def)
  ultimately have t: "taken_of t = take (unat (so_taken t)) (unread r)" "taken_of t \<noteq> []" by simp_all
  show "0 < unat (so_taken t)" using t by (intro Nat.gr0I) simp
  show le: "unat (so_taken t) \<le> length (unread r)" using assms(1,2) by (simp add: source_ok_def unread_of_def)
  have "last (taken_of t) = unread r ! (unat (so_taken t) - 1)"
    unfolding t(1) using t(2) le by (subst last_conv_nth) (auto simp: t(1) min_def)
  then show "so_last_seq t = sl_seq (unread r ! (unat (so_taken t) - 1))"
    using assms(1) t(2) by (simp add: source_ok_def)
qed



text \<open>the duplicates that the notes are meant to prevent come back after a rollover. A segment that
  holds only batches made by turns of the main loop, as every segment begun by a rollover does,
  has no generation note, so a restart skips nothing, whatever positions the batches note: slots
  that were durable and not yet released are logged again.\<close>

theorem rolled_segment_never_skips:
  assumes "\<forall>b \<in> set bs. \<exists>w t0 t1 rs c. b = rs @ [c] \<and> batch_ready w rs t0 t1 \<and> kind_of c = REC_COMMIT"
    and "wal_scan img = (summary bs)\<lparr>sc_records_lost := lost\<rparr>" and "r_generation r \<noteq> 0" and "ns < WAL_NAMESPACES"
  shows "kept (started_as (wal_scan img) ns (source_of name (Some r))) (unread r) = unread r"
proof -
  have "foldl gen_upd m (concat bs) = m" for m
    using assms(1)
  proof (induction bs arbitrary: m)
    case (Cons b bs)
    then obtain w t0 t1 rs c where "b = rs @ [c]" "batch_ready w rs t0 t1" "kind_of c = REC_COMMIT" by auto
    then have "foldl gen_upd m b = m" by (simp add: batch_ready_def upd_other)
    then show ?case using Cons by simp
  qed simp
  then have "sc_ring_gen (wal_scan img) = [0, 0]" by (simp add: assms(2) summary_def Let_def)
  moreover have "ns = 0 \<or> ns = 1" using assms(4) by linarith
  ultimately have "\<not> so_skip (started_as (wal_scan img) ns (source_of name (Some r)))"
    using assms(3) by (auto simp: started_as_def source_of_def set_skip_def)
  then show ?thesis by (simp add: kept_def)
qed

theorem rolled_segment_never_skips_witness:
  "kept (started_as (wal_scan []) 0 (source_of ''/carwatch-obd'' (Some (demo_ring\<lparr>r_generation := 7\<rparr>))))
     (unread (demo_ring\<lparr>r_generation := 7\<rparr>)) = unread (demo_ring\<lparr>r_generation := 7\<rparr>)"
proof -
  have "wal_scan [] = (summary [])\<lparr>sc_records_lost := 0\<rparr>"
    using wal_scan_log [of "[]"] by (simp add: summary_def Let_def)
  then show ?thesis using rolled_segment_never_skips [of "[]" "[]" 0 "demo_ring\<lparr>r_generation := 7\<rparr>" 0] by simp
qed

end
