(* ===== verification/Storaged_Restart.thy ===== *)
theory Storaged_Restart
  imports Storaged_Run
begin

text \<open>
  Starts and kills of \<open>storaged\<close> in one power session (src/src/store/main.c). The rings live in shared memory and outlive the
  process; the log tells the next start which slots are durable. The invariant of a session says of each source that what
  was released and what it skips are samples on disk, and that the positions the log notes are true of the ring. Every
  start, turn, push and kill keeps it: \<open>storaged_survives_kills\<close>. The histories begin with a log that notes no position:
  \<open>stale_position_loses_slots\<close> shows what the code does with a position that was noted for another ring.
\<close>

section \<open>The note of a generation\<close>

lemma generation_noted:
  assumes "log_at w wd bs" and "buf_at w []" and "note_generation w (of_nat ns) r wd = (Some (gd, w1), wd1)"
    and "ns < WAL_NAMESPACES"
  shows "gd \<and> clocks_only wd wd1 \<and> log_at w1 wd1 bs \<and> w_open_batch w1 \<and> w_fd w1 = w_fd w \<and> (\<exists>rs. buf_at w1 rs \<and>
    (\<forall>m h. foldl seq_upd m rs = m \<and> foldl has_upd h rs = h \<and> foldl gen_upd m rs = m[ns := r_generation r]))"
proof -
  let ?t = "note_text ''gen='' (of_nat ns) (r_generation r)"
  have u: "unat (of_nat ns :: u32) = ns" using assms(4) by (simp add: unsigned_of_nat take_bit_nat_eq_self)
  have buf: "w_buf w = []" using assms(2) by (simp add: buf_at_def)
  have t: "length ?t < 200" using length_note_text [of "''gen=''" "of_nat ns" "r_generation r"] by simp
  obtain w' wd' rs' q where n: "note_generation w (of_nat ns) r wd = (Some (True, w'), wd')" "same_log w w'" "buf_at w' rs'"
    "clocks_only wd wd'" "w_open_batch w'" "grown [] q rs'" "kind_of q = REC_EVENT" "snd q = note_body WAL_EV_RING_GEN ?t"
    using add_note_ok [OF assms(2) t, of WAL_EV_RING_GEN wd] unfolding note_generation_def by (auto simp: buf)
  have e: "gd" "w' = w1" "wd' = wd1" using n(1) assms(3) by simp_all
  have ns: "unat (of_nat ns :: u32) < WAL_NAMESPACES" using u assms(4) by simp
  note reads = note_rec_reads(2) [OF n(7) ns n(8), unfolded u] and f = grown_folds [OF n(6)]
  have "\<forall>m h. foldl seq_upd m rs' = m \<and> foldl has_upd h rs' = h \<and> foldl gen_upd m rs' = m[ns := r_generation r]"
    using reads f by simp
  moreover have "log_at w1 wd1 bs" using assms(1) same_log_at [OF n(2,4)] e by simp
  ultimately show ?thesis using n e by (auto simp: same_log_def)
qed

section \<open>What a run knows\<close>

text \<open>The slot is a sample on disk.\<close>

definition covered :: "world \<Rightarrow> ring_slot \<Rightarrow> bool" where
  "covered wd x \<longleftrightarrow> (\<exists>h. on_disk wd h \<and> slot_key x \<in> set (sample_keys h))"

lemma covered_mono: "covered wd x \<Longrightarrow> (\<And>h. on_disk wd h \<Longrightarrow> on_disk wd' h) \<Longrightarrow> covered wd' x"
  unfolding covered_def by blast

text \<open>The positions of a ring have not wrapped around.\<close>

definition nowrap :: "ring \<Rightarrow> bool" where
  "nowrap r \<longleftrightarrow> unat (r_tail r) + length (unread r) = unat (r_head r)"

lemma nowrap_below: "nowrap r \<Longrightarrow> below_wrap r"
  using unsigned_less [of "r_head r", where ?'a = nat] by (simp add: nowrap_def below_wrap_def)

text \<open>Of one source: what was released (\<open>a\<close>) is on disk, and so is what it skips.\<close>

definition base :: "world \<Rightarrow> source \<Rightarrow> ring_slot list \<Rightarrow> bool" where
  "base wd s a \<longleftrightarrow> (\<forall>x \<in> set a. covered wd x) \<and> (\<forall>x \<in> set (unread_of s). skips s x \<longrightarrow> covered wd x) \<and>
     (\<forall>r. so_ring s = Some r \<longrightarrow> nowrap r \<and> (so_skip s \<longrightarrow> so_skip_seq s < r_head r))"

text \<open>What a log says of the ring is true: the unread slots up to the position it notes satisfy \<open>C\<close>.\<close>

definition known :: "(ring_slot \<Rightarrow> bool) \<Rightarrow> wal_scan_t \<Rightarrow> nat \<Rightarrow> source \<Rightarrow> bool" where
  "known C sc ns s \<longleftrightarrow> (sc_has_ring_seq sc ! ns \<longrightarrow>
     (\<forall>x \<in> set (unread_of s). sl_seq x \<le> sc_ring_seq sc ! ns \<longrightarrow> C x) \<and>
     (\<forall>r. so_ring s = Some r \<longrightarrow> sc_ring_seq sc ! ns < r_head r))"

lemma known_mono: "known C sc ns s \<Longrightarrow> (\<And>x. C x \<Longrightarrow> C' x) \<Longrightarrow> known C' sc ns s"
  by (simp add: known_def)

lemma base_mono: "base wd s a \<Longrightarrow> (\<And>h. on_disk wd h \<Longrightarrow> on_disk wd' h) \<Longrightarrow> base wd' s a"
  unfolding base_def using covered_mono by metis

lemma base_same: "same_source s t \<Longrightarrow> base wd t a = base wd s a"
  by (simp add: base_def same_source_def unread_of_def)

lemma known_same: "so_ring t = so_ring s \<Longrightarrow> known C sc ns t = known C sc ns s"
  by (simp add: known_def unread_of_def)

text \<open>The scan keeps the positions of the one before, or has none.\<close>

definition notes_from :: "wal_scan_t \<Rightarrow> wal_scan_t \<Rightarrow> bool" where
  "notes_from sc sc' \<longleftrightarrow> (\<forall>ns < WAL_NAMESPACES. sc_has_ring_seq sc' ! ns \<longrightarrow>
     sc_has_ring_seq sc ! ns \<and> sc_ring_seq sc' ! ns = sc_ring_seq sc ! ns)"

lemma notes_from_refl: "notes_from sc sc"
  by (simp add: notes_from_def)

lemma notes_from_trans: "notes_from a b \<Longrightarrow> notes_from b c \<Longrightarrow> notes_from a c"
  by (simp add: notes_from_def)

lemma notes_from_empty: "notes_from sc (summary [])"
  by (auto simp: notes_from_def summary_def Let_def less_2_cases_iff)

lemma notes_from_snoc:
  assumes "\<And>m h. foldl seq_upd m b = m \<and> foldl has_upd h b = h"
  shows "notes_from (summary bs) (summary (bs @ [b]))"
  using assms by (simp add: notes_from_def summary_def Let_def)

lemma notes_from_lost: "notes_from (sc\<lparr>sc_records_lost := n\<rparr>) sc' = notes_from sc sc'"
  by (simp add: notes_from_def)

lemma known_notes: "known C sc ns s \<Longrightarrow> notes_from sc sc' \<Longrightarrow> ns < WAL_NAMESPACES \<Longrightarrow> known C sc' ns s"
  by (auto simp: known_def notes_from_def)

section \<open>A batch\<close>

lemma unread_upto:
  assumes "ring_inv r" and "nowrap r" and "x \<in> set (unread r)" and "0 < k" and "k \<le> length (unread r)"
    and "sl_seq x \<le> sl_seq (unread r ! (k - 1))"
  shows "x \<in> set (take k (unread r))"
proof -
  obtain i where i: "i < length (unread r)" "x = unread r ! i" using assms(3) by (auto simp: in_set_conv_nth simp del: length_unread)
  have "unat (sl_seq x) = unat (r_tail r) + i" "unat (sl_seq (unread r ! (k - 1))) = unat (r_tail r) + (k - 1)"
    using slot_seq_unat [OF assms(1) nowrap_below [OF assms(2)]] i assms(4,5) by (simp_all del: length_unread)
  then have "i < k" using assms(4,6) by (simp add: word_le_nat_alt)
  then show ?thesis using i assms(5) by (auto simp: in_set_conv_nth simp del: length_unread)
qed

lemma holds_keys:
  assumes "holds rs t0 t1" and "ns < WAL_NAMESPACES" and "x \<in> set (kept ([t0, t1] ! ns) (taken_of ([t0, t1] ! ns)))"
  shows "slot_key x \<in> set (sample_keys rs)"
proof -
  have "set (sample_keys rs) = set (keys_of t0) \<union> set (keys_of t1)"
    using assms(1) set_shuffles [of "sample_keys rs" "keys_of t0" "keys_of t1"] by (simp only: holds_def)
  moreover have "slot_key x \<in> set (keys_of ([t0, t1] ! ns))" using assms(3) by simp
  ultimately show ?thesis using assms(2) by (auto simp: less_2_cases_iff)
qed

text \<open>The slots that a committed batch covers are in it or were on disk before.\<close>

lemma taken_covered:
  assumes "base wd t a" and "x \<in> set (taken_of t)" and "x \<notin> set (kept t (taken_of t))"
  shows "covered wd x"
  using assms by (auto simp: base_def kept_def taken_of_def dest: in_set_takeD)

lemma known_batch:
  assumes "batch_ready w rs t0 t1" and "kind_of c = REC_COMMIT" and "ns < WAL_NAMESPACES" and "source_ok ([t0, t1] ! ns)"
    and "base wd ([t0, t1] ! ns) a" and "known C (summary bs) ns ([t0, t1] ! ns)" and "\<And>x. covered wd x \<Longrightarrow> C x"
  shows "known (\<lambda>x. C x \<or> slot_key x \<in> set (sample_keys rs)) (summary (bs @ [rs @ [c]])) ns ([t0, t1] ! ns)"
proof (cases "so_added ([t0, t1] ! ns)")
  case False
  let ?m = "foldl seq_upd [0, 0] (concat bs)" and ?h = "foldl has_upd [False, False] (concat bs)"
  have f: "sc_ring_seq (summary (bs @ [rs @ [c]])) = noted so_last_seq 0 [t0, t1] ?m"
    "sc_has_ring_seq (summary (bs @ [rs @ [c]])) = noted (\<lambda>_. True) 0 [t0, t1] ?h"
    using assms(1,2) by (simp_all add: summary_def Let_def batch_ready_def upd_other)
  have "sc_ring_seq (summary (bs @ [rs @ [c]])) ! ns = sc_ring_seq (summary bs) ! ns"
    "sc_has_ring_seq (summary (bs @ [rs @ [c]])) ! ns = sc_has_ring_seq (summary bs) ! ns"
    using False assms(3) unfolding f by (auto simp: less_2_cases_iff summary_def Let_def)
  then show ?thesis using assms(6) by (simp add: known_def)
next
  case True
  let ?t = "[t0, t1] ! ns"
  note n = summary_notes [OF assms(1-3) True, of bs]
  have keys: "slot_key x \<in> set (sample_keys rs)" if "x \<in> set (kept ?t (taken_of ?t))" for x
    using holds_keys [OF _ assms(3) that] assms(1) by (auto simp: batch_ready_def)
  have "(\<forall>x \<in> set (unread r). sl_seq x \<le> so_last_seq ?t \<longrightarrow> C x \<or> slot_key x \<in> set (sample_keys rs)) \<and> so_last_seq ?t < r_head r"
    if r: "so_ring ?t = Some r" for r
  proof -
    note l = last_taken [OF assms(4) r True]
    have inv: "ring_inv r" "nowrap r" using assms(4,5) r by (auto simp: source_ok_def base_def)
    have "x \<in> set (taken_of ?t)" if "x \<in> set (unread r)" "sl_seq x \<le> so_last_seq ?t" for x
      using unread_upto [OF inv that(1) l(1,2)] that(2) r unfolding l(3) by (simp add: taken_of_def unread_of_def)
    then have 1: "C x \<or> slot_key x \<in> set (sample_keys rs)" if "x \<in> set (unread r)" "sl_seq x \<le> so_last_seq ?t" for x
      using that keys taken_covered [OF assms(5)] assms(7) by blast
    have "unat (so_last_seq ?t) = unat (r_tail r) + (unat (so_taken ?t) - 1)"
      unfolding l(3) using l(1,2) by (intro slot_seq_unat [OF inv(1) nowrap_below [OF inv(2)]]) linarith
    then have "unat (so_last_seq ?t) < unat (r_head r)" using l(1,2) inv(2) by (simp add: nowrap_def)
    then show ?thesis using 1 by (simp add: word_less_nat_alt)
  qed
  then show ?thesis unfolding known_def n(2) by (cases "so_ring ?t") (auto simp: unread_of_def)
qed

section \<open>Steps of a run\<close>

lemma nowrap_le: "nowrap r \<longleftrightarrow> r_tail r \<le> r_head r"
proof
  assume "nowrap r"
  then show "r_tail r \<le> r_head r" by (simp add: nowrap_def word_le_nat_alt)
next
  assume "r_tail r \<le> r_head r"
  then show "nowrap r" using unat_sub [of "r_tail r" "r_head r"] by (simp add: nowrap_def word_le_nat_alt)
qed

lemma nowrap_release:
  assumes "nowrap r"
  shows "nowrap (fst (ring_release r n))" and "r_head (fst (ring_release r n)) = r_head r"
proof -
  show "r_head (fst (ring_release r n)) = r_head r" by (simp add: ring_release_def Let_def)
  have "r_tail r + n \<le> r_head r" if n: "n \<le> r_head r - r_tail r"
  proof -
    have le: "r_tail r \<le> r_head r" using assms by (simp add: nowrap_le)
    have "unat n \<le> unat (r_head r) - unat (r_tail r)" using n unat_sub [OF le] by (simp add: word_le_nat_alt)
    then have "unat (r_tail r) + unat n \<le> unat (r_head r)" using le by (simp add: word_le_nat_alt)
    moreover from this have "unat (r_tail r + n) = unat (r_tail r) + unat n"
      using unsigned_less [of "r_head r", where ?'a = nat] by (intro unat_add_lem [THEN iffD1]) simp
    ultimately show ?thesis by (simp add: word_le_nat_alt)
  qed
  then show "nowrap (fst (ring_release r n))"
    using assms by (auto simp: ring_release_def Let_def nowrap_le not_less)
qed

lemma release_known:
  assumes "source_ok t" and "base wd t a" and "\<And>x. x \<in> set (taken_of t) \<Longrightarrow> covered wd x"
  shows "base wd (release_source t) (a @ taken_of t)" and "known C sc ns t \<Longrightarrow> known C sc ns (release_source t)"
proof -
  note r = release_ok [OF assms(1)]
  have sub: "set (unread_of (release_source t)) \<subseteq> set (unread_of t)" using r(3) by (metis Un_upper2 set_append)
  have sk: "so_skip (release_source t) = so_skip t" "so_skip_seq (release_source t) = so_skip_seq t"
    by (simp_all add: release_source_def restart_source_def)
  have ring: "\<exists>q. so_ring t = Some q \<and> r_head r' = r_head q \<and> nowrap r'" if "so_ring (release_source t) = Some r'" for r'
    using that assms(2) nowrap_release by (auto simp: release_source_def base_def split: option.splits if_splits)
  show "base wd (release_source t) (a @ taken_of t)"
    using assms(2,3) sub ring unfolding base_def sk by fastforce
  show "known C sc ns (release_source t)" if "known C sc ns t"
    using that sub ring unfolding known_def by fastforce
qed

lemma push_known:
  assumes "source_ok s" and "so_ring s = Some r" and "ring_push r x = (r', ok)" and "unat (r_head r) + 1 < 2 ^ 64"
  defines "s' \<equiv> s\<lparr>so_ring := Some r'\<rparr>"
  shows "base wd s a \<Longrightarrow> base wd s' a" and "known C sc ns s \<Longrightarrow> known C sc ns s'"
proof -
  note p = source_push [OF assms(1-3), folded s'_def]
  have h: "r_tail r' = r_tail r" "r_head r' = (if ok then r_head r + 1 else r_head r)"
    using assms(3) by (auto simp: ring_push_def Let_def split: if_splits)
  have "unat (r_head r + 1) = unat (r_head r) + 1" using assms(4) by (simp add: unat_word_ariths(1))
  then have le: "r_head r \<le> r_head r'" using h(2) by (simp add: word_le_nat_alt)
  have new: "sl_seq (stored_slot r x) = r_head r" by (simp add: stored_slot_def)
  have sk: "so_skip s' = so_skip s" "so_skip_seq s' = so_skip_seq s" "so_ring s' = Some r'" by (simp_all add: s'_def)
  have u: "y \<in> set (unread_of s) \<or> sl_seq y = r_head r" if "y \<in> set (unread_of s')" for y
    using new that unfolding p(4) by (cases ok) auto
  show "base wd s' a" if b: "base wd s a"
  proof -
    have r: "nowrap r" "so_skip s \<Longrightarrow> so_skip_seq s < r_head r" using b assms(2) by (auto simp: base_def)
    have "nowrap r'" using r(1) le h(1) by (simp add: nowrap_le)
    moreover have "so_skip s \<Longrightarrow> so_skip_seq s < r_head r'" using r(2) le by simp
    moreover have "covered wd y" if "y \<in> set (unread_of s')" "skips s y" for y
      using u [OF that(1)] that(2) b r(2) by (auto simp: base_def)
    ultimately show ?thesis using b by (simp add: base_def sk)
  qed
  show "known C sc ns s'" if k: "known C sc ns s"
  proof -
    have r: "sc_has_ring_seq sc ! ns \<Longrightarrow> sc_ring_seq sc ! ns < r_head r" using k assms(2) by (simp add: known_def)
    have "C y" if "sc_has_ring_seq sc ! ns" "y \<in> set (unread_of s')" "sl_seq y \<le> sc_ring_seq sc ! ns" for y
      using u [OF that(2)] that(1,3) k r by (auto simp: known_def)
    then show ?thesis using r le by (auto simp: known_def sk)
  qed
qed

section \<open>A run that can be killed\<close>

definition sess_inv :: "daemon \<Rightarrow> world \<Rightarrow> ring_slot list list \<Rightarrow> bool" where
  "sess_inv d wd acc \<longleftrightarrow> (\<exists>s0 s1 rs a b. d_srcs d = [s0, s1] \<and> source_ok s0 \<and> source_ok s1 \<and> loose (d_wal d) rs \<and> holds rs s0 s1 \<and>
     acc = [a @ unread_of s0, b @ unread_of s1] \<and> base wd s0 a \<and> base wd s1 b \<and>
     (w_fd (d_wal d) = None \<or> (\<exists>bs. log_at (d_wal d) wd bs \<and> known (covered wd) (summary bs) 0 s0 \<and>
        known (covered wd) (summary bs) 1 s1)))"

text \<open>What is left when the process is gone: the segment \<open>p\<close> and the rings. The slots up to the position noted are on
  disk, or in a batch that the next start finds.\<close>

definition left_of :: "world \<Rightarrow> rec list list \<Rightarrow> ring_slot \<Rightarrow> bool" where
  "left_of wd bs x \<longleftrightarrow> covered wd x \<or> slot_key x \<in> set (sample_keys (concat bs))"

abbreviation obd_source :: "ring option \<Rightarrow> source" where
  "obd_source \<equiv> source_of ''/carwatch-obd''"

abbreviation probe_source :: "ring option \<Rightarrow> source" where
  "probe_source \<equiv> source_of ''/carwatch-probe''"

definition dead_inv :: "string \<Rightarrow> world \<Rightarrow> ring_slot list list \<Rightarrow> ring option \<Rightarrow> ring option \<Rightarrow> bool" where
  "dead_inv p wd acc r0 r1 \<longleftrightarrow> (\<exists>a b f bs. source_ok (obd_source r0) \<and> source_ok (probe_source r1) \<and>
     acc = [a @ unread_of (obd_source r0), b @ unread_of (probe_source r1)] \<and>
     base wd (obd_source r0) a \<and> base wd (probe_source r1) b \<and>
     the_file p wd = Some f \<and> f_entry f \<and> recovers (f_data f) bs \<and> prefix (bytes_of_log (concat bs)) (f_data f) \<and>
     known (left_of wd bs) (summary bs) 0 (obd_source r0) \<and> known (left_of wd bs) (summary bs) 1 (probe_source r1))"

lemma commit_end_file:
  "commit_end R w p D B old n r wd' \<Longrightarrow> \<exists>f. the_file p wd' = Some f \<and> f_entry f \<and> prefix D (f_data f) \<and> prefix (f_data f) (D @ B)"
  by (erule commit_end.cases) (auto simp: file_is_def take_is_prefix)

lemma commit_file:
  assumes "log_at w wd bs" and "buf_at w rs" and "w_open_batch w" and "wal_commit w wd = (r, wd')" and "w_fd w = Some p"
  obtains c f where "kind_of c = REC_COMMIT" and "the_file p wd' = Some f" and "f_entry f"
    and "\<exists>bs' \<in> {bs, bs @ [rs @ [c]]}. recovers (f_data f) bs' \<and> prefix (bytes_of_log (concat bs')) (f_data f)"
proof -
  obtain q old c where c: "w_fd w = Some q" "log_ok (bs @ [rs @ [c]])"
    "commit_end (wd_refused wd) w q (bytes_of_log (concat bs)) (bytes_of_log (rs @ [c])) old (length (bytes_of_log (concat bs))) r wd'"
    by (rule commit_ends [OF assms(1-4)])
  let ?D = "bytes_of_log (concat bs)" and ?B = "bytes_of_log (rs @ [c])"
  have q: "q = p" using c(1) assms(5) by simp
  obtain f where f: "the_file p wd' = Some f" and fe: "f_entry f" and f2: "prefix ?D (f_data f)" "prefix (f_data f) (?D @ ?B)"
    using commit_end_file [OF c(3)] unfolding q by blast
  have com: "kind_of c = REC_COMMIT" using c(2) by (simp add: is_batch_def)
  have DB: "?D @ ?B = bytes_of_log (concat (bs @ [rs @ [c]]))" by simp
  have "recovers (f_data f) (if f_data f = ?D @ ?B then bs @ [rs @ [c]] else bs)"
    using recovers_torn [OF c(2), of "f_data f"] f2 unfolding DB by (simp add: prefix_length_le)
  moreover have "prefix (bytes_of_log (concat (if f_data f = ?D @ ?B then bs @ [rs @ [c]] else bs))) (f_data f)"
    using f2(1) DB by simp
  ultimately show thesis
    by (intro that [OF com f fe] bexI [of _ "if f_data f = ?D @ ?B then bs @ [rs @ [c]] else bs"]) auto
qed

lemma on_disk_file:
  assumes "file_is p wd (bytes_of_log (concat bs)) [] (length (bytes_of_log (concat bs)))" and "log_ok bs" and "b \<in> set bs"
  shows "on_disk wd b"
proof -
  have "secure p (bytes_of_log (concat bs)) wd" using assms(1) by (auto simp: secure_def file_is_def)
  then show ?thesis using assms(2,3) unfolding on_disk_def by blast
qed

definition logged :: "wal \<Rightarrow> world \<Rightarrow> source \<Rightarrow> source \<Rightarrow> bool" where
  "logged w wd s0 s1 \<longleftrightarrow> w_fd w = None \<or> (\<exists>bs. log_at w wd bs \<and> known (covered wd) (summary bs) 0 s0 \<and>
     known (covered wd) (summary bs) 1 s1)"

lemma logged_live: "logged w wd s0 s1 \<Longrightarrow> log_live w wd"
  by (auto simp: logged_def log_live_def)

lemma sess_inv_logged:
  "sess_inv d wd acc \<longleftrightarrow> (\<exists>s0 s1 rs a b. d_srcs d = [s0, s1] \<and> source_ok s0 \<and> source_ok s1 \<and> loose (d_wal d) rs \<and> holds rs s0 s1 \<and>
     acc = [a @ unread_of s0, b @ unread_of s1] \<and> base wd s0 a \<and> base wd s1 b \<and> logged (d_wal d) wd s0 s1)"
  unfolding sess_inv_def logged_def ..

lemma covered_clocks: "clocks_only wd wd' \<Longrightarrow> covered wd' x = covered wd x"
  by (simp add: covered_def on_disk_clocks)

lemma base_clocks: "clocks_only wd wd' \<Longrightarrow> base wd' s a = base wd s a"
  by (simp add: base_def covered_clocks)

lemma logged_clocks:
  assumes "same_log w w'" and "clocks_only wd wd'" and "so_ring t0 = so_ring s0" and "so_ring t1 = so_ring s1"
  shows "logged w' wd' t0 t1 = logged w wd s0 s1"
proof -
  have "covered wd' = covered wd" using covered_clocks [OF assms(2)] by blast
  then show ?thesis
    unfolding logged_def same_log_at [OF assms(1,2)] known_same [OF assms(3)] known_same [OF assms(4)]
    using assms(1) by (simp add: same_log_def)
qed

lemma released_sess:
  assumes "batch_ready w rs t0 t1" and "source_ok t0" and "source_ok t1" and "logged w wd1 t0 t1"
    and "base wd1 t0 a" and "base wd1 t1 b"
    and "wal_commit w wd1 = (Some (True, w'), wd2)" and "d_wal d' = w'"
    and "d_srcs d' = [release_source t0, release_source t1]"
  shows "sess_inv d' wd2 [a @ unread_of t0, b @ unread_of t1]"
proof -
  note r0 = release_ok [OF assms(2)] and r1 = release_ok [OF assms(3)]
  have buf: "buf_at w rs" and holds: "holds rs t0 t1" and open_if: "so_added t0 \<or> so_added t1 \<Longrightarrow> w_open_batch w"
    using assms(1) by (auto simp: batch_ready_def)
  have mono: "on_disk wd1 h \<Longrightarrow> on_disk wd2 h" for h by (rule commit_keeps_on_disk [OF logged_live [OF assms(4)] assms(7)])
  note cm = covered_mono [OF _ mono]
  have b0: "base wd2 t0 a" and b1: "base wd2 t1 b" using base_mono [OF assms(5) mono] base_mono [OF assms(6) mono] by blast+
  have "buf_at w' [] \<and> logged w' wd2 t0 t1 \<and> (\<forall>x \<in> set (taken_of t0). covered wd2 x) \<and> (\<forall>x \<in> set (taken_of t1). covered wd2 x)"
  proof (cases "w_open_batch w")
    case True
    have "w_fd w \<noteq> None" using commit_without_fd(1) [OF _ buf True assms(7)] by blast
    then obtain bs where at: "log_at w wd1 bs" and k: "known (covered wd1) (summary bs) 0 t0" "known (covered wd1) (summary bs) 1 t1"
      using assms(4) by (auto simp: logged_def)
    obtain p old where l: "w_fd w = Some p" "log_ok bs" "length (w_dir w) < 200"
      "file_is p wd1 (bytes_of_log (concat bs)) old (length (bytes_of_log (concat bs)))"
      "unat (w_seg_bytes w) = length (bytes_of_log (concat bs))" "length (bytes_of_log (concat bs)) < WAL_SEGMENT_BYTES"
      by (rule log_atD [OF at])
    have "length (bytes_of_log (concat bs)) < 2 ^ 63" using l(6) by simp
    from commit_true [OF buf True l(1,3,4,5) refl l(2) this assms(7)] obtain c where
      c: "log_ok (bs @ [rs @ [c]])" "buf_at w' []" "log_at w' wd2 (bs @ [rs @ [c]]) \<or> log_at w' wd2 []"
      "file_is p wd2 (bytes_of_log (concat (bs @ [rs @ [c]]))) [] (length (bytes_of_log (concat (bs @ [rs @ [c]]))))"
      using log_grownD by blast
    have com: "kind_of c = REC_COMMIT" using c(1) by (simp add: is_batch_def)
    have "on_disk wd2 (rs @ [c])" by (rule on_disk_file [OF c(4,1)]) simp
    then have key: "covered wd2 x" if "slot_key x \<in> set (sample_keys rs)" for x using that unfolding covered_def by auto
    have "known (covered wd2) (summary (bs @ [rs @ [c]])) ns ([t0, t1] ! ns)"
      if "ns < 2" "source_ok ([t0, t1] ! ns)" "base wd1 ([t0, t1] ! ns) a'" "known (covered wd1) (summary bs) ns ([t0, t1] ! ns)" for ns a'
      using known_mono [OF known_batch [OF assms(1) com that(1-3) that(4)]] key cm by blast
    from this [of 0 a] this [of 1 b] have "logged w' wd2 t0 t1"
      using assms(2,3,5,6) k c(3) known_notes [OF _ notes_from_empty] unfolding logged_def by fastforce
    moreover have "covered wd2 x" if "x \<in> set (taken_of ([t0, t1] ! ns))" "ns < 2" "base wd2 ([t0, t1] ! ns) a'" for x ns a'
      using taken_covered [OF that(3,1)] holds_keys [OF holds that(2)] key by blast
    from this [of _ 0] this [of _ 1] have "(\<forall>x \<in> set (taken_of t0). covered wd2 x) \<and> (\<forall>x \<in> set (taken_of t1). covered wd2 x)"
      using b0 b1 by auto
    ultimately show ?thesis using c(2) by blast
  next
    case False
    then have e: "w' = w" "wd2 = wd1" "rs = []" using assms(7) buf by (auto simp: commit_closed buf_at_def)
    have "kept t0 (taken_of t0) = []" "kept t1 (taken_of t1) = []"
      using open_if False assms(2,3) by (auto simp: source_ok_def)
    then show ?thesis using taken_covered [OF b0] taken_covered [OF b1] assms(4) buf e by auto
  qed
  then have n: "buf_at w' []" "logged w' wd2 t0 t1" "\<And>x. x \<in> set (taken_of t0) \<Longrightarrow> covered wd2 x" "\<And>x. x \<in> set (taken_of t1) \<Longrightarrow> covered wd2 x"
    by blast+
  have "logged w' wd2 (release_source t0) (release_source t1)"
    using n(2) release_known(2) [OF assms(2) b0 n(3)] release_known(2) [OF assms(3) b1 n(4)] unfolding logged_def by blast
  moreover have "holds [] (release_source t0) (release_source t1)" by (simp add: holds_def r0(2) r1(2))
  moreover have "[a @ unread_of t0, b @ unread_of t1] =
      [(a @ taken_of t0) @ unread_of (release_source t0), (b @ taken_of t1) @ unread_of (release_source t1)]"
    by (simp add: r0(3) r1(3))
  ultimately show ?thesis
    unfolding sess_inv_logged assms(8,9)
    using r0(1) r1(1) loose_empty [OF n(1)] release_known(1) [OF assms(2) b0 n(3)] release_known(1) [OF assms(3) b1 n(4)] by blast
qed

lemma restarted_sess:
  assumes "batch_ready w rs t0 t1" and "source_ok t0" and "source_ok t1" and "logged w wd1 t0 t1"
    and "base wd1 t0 a" and "base wd1 t1 b"
    and "wal_commit w wd1 = (Some (False, w'), wd2)" and "d_wal d' = w'"
    and "d_srcs d' = [restart_source t0, restart_source t1]" and "wd_refused wd2 = wd_refused wd1"
  shows "sess_inv d' wd2 [a @ unread_of t0, b @ unread_of t1]"
proof -
  note r0 = restart_ok [OF assms(2)] and r1 = restart_ok [OF assms(3)]
  have buf: "buf_at w rs" and op: "w_open_batch w"
    using assms(1,7) commit_closed [of w wd1] by (auto simp: batch_ready_def)
  have mono: "on_disk wd1 h \<Longrightarrow> on_disk wd2 h" for h by (rule commit_keeps_on_disk [OF logged_live [OF assms(4)] assms(7)])
  have same: "same_source t0 (restart_source t0)" "same_source t1 (restart_source t1)"
    by (simp_all add: same_source_def restart_source_def)
  have live: "buf_at w' [] \<and> logged w' wd2 t0 t1"
  proof (cases "w_fd w")
    case None
    then show ?thesis using commit_without_fd(2,3) [OF None buf op assms(7)] by (simp add: logged_def)
  next
    case (Some p)
    then obtain bs where at: "log_at w wd1 bs" "known (covered wd1) (summary bs) 0 t0" "known (covered wd1) (summary bs) 1 t1"
      using assms(4) by (auto simp: logged_def)
    have "known (covered wd2) (summary bs) 0 t0" "known (covered wd2) (summary bs) 1 t1"
      using known_mono [OF at(2)] known_mono [OF at(3)] covered_mono [OF _ mono] by blast+
    moreover have "buf_at w' [] \<and> (log_at w' wd2 bs \<or> w_fd w' = None)"
      using commit_failure [OF at(1) buf op assms(7)] assms(10) unfolding Let_def by auto
    ultimately show ?thesis by (auto simp: logged_def)
  qed
  have "base wd2 (restart_source t0) a" "base wd2 (restart_source t1) b"
    unfolding base_same [OF same(1)] base_same [OF same(2)]
    using base_mono [OF assms(5) mono] base_mono [OF assms(6) mono] by blast+
  moreover have "holds [] (restart_source t0) (restart_source t1)" by (simp add: holds_def r0(2) r1(2))
  moreover have "logged w' wd2 (restart_source t0) (restart_source t1)"
    using live logged_clocks [OF same_log_refl clocks_only_refl, of "restart_source t0" t0 "restart_source t1" t1] same
    by (simp add: same_source_def)
  ultimately show ?thesis
    unfolding sess_inv_logged assms(8,9) using r0 r1 live loose_empty [of w'] by metis
qed

section \<open>Killing a run\<close>

lemma source_of_base:
  assumes "source_ok s" and "base wd s a"
  shows "source_ok (source_of n (so_ring s))" and "base wd (source_of n (so_ring s)) a"
    and "unread_of (source_of n (so_ring s)) = unread_of s"
  using assms by (auto simp: source_ok_def base_def source_of_def unread_of_def taken_of_def)

lemma source_of_known: "known C sc ns (source_of n (so_ring s)) = known C sc ns s"
  by (rule known_same) (simp add: source_of_def)

lemma dead_invI:
  assumes "source_ok s0" and "source_ok s1" and "base wd s0 a" and "base wd s1 b" and "the_file p wd = Some f" and "f_entry f"
    and "recovers (f_data f) bs" and "prefix (bytes_of_log (concat bs)) (f_data f)"
    and "known (left_of wd bs) (summary bs) 0 s0" and "known (left_of wd bs) (summary bs) 1 s1"
  shows "dead_inv p wd [a @ unread_of s0, b @ unread_of s1] (so_ring s0) (so_ring s1)"
  unfolding dead_inv_def source_of_known
  using assms source_of_base [OF assms(1,3)] source_of_base [OF assms(2,4)] by metis

lemma kill_dead:
  assumes "sess_inv d wd acc" and "w_fd (d_wal d) = Some p" and "d_srcs d = [s0, s1]"
  shows "dead_inv p wd acc (so_ring s0) (so_ring s1)"
proof -
  obtain rs a b bs where i: "source_ok s0" "source_ok s1" "acc = [a @ unread_of s0, b @ unread_of s1]" "base wd s0 a" "base wd s1 b"
    "log_at (d_wal d) wd bs" "known (covered wd) (summary bs) 0 s0" "known (covered wd) (summary bs) 1 s1"
    using assms unfolding sess_inv_def by auto
  obtain q old where l: "w_fd (d_wal d) = Some q" "log_ok bs"
    "file_is q wd (bytes_of_log (concat bs)) old (length (bytes_of_log (concat bs)))" by (rule log_atD [OF i(6)])
  have "q = p" using l(1) assms(2) by simp
  then obtain f where f: "the_file p wd = Some f" "f_entry f" "f_data f = bytes_of_log (concat bs)" using l(3) by (auto simp: file_is_def)
  have "recovers (f_data f) bs" unfolding f(3) recovers_def wal_scan_log [OF l(2)] using l(2) by (simp add: summary_def Let_def)
  then show ?thesis
    unfolding i(3)
    using dead_invI [OF i(1,2,4,5) f(1,2)] f(3) known_mono [OF i(7)] known_mono [OF i(8)] by (simp add: left_of_def)
qed

lemma turn_sess:
  assumes "sess_inv d wd acc" and "turn d wd = (res, wd')"
  shows "(\<forall>d'. res = Some d' \<longrightarrow> wd_refused wd' = wd_refused wd \<longrightarrow> sess_inv d' wd' acc) \<and>
    (\<forall>p s0 s1. res = None \<longrightarrow> w_fd (d_wal d) = Some p \<longrightarrow> d_srcs d = [s0, s1] \<longrightarrow> dead_inv p wd' acc (so_ring s0) (so_ring s1))"
proof -
  obtain s0 s1 rs a b where i: "d_srcs d = [s0, s1]" "source_ok s0" "source_ok s1" "loose (d_wal d) rs"
    "holds rs s0 s1" "acc = [a @ unread_of s0, b @ unread_of s1]" "base wd s0 a" "base wd s1 b" "logged (d_wal d) wd s0 s1"
    using assms(1) unfolding sess_inv_logged by blast
  show ?thesis
    using i(1-5) assms(2)
  proof (cases rule: turn_cases)
    case (waits d' t0 t1 rs')
    have ring: "so_ring t0 = so_ring s0" "so_ring t1 = so_ring s1" using waits(9,10) by (simp_all add: same_source_def)
    have "logged (d_wal d') wd' t0 t1" using i(9) logged_clocks [OF waits(4,3) ring] by simp
    moreover have "base wd' t0 a" "base wd' t1 b"
      using i(7,8) base_same [OF waits(9)] base_same [OF waits(10)] by (simp_all add: base_clocks [OF waits(3)])
    moreover have "acc = [a @ unread_of t0, b @ unread_of t1]" using i(6) ring by (simp add: unread_of_def)
    ultimately have "sess_inv d' wd' acc" unfolding sess_inv_logged waits(2) using waits(5-8) by blast
    then show ?thesis using waits(1) by simp
  next
    case (commits t0 t1 w rs' wd1 c wd2)
    have ring: "so_ring t0 = so_ring s0" "so_ring t1 = so_ring s1" using commits(8,9) by (simp_all add: same_source_def)
    have lg: "logged w wd1 t0 t1" using i(9) logged_clocks [OF commits(1,3) ring] by simp
    have b: "base wd1 t0 a" "base wd1 t1 b"
      using i(7,8) base_same [OF commits(8)] base_same [OF commits(9)] by (simp_all add: base_clocks [OF commits(3)])
    have acc: "acc = [a @ unread_of t0, b @ unread_of t1]" using i(6) ring by (simp add: unread_of_def)
    have same: "wd_refused wd1 = wd_refused wd" "wd_refused wd' = wd_refused wd2" using commits(3,5) by (simp_all add: clocks_only_def)
    have sess: "sess_inv d' wd' acc = sess_inv d' wd2 acc" for d'
      unfolding sess_inv_logged using logged_clocks [OF same_log_refl commits(5) refl refl] base_clocks [OF commits(5)] by simp
    have "sess_inv d' wd' acc" if d': "res = Some d'" "wd_refused wd' = wd_refused wd" for d'
    proof (cases c)
      case None
      then show ?thesis using commits(10) d' by simp
    next
      case (Some y)
      obtain good w' where y: "y = (good, w')" by fastforce
      show ?thesis
      proof (cases good)
        case True
        then have "d_wal d' = w'" "d_srcs d' = [release_source t0, release_source t1]"
          using commits(12) [of w'] Some y d'(1) by auto
        then show ?thesis
          unfolding acc sess [unfolded acc] using commits(2,4,6,7) lg b Some y True by (intro released_sess) auto
      next
        case False
        then have e: "d_wal d' = w'" "d_srcs d' = [restart_source t0, restart_source t1]"
          using commits(11) [of w'] Some y d'(1) by auto
        have "wal_commit w wd1 = (Some (False, w'), wd2)" using commits(4) Some y False by simp
        then show ?thesis
          unfolding acc sess [unfolded acc] using restarted_sess [OF commits(2,6,7) lg b _ e] d'(2) same by simp
      qed
    qed
    moreover have "dead_inv p wd' acc (so_ring s0) (so_ring s1)" if r: "res = None" "w_fd (d_wal d) = Some p" for p
    proof -
      have fd: "w_fd w = Some p" using r(2) commits(1) by (simp add: same_log_def)
      have c: "c = None" using commits(11,12) r(1) by (metis (full_types) option.distinct(1) option.exhaust old.prod.exhaust)
      have buf: "buf_at w rs'" using commits(2) by (simp add: batch_ready_def)
      have op: "w_open_batch w" using commit_closed [of w wd1] commits(4) c by auto
      obtain bs where k: "log_at w wd1 bs" "known (covered wd1) (summary bs) 0 t0" "known (covered wd1) (summary bs) 1 t1"
        using lg fd by (auto simp: logged_def)
      obtain e f where f: "kind_of e = REC_COMMIT" "the_file p wd2 = Some f" "f_entry f"
        "\<exists>bs' \<in> {bs, bs @ [rs' @ [e]]}. recovers (f_data f) bs' \<and> prefix (bytes_of_log (concat bs')) (f_data f)"
        by (rule commit_file [OF k(1) buf op commits(4) fd])
      have mono: "on_disk wd1 h \<Longrightarrow> on_disk wd' h" for h
        using commit_keeps_on_disk [OF logged_live [OF lg] commits(4)] on_disk_clocks [OF commits(5)] by blast
      note cm = covered_mono [OF _ mono]
      have kn: "known (left_of wd' bs') (summary bs') ns ([t0, t1] ! ns)"
        if "bs' \<in> {bs, bs @ [rs' @ [e]]}" "ns < 2" "source_ok ([t0, t1] ! ns)" "base wd1 ([t0, t1] ! ns) a'"
          "known (covered wd1) (summary bs) ns ([t0, t1] ! ns)" for bs' ns a'
        using that(1) known_mono [OF that(5)] known_mono [OF known_batch [OF commits(2) f(1) that(2-5)]] cm
        by (fastforce simp: left_of_def)
      obtain bs' where bs': "bs' \<in> {bs, bs @ [rs' @ [e]]}" "recovers (f_data f) bs'" "prefix (bytes_of_log (concat bs')) (f_data f)"
        using f(4) by blast
      have "known (left_of wd' bs') (summary bs') 0 t0" "known (left_of wd' bs') (summary bs') 1 t1"
        using kn [OF bs'(1), of 0 a] kn [OF bs'(1), of 1 b] commits(6,7) b k(2,3) by simp_all
      moreover have "base wd' t0 a" "base wd' t1 b" using base_mono [OF b(1) mono] base_mono [OF b(2) mono] by blast+
      moreover have "the_file p wd' = Some f" using f(2) clocks_only_file [OF commits(5)] by simp
      ultimately show ?thesis
        unfolding acc ring [symmetric] using dead_invI [OF commits(6,7) _ _ _ f(3) bs'(2,3)] by blast
    qed
    ultimately show ?thesis using i(1) by auto
  qed
qed

section \<open>What a start keeps\<close>

lemma keeps_fail_close: "keeps_secure p X (fail_close fd w)"
  unfolding fail_close_def by (intro keeps_andthen keeps_sys_close keeps_ret)

lemma keeps_cut_back:
  assumes "q = p \<Longrightarrow> length X \<le> sc_committed_len (wal_scan data)"
  shows "keeps_secure q X (cut_back w p data)"
proof -
  have "w_recovered (recovered_wal w p data) = wal_scan data" by (simp add: recovered_wal_def Let_def)
  then show ?thesis
    using assms unfolding cut_back_def Let_def
    by (auto intro!: keeps_if keeps_andthen keeps_ret keeps_fail_close keeps_sys_fsync keeps_sys_ftruncate)
qed

lemma secure_within:
  assumes "secure p (bytes_of_log (concat cs)) wd" and "log_ok cs" and "the_file p wd = Some f"
  shows "length (bytes_of_log (concat cs)) \<le> sc_committed_len (wal_scan (f_data f))"
proof -
  have "prefix (bytes_of_log (concat cs)) (f_data f)" using assms(1,3) by (auto simp: secure_def)
  then obtain junk where "f_data f = bytes_of_log (concat cs) @ junk" by (auto elim: prefixE)
  then obtain ds where "recovers (f_data f) (cs @ ds)" using recovers_prefix [OF assms(2), of junk] by auto
  then have "wal_scan (f_data f) = (summary (cs @ ds))\<lparr>sc_records_lost := sc_records_lost (wal_scan (f_data f))\<rparr>"
    by (simp add: recovers_def)
  from arg_cong [OF this, of sc_committed_len] show ?thesis by (simp add: summary_def Let_def)
qed

lemma recover_secure:
  assumes "the_file (seg_path 256 (w_dir w) first) wd = Some f" and "secure q X wd"
    and "q = seg_path 256 (w_dir w) first \<Longrightarrow> length X \<le> sc_committed_len (wal_scan (f_data f))"
    and "recover_segment w first wd = (Some (True, w1), wd2)"
  shows "secure q X wd2"
proof -
  let ?p = "seg_path 256 (w_dir w) first"
  have same: "wd_files wd' = wd_files v" if "sys_open ?p v = (r, wd')" for r v wd'
    using wpD [OF wp_sys_open [of v "\<lambda>r wd'. wd_files wd' = wd_files v"] that] by simp
  obtain fd wda g1 wdb g2 wdc where o: "sys_open ?p wd = (Some fd, wda)" "sys_ok wda = (Some g1, wdb)" "sys_ok wdb = (Some g2, wdc)"
    and t: "(\<lambda>v. let size0 = (case the_file ?p v of None \<Rightarrow> 0 | Some f \<Rightarrow> length (f_data f))
                 in andthen (read_all ?p size0 []) (\<lambda>r.
                      case r of None \<Rightarrow> fail_close fd w
                      | Some data \<Rightarrow> cut_back w ?p data) v) wdc = (Some (True, w1), wd2)"
    using assms(4) unfolding recover_segment_def Let_def
    by (elim run_andthenE) (auto simp: ret_def fail_close_def split: if_splits elim!: run_andthenE)
  have files: "wd_files wdc = wd_files wd" using same [OF o(1)] run_sys_ok [OF o(2)] run_sys_ok [OF o(3)] by simp
  then have f: "the_file ?p wdc = Some f" using assms(1) by (simp add: the_file_def)
  have "andthen (read_all ?p (length (f_data f)) []) (\<lambda>r. case r of None \<Rightarrow> fail_close fd w | Some data \<Rightarrow> cut_back w ?p data) wdc =
      (Some (True, w1), wd2)" using t by (simp add: f)
  then obtain r wdd where r: "read_all ?p (length (f_data f)) [] wdc = (Some r, wdd)"
    and c: "(case r of None \<Rightarrow> fail_close fd w | Some data \<Rightarrow> cut_back w ?p data) wdd = (Some (True, w1), wd2)"
    by (rule run_andthenE)
  have rd: "wd_files wdd = wd_files wdc" "\<And>d. r = Some d \<Longrightarrow> d = f_data f"
    using wpD [OF read_all_wp [OF f, of "[]"] r] by auto
  have s: "secure q X wdd" using assms(2) secure_same [of wdd wd q X] files rd(1) by simp
  have "keeps_secure q X (case r of None \<Rightarrow> fail_close fd w | Some data \<Rightarrow> cut_back w ?p data)"
    using keeps_fail_close keeps_cut_back [of q ?p X "f_data f"] assms(3) rd(2) by (auto split: option.splits)
  then show ?thesis using s c unfolding keeps_secure_def by (metis snd_conv)
qed

lemma one_record_added:
  assumes "buf_at w []" and "\<not> w_open_batch w" and "unat n = length body" and "length body \<le> REC_MAX_BODY"
    and "kind \<noteq> REC_BEGIN" and "kind \<noteq> REC_COMMIT" and "wal_add w kind src mt wt body n wd = (Some (True, w1), wd1)"
  shows "clocks_only wd wd1" and "same_log w w1"
proof -
  have room: "room_for w n" using assms(1-4) by (auto simp: room_for_def buf_at_def)
  obtain m0 w0 n0 wd3 where c: "clocks_only wd wd3"
    and add: "wal_add w kind src mt wt body n wd = (Some (add_rec (begun w m0 w0 n0) kind src mt wt body), wd3)"
    using wal_add_closed [OF assms(2,1) room, of body wd kind src mt wt] assms(3) by auto
  have ar: "add_rec (begun w m0 w0 n0) kind src mt wt body = (True, w1)" and "clocks_only wd wd1" using assms(7) add c by auto
  then show "clocks_only wd wd1" by simp
  have "same_log (begun w m0 w0 n0) w1" using add_rec_spec [OF begun_buf_at [OF assms(1)] _ assms(5,6) _ ar] by simp
  then show "same_log w w1" using same_log_trans [OF begun_props(1)] by blast
qed

lemma open_boot_secure:
  assumes "buf_at w []" and "\<not> w_open_batch w" and "w_fd w = Some p" and "has_data p wd D" and "unat (w_seg_bytes w) = length D"
    and "open_boot w src wd = (Some (True, w'), wd')" and "secure q X wd"
  shows "secure q X wd'"
proof -
  have len: "unat (12 :: u16) = length (bytes_of_boot (boot_record w))" "length (bytes_of_boot (boot_record w)) \<le> REC_MAX_BODY"
    by (simp_all add: bytes_of_boot_def)
  obtain mt wt wd2 where c: "clocks_only wd wd2"
    and r: "andthen (wal_add w REC_BOOT src mt wt (bytes_of_boot (boot_record w)) 12) (\<lambda>(added, w1).
         andthen (if added then wal_commit w1 else ret (False, w1)) (\<lambda>(good, w2).
           if good then ret (True, w2)
           else andthen (if w_fd w2 = None then ret True else sys_close (w_fd w2))
                  (\<lambda>_. ret (False, w2\<lparr>w_fd := None\<rparr>)))) wd2 = (Some (True, w'), wd')"
    using assms(6) unfolding open_boot_def by (rule run_clocks)
  obtain w1 wd3 where a: "wal_add w REC_BOOT src mt wt (bytes_of_boot (boot_record w)) 12 wd2 = (Some (True, w1), wd3)"
    and cm: "wal_commit w1 wd3 = (Some (True, w'), wd')"
    using r by (elim run_andthenE) (auto elim!: run_andthenE simp: ret_def split: if_splits)
  note s = one_record_added [OF assms(1,2) len _ _ a]
  have "length X \<le> length D" if "q = p" using assms(4,7) that by (auto simp: has_data_def secure_def prefix_length_le)
  then have "keeps_secure q X (wal_commit w1)"
    using s assms(3,5) by (intro keeps_wal_commit) (auto simp: same_log_def)
  moreover have "secure q X wd3" using assms(7) secure_clocks [OF c] secure_clocks [OF s(1)] by simp
  ultimately show ?thesis using cm unfolding keeps_secure_def by (metis snd_conv)
qed

lemma wal_open_on_disk:
  assumes "length dir < 200" and "SRC_IS_VALID src" and "segments_ok dir wd" and "wal_open dir src flags wd = (Some (True, w'), wd')"
    and "on_disk wd h"
  shows "on_disk wd' h"
proof -
  obtain q cs where h: "log_ok cs" "h \<in> set cs" "secure q (bytes_of_log (concat cs)) wd" using assms(5) by (auto simp: on_disk_def)
  let ?X = "bytes_of_log (concat cs)" and ?base = "wal_zero\<lparr>w_src := src, w_flags := flags, w_dir := dir\<rparr>"
  have "secure q ?X wd'"
  proof (cases "newest_of None (dir_entries dir wd)")
    case (Some first)
    let ?p = "seg_path 256 dir first"
    obtain f where f: "the_file ?p wd = Some f" "f_entry f" "length (f_data f) < 2 ^ 63" using assms(3) Some by (auto simp: segments_ok_def)
    obtain w1 wd1 wd2 where r: "wd_files wd1 = wd_files wd" "recover_segment ?base first wd1 = (Some (True, w1), wd2)"
      "open_boot (resume w1 first) src wd2 = (Some (True, w'), wd')" by (rule wal_open_found [OF assms(1) Some assms(4)])
    have f1: "the_file ?p wd1 = Some f" using f(1) r(1) by (simp add: the_file_def)
    have s1: "secure q ?X wd1" using h(3) secure_same [OF r(1)] by simp
    have w1: "w1 = recovered_wal ?base ?p (f_data f)" and hd: "has_data ?p wd2 (take (sc_committed_len (wal_scan (f_data f))) (f_data f))"
      using wpD [OF wp_recover_segment [of ?base first ?p wd1 f] r(2)] f1 f(2) by simp_all
    have s2: "secure q ?X wd2"
      by (rule recover_secure [OF _ s1 _ r(2)]) (use f1 secure_within [OF _ h(1) f1] s1 in auto)
    have keep: "sc_committed_len (wal_scan (f_data f)) \<le> length (f_data f)" using wal_scan_bytes [of "f_data f"] by metis
    show ?thesis
      by (rule open_boot_secure [OF _ _ _ hd _ r(3) s2])
        (use assms(1,2) f(3) keep in \<open>simp_all add: w1 recovered_wal_def resume_def Let_def wal_zero_def buf_at_def unat_of_nat_u64\<close>)
  next
    case None
    let ?w = "?base\<lparr>w_prev_end := REC_PREV_FIRST, w_next_seq := 0, w_next_txn := 1, w_boot_id := 1\<rparr>"
    obtain wd1 where f1: "wd_files wd1 = wd_files wd" and o: "open_segment ?base src (Inr None) wd1 = (Some (True, w'), wd')"
      by (rule wal_open_segment [OF assms(1,4), unfolded None])
    obtain w1 wd2 where c: "create_segment ?w 0 wd1 = (Some (True, w1), wd2)" "open_boot w1 src wd2 = (Some (True, w'), wd')"
      using o unfolding open_segment_def sum.case option.case by (elim run_andthenE) (auto simp: ret_def split: if_splits)
    have "wp (create_segment ?w 0) (\<lambda>r wd'. \<forall>v. r = Some (True, v) \<longrightarrow>
        (\<exists>p. file_is p wd' [] [] 0 \<and> v = ?w\<lparr>w_fd := Some p, w_seg_bytes := 0\<rparr>)) wd1"
      by (rule wp_create_segment) (use assms(1) in auto)
    from wpD [OF this c(1)] obtain p where p: "file_is p wd2 [] [] 0" "w1 = ?w\<lparr>w_fd := Some p, w_seg_bytes := 0\<rparr>" by blast
    have s2: "secure q ?X wd2"
      using keeps_create_segment h(3) secure_same [OF f1] c(1) unfolding keeps_secure_def by (metis snd_conv)
    have hd: "has_data p wd2 []" using p(1) by (auto simp: has_data_def file_is_def)
    show ?thesis
      by (rule open_boot_secure [OF _ _ _ hd _ c(2) s2]) (use assms(2) in \<open>simp_all add: p(2) wal_zero_def buf_at_def\<close>)
  qed
  then show ?thesis using h(1,2) by (auto simp: on_disk_def)
qed

section \<open>Starting again\<close>

lemma boot_batch_notes:
  assumes "log_ok (bs @ [[r0, r1, r2]])" and "kind_of r1 = REC_BOOT"
  shows "notes_from (summary bs) (summary (bs @ [[r0, r1, r2]]))"
proof (rule notes_from_snoc)
  have "kind_of r0 = REC_BEGIN" "kind_of r2 = REC_COMMIT" using assms(1) by (simp_all add: is_batch_def open_part_def)
  then show "foldl seq_upd m [r0, r1, r2] = m \<and> foldl has_upd h [r0, r1, r2] = h" for m h
    using assms(2) by (simp add: upd_other)
qed

lemma wal_open_notes:
  assumes "length dir < 200" and "SRC_IS_VALID src" and "segments_ok dir wd" and "wal_open dir src flags wd = (Some (True, w'), wd')"
  shows "\<exists>bs. log_at w' wd' bs \<and> notes_from (found_in dir wd) (summary bs)"
proof (cases "newest_of None (dir_entries dir wd)")
  case (Some first)
  then obtain f where f: "the_file (seg_path 256 dir first) wd = Some f" "f_entry f" "length (f_data f) < 2 ^ 63"
    using assms(3) by (auto simp: segments_ok_def)
  obtain bs r0 r1 r2 where b: "recovers (f_data f) bs" "log_ok (bs @ [[r0, r1, r2]])" "kind_of r1 = REC_BOOT"
    "log_at w' wd' (bs @ [[r0, r1, r2]]) \<or> log_at w' wd' []"
    using wal_open_recovered [OF assms(1,2) Some f assms(4)] log_grownD unfolding Let_def by blast
  have "wal_scan (f_data f) = (summary bs)\<lparr>sc_records_lost := sc_records_lost (wal_scan (f_data f))\<rparr>"
    using b(1) by (simp add: recovers_def)
  then have "notes_from (wal_scan (f_data f)) sc = notes_from (summary bs) sc" for sc by (metis notes_from_lost)
  then show ?thesis using b(4) boot_batch_notes [OF b(2,3)] notes_from_empty Some f(1) by (auto simp: found_in_def)
next
  case None
  let ?base = "wal_zero\<lparr>w_src := src, w_flags := flags, w_dir := dir\<rparr>"
  let ?w = "?base\<lparr>w_prev_end := REC_PREV_FIRST, w_next_seq := 0, w_next_txn := 1, w_boot_id := 1\<rparr>"
  obtain wd1 where o: "open_segment ?base src (Inr None) wd1 = (Some (True, w'), wd')"
    by (rule wal_open_segment [OF assms(1,4), unfolded None])
  obtain w1 wd2 where c: "create_segment ?w 0 wd1 = (Some (True, w1), wd2)" "open_boot w1 src wd2 = (Some (True, w'), wd')"
    using o unfolding open_segment_def sum.case option.case by (elim run_andthenE) (auto simp: ret_def split: if_splits)
  have "wp (create_segment ?w 0) (\<lambda>r wd'. \<forall>v. r = Some (True, v) \<longrightarrow>
      (\<exists>p. file_is p wd' [] [] 0 \<and> v = ?w\<lparr>w_fd := Some p, w_seg_bytes := 0\<rparr>)) wd1"
    by (rule wp_create_segment) (use assms(1) in auto)
  from wpD [OF this c(1)] obtain p where p: "file_is p wd2 [] [] 0" "w1 = ?w\<lparr>w_fd := Some p, w_seg_bytes := 0\<rparr>" by blast
  have w1: "buf_at w1 []" "\<not> w_open_batch w1" "w_fd w1 = Some p" "length (w_dir w1) < 200" "unat (w_seg_bytes w1) = length ([] :: bytes)"
    using assms(1,2) by (simp_all add: p(2) wal_zero_def buf_at_def)
  have hd: "has_data p wd2 []" using p(1) by (auto simp: has_data_def file_is_def)
  obtain r0 r1 r2 where b: "log_ok ([] @ [[r0, r1, r2]])" "kind_of r1 = REC_BOOT" "log_grown w' wd' ([] @ [[r0, r1, r2]])"
    using open_boot_True [OF w1(1-4) hd w1(5) _ _ _ c(2), of "[]"] unfolding Let_def by force
  have "notes_from (summary []) (summary bs) \<Longrightarrow> notes_from (found_in dir wd) (summary bs)" for bs
    using None by (auto simp: notes_from_def found_in_def summary_def Let_def less_2_cases_iff)
  then show ?thesis using log_grownD [OF b(3)] boot_batch_notes [OF b(1,2)] notes_from_empty by blast
qed

lemma start_sources_notes:
  assumes "log_at w wd bs" and "buf_at w []" and "start_sources ns ss w wd = (Some (True, ss', w'), wd')"
    and "ns + length ss \<le> WAL_NAMESPACES"
  shows "(\<exists>bs'. log_at w' wd' bs' \<and> notes_from (summary bs) (summary bs')) \<and> (\<forall>h. on_disk wd h \<longrightarrow> on_disk wd' h)"
  using assms
proof (induction ss arbitrary: ns w wd bs ss')
  case Nil
  then show ?case using notes_from_refl by (auto simp: ret_def)
next
  case (Cons s ss)
  show ?case
  proof (cases "so_ring s")
    case None
    obtain ss1 where r: "start_sources (Suc ns) ss w wd = (Some (True, ss1, w'), wd')"
      using Cons.prems(3) None by (auto simp: ret_def elim!: run_andthenE)
    then show ?thesis using Cons.IH [OF Cons.prems(1,2) r] Cons.prems(4) by simp
  next
    case (Some r)
    obtain gd w1 wd1 w2 wd2 ss1 where r: "note_generation w (of_nat ns) r wd = (Some (gd, w1), wd1)"
      "wal_commit w1 wd1 = (Some (True, w2), wd2)"
      "start_sources (Suc ns) ss w2 wd2 = (Some (True, ss1, w'), wd')"
      using Cons.prems(3) Some unfolding start_sources.simps Let_def
      by (auto simp: ret_def elim!: run_andthenE split: if_splits)
    obtain rs where n: "clocks_only wd wd1" "log_at w1 wd1 bs" "w_open_batch w1" "buf_at w1 rs"
      "\<And>m h. foldl seq_upd m rs = m \<and> foldl has_upd h rs = h"
      using generation_noted [OF Cons.prems(1,2) r(1)] Cons.prems(4) by auto
    obtain p old where l: "w_fd w1 = Some p" "log_ok bs" "length (w_dir w1) < 200"
      "file_is p wd1 (bytes_of_log (concat bs)) old (length (bytes_of_log (concat bs)))"
      "unat (w_seg_bytes w1) = length (bytes_of_log (concat bs))" "length (bytes_of_log (concat bs)) < WAL_SEGMENT_BYTES"
      by (rule log_atD [OF n(2)])
    have "length (bytes_of_log (concat bs)) < 2 ^ 63" using l(6) by simp
    from commit_true [OF n(4,3) l(1,3,4,5) refl l(2) this r(2)] obtain c where
      c: "log_ok (bs @ [rs @ [c]])" "buf_at w2 []" "log_at w2 wd2 (bs @ [rs @ [c]]) \<or> log_at w2 wd2 []"
      using log_grownD by blast
    have "kind_of c = REC_COMMIT" using c(1) by (simp add: is_batch_def)
    then have "notes_from (summary bs) (summary (bs @ [rs @ [c]]))" using n(5) by (intro notes_from_snoc) (simp add: upd_other)
    then obtain bs1 where b1: "log_at w2 wd2 bs1" "notes_from (summary bs) (summary bs1)" using c(3) notes_from_empty by blast
    have mono: "on_disk wd h \<Longrightarrow> on_disk wd2 h" for h
      using commit_keeps_on_disk [OF _ r(2)] n(2) on_disk_clocks [OF n(1)] by (auto simp: log_live_def)
    show ?thesis
      using Cons.IH [OF b1(1) c(2) r(3)] Cons.prems(4) notes_from_trans [OF b1(2)] mono by auto
  qed
qed

text \<open>A start on rings of which the log that it finds tells the truth.\<close>

lemma started_base:
  assumes "source_ok (source_of n r)" and "base wd (source_of n r) a" and "known (covered wd) sc ns (source_of n r)"
  shows "base wd (started_as sc ns (source_of n r)) a"
    and "unread_of (started_as sc ns (source_of n r)) = unread_of (source_of n r)"
    and "so_ring (started_as sc ns (source_of n r)) = r"
  using assms(2,3)
  by (auto simp: base_def known_def started_as_def source_of_def set_skip_def unread_of_def split: option.splits)

lemma start_sess:
  assumes "storaged_args argv (''/var/lib/carwatch/log'', SRC_LIVE) = Some (dir, src)" and "length dir < 200" and "segments_ok dir wd"
    and "storaged_start ring_at argv wd = (Some (Some d), wd')"
    and "ring_at ''/carwatch-obd'' = r0" and "ring_at ''/carwatch-probe'' = r1"
    and "source_ok (obd_source r0)" and "source_ok (probe_source r1)"
    and "base wd' (obd_source r0) a" and "base wd' (probe_source r1) b"
    and "known (covered wd') (found_in dir wd) 0 (obd_source r0)" and "known (covered wd') (found_in dir wd) 1 (probe_source r1)"
  shows "sess_inv d wd' [a @ unread_of (obd_source r0), b @ unread_of (probe_source r1)]"
proof -
  let ?s0 = "started_as (found_in dir wd) 0 (obd_source r0)" and ?s1 = "started_as (found_in dir wd) 1 (probe_source r1)"
  obtain w wd2 wd3 wd4 where s: "SRC_IS_VALID src" "wd_files wd2 = wd_files wd" "wal_open dir src 0 wd2 = (Some (True, w), wd3)"
    "start_sources 0 [obd_source r0, probe_source r1] w wd3 = (Some (True, d_srcs d, d_wal d), wd4)" "clocks_only wd4 wd'"
    by (rule storaged_start_steps [OF assms(1,4), unfolded assms(5,6)])
  note ff = found_in_files [OF s(2)]
  obtain bs where bs: "log_at w wd3 bs" "notes_from (found_in dir wd) (summary bs)"
    using wal_open_notes [OF assms(2) s(1) _ s(3)] assms(3) by (auto simp: ff)
  note o = wal_open_ready [OF assms(2) s(1) _ s(3), unfolded ff, OF assms(3)]
  obtain bs' where bs': "log_at (d_wal d) wd4 bs'" "notes_from (summary bs) (summary bs')"
    using start_sources_notes [OF bs(1) o(2) s(4)] by auto
  note st = start_sources_ok [OF bs(1) o(2) s(4), unfolded o(3)]
  have srcs: "d_srcs d = [?s0, ?s1]" and buf: "buf_at (d_wal d) []" using st by (simp_all add: upt_rec)
  note b0 = started_base [OF assms(7,9,11)] and b1 = started_base [OF assms(8,10,12)]
  have "ring_inv q" if "r0 = Some q \<or> r1 = Some q" for q using that assms(7,8) by (auto simp: source_ok_def source_of_def)
  then have ok: "source_ok ?s0" "source_ok ?s1" "so_taken ?s0 = 0" "so_taken ?s1 = 0" by (auto intro!: source_of_ok)
  have "log_at (d_wal d) wd' bs'" using bs'(1) same_log_at [OF same_log_refl s(5)] by simp
  moreover have "known (covered wd') (summary bs') 0 ?s0" "known (covered wd') (summary bs') 1 ?s1"
    using known_notes [OF assms(11) notes_from_trans [OF bs(2) bs'(2)]] known_notes [OF assms(12) notes_from_trans [OF bs(2) bs'(2)]]
      known_same [of ?s0 "obd_source r0"] known_same [of ?s1 "probe_source r1"] b0(3) b1(3) by (simp_all add: source_of_def)
  moreover have "holds [] ?s0 ?s1" using ok(3,4) by (simp add: holds_def taken_of_def)
  ultimately show ?thesis
    unfolding sess_inv_def srcs using ok(1,2) loose_empty [OF buf] b0(1,2) b1(1,2) by metis
qed

lemma start_on_disk:
  assumes "storaged_args argv (''/var/lib/carwatch/log'', SRC_LIVE) = Some (dir, src)" and "length dir < 200" and "segments_ok dir wd"
    and "storaged_start ring_at argv wd = (Some (Some d), wd')"
  shows "on_disk wd h \<Longrightarrow> on_disk wd' h"
    and "newest_of None (dir_entries dir wd) = Some first \<Longrightarrow> the_file (seg_path 256 dir first) wd = Some f \<Longrightarrow>
      recovers (f_data f) bs \<Longrightarrow> prefix (bytes_of_log (concat bs)) (f_data f) \<Longrightarrow> b \<in> set bs \<Longrightarrow> on_disk wd' b"
proof -
  obtain w wd2 wd3 wd4 where s: "SRC_IS_VALID src" "wd_files wd2 = wd_files wd" "wal_open dir src 0 wd2 = (Some (True, w), wd3)"
    "start_sources 0 [obd_source (ring_at ''/carwatch-obd''), probe_source (ring_at ''/carwatch-probe'')] w wd3 =
       (Some (True, d_srcs d, d_wal d), wd4)" "clocks_only wd4 wd'"
    by (rule storaged_start_steps [OF assms(1,4)])
  note ff = found_in_files [OF s(2)]
  have seg: "segments_ok dir wd2" using assms(3) ff(1) by simp
  note o = wal_open_ready [OF assms(2) s(1) seg s(3)]
  obtain bs0 where bs0: "log_at w wd3 bs0" using o(1) by blast
  have later: "on_disk wd3 h \<Longrightarrow> on_disk wd' h" for h
    using start_sources_notes [OF bs0 o(2) s(4)] on_disk_clocks [OF s(5)] by simp
  have "on_disk wd2 h = on_disk wd h" for h unfolding on_disk_def using secure_same [OF s(2)] by simp
  then show "on_disk wd h \<Longrightarrow> on_disk wd' h" using wal_open_on_disk [OF assms(2) s(1) seg s(3)] later by blast
  assume n: "newest_of None (dir_entries dir wd) = Some first" "the_file (seg_path 256 dir first) wd = Some f"
    and r: "recovers (f_data f) bs" "prefix (bytes_of_log (concat bs)) (f_data f)" "b \<in> set bs"
  have f: "the_file (seg_path 256 dir first) wd2 = Some f" "f_entry f" "length (f_data f) < 2 ^ 63"
    "newest_of None (dir_entries dir wd2) = Some first"
    using n assms(3) ff(3,4) by (auto simp: segments_ok_def)
  have "sc_committed_len (wal_scan (f_data f)) = length (bytes_of_log (concat bs))"
    using arg_cong [OF conjunct2 [OF iffD1 [OF recovers_def r(1)]], of sc_committed_len] by (simp add: summary_def Let_def)
  then have "take (sc_committed_len (wal_scan (f_data f))) (f_data f) = bytes_of_log (concat bs)"
    using r(2) by (auto simp: prefix_def)
  from wal_open_batches [OF assms(2) s(1) f(4,1,2,3) _ r(1) this s(3)] r(1)
  obtain b' where "log_ok (bs @ [b'])" "file_is (seg_path 256 dir first) wd3 (bytes_of_log (concat (bs @ [b']))) []
      (length (bytes_of_log (concat (bs @ [b']))))"
    unfolding Let_def recovers_def by metis
  then have "on_disk wd3 b" using on_disk_file r(3) by (metis UnCI set_append)
  then show "on_disk wd' b" by (rule later)
qed

lemma restart_sess:
  assumes "dead_inv p wd acc r0 r1" and "wd_files wd1 = wd_files wd"
    and "storaged_args argv (''/var/lib/carwatch/log'', SRC_LIVE) = Some (dir, src)" and "length dir < 200" and "segments_ok dir wd1"
    and "newest_of None (dir_entries dir wd1) = Some first"
    and "seg_path 256 dir first = p \<or> (\<exists>f. the_file (seg_path 256 dir first) wd1 = Some f \<and> f_data f = [])"
    and "ring_at ''/carwatch-obd'' = r0" and "ring_at ''/carwatch-probe'' = r1"
    and "storaged_start ring_at argv wd1 = (Some (Some d), wd')"
  shows "sess_inv d wd' acc"
proof -
  obtain a b f bs where i: "source_ok (obd_source r0)" "source_ok (probe_source r1)"
    "acc = [a @ unread_of (obd_source r0), b @ unread_of (probe_source r1)]" "base wd (obd_source r0) a" "base wd (probe_source r1) b"
    "the_file p wd = Some f" "recovers (f_data f) bs" "prefix (bytes_of_log (concat bs)) (f_data f)"
    "known (left_of wd bs) (summary bs) 0 (obd_source r0)" "known (left_of wd bs) (summary bs) 1 (probe_source r1)"
    using assms(1) unfolding dead_inv_def by blast
  note od = start_on_disk [OF assms(3-5,10)]
  have same: "on_disk wd1 h = on_disk wd h" for h unfolding on_disk_def using secure_same [OF assms(2)] by simp
  have mono: "on_disk wd h \<Longrightarrow> on_disk wd' h" for h using od(1) same by blast
  obtain g where g: "the_file (seg_path 256 dir first) wd1 = Some g" using assms(5,6) by (auto simp: segments_ok_def)
  have found: "found_in dir wd1 = wal_scan (f_data g)" using assms(6) g by (simp add: found_in_def)
  have "known (covered wd') (found_in dir wd1) 0 (obd_source r0) \<and> known (covered wd') (found_in dir wd1) 1 (probe_source r1)"
  proof (cases "seg_path 256 dir first = p")
    case True
    then have gf: "g = f" using g i(6) assms(2) by (simp add: the_file_def)
    have "covered wd' x" if "left_of wd bs x" for x
    proof -
      have "covered wd x \<or> (\<exists>h \<in> set bs. slot_key x \<in> set (sample_keys h))" using that by (auto simp: left_of_def)
      then consider "covered wd x" | h where "h \<in> set bs" "slot_key x \<in> set (sample_keys h)" by blast
      then show ?thesis
      proof cases
        case 1
        then show ?thesis using covered_mono mono by blast
      next
        case (2 h)
        then have "on_disk wd' h" using od(2) [OF assms(6) g] i(7,8) gf by blast
        then show ?thesis using 2(2) unfolding covered_def by blast
      qed
    qed
    then have "known (covered wd') (summary bs) 0 (obd_source r0)" "known (covered wd') (summary bs) 1 (probe_source r1)"
      using known_mono i(9,10) by blast+
    moreover have "notes_from (summary bs) (wal_scan (f_data f))"
    proof -
      have "wal_scan (f_data f) = (summary bs)\<lparr>sc_records_lost := sc_records_lost (wal_scan (f_data f))\<rparr>"
        using i(7) by (simp add: recovers_def)
      then show ?thesis using notes_from_refl notes_from_lost by (metis (no_types))
    qed
    ultimately show ?thesis unfolding found gf by (auto intro: known_notes)
  next
    case False
    then have "f_data g = []" using assms(7) g by auto
    then have "found_in dir wd1 = summary []" using wal_scan_log [of "[]"] found by simp
    then show ?thesis by (simp add: known_def summary_def Let_def)
  qed
  then show ?thesis
    unfolding i(3)
    using start_sess [OF assms(3-5,10,8,9) i(1,2)] base_mono [OF i(4) mono] base_mono [OF i(5) mono] by blast
qed

lemma first_sess:
  assumes "storaged_args argv (''/var/lib/carwatch/log'', SRC_LIVE) = Some (dir, src)" and "length dir < 200" and "segments_ok dir wd"
    and "\<forall>ns < WAL_NAMESPACES. \<not> sc_has_ring_seq (found_in dir wd) ! ns"
    and "\<forall>name q. ring_at name = Some q \<longrightarrow> ring_inv q \<and> nowrap q"
    and "storaged_start ring_at argv wd = (Some (Some d), wd')"
  shows "sess_inv d wd' (map unread_of (d_srcs d))"
proof -
  let ?r0 = "ring_at ''/carwatch-obd''" and ?r1 = "ring_at ''/carwatch-probe''"
  have ok: "source_ok (source_of n (ring_at n))" "base wd' (source_of n (ring_at n)) []" for n
    using assms(5) by (auto simp: source_ok_def base_def source_of_def taken_of_def unread_of_def)
  have k: "known (covered wd') (found_in dir wd) 0 (obd_source ?r0)" "known (covered wd') (found_in dir wd) 1 (probe_source ?r1)"
    using assms(4) by (simp_all add: known_def)
  have "ring_inv q" if "ring_at name = Some q" for name q using assms(5) that by blast
  from storaged_start_fresh [OF this assms(1-3,6)]
  have "map unread_of (d_srcs d) = [unread_of (obd_source ?r0), unread_of (probe_source ?r1)]"
    using started_base(2) [OF ok k(1)] started_base(2) [OF ok k(2)] by simp
  then show ?thesis using start_sess [OF assms(1-3,6) refl refl ok(1) ok(1) ok(2) ok(2) k] by simp
qed

section \<open>A kill after a reboot\<close>

text \<open>A start that found the ring of the OBD source and no other leaves a log that notes the generation of that ring, or
  an empty new segment.\<close>

lemma start_notes_generation:
  assumes "storaged_args argv (''/var/lib/carwatch/log'', SRC_LIVE) = Some (dir, src)" and "length dir < 200" and "segments_ok dir wd"
    and "storaged_start ring_at argv wd = (Some (Some d), wd')"
    and "ring_at ''/carwatch-obd'' = Some r" and "ring_at ''/carwatch-probe'' = None"
  shows "\<exists>bs. log_at (d_wal d) wd' bs \<and> notes_from (found_in dir wd) (summary bs) \<and>
    (bs = [] \<or> sc_ring_gen (summary bs) ! 0 = r_generation r)"
proof -
  obtain w wd2 wd3 wd4 where s: "SRC_IS_VALID src" "wd_files wd2 = wd_files wd" "wal_open dir src 0 wd2 = (Some (True, w), wd3)"
    "start_sources 0 [obd_source (Some r), probe_source None] w wd3 = (Some (True, d_srcs d, d_wal d), wd4)" "clocks_only wd4 wd'"
    by (rule storaged_start_steps [OF assms(1,4), unfolded assms(5,6)])
  note ff = found_in_files [OF s(2)]
  obtain bs where bs: "log_at w wd3 bs" "notes_from (found_in dir wd) (summary bs)"
    using wal_open_notes [OF assms(2) s(1) _ s(3)] assms(3) by (auto simp: ff)
  note o = wal_open_ready [OF assms(2) s(1) _ s(3), unfolded ff, OF assms(3)]
  obtain gd w1 wd5 where r: "note_generation w (of_nat 0) r wd3 = (Some (gd, w1), wd5)"
    "wal_commit w1 wd5 = (Some (True, d_wal d), wd4)"
    using s(4) by (auto simp: source_of_def ret_def Let_def elim!: run_andthenE split: if_splits)
  obtain rs where n: "log_at w1 wd5 bs" "w_open_batch w1" "buf_at w1 rs"
    "\<And>m h. foldl seq_upd m rs = m \<and> foldl has_upd h rs = h \<and> foldl gen_upd m rs = m[0 := r_generation r]"
    using generation_noted [OF bs(1) o(2) r(1)] by auto
  obtain p old where l: "w_fd w1 = Some p" "log_ok bs" "length (w_dir w1) < 200"
    "file_is p wd5 (bytes_of_log (concat bs)) old (length (bytes_of_log (concat bs)))"
    "unat (w_seg_bytes w1) = length (bytes_of_log (concat bs))" "length (bytes_of_log (concat bs)) < WAL_SEGMENT_BYTES"
    by (rule log_atD [OF n(1)])
  have "length (bytes_of_log (concat bs)) < 2 ^ 63" using l(6) by simp
  from commit_true [OF n(3,2) l(1,3,4,5) refl l(2) this r(2)] obtain c where
    c: "log_ok (bs @ [rs @ [c]])" "log_at (d_wal d) wd4 (bs @ [rs @ [c]]) \<or> log_at (d_wal d) wd4 []" using log_grownD by blast
  have com: "kind_of c = REC_COMMIT" using c(1) by (simp add: is_batch_def)
  have "notes_from (summary bs) (summary (bs @ [rs @ [c]]))" using n(4) com by (intro notes_from_snoc) (simp add: upd_other)
  then have "notes_from (found_in dir wd) (summary (bs @ [rs @ [c]]))" using bs(2) notes_from_trans by blast
  moreover have "length (foldl gen_upd m xs) = length m" for m xs
    by (induction xs arbitrary: m) (simp_all add: upd_defs split: option.splits prod.splits)
  then have "sc_ring_gen (summary (bs @ [rs @ [c]])) ! 0 = r_generation r"
    using com n(4) by (simp add: summary_def Let_def upd_other)
  ultimately show ?thesis using c(2) same_log_at [OF same_log_refl s(5)] notes_from_empty by blast
qed

text \<open>A turn that finds only slots to be skipped releases them all and writes nothing.\<close>

lemma drain_skips:
  assumes "ring_inv r" and "\<forall>x \<in> set (unread r). skips s x" and "w_batch_samples w < WAL_BATCH_SAMPLES"
    and "unat (so_taken s) \<le> length (unread r)"
  shows "\<exists>s'. drain r w s n wd = (Some (n, w, s'), wd) \<and> so_ring s' = so_ring s \<and> so_added s' = so_added s \<and>
    unat (so_taken s') = length (unread r)"
  using assms
proof (induction r w s n wd rule: drain.induct)
  case (1 r w s n wd)
  show ?case
  proof (cases "unat (so_taken s) < length (unread r)")
    case False
    then have "ring_peek r (so_taken s) = None" using rq.peek_unread [OF 1(3), of "so_taken s"] by simp
    then show ?thesis using 1(5,6) False by (simp add: drain.simps [of r w])
  next
    case True
    let ?x = "unread r ! unat (so_taken s)"
    let ?s1 = "s\<lparr>so_taken := so_taken s + 1, so_last_seq := sl_seq ?x\<rparr>"
    have peek: "ring_peek r (so_taken s) = Some ?x" using True rq.peek_unread [OF 1(3), of "so_taken s"] by simp
    have a1: "unat (so_taken s + 1) = Suc (unat (so_taken s))" using unat_Suc_below [OF peek_bound [OF peek]] .
    have skip: "skips s ?x" using bspec [OF 1(4) nth_mem [OF True]] .
    have "drain r w s n wd = drain r w ?s1 n wd" using skip 1(5) by (simp add: drain.simps [of r w s] peek)
    moreover have "\<exists>s'. drain r w ?s1 n wd = (Some (n, w, s'), wd) \<and> so_ring s' = so_ring ?s1 \<and> so_added s' = so_added ?s1 \<and>
      unat (so_taken s') = length (unread r)"
      by (rule 1(1) [OF 1(5) peek refl skip 1(3) _ 1(5)]) (use 1(4) a1 True in simp_all)
    ultimately show ?thesis by simp
  qed
qed

lemma skipped_turn:
  assumes "d_srcs d = [s0, s1]" and "so_ring s0 = Some r" and "ring_inv r" and "unread r \<noteq> []" and "so_taken s0 = 0"
    and "\<not> so_added s0" and "kept s0 (unread r) = []" and "so_ring s1 = None" and "\<not> so_added s1" and "buf_at (d_wal d) []"
  shows "\<exists>d' wd'. turn d wd = (Some d', wd') \<and> wd_files wd' = wd_files wd \<and> unread_of (d_srcs d' ! 0) = []"
proof -
  let ?w = "d_wal d"
  have w: "\<not> w_open_batch ?w" "w_batch_samples ?w < WAL_BATCH_SAMPLES"
    using assms(10) batch_samples_count(2) [OF loose_empty [OF assms(10)]] by (auto simp: buf_at_def open_part_def n_samples_def)
  have sk: "\<forall>x \<in> set (unread r). skips s0 x" using assms(7) by (simp add: kept_def filter_empty_conv)
  obtain t0 where t: "drain r ?w s0 0 wd = (Some (0, ?w, t0), wd)" "so_ring t0 = Some r" "\<not> so_added t0" "unat (so_taken t0) = length (unread r)"
    using drain_skips [OF assms(3) sk w(2), of 0 wd] assms(2,5,6) by auto
  have pos: "so_taken t0 > 0"
    using t(4) assms(4) unfolding word_gt_0 by (metis length_0_conv unsigned_0)
  have d: "drain_all [s0, s1] ?w wd = (Some (0, [t0, s1], ?w), wd)"
    using t(1) assms(2,8) by (simp add: andthen_def ret_def)
  have nt: "note_all 0 [t0, s1] ?w = ret (True, ?w)"
    using t(3) assms(9) by (simp add: fun_eq_iff andthen_def ret_def)
  obtain now wd1 where c: "wal_now_mono wd = (Some now, wd1)" "clocks_only wd wd1" using clock_reads(1) by blast
  obtain d' wd2 where e: "end_turn 0 [release_source t0, release_source s1] ?w d wd1 = (Some d', wd2)"
    "d_srcs d' = [release_source t0, release_source s1]" "clocks_only wd1 wd2" using end_turn_run by blast
  have due: "wal_due ?w now \<or> ((\<exists>s \<in> set [t0, s1]. so_taken s > 0) \<and> \<not> w_open_batch ?w)" using pos w(1) by simp
  have cm: "andthen (if True then wal_commit ?w else ret (False, ?w)) f wd1 = f (True, ?w) wd1" for f :: "bool \<times> wal \<Rightarrow> daemon io"
    using commit_closed [OF w(1), of wd1] by (simp add: andthen_def)
  have "turn d wd = (Some d', wd2)"
    unfolding turn_def assms(1) andthen_Some [of "drain_all [s0, s1] ?w" wd, OF d] prod.case
      andthen_Some [of wal_now_mono wd, OF c(1)] if_P [OF due] nt
    unfolding andthen_Some [of "ret (True, ?w)" wd1, OF ret_def] prod.case cm
    using e(1) by simp
  moreover have "unread (fst (ring_release r (so_taken t0))) = []"
    using ring_release_unread(1,2) [OF assms(3), of "so_taken t0"] t(4) by simp
  then have "unread_of (release_source t0) = []" using t(2) pos by (simp add: release_source_def unread_of_def)
  moreover have "wd_files wd2 = wd_files wd" using c(2) e(3) by (simp add: clocks_only_def)
  ultimately show ?thesis using e(2) by auto
qed

text \<open>The scan keeps the last position it read when a later note names another generation. After a reboot the new ring counts
  from the start again: the first start notes the generation of the new ring, and when it is killed before a position is
  noted, the next start takes the position of the old ring for one of the new. A turn then releases every slot up to that
  position and writes no byte of it.\<close>

theorem stale_position_loses_slots:
  assumes "storaged_args argv (''/var/lib/carwatch/log'', SRC_LIVE) = Some (dir, src)" and "length dir < 200"
    and "ring_at ''/carwatch-obd'' = Some r" and "\<And>name q. ring_at name = Some q \<Longrightarrow> ring_inv q" and "unread r \<noteq> []" and "ring_at ''/carwatch-probe'' = None"
    and "segments_ok dir wd" and "\<forall>x \<in> set (unread r). sl_seq x \<le> sc_ring_seq (found_in dir wd) ! 0"
    and "storaged_start ring_at argv wd = (Some (Some d), wd1)"
    and "wd_files wd2 = wd_files wd1" and "segments_ok dir wd2" and "newest_of None (dir_entries dir wd2) = Some first"
    and "w_fd (d_wal d) = Some (seg_path 256 dir first)" and "sc_has_ring_seq (found_in dir wd2) ! 0"
    and "storaged_start ring_at argv wd2 = (Some (Some d'), wd3)"
  shows "\<exists>d'' wd4. turn d' wd3 = (Some d'', wd4) \<and> wd_files wd4 = wd_files wd3 \<and> unread_of (d_srcs d'' ! 0) = []"
proof -
  obtain bs where b: "log_at (d_wal d) wd1 bs" "notes_from (found_in dir wd) (summary bs)"
    "bs = [] \<or> sc_ring_gen (summary bs) ! 0 = r_generation r"
    using start_notes_generation [OF assms(1,2,7,9,3,6)] by blast
  obtain p old where l: "w_fd (d_wal d) = Some p" "log_ok bs"
    "file_is p wd1 (bytes_of_log (concat bs)) old (length (bytes_of_log (concat bs)))" by (rule log_atD [OF b(1)])
  obtain f where f: "the_file (seg_path 256 dir first) wd2 = Some f" using assms(11,12) by (auto simp: segments_ok_def)
  then have "f_data f = bytes_of_log (concat bs)" using l(1,3) assms(10,13) by (auto simp: file_is_def the_file_def)
  then have found: "found_in dir wd2 = summary bs" using assms(12) f wal_scan_log [OF l(2)] by (simp add: found_in_def)
  have "bs \<noteq> []" using assms(14) by (auto simp: found summary_def Let_def)
  then have sc: "sc_ring_gen (found_in dir wd2) ! 0 = r_generation r"
    "sc_ring_seq (found_in dir wd2) ! 0 = sc_ring_seq (found_in dir wd) ! 0"
    using b(2,3) assms(14) by (auto simp: found notes_from_def)
  let ?s0 = "started_as (found_in dir wd2) 0 (obd_source (Some r))"
  have kp: "kept ?s0 (unread r) = []"
    using sc assms(8,14) by (simp add: started_as_def set_skip_def source_of_def kept_def)
  have st: "fresh d' wd3 \<and> d_srcs d' = [?s0, started_as (found_in dir wd2) 1 (probe_source None)]"
    using storaged_start_fresh [OF assms(4,1,2,11,15)] assms(3,6) by simp
  have s0: "so_ring ?s0 = Some r" "so_taken ?s0 = 0" "\<not> so_added ?s0"
    by (simp_all add: started_as_def set_skip_def source_of_def)
  show ?thesis
    by (rule skipped_turn [OF conjunct2 [OF st] s0(1) assms(4) [OF assms(3)] assms(5) s0(2,3) kp])
      (use st in \<open>simp_all add: fresh_def started_as_def source_of_def\<close>)
qed

section \<open>Histories with kills\<close>

text \<open>The daemon runs, or it is gone and has left the rings and the segment it wrote to.\<close>

datatype box = Running daemon | Killed string "ring option" "ring option"

text \<open>
  From the first start on rings of which the log holds no position yet: producers push between turns and while the
  daemon is gone, turns follow one another, and the daemon can be killed between two turns or inside one, at any system
  call. A new start attaches the same rings, runs to its end and finds as newest segment the one last written to, or one
  begun since and still empty. A turn in which the truncation that undoes a failed commit was refused ends the history
  considered here, as in \<open>storaged_reach\<close>; so does a kill after a rollover that left no segment open, whose batch is
  the one that \<open>rollover_failure_hides_durable_batch\<close> is about. No producer pushes past the end of the 64-bit counter.
\<close>

inductive box_reach :: "string list \<Rightarrow> box \<Rightarrow> world \<Rightarrow> ring_slot list list \<Rightarrow> bool" for argv where
  first: "storaged_args argv (''/var/lib/carwatch/log'', SRC_LIVE) = Some (dir, src) \<Longrightarrow> length dir < 200 \<Longrightarrow> segments_ok dir wd \<Longrightarrow>
    \<forall>ns < WAL_NAMESPACES. \<not> sc_has_ring_seq (found_in dir wd) ! ns \<Longrightarrow>
    \<forall>name q. ring_at name = Some q \<longrightarrow> ring_inv q \<and> nowrap q \<Longrightarrow>
    storaged_start ring_at argv wd = (Some (Some d), wd') \<Longrightarrow> box_reach argv (Running d) wd' (map unread_of (d_srcs d))"
| pushed: "box_reach argv (Running d) wd acc \<Longrightarrow> ns < length (d_srcs d) \<Longrightarrow> so_ring (d_srcs d ! ns) = Some r \<Longrightarrow>
    unat (r_head r) + 1 < 2 ^ 64 \<Longrightarrow> ring_push r x = (r', ok) \<Longrightarrow>
    box_reach argv (Running (d\<lparr>d_srcs := (d_srcs d)[ns := (d_srcs d ! ns)\<lparr>so_ring := Some r'\<rparr>]\<rparr>)) wd
      (if ok then acc[ns := acc ! ns @ [stored_slot r x]] else acc)"
| turned: "box_reach argv (Running d) wd acc \<Longrightarrow> turn d wd = (Some d', wd') \<Longrightarrow> wd_refused wd' = wd_refused wd \<Longrightarrow>
    box_reach argv (Running d') wd' acc"
| killed: "box_reach argv (Running d) wd acc \<Longrightarrow> w_fd (d_wal d) = Some p \<Longrightarrow> d_srcs d = [s0, s1] \<Longrightarrow>
    wd' = wd \<or> turn d wd = (None, wd') \<Longrightarrow> box_reach argv (Killed p (so_ring s0) (so_ring s1)) wd' acc"
| pushed_obd: "box_reach argv (Killed p (Some r) r1) wd acc \<Longrightarrow> unat (r_head r) + 1 < 2 ^ 64 \<Longrightarrow> ring_push r x = (r', ok) \<Longrightarrow>
    box_reach argv (Killed p (Some r') r1) wd (if ok then acc[0 := acc ! 0 @ [stored_slot r x]] else acc)"
| pushed_probe: "box_reach argv (Killed p r0 (Some r)) wd acc \<Longrightarrow> unat (r_head r) + 1 < 2 ^ 64 \<Longrightarrow> ring_push r x = (r', ok) \<Longrightarrow>
    box_reach argv (Killed p r0 (Some r')) wd (if ok then acc[1 := acc ! 1 @ [stored_slot r x]] else acc)"
| restarted: "box_reach argv (Killed p r0 r1) wd acc \<Longrightarrow> wd_files wd1 = wd_files wd \<Longrightarrow>
    storaged_args argv (''/var/lib/carwatch/log'', SRC_LIVE) = Some (dir, src) \<Longrightarrow> length dir < 200 \<Longrightarrow> segments_ok dir wd1 \<Longrightarrow>
    newest_of None (dir_entries dir wd1) = Some first \<Longrightarrow>
    seg_path 256 dir first = p \<or> (\<exists>f. the_file (seg_path 256 dir first) wd1 = Some f \<and> f_data f = []) \<Longrightarrow>
    ring_at ''/carwatch-obd'' = r0 \<Longrightarrow> ring_at ''/carwatch-probe'' = r1 \<Longrightarrow>
    storaged_start ring_at argv wd1 = (Some (Some d), wd') \<Longrightarrow> box_reach argv (Running d) wd' acc"

fun box_inv :: "box \<Rightarrow> world \<Rightarrow> ring_slot list list \<Rightarrow> bool" where
  "box_inv (Running d) wd acc = sess_inv d wd acc"
| "box_inv (Killed p r0 r1) wd acc = dead_inv p wd acc r0 r1"

lemma push_sess:
  assumes "sess_inv d wd acc" and "ns < length (d_srcs d)" and "so_ring (d_srcs d ! ns) = Some r"
    and "unat (r_head r) + 1 < 2 ^ 64" and "ring_push r x = (r', ok)"
  shows "sess_inv (d\<lparr>d_srcs := (d_srcs d)[ns := (d_srcs d ! ns)\<lparr>so_ring := Some r'\<rparr>]\<rparr>) wd
      (if ok then acc[ns := acc ! ns @ [stored_slot r x]] else acc)"
proof -
  obtain s0 s1 rs a b where i: "d_srcs d = [s0, s1]" "source_ok s0" "source_ok s1" "loose (d_wal d) rs"
    "holds rs s0 s1" "acc = [a @ unread_of s0, b @ unread_of s1]" "base wd s0 a" "base wd s1 b" "logged (d_wal d) wd s0 s1"
    using assms(1) unfolding sess_inv_logged by blast
  consider "ns = 0" | "ns = 1" using assms(2) i(1) by fastforce
  then show ?thesis
  proof cases
    case 1
    define t where "t = s0\<lparr>so_ring := Some r'\<rparr>"
    have r: "so_ring s0 = Some r" using assms(3) by (simp add: i(1) 1)
    note t = source_push [OF i(2) r assms(5), folded t_def] and k = push_known [OF i(2) r assms(5,4), folded t_def]
    have "(if ok then acc[ns := acc ! ns @ [stored_slot r x]] else acc) = [a @ unread_of t, b @ unread_of s1]"
      by (simp add: i(6) 1 t(4))
    moreover have "holds rs t s1" using i(5) by (simp add: holds_def t(2,3))
    moreover have "logged (d_wal d) wd t s1" using i(9) k(2) unfolding logged_def by blast
    ultimately show ?thesis unfolding sess_inv_logged using i t(1) k(1) [OF i(7)] 1 by (auto simp: t_def)
  next
    case 2
    define t where "t = s1\<lparr>so_ring := Some r'\<rparr>"
    have r: "so_ring s1 = Some r" using assms(3) by (simp add: i(1) 2)
    note t = source_push [OF i(3) r assms(5), folded t_def] and k = push_known [OF i(3) r assms(5,4), folded t_def]
    have "(if ok then acc[ns := acc ! ns @ [stored_slot r x]] else acc) = [a @ unread_of s0, b @ unread_of t]"
      by (simp add: i(6) 2 t(4))
    moreover have "holds rs s0 t" using i(5) by (simp add: holds_def t(2,3))
    moreover have "logged (d_wal d) wd s0 t" using i(9) k(2) unfolding logged_def by blast
    ultimately show ?thesis unfolding sess_inv_logged using i t(1) k(1) [OF i(8)] 2 by (auto simp: t_def)
  qed
qed

lemma source_of_push:
  assumes "source_ok (source_of n (Some r))" and "unat (r_head r) + 1 < 2 ^ 64" and "ring_push r x = (r', ok)"
  shows "source_ok (source_of n (Some r'))" and "base wd (source_of n (Some r)) a \<Longrightarrow> base wd (source_of n (Some r')) a"
    and "known C sc ns (source_of n (Some r)) \<Longrightarrow> known C sc ns (source_of n (Some r'))"
    and "unread_of (source_of n (Some r')) = unread_of (source_of n (Some r)) @ (if ok then [stored_slot r x] else [])"
proof -
  have e: "(source_of n (Some r))\<lparr>so_ring := Some r'\<rparr> = source_of n (Some r')" and r: "so_ring (source_of n (Some r)) = Some r"
    by (simp_all add: source_of_def)
  note p = source_push [OF assms(1) r assms(3), unfolded e] and k = push_known [OF assms(1) r assms(3,2), unfolded e]
  show "source_ok (source_of n (Some r'))" and "base wd (source_of n (Some r)) a \<Longrightarrow> base wd (source_of n (Some r')) a"
    and "known C sc ns (source_of n (Some r)) \<Longrightarrow> known C sc ns (source_of n (Some r'))"
    and "unread_of (source_of n (Some r')) = unread_of (source_of n (Some r)) @ (if ok then [stored_slot r x] else [])"
    by (fact p(1) k p(4))+
qed

lemma push_dead:
  assumes "unat (r_head r) + 1 < 2 ^ 64" and "ring_push r x = (r', ok)"
  shows "dead_inv p wd acc (Some r) r1 \<Longrightarrow> dead_inv p wd (if ok then acc[0 := acc ! 0 @ [stored_slot r x]] else acc) (Some r') r1"
    and "dead_inv p wd acc r0 (Some r) \<Longrightarrow> dead_inv p wd (if ok then acc[1 := acc ! 1 @ [stored_slot r x]] else acc) r0 (Some r')"
proof -
  assume "dead_inv p wd acc (Some r) r1"
  then obtain a b f bs where i: "source_ok (obd_source (Some r))" "source_ok (probe_source r1)"
    "acc = [a @ unread_of (obd_source (Some r)), b @ unread_of (probe_source r1)]"
    "base wd (obd_source (Some r)) a" "base wd (probe_source r1) b"
    "the_file p wd = Some f" "f_entry f" "recovers (f_data f) bs" "prefix (bytes_of_log (concat bs)) (f_data f)"
    "known (left_of wd bs) (summary bs) 0 (obd_source (Some r))" "known (left_of wd bs) (summary bs) 1 (probe_source r1)"
    unfolding dead_inv_def by blast
  note k = source_of_push [OF i(1) assms]
  have "(if ok then acc[0 := acc ! 0 @ [stored_slot r x]] else acc) = [a @ unread_of (obd_source (Some r')), b @ unread_of (probe_source r1)]"
    by (simp add: i(3) k(4))
  then show "dead_inv p wd (if ok then acc[0 := acc ! 0 @ [stored_slot r x]] else acc) (Some r') r1"
    unfolding dead_inv_def using i k(1) k(2) [OF i(4)] k(3) [OF i(10)] by blast
next
  assume "dead_inv p wd acc r0 (Some r)"
  then obtain a b f bs where i: "source_ok (obd_source r0)" "source_ok (probe_source (Some r))"
    "acc = [a @ unread_of (obd_source r0), b @ unread_of (probe_source (Some r))]"
    "base wd (obd_source r0) a" "base wd (probe_source (Some r)) b"
    "the_file p wd = Some f" "f_entry f" "recovers (f_data f) bs" "prefix (bytes_of_log (concat bs)) (f_data f)"
    "known (left_of wd bs) (summary bs) 0 (obd_source r0)" "known (left_of wd bs) (summary bs) 1 (probe_source (Some r))"
    unfolding dead_inv_def by blast
  note k = source_of_push [OF i(2) assms]
  have "(if ok then acc[1 := acc ! 1 @ [stored_slot r x]] else acc) = [a @ unread_of (obd_source r0), b @ unread_of (probe_source (Some r'))]"
    by (simp add: i(3) k(4))
  then show "dead_inv p wd (if ok then acc[1 := acc ! 1 @ [stored_slot r x]] else acc) r0 (Some r')"
    unfolding dead_inv_def using i k(1) k(2) [OF i(5)] k(3) [OF i(11)] by blast
qed

lemma box_reach_inv: "box_reach argv st wd acc \<Longrightarrow> box_inv st wd acc"
proof (induction rule: box_reach.induct)
  case (first dir src wd ring_at d wd')
  then show ?case using first_sess by simp
next
  case (pushed d wd acc ns r x r' ok)
  then show ?case using push_sess by simp
next
  case (turned d wd acc d' wd')
  then show ?case using turn_sess [of d wd acc "Some d'" wd'] by simp
next
  case (killed d wd acc p s0 s1 wd')
  then show ?case using kill_dead [of d wd acc p s0 s1] turn_sess [of d wd acc None wd'] by auto
next
  case (pushed_obd p r r1 wd acc x r' ok)
  then show ?case using push_dead(1) by simp
next
  case (pushed_probe p r0 r wd acc x r' ok)
  then show ?case using push_dead(2) by simp
next
  case (restarted p r0 r1 wd acc wd1 dir src first ring_at d wd')
  then show ?case using restart_sess [of p wd acc r0 r1 wd1 argv dir src first ring_at d wd'] by simp
qed

fun box_unread :: "box \<Rightarrow> ring_slot list list" where
  "box_unread (Running d) = map unread_of (d_srcs d)"
| "box_unread (Killed p r0 r1) = [case r0 of None \<Rightarrow> [] | Some r \<Rightarrow> unread r, case r1 of None \<Rightarrow> [] | Some r \<Rightarrow> unread r]"


text \<open>A first start that works: an empty segment, one ring with a batch's worth of slots.\<close>

definition demo_argv :: "string list" where
  "demo_argv = [''--dir'', ''d'', ''--src'', ''synth'']"

definition demo_rings :: "string \<Rightarrow> ring option" where
  "demo_rings name = (if name = ''/carwatch-obd'' then Some demo_ring else None)"

definition start_script :: "outcome list \<Rightarrow> outcome list" where
  "start_script rest = [Done 0, Done 0] @ [Done 0, Done 0, Done 0, Done 0, Done 0, Done 0, Done 20000, Done 0] @ Done 20000 # Done 0 # rest"

lemma demo_args: "storaged_args demo_argv (''/var/lib/carwatch/log'', SRC_LIVE) = Some (''d'', SRC_SYNTH)"
  by (simp add: demo_argv_def parse_src_def)

lemma demo_found: "segments_ok ''d'' (demo_world [] s)" "found_in ''d'' (demo_world [] s) = summary []"
proof -
  have n: "newest_of None (dir_entries ''d'' (demo_world [] s)) = Some 0" by (simp add: demo_entries seg_of_name_seg_name)
  have p: "seg_path 256 ''d'' 0 = demo_path" by (simp add: seg_path_eq demo_path_def)
  show "segments_ok ''d'' (demo_world [] s)" by (simp add: segments_ok_def n p demo_file)
  show "found_in ''d'' (demo_world [] s) = summary []" using wal_scan_log [of "[]"] by (simp add: found_in_def n p demo_file)
qed

lemma demo_start_runs:
  obtains d wd' where "storaged_start demo_rings demo_argv (demo_world [] (start_script rest)) = (Some (Some d), wd')"
    and "wd_script wd' = rest" and "w_fd (d_wal d) = Some demo_path" and "0 < unat (w_seg_bytes (d_wal d))"
    and "unat (w_seg_bytes (d_wal d)) \<le> 2 * WAL_BUF_BYTES"
proof -
  let ?ss = "[obd_source (Some demo_ring), probe_source None]"
  have mk: "sys_ok (demo_world [] (Done 0 # s)) = (Some True, demo_world [] s)" for s
    by (simp add: sys_ok_def andthen_def sys_def ret_def demo_world_def)
  let ?s = "[Done 0, Done 0, Done 0, Done 0, Done 0, Done 0, Done 20000, Done 0] @ Done 20000 # Done 0 # rest"
  obtain w wd1 where o: "wal_open ''d'' SRC_SYNTH 0 (demo_world [] ?s) = (Some (True, w), wd1)"
    "wd_script wd1 = Done 20000 # Done 0 # rest" "w_fd w = Some demo_path" "unat (w_seg_bytes w) \<le> WAL_BUF_BYTES"
    using demo_open_runs [of "Done 20000 # Done 0 # rest"] by blast
  note r = wal_open_ready [OF _ _ demo_found(1) o(1)]
  obtain bs where at: "log_at w wd1 bs" and buf: "buf_at w []" using r by (auto simp: SRC_IS_VALID_def)
  let ?t = "note_text ''gen='' (of_nat 0) (r_generation demo_ring)"
  have "length ?t < 200" using length_note_text [of "''gen=''" "of_nat 0" "r_generation demo_ring"] by simp
  moreover have "w_buf w = []" using buf by (simp add: buf_at_def)
  ultimately obtain w1 wd2 rs where n: "note_generation w (of_nat 0) demo_ring wd1 = (Some (True, w1), wd2)" "same_log w w1"
    "clocks_only wd1 wd2" "w_open_batch w1" "buf_at w1 rs"
    using add_note_ok [OF buf, of ?t WAL_EV_RING_GEN wd1] unfolding note_generation_def by auto
  have w1: "w_fd w1 = Some demo_path" "unat (w_seg_bytes w1) \<le> WAL_BUF_BYTES" "wd_script wd2 = Done 20000 # Done 0 # rest"
    using n(2,3) o(2-4) by (simp_all add: same_log_def clocks_script)
  obtain B wd3 where c: "wal_commit w1 wd2 = (Some (True, committed w1 B), wd3)" "wd_script wd3 = rest"
    "0 < unat (w_seg_bytes (committed w1 B))" "unat (w_seg_bytes (committed w1 B)) \<le> unat (w_seg_bytes w1) + WAL_BUF_BYTES"
    using commit_runs [OF n(5,4) w1(1,3)] w1(2) by auto
  have s: "start_sources 0 ?ss w wd1 = (Some (True, [set_skip (w_recovered w) 0 demo_ring (obd_source (Some demo_ring)), probe_source None], committed w1 B), wd3)"
    using n(1) c(1) by (simp add: andthen_def ret_def source_of_def Let_def)
  obtain now wd4 where now: "wal_now_mono wd3 = (Some now, wd4)" "clocks_only wd3 wd4" using clock_reads(1) by blast
  have rings: "demo_rings ''/carwatch-obd'' = Some demo_ring" "demo_rings ''/carwatch-probe'' = None" by (simp_all add: demo_rings_def)
  have scr: "start_script rest = Done 0 # Done 0 # ?s" by (simp add: start_script_def)
  note steps = andthen_Some [of sys_ok, OF mk] andthen_Some [of "wal_open ''d'' SRC_SYNTH 0", OF o(1) [unfolded append.simps]]
    andthen_Some [of "start_sources 0 ?ss w", OF s] andthen_Some [of wal_now_mono, OF now(1)]
  have "\<exists>d. storaged_start demo_rings demo_argv (demo_world [] (start_script rest)) = (Some (Some d), wd4) \<and> d_wal d = committed w1 B"
    unfolding storaged_start_def demo_args option.case prod.case scr rings steps
    by (simp add: steps del: start_sources.simps) (simp add: ret_def)
  then obtain d where d: "storaged_start demo_rings demo_argv (demo_world [] (start_script rest)) = (Some (Some d), wd4)"
    "d_wal d = committed w1 B" by blast
  show thesis
    by (rule that [OF d(1)]) (use d(2) c(2-4) w1(1,2) now(2) in \<open>simp_all add: clocks_only_def\<close>)
qed

text \<open>The daemon of the witnesses, started: its log notes the generation of the ring.\<close>

lemma demo_started:
  obtains d wd bs s0 s1 where "box_reach demo_argv (Running d) wd [unread demo_ring, []]" and "d_srcs d = [s0, s1]"
    and "source_ok s0" and "so_ring s0 = Some demo_ring" and "so_taken s0 = 0" and "\<not> so_skip s0" and "\<not> so_added s0"
    and "source_ok s1" and "so_ring s1 = None" and "so_taken s1 = 0" and "\<not> so_skip s1" and "\<not> so_added s1"
    and "buf_at (d_wal d) []" and "w_fd (d_wal d) = Some demo_path" and "unat (w_seg_bytes (d_wal d)) \<le> 2 * WAL_BUF_BYTES"
    and "wd_script wd = rest" and "log_at (d_wal d) wd bs" and "sc_ring_gen (summary bs) ! 0 = 7"
proof -
  let ?s0 = "obd_source (Some demo_ring)" and ?s1 = "probe_source None"
  obtain d wd where d: "storaged_start demo_rings demo_argv (demo_world [] (start_script rest)) = (Some (Some d), wd)"
    "wd_script wd = rest" "w_fd (d_wal d) = Some demo_path" "0 < unat (w_seg_bytes (d_wal d))"
    "unat (w_seg_bytes (d_wal d)) \<le> 2 * WAL_BUF_BYTES" by (rule demo_start_runs)
  have "nowrap demo_ring" using demo_ring_inv(3,4) by (simp add: nowrap_le)
  then have rings: "\<forall>name q. demo_rings name = Some q \<longrightarrow> ring_inv q \<and> nowrap q"
    using demo_ring_inv(1) by (simp add: demo_rings_def)
  have inv: "ring_inv q" if "demo_rings name = Some q" for name q using rings that by blast
  have f: "fresh d wd" "d_srcs d = [started_as (summary []) 0 ?s0, started_as (summary []) 1 ?s1]"
    using storaged_start_fresh [OF inv demo_args _ demo_found(1) d(1)] by (simp_all add: demo_found(2) demo_rings_def)
  have st: "started_as (summary []) 0 ?s0 = ?s0" "started_as (summary []) 1 ?s1 = ?s1"
    by (simp_all add: started_as_def source_of_def set_skip_def summary_def Let_def)
  have srcs: "d_srcs d = [?s0, ?s1]" using f(2) st by simp
  have "box_reach demo_argv (Running d) wd (map unread_of (d_srcs d))"
    by (rule box_reach.first [OF demo_args _ demo_found(1) _ rings d(1)])
      (simp_all add: demo_found(2) summary_def Let_def less_2_cases_iff)
  moreover have "map unread_of (d_srcs d) = [unread demo_ring, []]" unfolding srcs by (simp add: source_of_def unread_of_def)
  ultimately have b: "box_reach demo_argv (Running d) wd [unread demo_ring, []]" by simp
  obtain bs where bs: "log_at (d_wal d) wd bs" "bs = [] \<or> sc_ring_gen (summary bs) ! 0 = r_generation demo_ring"
    using start_notes_generation [OF demo_args _ demo_found(1) d(1)] by (auto simp: demo_rings_def)
  have "unat (w_seg_bytes (d_wal d)) = length (bytes_of_log (concat bs))" by (rule log_atD [OF bs(1)])
  then have gen: "sc_ring_gen (summary bs) ! 0 = 7" using bs(2) d(4) demo_ring_inv(5) by auto
  have ok: "source_ok ?s0" "source_ok ?s1" "buf_at (d_wal d) []" using f(1) srcs by (simp_all add: fresh_def)
  show thesis
    by (rule that [OF b srcs ok(1) _ _ _ _ ok(2) _ _ _ _ ok(3) d(3,5,2) bs(1) gen]) (simp_all add: source_of_def)
qed


section \<open>Where a restart resumes\<close>

text \<open>C24: a restart takes up exactly where the log ends. Given that the log notes the ring's generation (every start
  writes that note), that the batch leaves its segment open (it does not fill it) and that the ring's counter has not wrapped: when
  the positions are added to the batch that covers the slots taken and the batch is committed, then from every
  image a power cut can leave of the segment, and with the ring still unreleased, the next run skips exactly the
  slots of that batch: all that is unread after them is drained, nothing is logged twice.\<close>

theorem storaged_resumes:
  assumes "log_at w wd bs" and "loose w rs" and "holds rs t0 t1" and "source_ok t0" and "source_ok t1"
    and "note_all 0 [t0, t1] w wd = (Some (noted0, w1), wd1)"
    and "wal_commit w1 wd1 = (Some (True, w2), wd2)" and "w_fd w = Some p" and "w_fd w2 = Some p"
    and "the_file p wd2 = Some f" and "image_of f img"
    and "ns < WAL_NAMESPACES" and "so_added ([t0, t1] ! ns)" and "so_ring ([t0, t1] ! ns) = Some r" and "below_wrap r"
    and "sc_ring_gen (summary bs) ! ns = r_generation r"
  shows "noted0 \<and> kept (started_as (wal_scan img) ns (source_of name (Some r))) (unread r) =
    drop (unat (so_taken ([t0, t1] ! ns))) (unread r)"
proof -
  let ?t = "[t0, t1] ! ns"
  obtain w1' wd1' rs1 where n: "note_all 0 [t0, t1] w wd = (Some (True, w1'), wd1')" "clocks_only wd wd1'"
    "same_log w w1'" "batch_ready w1' rs1 t0 t1" using notes_ready [OF assms(2,3), of wd] by blast
  then have e: noted0 "w1' = w1" "wd1' = wd1" using assms(6) by auto
  have br: "batch_ready w1 rs1 t0 t1" and buf: "buf_at w1 rs1" using n(4) e by (auto simp: batch_ready_def)
  have t: "source_ok ?t" using assms(4,5,12) by (auto simp: less_2_cases_iff)
  have op: "w_open_batch w1" using br assms(12,13) by (auto simp: batch_ready_def less_2_cases_iff)
  have at: "log_at w1 wd1 bs" using assms(1) same_log_at [OF n(3,2)] e by simp
  have fd: "w_fd w1 = Some p" using n(3) e assms(8) by (simp add: same_log_def)
  obtain q old c where c: "w_fd w1 = Some q" "log_ok (bs @ [rs1 @ [c]])"
    "commit_end (wd_refused wd1) w1 q (bytes_of_log (concat bs)) (bytes_of_log (rs1 @ [c])) old (length (bytes_of_log (concat bs)))
       (Some (True, w2)) wd2"
    by (rule commit_ends [OF at buf op assms(7)])
  have "img = bytes_of_log (concat bs) @ bytes_of_log (rs1 @ [c])"
    using commit_images [OF c(3)] c(1) fd assms(10,11) by auto
  then have scan: "wal_scan img = summary (bs @ [rs1 @ [c]])" using wal_scan_log [OF c(2)] by simp
  have com: "kind_of c = REC_COMMIT" using c(2) by (simp add: is_batch_def)
  have "sc_ring_gen (summary (bs @ [rs1 @ [c]])) = sc_ring_gen (summary bs)"
    using br com by (simp add: summary_def Let_def batch_ready_def upd_other)
  then have gen: "sc_ring_gen (wal_scan img) ! ns = r_generation r" using assms(16) scan by simp
  note nts = summary_notes [OF br com assms(12,13), of bs, folded scan] and lt = last_taken [OF t assms(14,13)]
  have ri: "ring_inv r" using t assms(14) by (simp add: source_ok_def)
  let ?s = "started_as (wal_scan img) ns (source_of name (Some r))"
  have "so_skip ?s" "so_skip_seq ?s = sl_seq (unread r ! (unat (so_taken ?t) - 1))"
    using nts gen lt(3) by (simp_all add: started_as_def source_of_def set_skip_def)
  then show ?thesis using kept_after [OF ri assms(15) lt(1,2)] e(1) by blast
qed

text \<open>The started daemon drains its ring of generation 7, whose batch is committed: the next run has nothing left to drain.\<close>

theorem storaged_resumes_witness:
  "\<exists>img. r_generation demo_ring = 7 \<and> length (unread demo_ring) = 64 \<and>
    kept (started_as (wal_scan img) 0 (source_of ''/carwatch-obd'' (Some demo_ring))) (unread demo_ring) = []"
proof -
  obtain d wd bs s0 s1 where "box_reach demo_argv (Running d) wd [unread demo_ring, []]" and "d_srcs d = [s0, s1]"
    and d: "source_ok s0" "so_ring s0 = Some demo_ring" "so_taken s0 = 0" "\<not> so_skip s0" "\<not> so_added s0"
    and s1: "source_ok s1" "so_ring s1 = None" "so_taken s1 = 0" "\<not> so_skip s1" "\<not> so_added s1"
    and w: "buf_at (d_wal d) []" "w_fd (d_wal d) = Some demo_path" "unat (w_seg_bytes (d_wal d)) \<le> 2 * WAL_BUF_BYTES"
      "wd_script wd = [Done 20000, Done 0]" "log_at (d_wal d) wd bs" "sc_ring_gen (summary bs) ! 0 = 7"
    by (rule demo_started [of "[Done 20000, Done 0]"])
  obtain v wd1 rs where f: "drain demo_ring (d_wal d) s0 0 wd = (Some (64, v, drained demo_ring s0 64), wd1)" "clocks_only wd wd1"
    "same_log (d_wal d) v" "loose v rs" "n_samples rs = 64" "sample_keys rs = map slot_key (unread demo_ring)"
    by (rule full_drain [OF w(1) d(1,2) demo_ring_inv(2) d(3,4)])
  let ?t = "drained demo_ring s0 64"
  have tk: "unat (so_taken s0) \<le> 64" "64 \<le> length (unread demo_ring)" using demo_ring_inv(2) d(3) by (simp_all del: length_unread)
  have t: "source_ok ?t" "so_ring ?t = Some demo_ring" "taken_of ?t = unread demo_ring" "\<not> so_skip ?t" "so_added ?t" "so_taken ?t = 64"
    using drained_ok(1-3) [OF d(2,1) tk] d demo_ring_inv(2)
    by (auto simp: same_source_def taken_of_def unread_of_def between_def drained_def Let_def kept_def simp del: length_unread)
  have h: "holds rs ?t s1" using f(6) t(3,4) s1 by (simp add: holds_def taken_of_def unread_of_def kept_def)
  obtain w1 wd2 rs1 where n: "note_all 0 [?t, s1] v wd1 = (Some (True, w1), wd2)" "clocks_only wd1 wd2"
    "same_log v w1" "batch_ready w1 rs1 ?t s1" using notes_ready [OF f(4) h, of wd1] by blast
  have w1: "buf_at w1 rs1" "w_open_batch w1" using n(4) t(5) by (auto simp: batch_ready_def)
  have fd: "w_fd v = Some demo_path" "w_fd w1 = Some demo_path" "unat (w_seg_bytes w1) \<le> 2 * WAL_BUF_BYTES"
    using f(3) n(3) w(2,3) by (simp_all add: same_log_def)
  have sc: "wd_script wd2 = [Done 20000, Done 0]" using f(2) n(2) w(4) by (simp add: clocks_only_def)
  obtain B wd3 where c: "wal_commit w1 wd2 = (Some (True, committed w1 B), wd3)"
    using commit_runs [OF w1 fd(2) sc] fd(3) by auto
  have at: "log_at v wd1 bs" "log_at w1 wd2 bs" using same_log_at [OF f(3,2)] same_log_at [OF n(3,2)] w(5) by simp_all
  obtain q old e where e: "w_fd w1 = Some q" "log_ok (bs @ [rs1 @ [e]])"
    "commit_end (wd_refused wd2) w1 q (bytes_of_log (concat bs)) (bytes_of_log (rs1 @ [e])) old (length (bytes_of_log (concat bs)))
       (Some (True, committed w1 B)) wd3" by (rule commit_ends [OF at(2) w1 c])
  have q: "q = demo_path" using e(1) fd(2) by simp
  have "\<exists>D. file_is demo_path wd3 D [] (length D)" using e(3) unfolding q by (elim commit_end_TrueE) (metis length_append)+
  then obtain g img where g: "the_file demo_path wd3 = Some g" and img: "image_of g img" by (fastforce simp: file_is_def image_of_def)
  have "below_wrap demo_ring" using demo_ring_inv(2,3) by (simp add: below_wrap_def del: length_unread)
  then have "kept (started_as (wal_scan img) 0 (source_of ''/carwatch-obd'' (Some demo_ring))) (unread demo_ring) =
      drop (unat (so_taken ?t)) (unread demo_ring)"
    using storaged_resumes [OF at(1) f(4) h t(1) s1(1) n(1) c fd(1) _ g img, of 0 demo_ring "''/carwatch-obd''"]
      fd(2) t(2,5) w(6) demo_ring_inv(5) by (simp del: note_all.simps length_unread)
  then show ?thesis using t(6) demo_ring_inv(2,5) by (intro exI [of _ img]) (simp del: length_unread)
qed

end
