(* ===== verification/Ring_Interleaving.thy ===== *)
theory Ring_Interleaving
  imports Ipc_Ring
begin

text \<open>
  The ring under concurrency: \<open>ring_push\<close>, \<open>ring_peek\<close>, \<open>ring_release\<close> and \<open>ring_depth\<close> of
  \<open>src/ipc/ring.c\<close> cut at their accesses to shared memory and interleaved in every order, as a
  step relation over the shared ring, the program point of each party and a record of what was
  accepted, released and read. The invariant of the reachable states gives the no-loss and
  no-race properties; \<open>ring_push_steps_refine\<close> ties the steps back to the function.
\<close>

section \<open>Program points\<close>

text \<open>Where the producer is inside \<open>ring_push\<close>, with the locals it has read so far.\<close>

datatype producer =
    P_Idle
  | P_LoadTail ring_slot u64
  | P_Test ring_slot u64 u64
  | P_Copy ring_slot u64
  | P_Number ring_slot u64
  | P_Publish ring_slot u64

text \<open>Where the consumer is inside \<open>ring_peek\<close> or \<open>ring_release\<close>.\<close>

datatype consumer =
    C_Idle
  | C_PeekHead u64 u64
  | C_PeekTest u64 u64 u64
  | C_RelHead u64 u64
  | C_RelTest u64 u64 u64

text \<open>A third party inside \<open>ring_depth\<close>.\<close>

datatype observer = O_Idle | O_Head u64

text \<open>
  Beside the shared ring: everything published so far, how much of it was released, what the
  consumer copied out (with the position it meant to read) and the depths the observer saw,
  each with the number of slots unread at that moment.
\<close>

record ring_sys =
  y_ring :: ring
  y_prod :: producer
  y_cons :: consumer
  y_obs :: observer
  y_acc :: "ring_slot list"
  y_rel :: nat
  y_got :: "(nat \<times> ring_slot) list"
  y_seen :: "(u64 \<times> nat) list"

definition ring_start :: "ring \<Rightarrow> ring_sys" where
  "ring_start r = \<lparr>y_ring = ring_init r, y_prod = P_Idle, y_cons = C_Idle, y_obs = O_Idle,
     y_acc = [], y_rel = 0, y_got = [], y_seen = []\<rparr>"

abbreviation set_slot :: "ring \<Rightarrow> u64 \<Rightarrow> ring_slot \<Rightarrow> ring" where
  "set_slot r p x \<equiv> r\<lparr>r_slot := (r_slot r)[slot_ix p := x]\<rparr>"

section \<open>Steps\<close>

text \<open>
  One rule per access of \<open>ring_push\<close>. The copy of the slot is not atomic: while it is under
  way the slot may hold anything (\<open>tear\<close>).
\<close>

inductive prod_step :: "ring_sys \<Rightarrow> ring_sys \<Rightarrow> bool" where
  reject: "y_prod s = P_Idle \<Longrightarrow> \<not> SRC_IS_VALID (sl_src (x :: ring_slot)) \<Longrightarrow>
     prod_step s (s\<lparr>y_ring := (y_ring s)\<lparr>r_rejected := r_rejected (y_ring s) + 1\<rparr>\<rparr>)"
| load_head: "y_prod s = P_Idle \<Longrightarrow> SRC_IS_VALID (sl_src x) \<Longrightarrow>
     prod_step s (s\<lparr>y_prod := P_LoadTail x (r_head (y_ring s))\<rparr>)"
| load_tail: "y_prod s = P_LoadTail x h \<Longrightarrow>
     prod_step s (s\<lparr>y_prod := P_Test x h (r_tail (y_ring s))\<rparr>)"
| full: "y_prod s = P_Test x h t \<Longrightarrow> h - t \<ge> RING_CAPACITY \<Longrightarrow>
     prod_step s (s\<lparr>y_prod := P_Idle,
       y_ring := (y_ring s)\<lparr>r_overruns := r_overruns (y_ring s) + 1\<rparr>\<rparr>)"
| room: "y_prod s = P_Test x h t \<Longrightarrow> \<not> h - t \<ge> RING_CAPACITY \<Longrightarrow>
     prod_step s (s\<lparr>y_prod := P_Copy x h\<rparr>)"
| tear: "y_prod s = P_Copy x h \<Longrightarrow>
     prod_step s (s\<lparr>y_prod := P_Copy x h, y_ring := set_slot (y_ring s) h junk\<rparr>)"
| copy: "y_prod s = P_Copy x h \<Longrightarrow>
     prod_step s (s\<lparr>y_prod := P_Number x h, y_ring := set_slot (y_ring s) h x\<rparr>)"
| number: "y_prod s = P_Number x h \<Longrightarrow>
     prod_step s (s\<lparr>y_prod := P_Publish x h,
       y_ring := set_slot (y_ring s) h ((r_slot (y_ring s) ! slot_ix h)\<lparr>sl_seq := h\<rparr>)\<rparr>)"
| publish: "y_prod s = P_Publish x h \<Longrightarrow>
     prod_step s (s\<lparr>y_prod := P_Idle, y_ring := (y_ring s)\<lparr>r_head := h + 1\<rparr>,
       y_acc := y_acc s @ [x\<lparr>sl_seq := h\<rparr>]\<rparr>)"

inductive cons_step :: "ring_sys \<Rightarrow> ring_sys \<Rightarrow> bool" where
  peek_tail: "y_cons s = C_Idle \<Longrightarrow>
     cons_step s (s\<lparr>y_cons := C_PeekHead i (r_tail (y_ring s))\<rparr>)"
| peek_head: "y_cons s = C_PeekHead i t \<Longrightarrow>
     cons_step s (s\<lparr>y_cons := C_PeekTest i t (r_head (y_ring s))\<rparr>)"
| peek_none: "y_cons s = C_PeekTest i t h \<Longrightarrow> h - t \<le> i \<Longrightarrow>
     cons_step s (s\<lparr>y_cons := C_Idle\<rparr>)"
| peek_copy: "y_cons s = C_PeekTest i t h \<Longrightarrow> \<not> h - t \<le> i \<Longrightarrow>
     cons_step s (s\<lparr>y_cons := C_Idle,
       y_got := y_got s @ [(y_rel s + unat i, r_slot (y_ring s) ! slot_ix (t + i))]\<rparr>)"
| rel_tail: "y_cons s = C_Idle \<Longrightarrow>
     cons_step s (s\<lparr>y_cons := C_RelHead n (r_tail (y_ring s))\<rparr>)"
| rel_head: "y_cons s = C_RelHead n t \<Longrightarrow>
     cons_step s (s\<lparr>y_cons := C_RelTest n t (r_head (y_ring s))\<rparr>)"
| rel_none: "y_cons s = C_RelTest n t h \<Longrightarrow> n > h - t \<Longrightarrow>
     cons_step s (s\<lparr>y_cons := C_Idle\<rparr>)"
| rel_store: "y_cons s = C_RelTest n t h \<Longrightarrow> \<not> n > h - t \<Longrightarrow>
     cons_step s (s\<lparr>y_cons := C_Idle, y_ring := (y_ring s)\<lparr>r_tail := t + n\<rparr>,
       y_rel := y_rel s + unat n\<rparr>)"

inductive obs_step :: "ring_sys \<Rightarrow> ring_sys \<Rightarrow> bool" where
  depth_tail: "y_obs s = O_Idle \<Longrightarrow> obs_step s (s\<lparr>y_obs := O_Head (r_tail (y_ring s))\<rparr>)"
| depth_head: "y_obs s = O_Head t \<Longrightarrow>
     obs_step s (s\<lparr>y_obs := O_Idle,
       y_seen := y_seen s @ [(r_head (y_ring s) - t, length (y_acc s) - y_rel s)]\<rparr>)"

inductive ring_reach :: "ring \<Rightarrow> ring_sys \<Rightarrow> bool" for r where
  start: "ring_reach r (ring_start r)"
| by_prod: "ring_reach r s \<Longrightarrow> prod_step s s' \<Longrightarrow> ring_reach r s'"
| by_cons: "ring_reach r s \<Longrightarrow> cons_step s s' \<Longrightarrow> ring_reach r s'"
| by_obs: "ring_reach r s \<Longrightarrow> obs_step s s' \<Longrightarrow> ring_reach r s'"

section \<open>The invariant\<close>

definition shared_inv :: "ring_sys \<Rightarrow> bool" where
  "shared_inv s \<longleftrightarrow>
     length (r_slot (y_ring s)) = 4096 \<and>
     r_head (y_ring s) = word_of_nat (length (y_acc s)) \<and> r_tail (y_ring s) = word_of_nat (y_rel s) \<and>
     y_rel s \<le> length (y_acc s) \<and> length (y_acc s) \<le> y_rel s + 4096 \<and>
     (\<forall>k < length (y_acc s). y_rel s \<le> k \<longrightarrow> r_slot (y_ring s) ! (k mod 4096) = y_acc s ! k) \<and>
     (\<forall>k < length (y_acc s). sl_seq (y_acc s ! k) = word_of_nat k \<and> SRC_IS_VALID (sl_src (y_acc s ! k)))"

fun prod_inv :: "ring_sys \<Rightarrow> producer \<Rightarrow> bool" where
  "prod_inv s P_Idle = True"
| "prod_inv s (P_LoadTail x h) = (h = r_head (y_ring s) \<and> SRC_IS_VALID (sl_src x))"
| "prod_inv s (P_Test x h t) = (h = r_head (y_ring s) \<and> SRC_IS_VALID (sl_src x) \<and>
     (\<exists>m \<le> y_rel s. t = word_of_nat m \<and> length (y_acc s) \<le> m + 4096))"
| "prod_inv s (P_Copy x h) = (h = r_head (y_ring s) \<and> SRC_IS_VALID (sl_src x) \<and>
     length (y_acc s) < y_rel s + 4096)"
| "prod_inv s (P_Number x h) = (h = r_head (y_ring s) \<and> SRC_IS_VALID (sl_src x) \<and>
     length (y_acc s) < y_rel s + 4096 \<and> r_slot (y_ring s) ! slot_ix h = x)"
| "prod_inv s (P_Publish x h) = (h = r_head (y_ring s) \<and> SRC_IS_VALID (sl_src x) \<and>
     length (y_acc s) < y_rel s + 4096 \<and> r_slot (y_ring s) ! slot_ix h = x\<lparr>sl_seq := h\<rparr>)"

definition head_read :: "ring_sys \<Rightarrow> u64 \<Rightarrow> bool" where
  "head_read s h \<longleftrightarrow> (\<exists>m \<ge> y_rel s. h = word_of_nat m \<and> m \<le> length (y_acc s))"

fun cons_inv :: "ring_sys \<Rightarrow> consumer \<Rightarrow> bool" where
  "cons_inv s C_Idle = True"
| "cons_inv s (C_PeekHead i t) = (t = r_tail (y_ring s))"
| "cons_inv s (C_PeekTest i t h) = (t = r_tail (y_ring s) \<and> head_read s h)"
| "cons_inv s (C_RelHead n t) = (t = r_tail (y_ring s))"
| "cons_inv s (C_RelTest n t h) = (t = r_tail (y_ring s) \<and> head_read s h)"

fun obs_inv :: "ring_sys \<Rightarrow> observer \<Rightarrow> bool" where
  "obs_inv s O_Idle = True"
| "obs_inv s (O_Head t) = (\<exists>m \<le> y_rel s. t = word_of_nat m)"

definition log_inv :: "ring_sys \<Rightarrow> bool" where
  "log_inv s \<longleftrightarrow>
     (\<forall>(k, x) \<in> set (y_got s). k < length (y_acc s) \<and> x = y_acc s ! k) \<and>
     (\<forall>(d, n) \<in> set (y_seen s). \<exists>m \<ge> n. m \<le> length (y_acc s) \<and> d = word_of_nat m)"

definition sys_inv :: "ring_sys \<Rightarrow> bool" where
  "sys_inv s \<longleftrightarrow> shared_inv s \<and> prod_inv s (y_prod s) \<and> cons_inv s (y_cons s) \<and>
     obs_inv s (y_obs s) \<and> log_inv s"

lemma sys_inv_start: "sys_inv (ring_start r)"
  by (simp add: sys_inv_def shared_inv_def log_inv_def ring_start_def ring_init_def)

lemma slot_ix_neq:
  assumes "a < b" and "b < a + 4096"
  shows "a mod 4096 \<noteq> b mod (4096 :: nat)"
proof
  assume "a mod 4096 = b mod 4096"
  then have "b mod 4096 = a mod 4096" by simp
  then have "4096 dvd b - a" using assms by (subst (asm) mod_eq_dvd_iff_nat) auto
  then show False using assms dvd_imp_le [of 4096 "b - a"] by auto
qed

text \<open>Writing the free slot leaves the unread ones alone.\<close>

lemma shared_inv_set_slot:
  assumes "shared_inv s" and "length (y_acc s) < y_rel s + 4096" and "h = r_head (y_ring s)"
  shows "shared_inv (s\<lparr>y_prod := p, y_ring := set_slot (y_ring s) h x\<rparr>)"
proof -
  have ix: "slot_ix h = length (y_acc s) mod 4096"
    using assms by (simp add: shared_inv_def slot_ix_of_nat)
  have "k mod 4096 \<noteq> slot_ix h" if "y_rel s \<le> k" "k < length (y_acc s)" for k
    unfolding ix using that assms(2) by (intro slot_ix_neq) auto
  then have "(r_slot (y_ring s))[slot_ix h := x] ! (k mod 4096) = r_slot (y_ring s) ! (k mod 4096)"
    if "y_rel s \<le> k" "k < length (y_acc s)" for k
    using that by (metis nth_list_update_neq)
  then show ?thesis using assms(1) unfolding shared_inv_def by simp
qed

text \<open>What a step of one party leaves of the others' claims.\<close>

lemma cons_inv_mono:
  assumes "cons_inv s c" and "r_tail (y_ring s') = r_tail (y_ring s)" and "y_rel s' = y_rel s"
    and "length (y_acc s) \<le> length (y_acc s')"
  shows "cons_inv s' c"
  using assms by (cases c) (auto simp: head_read_def intro: order_trans)

lemma prod_inv_mono:
  assumes "prod_inv s p" and "r_head (y_ring s') = r_head (y_ring s)"
    and "r_slot (y_ring s') = r_slot (y_ring s)" and "y_acc s' = y_acc s" and "y_rel s \<le> y_rel s'"
  shows "prod_inv s' p"
  using assms by (cases p) (auto intro: order_trans)

lemma obs_inv_mono: "obs_inv s b \<Longrightarrow> y_rel s \<le> y_rel s' \<Longrightarrow> obs_inv s' b"
  by (cases b) (auto intro: order_trans)

lemma log_inv_mono:
  assumes "log_inv s" and "y_acc s' = y_acc s @ xs" and "y_got s' = y_got s" and "y_seen s' = y_seen s"
  shows "log_inv s'"
  using assms unfolding log_inv_def by (fastforce simp: nth_append)

lemmas inv_mono = cons_inv_mono prod_inv_mono obs_inv_mono log_inv_mono [where xs = "[]"]

lemma sys_inv_prodI:
  assumes "sys_inv s" and "shared_inv s'" and "prod_inv s' (y_prod s')"
    and "y_cons s' = y_cons s" "y_obs s' = y_obs s" "r_tail (y_ring s') = r_tail (y_ring s)"
    "y_rel s' = y_rel s" "y_acc s' = y_acc s @ xs" "y_got s' = y_got s" "y_seen s' = y_seen s"
  shows "sys_inv s'"
  using assms unfolding sys_inv_def
  by (auto intro: cons_inv_mono [of s] obs_inv_mono [of s] log_inv_mono [of s])

lemma publish_shared:
  assumes "shared_inv s" and "prod_inv s (P_Publish x h)"
  shows "shared_inv (s\<lparr>y_prod := P_Idle, y_ring := (y_ring s)\<lparr>r_head := h + 1\<rparr>,
      y_acc := y_acc s @ [x\<lparr>sl_seq := h\<rparr>]\<rparr>)"
proof -
  have h: "h = word_of_nat (length (y_acc s))" using assms by (simp add: shared_inv_def)
  then have "r_slot (y_ring s) ! (length (y_acc s) mod 4096) = x\<lparr>sl_seq := h\<rparr>"
    using assms by (simp add: slot_ix_of_nat)
  then show ?thesis
    using assms h unfolding shared_inv_def by (auto simp: nth_append less_Suc_eq add.commute)
qed

lemma prod_step_inv:
  assumes "prod_step s s'" and "sys_inv s"
  shows "sys_inv s'"
  using assms
proof (induction rule: prod_step.induct)
  case (reject s x)
  then show ?case
    by - (rule sys_inv_prodI [where s = s and xs = "[]"], auto simp: sys_inv_def shared_inv_def)
next
  case (load_head s x)
  then show ?case
    by - (rule sys_inv_prodI [where s = s and xs = "[]"], auto simp: sys_inv_def shared_inv_def)
next
  case (load_tail s x h)
  then show ?case
    by - (rule sys_inv_prodI [where s = s and xs = "[]"], auto simp: sys_inv_def shared_inv_def)
next
  case (full s x h t)
  then show ?case
    by - (rule sys_inv_prodI [where s = s and xs = "[]"], auto simp: sys_inv_def shared_inv_def)
next
  case (room s x h t)
  then obtain m where m: "m \<le> y_rel s" "t = word_of_nat m" "length (y_acc s) \<le> m + 4096"
    and h: "h = word_of_nat (length (y_acc s))" "y_rel s \<le> length (y_acc s)"
    by (auto simp: sys_inv_def shared_inv_def)
  then have "unat (h - t) = length (y_acc s) - m"
    unfolding h(1) m(2) by (intro unat_diff_of_nat) auto
  then have "length (y_acc s) < y_rel s + 4096"
    using room m h by (auto simp: word_le_nat_alt)
  with room show ?case
    by - (rule sys_inv_prodI [where s = s and xs = "[]"], auto simp: sys_inv_def shared_inv_def)
next
  case (tear s x h junk)
  then have "shared_inv (s\<lparr>y_prod := P_Copy x h, y_ring := set_slot (y_ring s) h junk\<rparr>)"
    by (intro shared_inv_set_slot) (auto simp: sys_inv_def)
  with tear show ?case
    by - (rule sys_inv_prodI [where s = s and xs = "[]"], auto simp: sys_inv_def)
next
  case (copy s x h)
  then have "shared_inv (s\<lparr>y_prod := P_Number x h, y_ring := set_slot (y_ring s) h x\<rparr>)"
    by (intro shared_inv_set_slot) (auto simp: sys_inv_def)
  with copy show ?case
    by - (rule sys_inv_prodI [where s = s and xs = "[]"], auto simp: sys_inv_def shared_inv_def)
next
  case (number s x h)
  then have "shared_inv (s\<lparr>y_prod := P_Publish x h,
      y_ring := set_slot (y_ring s) h ((r_slot (y_ring s) ! slot_ix h)\<lparr>sl_seq := h\<rparr>)\<rparr>)"
    by (intro shared_inv_set_slot) (auto simp: sys_inv_def)
  with number show ?case
    by - (rule sys_inv_prodI [where s = s and xs = "[]"], auto simp: sys_inv_def shared_inv_def)
next
  case (publish s x h)
  then have "shared_inv (s\<lparr>y_prod := P_Idle, y_ring := (y_ring s)\<lparr>r_head := h + 1\<rparr>,
      y_acc := y_acc s @ [x\<lparr>sl_seq := h\<rparr>]\<rparr>)"
    by (intro publish_shared) (auto simp: sys_inv_def)
  with publish show ?case
    by - (rule sys_inv_prodI [where s = s and xs = "[x\<lparr>sl_seq := h\<rparr>]"], auto simp: sys_inv_def)
qed

text \<open>What the consumer may do after its test.\<close>

lemma head_read_diff:
  assumes "shared_inv s" and "head_read s h" and "t = r_tail (y_ring s)"
  shows "unat (h - t) \<le> length (y_acc s) - y_rel s"
proof -
  obtain m where m: "y_rel s \<le> m" "h = word_of_nat m" "m \<le> length (y_acc s)"
    using assms(2) by (auto simp: head_read_def)
  have t: "t = word_of_nat (y_rel s)" using assms by (simp add: shared_inv_def)
  have "unat (h - t) = m - y_rel s"
    unfolding m(2) t using m assms(1) by (intro unat_diff_of_nat) (auto simp: shared_inv_def)
  then show ?thesis using m by simp
qed

lemma peek_reads:
  assumes "shared_inv s" and "cons_inv s (C_PeekTest i t h)" and "\<not> h - t \<le> i"
  shows "y_rel s + unat i < length (y_acc s)"
    and "slot_ix (t + i) = (y_rel s + unat i) mod 4096"
    and "r_slot (y_ring s) ! slot_ix (t + i) = y_acc s ! (y_rel s + unat i)"
proof -
  have t: "t = word_of_nat (y_rel s)" using assms by (simp add: shared_inv_def)
  have "unat i < unat (h - t)" using assms(3) by (simp add: word_le_nat_alt)
  then show k: "y_rel s + unat i < length (y_acc s)"
    using head_read_diff [OF assms(1), of h t] assms(2) by auto
  have "t + i = word_of_nat (y_rel s + unat i)" using t by simp
  then show "slot_ix (t + i) = (y_rel s + unat i) mod 4096"
    using slot_ix_of_nat by metis
  then show "r_slot (y_ring s) ! slot_ix (t + i) = y_acc s ! (y_rel s + unat i)"
    using assms(1) k by (simp add: shared_inv_def)
qed

lemma sys_inv_consI:
  assumes "sys_inv s" and "cons_inv s' (y_cons s')" and "shared_inv s'" and "log_inv s'"
    and "y_prod s' = y_prod s" "y_obs s' = y_obs s" "y_acc s' = y_acc s" "y_rel s \<le> y_rel s'"
    "r_head (y_ring s') = r_head (y_ring s)" "r_slot (y_ring s') = r_slot (y_ring s)"
  shows "sys_inv s'"
  using assms unfolding sys_inv_def
  by (auto intro: prod_inv_mono [of s] obs_inv_mono [of s])

lemma sys_inv_cons_pc:
  assumes "sys_inv s" and "cons_inv s c"
  shows "sys_inv (s\<lparr>y_cons := c\<rparr>)"
proof -
  have "cons_inv (s\<lparr>y_cons := c\<rparr>) c" using assms(2) by (rule cons_inv_mono) auto
  moreover have "shared_inv (s\<lparr>y_cons := c\<rparr>)" "log_inv (s\<lparr>y_cons := c\<rparr>)"
    using assms(1) by (auto simp: sys_inv_def shared_inv_def log_inv_def)
  ultimately show ?thesis using assms(1) by - (rule sys_inv_consI [where s = s], auto)
qed

lemma cons_step_inv:
  assumes "cons_step s s'" and "sys_inv s"
  shows "sys_inv s'"
  using assms
proof (induction rule: cons_step.induct)
  case (peek_copy s i t h)
  then have "log_inv (s\<lparr>y_cons := C_Idle,
      y_got := y_got s @ [(y_rel s + unat i, r_slot (y_ring s) ! slot_ix (t + i))]\<rparr>)"
    using peek_reads [of s i t h] by (auto simp: sys_inv_def log_inv_def)
  with peek_copy show ?case
    by - (rule sys_inv_consI [where s = s], auto simp: sys_inv_def shared_inv_def)
next
  case (rel_store s n t h)
  then have "unat n \<le> length (y_acc s) - y_rel s"
    using head_read_diff [of s h t] by (auto simp: sys_inv_def word_less_nat_alt not_less)
  then have "shared_inv (s\<lparr>y_cons := C_Idle, y_ring := (y_ring s)\<lparr>r_tail := t + n\<rparr>,
      y_rel := y_rel s + unat n\<rparr>)"
    using rel_store by (auto simp: sys_inv_def shared_inv_def)
  with rel_store show ?case
    by - (rule sys_inv_consI [where s = s], auto simp: sys_inv_def intro: log_inv_mono [of s _ "[]"])
qed (rule sys_inv_cons_pc, assumption, force simp: sys_inv_def shared_inv_def head_read_def)+

lemma obs_step_inv:
  assumes "obs_step s s'" and "sys_inv s"
  shows "sys_inv s'"
  using assms
proof (induction rule: obs_step.induct)
  case (depth_tail s)
  then show ?case
    by (auto simp: sys_inv_def shared_inv_def log_inv_def intro: cons_inv_mono [of s] prod_inv_mono [of s])
next
  case (depth_head s t)
  then obtain m where "m \<le> y_rel s" "t = word_of_nat m" by (auto simp: sys_inv_def)
  then have "r_head (y_ring s) - t = word_of_nat (length (y_acc s) - m)"
    "length (y_acc s) - y_rel s \<le> length (y_acc s) - m"
    using depth_head by (auto simp: sys_inv_def shared_inv_def)
  then have "log_inv (s\<lparr>y_obs := O_Idle,
      y_seen := y_seen s @ [(r_head (y_ring s) - t, length (y_acc s) - y_rel s)]\<rparr>)"
    using depth_head unfolding sys_inv_def log_inv_def by (auto intro!: exI [of _ "length (y_acc s) - m"])
  with depth_head show ?case
    by (auto simp: sys_inv_def shared_inv_def intro: cons_inv_mono [of s] prod_inv_mono [of s])
qed

theorem ring_reach_inv: "ring_reach r s \<Longrightarrow> sys_inv s"
  by (induction rule: ring_reach.induct)
    (auto intro: sys_inv_start prod_step_inv cons_step_inv obs_step_inv)

section \<open>A call run without interruption\<close>

text \<open>
  Run alone, the steps of \<open>ring_push\<close> from its call to its return do what the function does.
\<close>

lemma push_steps:
  assumes "y_prod s = P_Idle" and "length (r_slot (y_ring s)) = 4096"
    and "ring_push (y_ring s) x = (r', ok)"
  shows "prod_step\<^sup>*\<^sup>* s (s\<lparr>y_ring := r',
      y_acc := y_acc s @ (if ok then [stored_slot (y_ring s) x] else [])\<rparr>)"
proof (cases "SRC_IS_VALID (sl_src x)")
  case False
  then show ?thesis using assms prod_step.reject [of s x] by (simp add: ring_push_def r_into_rtranclp)
next
  case valid: True
  let ?r = "y_ring s" and ?h = "r_head (y_ring s)" and ?t = "r_tail (y_ring s)"
  have "prod_step\<^sup>*\<^sup>* s (s\<lparr>y_prod := P_Test x ?h ?t\<rparr>)"
    using prod_step.load_head [OF assms(1) valid]
      prod_step.load_tail [of "s\<lparr>y_prod := P_LoadTail x ?h\<rparr>" x ?h] by (auto intro: rtranclp.intros)
  moreover have "prod_step\<^sup>*\<^sup>* (s\<lparr>y_prod := P_Test x ?h ?t\<rparr>) (s\<lparr>y_ring := r',
      y_acc := y_acc s @ (if ok then [stored_slot ?r x] else [])\<rparr>)"
  proof (cases "?h - ?t \<ge> RING_CAPACITY")
    case True
    then have "r' = ?r\<lparr>r_overruns := r_overruns ?r + 1\<rparr>" "\<not> ok"
      using assms(3) valid by (auto simp: ring_push_def Let_def)
    then show ?thesis
      using prod_step.full [of "s\<lparr>y_prod := P_Test x ?h ?t\<rparr>" x ?h ?t] True assms(1)
      by (cases s) (simp add: r_into_rtranclp)
  next
    case False
    let ?s1 = "s\<lparr>y_prod := P_Copy x ?h\<rparr>"
    let ?s2 = "s\<lparr>y_prod := P_Number x ?h, y_ring := set_slot ?r ?h x\<rparr>"
    let ?s3 = "s\<lparr>y_prod := P_Publish x ?h, y_ring := set_slot ?r ?h (stored_slot ?r x)\<rparr>"
    have r': "r' = (set_slot ?r ?h (stored_slot ?r x))\<lparr>r_head := ?h + 1\<rparr>" and ok
      using assms(2,3) valid False by (auto simp: ring_push_def Let_def stored_slot_def)
    have "prod_step (s\<lparr>y_prod := P_Test x ?h ?t\<rparr>) ?s1"
      using prod_step.room [of "s\<lparr>y_prod := P_Test x ?h ?t\<rparr>" x ?h ?t] False by simp
    moreover have "prod_step ?s1 ?s2" using prod_step.copy [of ?s1 x ?h] by simp
    moreover have "prod_step ?s2 ?s3"
      using prod_step.number [of ?s2 x ?h] assms(2) by (simp add: stored_slot_def)
    moreover have "prod_step ?s3 (s\<lparr>y_ring := r', y_acc := y_acc s @ [stored_slot ?r x]\<rparr>)"
      using prod_step.publish [of ?s3 x ?h] assms(1) by (cases s) (simp add: r' stored_slot_def)
    ultimately show ?thesis using \<open>ok\<close> by (auto intro: rtranclp.intros)
  qed
  ultimately show ?thesis by (rule rtranclp_trans)
qed

lemma reach_prod_steps: "prod_step\<^sup>*\<^sup>* s s' \<Longrightarrow> ring_reach r s \<Longrightarrow> ring_reach r s'"
  by (induction rule: rtranclp_induct) (auto intro: by_prod)

section \<open>A run with one sample\<close>

text \<open>Shared memory as \<open>ftruncate\<close> leaves it, and a sample with a label.\<close>

definition zero_ring :: ring where
  "zero_ring = \<lparr>r_magic = 0, r_version = 0, r_slot_size = 0, r_capacity = 0, r_generation = 0,
     r_head = 0, r_tail = 0, r_overruns = 0, r_rejected = 0, r_slot = replicate 4096 zero_slot\<rparr>"

definition live_slot :: ring_slot where
  "live_slot = zero_slot\<lparr>sl_src := SRC_LIVE, sl_mono_ns := 5, sl_seq := 99\<rparr>"

lemma one_push:
  "ring_push (ring_init zero_ring) live_slot =
     ((ring_init zero_ring)\<lparr>r_head := 1, r_slot := (replicate 4096 zero_slot)[0 := live_slot\<lparr>sl_seq := 0\<rparr>]\<rparr>, True)"
  by (simp add: ring_push_def live_slot_def SRC_IS_VALID_def ring_init_def Let_def slot_ix_def)

lemma one_peeked:
  "\<exists>s. ring_reach zero_ring s \<and> y_prod s = P_Copy live_slot 1 \<and> y_cons s = C_PeekTest 0 0 1 \<and>
     y_acc s = [live_slot\<lparr>sl_seq := 0\<rparr>] \<and> y_got s = [(0, live_slot\<lparr>sl_seq := 0\<rparr>)] \<and> y_rel s = 0 \<and>
     y_seen s = [(1, 1)]"
proof -
  let ?x = "live_slot\<lparr>sl_seq := 0\<rparr>"
  let ?r = "(ring_init zero_ring)\<lparr>r_head := 1, r_slot := (replicate 4096 zero_slot)[0 := ?x]\<rparr>"
  let ?s = "(ring_start zero_ring)\<lparr>y_ring := ?r, y_acc := [?x]\<rparr>"
  have "prod_step\<^sup>*\<^sup>* (ring_start zero_ring) ?s"
    using push_steps [of "ring_start zero_ring" live_slot] one_push
    by (simp add: ring_start_def ring_init_def stored_slot_def)
  then have s0: "ring_reach zero_ring ?s" using reach_prod_steps start by blast
  have valid: "SRC_IS_VALID (sl_src live_slot)" by (simp add: live_slot_def SRC_IS_VALID_def)
  have s1: "ring_reach zero_ring (?s\<lparr>y_obs := O_Head 0\<rparr>)"
    using by_obs [OF s0 obs_step.depth_tail] by (simp add: ring_start_def ring_init_def)
  have s2: "ring_reach zero_ring (?s\<lparr>y_seen := [(1, 1)]\<rparr>)"
    using by_obs [OF s1 obs_step.depth_head [of _ 0]] by (simp add: ring_start_def ring_init_def)
  let ?t = "?s\<lparr>y_seen := [(1, 1)]\<rparr>"
  have s3: "ring_reach zero_ring (?t\<lparr>y_cons := C_PeekHead 0 0\<rparr>)"
    using by_cons [OF s2 cons_step.peek_tail [of _ 0]] by (simp add: ring_start_def ring_init_def)
  have s4: "ring_reach zero_ring (?t\<lparr>y_cons := C_PeekTest 0 0 1\<rparr>)"
    using by_cons [OF s3 cons_step.peek_head [of _ 0 0]] by (simp add: ring_start_def ring_init_def)
  have s5: "ring_reach zero_ring (?t\<lparr>y_got := [(0, ?x)]\<rparr>)"
    using by_cons [OF s4 cons_step.peek_copy [of _ 0 0 1]]
    by (simp add: ring_start_def ring_init_def slot_ix_def)
  let ?u = "?t\<lparr>y_got := [(0, ?x)]\<rparr>"
  have s6: "ring_reach zero_ring (?u\<lparr>y_cons := C_PeekHead 0 0\<rparr>)"
    using by_cons [OF s5 cons_step.peek_tail [of _ 0]] by (simp add: ring_start_def ring_init_def)
  have s7: "ring_reach zero_ring (?u\<lparr>y_cons := C_PeekTest 0 0 1\<rparr>)"
    using by_cons [OF s6 cons_step.peek_head [of _ 0 0]] by (simp add: ring_start_def ring_init_def)
  let ?v = "?u\<lparr>y_cons := C_PeekTest 0 0 1\<rparr>"
  have s8: "ring_reach zero_ring (?v\<lparr>y_prod := P_LoadTail live_slot 1\<rparr>)"
    using by_prod [OF s7 prod_step.load_head [OF _ valid]] by (simp add: ring_start_def ring_init_def)
  have s9: "ring_reach zero_ring (?v\<lparr>y_prod := P_Test live_slot 1 0\<rparr>)"
    using by_prod [OF s8 prod_step.load_tail [of _ live_slot 1]] by (simp add: ring_start_def ring_init_def)
  have "ring_reach zero_ring (?v\<lparr>y_prod := P_Copy live_slot 1\<rparr>)"
    using by_prod [OF s9 prod_step.room [of _ live_slot 1 0]]
    by (simp add: ring_start_def ring_init_def word_le_nat_alt)
  then show ?thesis by (intro exI [of _ "?v\<lparr>y_prod := P_Copy live_slot 1\<rparr>"]) (simp add: ring_start_def)
qed

section \<open>Properties\<close>

text \<open>C3: however producer, consumer and observer interleave, nothing is lost, torn, reordered or
  counted twice. Every slot the consumer copied for position \<open>k\<close> is the \<open>k\<close>-th slot that was
  accepted, unaltered and numbered \<open>k\<close>; the released ones are a prefix of the accepted ones, and
  at most a ring's worth is waiting.\<close>

theorem ring_no_loss:
  assumes "ring_reach r s"
  shows "(\<forall>(k, x) \<in> set (y_got s).
      k < length (y_acc s) \<and> x = y_acc s ! k \<and> sl_seq x = word_of_nat k \<and> SRC_IS_VALID (sl_src x)) \<and>
    y_rel s \<le> length (y_acc s) \<and> length (y_acc s) \<le> y_rel s + 4096"
proof -
  have inv: "shared_inv s" "log_inv s"
    using ring_reach_inv [OF assms] by (auto simp: sys_inv_def)
  then show ?thesis unfolding shared_inv_def log_inv_def by fastforce
qed

theorem ring_no_loss_witness:
  "\<exists>s. ring_reach zero_ring s \<and> (0, live_slot\<lparr>sl_seq := 0\<rparr>) \<in> set (y_got s) \<and>
     y_acc s ! 0 = live_slot\<lparr>sl_seq := 0\<rparr> \<and> y_rel s \<le> length (y_acc s)"
proof -
  obtain s where s: "ring_reach zero_ring s" "y_got s = [(0, live_slot\<lparr>sl_seq := 0\<rparr>)]"
    using one_peeked by blast
  show ?thesis using s ring_no_loss [OF s(1)] by auto
qed

text \<open>C7: no data race on a slot. While the producer is writing a slot, the consumer is never about
  to read that one, so a half-written slot is never seen.\<close>

theorem ring_race_free:
  assumes "ring_reach r s"
    and "y_prod s = P_Copy x h \<or> y_prod s = P_Number x h \<or> y_prod s = P_Publish x h"
    and "y_cons s = C_PeekTest i t h'" and "\<not> h' - t \<le> i"
  shows "slot_ix (t + i) \<noteq> slot_ix h"
proof -
  have inv: "shared_inv s" "prod_inv s (y_prod s)" "cons_inv s (C_PeekTest i t h')"
    using ring_reach_inv [OF assms(1)] assms(3) by (auto simp: sys_inv_def)
  then have h: "slot_ix h = length (y_acc s) mod 4096" and room: "length (y_acc s) < y_rel s + 4096"
    using assms(2) by (auto simp: shared_inv_def slot_ix_of_nat)
  note k = peek_reads [OF inv(1,3) assms(4)]
  show ?thesis unfolding h k(2) using k(1) room by (intro slot_ix_neq) auto
qed

theorem ring_race_free_witness:
  "\<exists>s. ring_reach zero_ring s \<and> y_prod s = P_Copy live_slot 1 \<and> y_cons s = C_PeekTest 0 0 1 \<and>
     slot_ix (0 + 0) \<noteq> slot_ix 1"
proof -
  obtain s where s: "ring_reach zero_ring s" "y_prod s = P_Copy live_slot 1" "y_cons s = C_PeekTest 0 0 1"
    using one_peeked by blast
  show ?thesis using s ring_race_free [OF s(1) _ s(3), of live_slot 1] by auto
qed

text \<open>A third party that reads the depth while both sides move (tail first, then head, as
  \<open>ring_depth\<close> does) gets at least the number of slots unread when it finishes, and never a
  wrapped-around value: at most the number of slots ever accepted.\<close>

theorem ring_depth_never_wraps:
  assumes "ring_reach r s" and "(d, n) \<in> set (y_seen s)" and "length (y_acc s) < 2 ^ 64"
  shows "n \<le> unat d \<and> unat d \<le> length (y_acc s)"
proof -
  obtain m where "n \<le> m" "m \<le> length (y_acc s)" "d = word_of_nat m"
    using ring_reach_inv [OF assms(1)] assms(2) by (auto simp: sys_inv_def log_inv_def)
  then show ?thesis using assms(3) by (simp add: unat_of_nat_u64)
qed

theorem ring_depth_never_wraps_witness:
  "\<exists>s. ring_reach zero_ring s \<and> (1, 1) \<in> set (y_seen s) \<and> (1 :: nat) \<le> unat (1 :: u64) \<and>
     unat (1 :: u64) \<le> length (y_acc s)"
proof -
  obtain s where s: "ring_reach zero_ring s" "y_seen s = [(1, 1)]" "length (y_acc s) = 1"
    using one_peeked by (metis length_Cons list.size(3) One_nat_def)
  show ?thesis using s ring_depth_never_wraps [OF s(1), of 1 1] by auto
qed

text \<open>\<open>ring_push\<close> as a function is one of the runs of its steps: from a call in any state, the
  producer's steps taken without interruption end in the ring the function returns, with the
  slot it stored as the newest accepted one exactly when the function returns true.\<close>

theorem ring_push_steps_refine:
  assumes "ring_reach r s" and "y_prod s = P_Idle" and "ring_push (y_ring s) x = (r', ok)"
  shows "\<exists>s'. prod_step\<^sup>*\<^sup>* s s' \<and> ring_reach r s' \<and> y_ring s' = r' \<and> y_prod s' = P_Idle \<and>
    y_acc s' = y_acc s @ (if ok then [stored_slot (y_ring s) x] else [])"
proof -
  let ?s = "s\<lparr>y_ring := r', y_acc := y_acc s @ (if ok then [stored_slot (y_ring s) x] else [])\<rparr>"
  have "length (r_slot (y_ring s)) = 4096"
    using ring_reach_inv [OF assms(1)] by (simp add: sys_inv_def shared_inv_def)
  then have "prod_step\<^sup>*\<^sup>* s ?s" using push_steps assms(2,3) by blast
  then show ?thesis using reach_prod_steps assms(1,2) by (intro exI [of _ ?s]) auto
qed

theorem ring_push_steps_refine_witness:
  "\<exists>s'. prod_step\<^sup>*\<^sup>* (ring_start zero_ring) s' \<and> ring_reach zero_ring s' \<and>
     y_ring s' = fst (ring_push (ring_init zero_ring) live_slot) \<and>
     y_acc s' = [live_slot\<lparr>sl_seq := 0\<rparr>]"
  using ring_push_steps_refine [OF start, of zero_ring live_slot] one_push
  by (auto simp: ring_start_def stored_slot_def ring_init_def)

end
