(* ===== verification/Json.thy ===== *)
theory Json
  imports C_Text
begin

text \<open>
  The JSON writer: \<open>include/interface/json.h\<close> and \<open>src/interface/json.c\<close>. A \<open>json\<close> is \<open>json_t\<close>,
  its buffer kept as the text written so far, so \<open>j->len\<close> is its length and the NUL after it is
  implicit. A \<open>string\<close> argument is the C string before its NUL, \<open>None\<close> a null pointer. The two
  arrays of the struct are lists of eight. Printing a double is the C library's: a double is given by
  what \<open>isfinite\<close>, \<open>%.*g\<close> and \<open>strtod\<close> make of it (\<open>dbl\<close>).

  The meaning of the writer is a tree: see \<open>Json_Tree\<close>.
\<close>

section \<open>State\<close>

abbreviation (input) JSON_MAX_DEPTH :: nat where "JSON_MAX_DEPTH \<equiv> 8"

record json =
  j_cap :: nat
  j_buf :: string
  j_depth :: nat
  j_is_object :: "bool list"
  j_has_item :: "bool list"
  j_after_key :: bool
  j_done :: bool
  j_failed :: bool

section \<open>The writer\<close>

definition fail :: "json \<Rightarrow> json" where
  "fail j = j\<lparr>j_failed := True\<rparr>"

definition put :: "string \<Rightarrow> json \<Rightarrow> json" where
  "put s j =
     (if j_failed j then j
      else if length s \<ge> j_cap j - length (j_buf j) then fail j
      else j\<lparr>j_buf := j_buf j @ s\<rparr>)"

definition put_char :: "char \<Rightarrow> json \<Rightarrow> json" where
  "put_char c j = put [c] j"

definition begin_value :: "json \<Rightarrow> bool \<times> json" where
  "begin_value j =
     (if j_failed j then (False, j)
      else if j_depth j = 0 then (if j_done j then (False, fail j) else (True, j))
      else let top = j_depth j - 1
           in if j_is_object j ! top then
                if \<not> j_after_key j then (False, fail j) else (True, j\<lparr>j_after_key := False\<rparr>)
              else let j1 = (if j_has_item j ! top then put_char CHR '','' j else j);
                       j2 = j1\<lparr>j_has_item := (j_has_item j1)[top := True]\<rparr>
                   in (\<not> j_failed j2, j2))"

definition end_value :: "json \<Rightarrow> json" where
  "end_value j = (if j_depth j = 0 then j\<lparr>j_done := True\<rparr> else j)"

definition put_scalar :: "string \<Rightarrow> json \<Rightarrow> json" where
  "put_scalar text0 j =
     (case begin_value j of (good, j1) \<Rightarrow> if \<not> good then j1 else end_value (put text0 j1))"

text \<open>What the loop of \<open>put_quoted\<close> writes for one ASCII character.\<close>

definition esc :: "char \<Rightarrow> string" where
  "esc c =
     (let n = of_char c :: nat
      in if n = 0x22 then [CHR 0x5C, CHR 0x22]
         else if n = 0x5C then [CHR 0x5C, CHR 0x5C]
         else if n = 8 then CHR 0x5C # ''b''
         else if n = 12 then CHR 0x5C # ''f''
         else if n = 10 then CHR 0x5C # ''n''
         else if n = 13 then CHR 0x5C # ''r''
         else if n = 9 then CHR 0x5C # ''t''
         else if n < 0x20 \<or> n = 0x7F then fst (snprintf 8 (CHR 0x5C # ''u'' @ zero_pad 4 (fmt_x (of_nat n :: u8))))
         else [c])"

fun put_escaped :: "string \<Rightarrow> json \<Rightarrow> json" where
  "put_escaped [] j = put_char CHR 0x22 j"
| "put_escaped (c # cs) j =
     (if j_failed j then put_char CHR 0x22 j
      else if (of_char c :: nat) \<ge> 0x80 then fail j
      else put_escaped cs (put (esc c) j))"

definition put_quoted :: "string option \<Rightarrow> json \<Rightarrow> json" where
  "put_quoted s j = (case s of None \<Rightarrow> fail j | Some s \<Rightarrow> put_escaped s (put_char CHR 0x22 j))"

definition json_init :: "nat \<Rightarrow> json" where
  "json_init cap =
     (let j = \<lparr>j_cap = cap, j_buf = [], j_depth = 0, j_is_object = replicate JSON_MAX_DEPTH False,
               j_has_item = replicate JSON_MAX_DEPTH False, j_after_key = False, j_done = False,
               j_failed = False\<rparr>
      in if cap = 0 then fail j else j)"

definition begin_container :: "bool \<Rightarrow> json \<Rightarrow> json" where
  "begin_container object j =
     (case begin_value j of (good, j1) \<Rightarrow>
        if \<not> good then j1
        else if j_depth j1 \<ge> JSON_MAX_DEPTH then fail j1
        else put_char (if object then CHR ''{'' else CHR ''['')
               (j1\<lparr>j_is_object := (j_is_object j1)[j_depth j1 := object],
                   j_has_item := (j_has_item j1)[j_depth j1 := False],
                   j_depth := j_depth j1 + 1\<rparr>))"

definition end_container :: "bool \<Rightarrow> json \<Rightarrow> json" where
  "end_container object j =
     (if j_failed j then j
      else if j_depth j = 0 \<or> j_is_object j ! (j_depth j - 1) \<noteq> object \<or> j_after_key j then fail j
      else end_value (put_char (if object then CHR ''}'' else CHR '']'') (j\<lparr>j_depth := j_depth j - 1\<rparr>)))"

definition json_begin_object :: "json \<Rightarrow> json" where "json_begin_object = begin_container True"
definition json_end_object :: "json \<Rightarrow> json" where "json_end_object = end_container True"
definition json_begin_array :: "json \<Rightarrow> json" where "json_begin_array = begin_container False"
definition json_end_array :: "json \<Rightarrow> json" where "json_end_array = end_container False"

definition json_key :: "string option \<Rightarrow> json \<Rightarrow> json" where
  "json_key key j =
     (if j_failed j then j
      else if key = None \<or> j_depth j = 0 \<or> \<not> j_is_object j ! (j_depth j - 1) \<or> j_after_key j then fail j
      else let top = j_depth j - 1;
               j1 = (if j_has_item j ! top then put_char CHR '','' j else j);
               j2 = j1\<lparr>j_has_item := (j_has_item j1)[top := True]\<rparr>;
               j3 = put_char CHR '':'' (put_quoted key j2)
           in j3\<lparr>j_after_key := True\<rparr>)"

definition json_string :: "string option \<Rightarrow> json \<Rightarrow> json" where
  "json_string s j =
     (case begin_value j of (good, j1) \<Rightarrow> if \<not> good then j1 else end_value (put_quoted s j1))"

definition json_int :: "64 word \<Rightarrow> json \<Rightarrow> json" where
  "json_int v = put_scalar (fst (snprintf 32 (fmt_d v)))"

definition json_uint :: "u64 \<Rightarrow> json \<Rightarrow> json" where
  "json_uint v = put_scalar (fst (snprintf 32 (fmt_u v)))"

text \<open>A double \<open>v\<close>: \<open>isfinite(v)\<close>, the text that \<open>%.*g\<close> prints of it for a precision, and whether \<open>strtod\<close> of a
  text is equal to it.\<close>

record dbl =
  d_isfinite :: bool
  d_fmt_g :: "nat \<Rightarrow> string"
  d_strtod_eq :: "string \<Rightarrow> bool"

text \<open>The loop over 15, 16 and 17 digits: the first text that reads back as the value.\<close>

fun shortest_g :: "dbl \<Rightarrow> nat list \<Rightarrow> string \<Rightarrow> string" where
  "shortest_g v [] tmp = tmp"
| "shortest_g v (prec # precs) tmp =
     (let tmp1 = fst (snprintf 40 (d_fmt_g v prec))
      in if d_strtod_eq v tmp1 then tmp1 else shortest_g v precs tmp1)"

definition json_double :: "dbl \<Rightarrow> json \<Rightarrow> json" where
  "json_double v j = (if \<not> d_isfinite v then fail j else put_scalar (shortest_g v [15..<18] []) j)"

definition json_bool :: "bool \<Rightarrow> json \<Rightarrow> json" where
  "json_bool v = put_scalar (if v then ''true'' else ''false'')"

definition json_null :: "json \<Rightarrow> json" where
  "json_null = put_scalar ''null''"

text \<open>\<open>json_is_number\<close> walks a pointer over the text; here the pointer is the rest of the text.\<close>

definition is_digit :: "char \<Rightarrow> bool" where
  "is_digit c \<longleftrightarrow> CHR ''0'' \<le> c \<and> c \<le> CHR ''9''"

definition skip_digits :: "string \<Rightarrow> string" where
  "skip_digits p = dropWhile is_digit p"

definition some_digits :: "string \<Rightarrow> string option" where
  "some_digits p = (case p of c # _ \<Rightarrow> if is_digit c then Some (skip_digits p) else None | [] \<Rightarrow> None)"

definition skip_sign :: "string \<Rightarrow> string" where
  "skip_sign p = (case p of c # q \<Rightarrow> if c = CHR ''-'' then q else p | [] \<Rightarrow> p)"

definition int_part :: "string \<Rightarrow> string option" where
  "int_part p =
     (case p of
        c # q \<Rightarrow> if c = CHR ''0'' then Some q
                 else if CHR ''1'' \<le> c \<and> c \<le> CHR ''9'' then Some (skip_digits p) else None
      | [] \<Rightarrow> None)"

definition frac_part :: "string \<Rightarrow> string option" where
  "frac_part p = (case p of c # q \<Rightarrow> if c = CHR ''.'' then some_digits q else Some p | [] \<Rightarrow> Some p)"

definition exp_part :: "string \<Rightarrow> string option" where
  "exp_part p =
     (case p of
        c # q \<Rightarrow> if c = CHR ''e'' \<or> c = CHR ''E''
                 then some_digits (case q of d # r \<Rightarrow> if d = CHR ''+'' \<or> d = CHR ''-'' then r else q | [] \<Rightarrow> q)
                 else Some p
      | [] \<Rightarrow> Some p)"

definition json_is_number :: "string option \<Rightarrow> bool" where
  "json_is_number text0 =
     (case text0 of
        None \<Rightarrow> False
      | Some p \<Rightarrow>
          (case int_part (skip_sign p) of
             None \<Rightarrow> False
           | Some p \<Rightarrow>
               (case frac_part p of
                  None \<Rightarrow> False
                | Some p \<Rightarrow> (case exp_part p of None \<Rightarrow> False | Some p \<Rightarrow> p = []))))"

definition json_number :: "string option \<Rightarrow> json \<Rightarrow> json" where
  "json_number text0 j = (if \<not> json_is_number text0 then fail j else put_scalar (the text0) j)"

definition json_finish :: "json \<Rightarrow> nat option" where
  "json_finish j = (if j_failed j \<or> j_depth j \<noteq> 0 \<or> \<not> j_done j then None else Some (length (j_buf j)))"

end
