(* ===== verification/Kv.thy ===== *)
theory Kv
  imports Json
begin

text \<open>
  The control socket's reply lines: \<open>include/interface/kv.h\<close> and \<open>src/interface/kv.c\<close>. A buffer
  \<open>s[0, len)\<close> is a list of characters, a fixed-size field of \<open>kv_line_t\<close> the C string it holds, and
  the array of fields with \<open>nfields\<close> a list. \<open>kv_parse_line\<close> returns the kind and what \<open>*out\<close> is
  left with, also when the line is refused half way.
\<close>

section \<open>State\<close>

abbreviation (input) KV_MAX_LINE :: nat where "KV_MAX_LINE \<equiv> 512"
abbreviation (input) KV_MAX_FIELDS :: nat where "KV_MAX_FIELDS \<equiv> 16"
abbreviation (input) KV_MAX_TAG :: nat where "KV_MAX_TAG \<equiv> 24"
abbreviation (input) KV_MAX_KEY :: nat where "KV_MAX_KEY \<equiv> 24"
abbreviation (input) KV_MAX_VALUE :: nat where "KV_MAX_VALUE \<equiv> 96"
abbreviation (input) KV_MAX_CODE :: nat where "KV_MAX_CODE \<equiv> 24"
abbreviation (input) KV_MAX_REASON :: nat where "KV_MAX_REASON \<equiv> 96"

datatype kv_kind = KV_RECORD | KV_OK | KV_ERR | KV_BAD | KV_INCOMPLETE

datatype kv_type = KV_STR | KV_NUM | KV_NULL

record kv_field =
  key :: string
  val :: string
  ftype :: kv_type

record kv_line =
  tag :: string
  flds :: "kv_field list"
  err_code :: string
  err_reason :: string

definition empty_line :: kv_line where
  "empty_line = \<lparr>tag = [], flds = [], err_code = [], err_reason = []\<rparr>"

section \<open>Lines\<close>

definition is_ident :: "char \<Rightarrow> bool" where
  "is_ident c \<longleftrightarrow> (CHR ''a'' \<le> c \<and> c \<le> CHR ''z'') \<or> (CHR ''0'' \<le> c \<and> c \<le> CHR ''9'') \<or> c = CHR ''_''"

definition is_name :: "string \<Rightarrow> nat \<Rightarrow> bool" where
  "is_name s cap \<longleftrightarrow> length s \<noteq> 0 \<and> length s < cap \<and> list_all is_ident s"

text \<open>\<open>sp\<close> is the position of the first space of the line \<open>s\<close>.\<close>

definition parse_err :: "string \<Rightarrow> nat \<Rightarrow> kv_line \<Rightarrow> kv_kind \<times> kv_line" where
  "parse_err s sp out =
     (let code = drop (sp + 1) s;
          csp = memchr CHR '' '' code;
          code_len = (case csp of Some i \<Rightarrow> i | None \<Rightarrow> length code)
      in if \<not> is_name (take code_len code) KV_MAX_CODE then (KV_BAD, out)
         else let out1 = out\<lparr>err_code := take code_len code\<rparr>
              in case csp of
                   None \<Rightarrow> (KV_ERR, out1)
                 | Some i \<Rightarrow>
                     let reason = drop (i + 1) code
                     in if length reason = 0 \<or> length reason \<ge> KV_MAX_REASON then (KV_BAD, out1)
                        else if reason ! 0 = CHR '' '' \<or> reason ! (length reason - 1) = CHR '' '' then (KV_BAD, out1)
                        else (KV_ERR, out1\<lparr>err_reason := reason\<rparr>))"

fun token_len_from :: "bool \<Rightarrow> string \<Rightarrow> nat" where
  "token_len_from quoted [] = 0"
| "token_len_from quoted (c # t) =
     (if quoted \<or> c \<noteq> CHR '' '' then Suc (token_len_from (if c = CHR 0x22 then \<not> quoted else quoted) t) else 0)"

definition token_len :: "string \<Rightarrow> nat" where
  "token_len t = token_len_from False t"

text \<open>The typed value of a field: a quoted string without its quotes, or a bare number or null.\<close>

definition field_value :: "string \<Rightarrow> (kv_type \<times> string) option" where
  "field_value v =
     (if length v > 0 \<and> v ! 0 = CHR 0x22 then
        if length v < 2 \<or> v ! (length v - 1) \<noteq> CHR 0x22 then None
        else let w = take (length v - 2) (drop 1 v)
             in if length w \<ge> KV_MAX_VALUE \<or> memchr CHR 0x22 w \<noteq> None \<or> memchr CHR 0x5C w \<noteq> None then None
                else Some (KV_STR, w)
      else if length v \<ge> KV_MAX_VALUE then None
      else let text0 = c_str v;
               type = (if text0 = ''null'' then KV_NULL else KV_NUM)
           in if type = KV_NUM \<and> \<not> json_is_number (Some text0) then None else Some (type, v))"

definition add_field :: "string \<Rightarrow> kv_line \<Rightarrow> kv_line option" where
  "add_field t out =
     (case memchr CHR ''='' t of
        None \<Rightarrow> None
      | Some klen \<Rightarrow>
          if length (flds out) \<ge> KV_MAX_FIELDS then None
          else let k = take klen t; v = drop (klen + 1) t
               in if \<not> is_name k KV_MAX_KEY then None
                  else if list_ex (\<lambda>f. key f = k) (flds out) then None
                  else (case field_value v of
                          None \<Rightarrow> None
                        | Some (type, w) \<Rightarrow>
                            Some (out\<lparr>flds := flds out @ [\<lparr>key = k, val = w, ftype = type\<rparr>]\<rparr>)))"

text \<open>The loop over the fields: \<open>s\<close> is the line from \<open>pos\<close>, its first byte the separating space.\<close>

function parse_fields :: "string \<Rightarrow> kv_line \<Rightarrow> kv_kind \<times> kv_line" where
  "parse_fields s out =
     (if s = [] then (KV_RECORD, out)
      else let t = drop 1 s; n = token_len t
           in if n = 0 then (KV_BAD, out)
              else (case add_field (take n t) out of
                      None \<Rightarrow> (KV_BAD, out)
                    | Some out' \<Rightarrow> parse_fields (drop n t) out'))"
  by pat_completeness auto
termination by (relation "measure (\<lambda>(s, out). length s)") (auto simp: Let_def)

declare parse_fields.simps [simp del]

definition kv_parse_line :: "string \<Rightarrow> kv_kind \<times> kv_line" where
  "kv_parse_line s =
     (let out = empty_line
      in if length s = 0 \<or> length s > KV_MAX_LINE then (KV_BAD, out)
         else if list_ex (\<lambda>c. (of_char c :: nat) < 0x20 \<or> (of_char c :: nat) \<ge> 0x7F) s then (KV_BAD, out)
         else if s = ''ok'' then (KV_OK, out)
         else let sp = memchr CHR '' '' s;
                  head = (case sp of Some i \<Rightarrow> i | None \<Rightarrow> length s);
                  word = take head s
              in if word = ''err'' then (case sp of Some i \<Rightarrow> parse_err s i out | None \<Rightarrow> (KV_BAD, out))
                 else if \<not> is_name word KV_MAX_TAG \<or> word = ''ok'' then (KV_BAD, out)
                 else parse_fields (drop head s) (out\<lparr>tag := word\<rparr>))"

section \<open>Replies\<close>

text \<open>The cursor is the rest of the reply, from \<open>*cursor\<close> to \<open>end\<close>.\<close>

definition kv_reply_next :: "string \<Rightarrow> kv_line \<Rightarrow> kv_kind \<times> string \<times> kv_line" where
  "kv_reply_next cursor out =
     (case memchr CHR 0x0A cursor of
        None \<Rightarrow> (KV_INCOMPLETE, cursor, out)
      | Some nl \<Rightarrow>
          let len = (if nl > 0 \<and> cursor ! (nl - 1) = CHR 0x0D then nl - 1 else nl);
              (k, out') = kv_parse_line (take len cursor)
          in (k, drop (nl + 1) cursor, out'))"

text \<open>The loop of \<open>kv_reply_check\<close> has no bound of its own: here not returning is \<open>None\<close>. The second
  part of the result is what it stores in \<open>*final\<close>.\<close>

partial_function (option) reply_loop :: "string \<Rightarrow> kv_line \<Rightarrow> (kv_kind \<times> kv_line option) option" where
  "reply_loop cur line =
     (case kv_reply_next cur line of
        (k, cur', line') \<Rightarrow>
          if k = KV_RECORD then reply_loop cur' line'
          else if k = KV_OK \<or> k = KV_ERR then
            if cur' \<noteq> [] then Some (KV_BAD, None) else Some (k, Some line')
          else Some (k, None))"

definition kv_reply_check :: "string \<Rightarrow> (kv_kind \<times> kv_line option) option" where
  "kv_reply_check buf = reply_loop buf empty_line"

definition kv_get :: "kv_line \<Rightarrow> string \<Rightarrow> string option" where
  "kv_get line k = map_option val (find (\<lambda>f. key f = k) (flds line))"


end
