(* ===== verification/Json_Tree.thy ===== *)
theory Json_Tree
  imports Json
begin

text \<open>
  What the JSON writer promises, as an abstract machine: a document is a tree (\<open>jval\<close>) with its
  text (\<open>render\<close>), the calls build it in a stack of open containers (\<open>jstep\<close>, \<open>jrun\<close>), and
  \<open>json.c\<close> refines the machine (\<open>depicts\<close>, \<open>call_steps\<close>, \<open>finish_calls\<close>): a call out of order,
  a text that is not ASCII or does not fit makes the writer fail for good.
\<close>

section \<open>Documents\<close>

datatype jval = JString string | JNumber string | JBool bool | JNull
  | JArray "jval list" | JObject "(string \<times> jval) list"

definition commas :: "string list \<Rightarrow> string" where
  "commas xs = drop 1 (concat (map (\<lambda>x. CHR '','' # x) xs))"

definition quoted :: "string \<Rightarrow> string" where
  "quoted s = CHR 0x22 # concat (map esc s) @ [CHR 0x22]"

primrec render :: "jval \<Rightarrow> string" where
  "render (JString s) = quoted s"
| "render (JNumber t) = t"
| "render (JBool b) = (if b then ''true'' else ''false'')"
| "render JNull = ''null''"
| "render (JArray vs) = ''['' @ commas (map render vs) @ '']''"
| "render (JObject kvs) =
     ''{'' @ commas (map (\<lambda>(k, t). quoted k @ '':'' @ t) (map (map_prod id render) kvs)) @ ''}''"

abbreviation ascii :: "string \<Rightarrow> bool" where
  "ascii s \<equiv> \<forall>c \<in> set s. (of_char c :: nat) < 0x80"

text \<open>A document of the JSON grammar: ASCII strings, and numbers that \<open>json_is_number\<close> accepts.\<close>

fun jval_ok :: "jval \<Rightarrow> bool" where
  "jval_ok (JString s) = ascii s"
| "jval_ok (JNumber t) = json_is_number (Some t)"
| "jval_ok (JBool b) = True"
| "jval_ok JNull = True"
| "jval_ok (JArray vs) = (\<forall>v \<in> set vs. jval_ok v)"
| "jval_ok (JObject kvs) = (\<forall>kv \<in> set kvs. ascii (fst kv) \<and> jval_ok (snd kv))"

section \<open>The calls as steps of a machine\<close>

text \<open>An open container: an array with its items, or an object with its members and the key that
  waits for its value.\<close>

datatype frame = FArr "jval list" | FObj "(string \<times> jval) list" "string option"

type_synonym jstate = "frame list \<times> jval option"

fun busy :: "frame \<Rightarrow> bool" where
  "busy (FArr vs) = True"
| "busy (FObj kvs k) = (k \<noteq> None)"

fun fill :: "frame \<Rightarrow> jval \<Rightarrow> frame" where
  "fill (FArr vs) v = FArr (vs @ [v])"
| "fill (FObj kvs k) v = FObj (kvs @ [(the k, v)]) None"

fun place :: "jval \<Rightarrow> jstate \<Rightarrow> jstate option" where
  "place v ([], d) = (if d = None then Some ([], Some v) else None)"
| "place v (f # fs, d) = (if busy f then Some (fill f v # fs, d) else None)"

datatype jcall = CBegin bool | CEnd bool | CKey "string option" | CString "string option"
  | CInt "64 word" | CUint u64 | CDouble dbl | CBool bool | CNull | CNumber "string option"

text \<open>The text of a finite double: the fewest of 15, 16 or 17 digits that read back as it.\<close>

definition digits_of :: "dbl \<Rightarrow> nat" where
  "digits_of v = (if d_strtod_eq v (d_fmt_g v 15) then 15 else if d_strtod_eq v (d_fmt_g v 16) then 16 else 17)"

text \<open>What the C library documents of \<open>%.*g\<close>: of a finite double it prints, with up to 17 significant digits in the C locale, an
  optional sign, digits with no superfluous zero before them, a fraction and an exponent, all of it shorter than 40 characters.\<close>

definition double_ok :: "dbl \<Rightarrow> bool" where
  "double_ok v \<longleftrightarrow> (d_isfinite v \<longrightarrow>
     (\<forall>prec \<in> {15, 16, 17}. json_is_number (Some (d_fmt_g v prec)) \<and> length (d_fmt_g v prec) < 40))"

fun call_ok :: "jcall \<Rightarrow> bool" where
  "call_ok (CDouble v) = double_ok v"
| "call_ok _ = True"

fun jstep :: "jcall \<Rightarrow> jstate \<Rightarrow> jstate option" where
  "jstep (CBegin object) (fs, d) =
     (if place JNull (fs, d) \<noteq> None \<and> length fs < JSON_MAX_DEPTH
      then Some ((if object then FObj [] None else FArr []) # fs, d) else None)"
| "jstep (CEnd object) (fs, d) =
     (case fs of
        FArr vs # fs' \<Rightarrow> if object then None else place (JArray vs) (fs', d)
      | FObj kvs None # fs' \<Rightarrow> if object then place (JObject kvs) (fs', d) else None
      | _ \<Rightarrow> None)"
| "jstep (CKey key) (fs, d) =
     (case (key, fs) of
        (Some k, FObj kvs None # fs') \<Rightarrow> if ascii k then Some (FObj kvs (Some k) # fs', d) else None
      | _ \<Rightarrow> None)"
| "jstep (CString s) st = (case s of None \<Rightarrow> None | Some s \<Rightarrow> if ascii s then place (JString s) st else None)"
| "jstep (CInt v) st = place (JNumber (fmt_d v)) st"
| "jstep (CUint v) st = place (JNumber (fmt_u v)) st"
| "jstep (CDouble v) st = (if d_isfinite v then place (JNumber (d_fmt_g v (digits_of v))) st else None)"
| "jstep (CBool b) st = place (JBool b) st"
| "jstep CNull st = place JNull st"
| "jstep (CNumber t) st = (if json_is_number t then place (JNumber (the t)) st else None)"

fun call :: "jcall \<Rightarrow> json \<Rightarrow> json" where
  "call (CBegin object) = (if object then json_begin_object else json_begin_array)"
| "call (CEnd object) = (if object then json_end_object else json_end_array)"
| "call (CKey k) = json_key k"
| "call (CString s) = json_string s"
| "call (CInt v) = json_int v"
| "call (CUint v) = json_uint v"
| "call (CDouble v) = json_double v"
| "call (CBool b) = json_bool b"
| "call CNull = json_null"
| "call (CNumber t) = json_number t"

text \<open>The text of the open containers.\<close>

definition member :: "string \<times> jval \<Rightarrow> string" where
  "member kv = quoted (fst kv) @ '':'' @ render (snd kv)"

fun ftext :: "frame \<Rightarrow> string" where
  "ftext (FArr vs) = ''['' @ commas (map render vs)"
| "ftext (FObj kvs k) = ''{'' @ commas (map member kvs) @
     (case k of None \<Rightarrow> [] | Some k \<Rightarrow> (if kvs = [] then [] else '','') @ quoted k @ '':'')"

fun sep :: "frame \<Rightarrow> string" where
  "sep (FArr vs) = (if vs = [] then [] else '','')"
| "sep (FObj kvs k) = []"

fun below :: "frame list \<Rightarrow> string" where
  "below [] = []"
| "below (f # fs) = below fs @ ftext f @ sep f"

fun jtext :: "jstate \<Rightarrow> string" where
  "jtext ([], d) = (case d of None \<Rightarrow> [] | Some v \<Rightarrow> render v)"
| "jtext (f # fs, d) = below fs @ ftext f"

lemma commas_simps [simp]:
  "commas [] = []" "commas [x] = x"
  "commas (xs @ [y]) = (if xs = [] then y else commas xs @ '','' @ y)"
proof -
  show "commas (xs @ [y]) = (if xs = [] then y else commas xs @ '','' @ y)"
    by (cases xs) (simp_all add: commas_def)
qed (simp_all add: commas_def)

lemma render_object: "render (JObject kvs) = ''{'' @ commas (map member kvs) @ ''}''"
  by (simp add: member_def [abs_def] case_prod_beta comp_def)

lemma fill_text: "busy f \<Longrightarrow> ftext (fill f v) = ftext f @ sep f @ render v"
  by (cases f) (auto simp: member_def)

lemma place_text: "place v (fs, d) = Some st \<Longrightarrow> jtext st = (if fs = [] then [] else below fs) @ render v"
  by (cases fs) (auto split: if_splits simp: fill_text)

section \<open>Writing\<close>

text \<open>\<open>j'\<close> is \<open>j\<close> with the text \<open>s\<close> appended, or failed when it does not fit.\<close>

definition wrote :: "string \<Rightarrow> json \<Rightarrow> json \<Rightarrow> bool" where
  "wrote s j j' \<longleftrightarrow> (if length (j_buf j) + length s < j_cap j
     then j' = j\<lparr>j_buf := j_buf j @ s\<rparr> else j_failed j')"

lemma put_failed [simp]: "j_failed j \<Longrightarrow> put s j = j" "j_failed j \<Longrightarrow> put_char c j = j"
  by (simp_all add: put_def put_char_def)

lemma fail_failed [simp]: "j_failed (fail j)"
  by (simp add: fail_def)

lemma wrote_put: "\<not> j_failed j \<Longrightarrow> wrote s j (put s j)"
  by (auto simp: wrote_def put_def)

lemma wrote_put_char: "\<not> j_failed j \<Longrightarrow> wrote [c] j (put_char c j)"
  by (simp add: put_char_def wrote_put)

lemma wrote_append:
  assumes "wrote s j j1" and "\<not> j_failed j" and "\<not> j_failed j1 \<Longrightarrow> wrote t j1 j2" and "j_failed j1 \<Longrightarrow> j_failed j2"
  shows "wrote (s @ t) j j2"
  using assms by (auto simp: wrote_def split: if_splits)

lemma wrote_not_failed:
  "wrote s j j' \<Longrightarrow> \<not> j_failed j \<Longrightarrow> \<not> j_failed j' \<longleftrightarrow> length (j_buf j) + length s < j_cap j"
  by (auto simp: wrote_def split: if_splits)

lemma put_escaped_failed: "j_failed j \<Longrightarrow> j_failed (put_escaped s j)"
  by (cases s) auto

lemma put_escaped_wrote:
  "\<not> j_failed j \<Longrightarrow> ascii s \<Longrightarrow> wrote (concat (map esc s) @ [CHR 0x22]) j (put_escaped s j)"
proof (induction s arbitrary: j)
  case Nil
  then show ?case by (simp add: wrote_put_char)
next
  case (Cons c s)
  have "wrote (esc c @ (concat (map esc s) @ [CHR 0x22])) j (put_escaped s (put (esc c) j))"
    by (rule wrote_append [OF wrote_put]) (use Cons put_escaped_failed in auto)
  then show ?case using Cons.prems by (simp add: not_le)
qed

lemma put_escaped_bad: "\<not> ascii s \<Longrightarrow> j_failed (put_escaped s j)"
  by (induction s arbitrary: j) (auto simp: put_escaped_failed)

lemma put_quoted_wrote: "\<not> j_failed j \<Longrightarrow> ascii s \<Longrightarrow> wrote (quoted s) j (put_quoted (Some s) j)"
  unfolding put_quoted_def quoted_def option.case
  using wrote_append [OF wrote_put_char, of j "CHR 0x22" "concat (map esc s) @ [CHR 0x22]"]
    put_escaped_wrote put_escaped_failed by simp

lemma put_quoted_bad: "s = None \<or> \<not> ascii (the s) \<Longrightarrow> j_failed (put_quoted s j)"
  using put_escaped_bad [of "the s" "put_char CHR 0x22 j"] by (cases s) (simp_all add: put_quoted_def)

lemma put_quoted_failed: "j_failed j \<Longrightarrow> j_failed (put_quoted s j)"
  by (auto simp: put_quoted_def put_escaped_failed split: option.splits)

section \<open>The writer refines the machine\<close>

fun is_obj :: "frame \<Rightarrow> bool" where
  "is_obj (FArr vs) = False"
| "is_obj (FObj kvs k) = True"

fun pending :: "frame \<Rightarrow> bool" where
  "pending (FArr vs) = False"
| "pending (FObj kvs k) = (k \<noteq> None)"

fun nonempty :: "frame \<Rightarrow> bool" where
  "nonempty (FArr vs) = (vs \<noteq> [])"
| "nonempty (FObj kvs k) = (kvs \<noteq> [] \<or> k \<noteq> None)"

fun depicts :: "json \<Rightarrow> jstate \<Rightarrow> bool" where
  "depicts j (fs, d) \<longleftrightarrow>
     \<not> j_failed j \<and> j_buf j = jtext (fs, d) \<and> length (j_buf j) < j_cap j \<and>
     j_depth j = length fs \<and> length fs \<le> JSON_MAX_DEPTH \<and>
     length (j_is_object j) = JSON_MAX_DEPTH \<and> length (j_has_item j) = JSON_MAX_DEPTH \<and>
     take (length fs) (j_is_object j) = rev (map is_obj fs) \<and>
     (case fs of
        [] \<Rightarrow> \<not> j_after_key j
      | f # fs' \<Rightarrow> j_after_key j = pending f \<and> j_has_item j ! length fs' = nonempty f \<and>
          take (length fs') (j_has_item j) = replicate (length fs') True \<and> (\<forall>g \<in> set fs'. busy g)) \<and>
     j_done j = (d \<noteq> None) \<and> (fs \<noteq> [] \<longrightarrow> d = None)"

lemma take_Suc_snoc:
  "n < length xs \<Longrightarrow> take (Suc n) xs = ys @ [y] \<longleftrightarrow> take n xs = ys \<and> xs ! n = y"
  by (auto simp: take_Suc_conv_app_nth)

lemma depicts_Cons:
  "depicts j (f # fs, d) \<longleftrightarrow>
     \<not> j_failed j \<and> j_buf j = below fs @ ftext f \<and> length (j_buf j) < j_cap j \<and>
     j_depth j = Suc (length fs) \<and> length fs < JSON_MAX_DEPTH \<and>
     length (j_is_object j) = JSON_MAX_DEPTH \<and> length (j_has_item j) = JSON_MAX_DEPTH \<and>
     take (length fs) (j_is_object j) = rev (map is_obj fs) \<and> j_is_object j ! length fs = is_obj f \<and>
     j_after_key j = pending f \<and> j_has_item j ! length fs = nonempty f \<and>
     take (length fs) (j_has_item j) = replicate (length fs) True \<and> (\<forall>g \<in> set fs. busy g) \<and>
     \<not> j_done j \<and> d = None"
  by (auto simp: take_Suc_snoc)

lemma depicts_Nil:
  "depicts j ([], d) \<longleftrightarrow>
     \<not> j_failed j \<and> j_buf j = jtext ([], d) \<and> length (j_buf j) < j_cap j \<and> j_depth j = 0 \<and>
     length (j_is_object j) = JSON_MAX_DEPTH \<and> length (j_has_item j) = JSON_MAX_DEPTH \<and>
     \<not> j_after_key j \<and> j_done j = (d \<noteq> None)"
  by auto

declare depicts.simps [simp del]

lemma depicts_common:
  assumes "depicts j st"
  shows "\<not> j_failed j" and "j_buf j = jtext st" and "length (j_buf j) < j_cap j"
    and "j_depth j = length (fst st)"
  using assms by (cases st; simp add: depicts.simps)+

text \<open>The state after \<open>begin_value\<close> has said yes.\<close>

definition sep_of :: "frame list \<Rightarrow> string" where
  "sep_of fs = (case fs of [] \<Rightarrow> [] | f # _ \<Rightarrow> sep f)"

definition opened :: "frame list \<Rightarrow> json \<Rightarrow> json" where
  "opened fs j =
     (case fs of
        [] \<Rightarrow> j
      | FArr vs # fs' \<Rightarrow> j\<lparr>j_buf := j_buf j @ sep (FArr vs), j_has_item := (j_has_item j)[length fs' := True]\<rparr>
      | FObj kvs k # fs' \<Rightarrow> j\<lparr>j_after_key := False\<rparr>)"

lemma opened_simps [simp]:
  "j_failed (opened fs j) = j_failed j" "j_cap (opened fs j) = j_cap j" "j_depth (opened fs j) = j_depth j"
  "j_is_object (opened fs j) = j_is_object j" "j_done (opened fs j) = j_done j"
  "j_buf (opened fs j) = j_buf j @ sep_of fs" "length (j_has_item (opened fs j)) = length (j_has_item j)"
  by (simp_all add: opened_def sep_of_def split: list.splits frame.splits)

lemma begin_value_depicts:
  assumes "depicts j (fs, d)"
  shows "if place v (fs, d) \<noteq> None \<and> length (j_buf j) + length (sep_of fs) < j_cap j
    then begin_value j = (True, opened fs j)
    else \<not> fst (begin_value j) \<and> j_failed (snd (begin_value j))"
proof (cases fs)
  case Nil
  then show ?thesis
    using assms by (auto simp: depicts_Nil begin_value_def opened_def sep_of_def)
next
  case (Cons f fs')
  then have s: "depicts j (f # fs', d)" using assms by simp
  show ?thesis
  proof (cases f)
    case (FObj kvs k)
    then show ?thesis
      using s Cons by (auto simp: depicts_Cons begin_value_def opened_def sep_of_def)
  next
    case (FArr vs)
    have nf: "\<not> j_failed j" using s by (simp add: depicts_Cons)
    show ?thesis
    proof (cases "vs = []")
      case True
      then show ?thesis
        using s Cons FArr by (auto simp: depicts_Cons begin_value_def opened_def sep_of_def Let_def)
    next
      case False
      then show ?thesis
        using s Cons FArr wrote_put_char [OF nf, of "CHR '',''"]
        by (auto simp: depicts_Cons begin_value_def opened_def sep_of_def Let_def wrote_def split: if_splits)
    qed
  qed
qed

text \<open>A finished value goes where the machine places it.\<close>

lemma placed_depicts:
  assumes "depicts j (fs, d)" and "place v (fs, d) = Some st"
    and "length (j_buf j @ sep_of fs @ render v) < j_cap j"
  shows "depicts (end_value ((opened fs j)\<lparr>j_buf := j_buf j @ sep_of fs @ render v\<rparr>)) st"
proof (cases fs)
  case Nil
  then show ?thesis using assms by (auto simp: depicts_Nil end_value_def opened_def sep_of_def split: if_splits)
next
  case (Cons f fs')
  then have s: "depicts j (f # fs', d)" and b: "busy f" and st: "st = (fill f v # fs', d)"
    using assms(1,2) by (auto split: if_splits)
  show ?thesis
    using s b assms(3) fill_text [OF b, of v] Cons unfolding st
    by (cases f) (auto simp: depicts_Cons end_value_def opened_def sep_of_def)
qed

lemma value_depicts:
  assumes "depicts j st" and "\<And>j. \<not> j_failed j \<Longrightarrow> wrote (render v) j (g j)"
  defines "j' \<equiv> (case begin_value j of (good, j1) \<Rightarrow> if \<not> good then j1 else end_value (g j1))"
  shows "case place v st of
      Some st' \<Rightarrow> if length (jtext st') < j_cap j then depicts j' st' else j_failed j'
    | None \<Rightarrow> j_failed j'"
proof -
  obtain fs d where st: "st = (fs, d)" by fastforce
  have s: "depicts j (fs, d)" using assms(1) st by simp
  note c = depicts_common [OF s]
  have len: "length (jtext st') = length (j_buf j) + length (sep_of fs) + length (render v)"
    if "place v (fs, d) = Some st'" for st'
    using place_text [OF that] c(2) that s by (cases fs) (auto simp: sep_of_def depicts_Nil split: if_splits)
  show ?thesis
  proof (cases "place v (fs, d) \<noteq> None \<and> length (j_buf j) + length (sep_of fs) < j_cap j")
    case False
    then have "\<not> fst (begin_value j)" "j_failed (snd (begin_value j))" using begin_value_depicts [OF s, of v] by auto
    then have f: "j_failed j'" by (auto simp: j'_def split: prod.splits)
    show ?thesis
    proof (cases "place v (fs, d)")
      case (Some st')
      then show ?thesis using f False len [OF Some] st by simp
    qed (simp add: st f)
  next
    case True
    then obtain st' where p: "place v (fs, d) = Some st'" by auto
    have b: "begin_value j = (True, opened fs j)" using begin_value_depicts [OF s, of v] True by auto
    let ?j = "opened fs j"
    have w: "wrote (render v) ?j (g ?j)" by (rule assms(2)) (simp add: c(1))
    have j': "j' = end_value (g ?j)" by (simp add: j'_def b)
    show ?thesis
    proof (cases "length (jtext st') < j_cap j")
      case True
      then have fit: "length (j_buf j @ sep_of fs @ render v) < j_cap j" using len [OF p] by simp
      then have "g ?j = ?j\<lparr>j_buf := j_buf j @ sep_of fs @ render v\<rparr>" using w by (simp add: wrote_def)
      then show ?thesis using placed_depicts [OF s p fit] True j' p st by simp
    next
      case False
      then have "j_failed (g ?j)" using w len [OF p] by (simp add: wrote_def)
      then show ?thesis using False j' p st by (simp add: end_value_def)
    qed
  qed
qed

text \<open>The outcome of a call in the state \<open>j\<close>, given the step \<open>so\<close> of the machine.\<close>

definition steps_to :: "json \<Rightarrow> jstate option \<Rightarrow> json \<Rightarrow> bool" where
  "steps_to j so j' \<longleftrightarrow> (case so of
       Some st \<Rightarrow> if length (jtext st) < j_cap j then depicts j' st else j_failed j'
     | None \<Rightarrow> j_failed j')"

lemmas value_steps = value_depicts [folded steps_to_def]

lemma begin_container_depicts:
  fixes object :: bool
  assumes "depicts j (fs, d)"
  defines "j' \<equiv> begin_container object j"
  shows "case jstep (CBegin object) (fs, d) of
      Some st' \<Rightarrow> if length (jtext st') < j_cap j then depicts j' st' else j_failed j'
    | None \<Rightarrow> j_failed j'"
proof -
  define f where "f = (if object then FObj [] None else FArr [])"
  define ch where "ch = (if object then CHR ''{'' else CHR ''['')"
  have f: "is_obj f = object" "\<not> pending f" "\<not> nonempty f" "ftext f = [ch]" by (simp_all add: f_def ch_def)
  note c = depicts_common [OF assms(1)] and bv = begin_value_depicts [OF assms(1), of JNull]
  have step: "jstep (CBegin object) (fs, d) =
      (if place JNull (fs, d) \<noteq> None \<and> length fs < JSON_MAX_DEPTH then Some (f # fs, d) else None)"
    by (simp add: f_def)
  have text1: "jtext (f # fs, d) = j_buf j @ sep_of fs @ [ch]" if "place JNull (fs, d) \<noteq> None"
    using assms(1) that f(4) by (cases fs) (auto simp: depicts_Nil depicts_Cons sep_of_def split: if_splits)
  show ?thesis
  proof (cases "place JNull (fs, d) \<noteq> None \<and> length (j_buf j) + length (sep_of fs) < j_cap j")
    case False
    then have "\<not> fst (begin_value j)" "j_failed (snd (begin_value j))" using bv by auto
    then have "j_failed j'" by (auto simp: j'_def begin_container_def split: prod.splits)
    then show ?thesis using False text1 unfolding step by (auto simp del: jtext.simps)
  next
    case True
    then have b: "begin_value j = (True, opened fs j)" and pl: "place JNull (fs, d) \<noteq> None" using bv by auto
    note text1 = text1 [OF pl]
    show ?thesis
    proof (cases "length fs < JSON_MAX_DEPTH")
      case False
      then have "j_failed j'" using b c(4) by (simp add: j'_def begin_container_def)
      then show ?thesis using False by simp
    next
      case deep: True
      define j1 where "j1 = (opened fs j)\<lparr>j_is_object := (j_is_object j)[length fs := object],
          j_has_item := (j_has_item (opened fs j))[length fs := False], j_depth := length fs + 1\<rparr>"
      have j': "j' = put_char ch j1" using b c(4) deep by (simp add: j'_def j1_def ch_def begin_container_def)
      have w: "wrote [ch] j1 j'" unfolding j' by (rule wrote_put_char) (simp add: c(1) j1_def)
      have j1: "j_buf j1 = j_buf j @ sep_of fs" "j_cap j1 = j_cap j" by (simp_all add: j1_def)
      show ?thesis
      proof (cases "length (jtext (f # fs, d)) < j_cap j")
        case fit: True
        then have "length (j_buf j1) + length [ch] < j_cap j1" unfolding text1 j1 by simp
        then have e: "j' = j1\<lparr>j_buf := j_buf j @ sep_of fs @ [ch]\<rparr>" using w by (simp add: wrote_def j1)
        have "depicts j' (f # fs, d)"
        proof (cases fs)
          case Nil
          then show ?thesis
            using assms(1) pl fit f text1 unfolding e j1_def
            by (auto simp: depicts_Nil depicts_Cons opened_def sep_of_def split: if_splits)
        next
          case (Cons g gs)
          then have s: "depicts j (g # gs, d)" and bg: "busy g" using assms(1) pl by (auto split: if_splits)
          have has: "take (Suc (length gs)) (j_has_item (opened fs j)) = replicate (Suc (length gs)) True"
            using s bg Cons by (cases g) (auto simp: depicts_Cons opened_def take_Suc_conv_app_nth replicate_append_same)
          have obj: "take (Suc (length gs)) (j_is_object j) = rev (map is_obj gs) @ [is_obj g]"
            using s by (auto simp: depicts_Cons take_Suc_conv_app_nth)
          have key: "\<not> j_after_key (opened fs j)" using s Cons by (cases g) (auto simp: depicts_Cons opened_def)
          have buf: "j_buf j @ sep_of fs = below fs" using s Cons by (simp add: depicts_Cons sep_of_def)
          have "j_buf j @ sep_of fs @ [ch] = below fs @ [ch]" using buf by simp
          then show ?thesis
            using s Cons deep has obj key bg fit f text1 unfolding e j1_def
            by (auto simp: depicts_Cons simp del: below.simps)
        qed
        then show ?thesis using fit pl deep unfolding step by simp
      next
        case False
        then have "j_failed j'" using w unfolding text1 by (simp add: j1 wrote_def)
        then show ?thesis using False pl deep unfolding step by simp
      qed
    qed
  qed
qed

lemma end_container_depicts:
  fixes object :: bool
  assumes "depicts j (fs, d)"
  defines "j' \<equiv> end_container object j"
  shows "case jstep (CEnd object) (fs, d) of
      Some st' \<Rightarrow> if length (jtext st') < j_cap j then depicts j' st' else j_failed j'
    | None \<Rightarrow> j_failed j'"
proof -
  note c = depicts_common [OF assms(1)]
  show ?thesis
  proof (cases "fs \<noteq> [] \<and> is_obj (hd fs) = object \<and> \<not> pending (hd fs)")
    case False
    then have "jstep (CEnd object) (fs, d) = None"
      by (cases fs) (auto split: frame.splits option.splits)
    moreover have "j_failed j'"
      using assms(1) False unfolding j'_def end_container_def
      by (cases fs) (auto simp: depicts_Nil depicts_Cons)
    ultimately show ?thesis by simp
  next
    case True
    then obtain f gs where fs: "fs = f # gs" "is_obj f = object" "\<not> pending f" by (cases fs) auto
    then have s: "depicts j (f # gs, d)" using assms(1) by simp
    define ch where "ch = (if object then CHR ''}'' else CHR '']'')"
    define v where "v = (case f of FArr vs \<Rightarrow> JArray vs | FObj kvs k \<Rightarrow> JObject kvs)"
    have render_v: "render v = ftext f @ [ch]"
      using fs(2,3) by (cases f) (simp_all add: v_def ch_def render_object del: render.simps(6))
    have step: "jstep (CEnd object) (fs, d) = place v (gs, d)"
      using fs by (cases f) (auto simp: v_def)
    obtain st where st: "place v (gs, d) = Some st" using s by (cases gs) (auto simp: depicts_Cons)
    have text1: "jtext st = j_buf j @ [ch]"
      using place_text [OF st] s render_v by (auto simp: depicts_Cons)
    define j1 where "j1 = j\<lparr>j_depth := length gs\<rparr>"
    have j': "j' = end_value (put_char ch j1)"
      using s fs by (simp add: j'_def end_container_def depicts_Cons ch_def j1_def)
    have w: "wrote [ch] j1 (put_char ch j1)" by (rule wrote_put_char) (simp add: c(1) j1_def)
    show ?thesis
    proof (cases "length (jtext st) < j_cap j")
      case fit: True
      then have e: "j' = end_value (j1\<lparr>j_buf := j_buf j @ [ch]\<rparr>)"
        using w unfolding text1 j' by (simp add: wrote_def j1_def)
      have "depicts j' st"
      proof (cases gs)
        case Nil
        then show ?thesis
          using s st fit text1 fs(3) unfolding e
          by (auto simp: depicts_Cons depicts_Nil j1_def end_value_def split: if_splits)
      next
        case (Cons g gs')
        then have bg: "busy g" and st': "st = (fill g v # gs', d)" using st by (auto split: if_splits)
        have "take (Suc (length gs')) (j_has_item j) = replicate (length gs') True @ [True]"
          "take (Suc (length gs')) (j_is_object j) = rev (map is_obj gs') @ [is_obj g]"
          "length gs' < length (j_has_item j)" "length gs' < length (j_is_object j)"
          using s Cons by (simp_all add: depicts_Cons replicate_append_same)
        then have arr: "take (length gs') (j_is_object j) = rev (map is_obj gs')" "j_is_object j ! length gs' = is_obj g"
          "take (length gs') (j_has_item j) = replicate (length gs') True" "j_has_item j ! length gs'"
          by (simp_all add: take_Suc_snoc)
        show ?thesis
          using s bg fit text1 Cons arr fs(3) unfolding e st'
          by (cases g) (auto simp: depicts_Cons j1_def end_value_def)
      qed
      then show ?thesis using fit st unfolding step by simp
    next
      case False
      then have "j_failed j'" using w unfolding text1 j' by (simp add: wrote_def j1_def end_value_def)
      then show ?thesis using False st unfolding step by simp
    qed
  qed
qed

lemmas container_steps = begin_container_depicts [folded steps_to_def] end_container_depicts [folded steps_to_def]

lemma json_key_depicts:
  fixes key :: "string option"
  assumes "depicts j (fs, d)"
  defines "j' \<equiv> json_key key j"
  shows "case jstep (CKey key) (fs, d) of
      Some st' \<Rightarrow> if length (jtext st') < j_cap j then depicts j' st' else j_failed j'
    | None \<Rightarrow> j_failed j'"
proof (cases "key \<noteq> None \<and> fs \<noteq> [] \<and> is_obj (hd fs) \<and> \<not> pending (hd fs)")
  case False
  then have "jstep (CKey key) (fs, d) = None"
    by (cases fs; cases key) (auto split: frame.splits option.splits)
  moreover have "j_failed j'"
    using assms(1) False unfolding j'_def json_key_def
    by (cases fs) (auto simp: depicts_Nil depicts_Cons)
  ultimately show ?thesis by simp
next
  case True
  then obtain k kvs gs where k: "key = Some k" "fs = FObj kvs None # gs"
    by (cases fs; cases key) (auto elim: is_obj.elims)
  then have s: "depicts j (FObj kvs None # gs, d)" using assms(1) by simp
  note c = depicts_common [OF s]
  define comma where "comma = (if kvs = [] then [] else '','')"
  define j1 where "j1 = (if kvs = [] then j else put_char CHR '','' j)"
  define j2 where "j2 = j1\<lparr>j_has_item := (j_has_item j1)[length gs := True]\<rparr>"
  have j': "j' = (put_char CHR '':'' (put_quoted (Some k) j2))\<lparr>j_after_key := True\<rparr>"
    using s k by (auto simp: j'_def json_key_def depicts_Cons j1_def j2_def Let_def)
  have w1: "wrote comma j j1"
    using wrote_put_char [OF c(1)] c(3) by (simp add: comma_def j1_def wrote_def)
  show ?thesis
  proof (cases "ascii k")
    case False
    then have "j_failed j'" using put_quoted_bad [of "Some k" j2] by (simp add: j')
    moreover have "jstep (CKey key) (fs, d) = None" using False k by auto
    ultimately show ?thesis by (simp del: jstep.simps)
  next
    case asc: True
    let ?new = "(FObj kvs (Some k) # gs, d)"
    have text1: "jtext ?new = j_buf j @ comma @ quoted k @ '':''"
      using s by (simp add: depicts_Cons comma_def)
    have w2: "wrote (quoted k @ '':'') j2 (put_char CHR '':'' (put_quoted (Some k) j2))" if "\<not> j_failed j2"
      by (rule wrote_append [OF put_quoted_wrote [OF that asc] that]) (auto intro: wrote_put_char)
    have step: "jstep (CKey key) (fs, d) = Some ?new" using k asc by simp
    have f2: "j_failed j2 = j_failed j1" "j_buf j2 = j_buf j1" "j_cap j2 = j_cap j1" by (simp_all add: j2_def)
    show ?thesis
    proof (cases "length (jtext ?new) < j_cap j")
      case fit: True
      then have "j1 = j\<lparr>j_buf := j_buf j @ comma\<rparr>" using w1 unfolding text1 by (simp add: wrote_def split: if_splits)
      moreover from this have "put_char CHR '':'' (put_quoted (Some k) j2) = j2\<lparr>j_buf := j_buf j @ comma @ quoted k @ '':''\<rparr>"
        using w2 fit c(1) unfolding text1 by (simp add: f2 wrote_def split: if_splits)
      ultimately have e: "j' = j\<lparr>j_has_item := (j_has_item j)[length gs := True], j_after_key := True,
          j_buf := j_buf j @ comma @ quoted k @ '':''\<rparr>"
        by (simp add: j' j2_def)
      have "depicts j' ?new" using s fit text1 unfolding e by (auto simp: depicts_Cons)
      then show ?thesis using fit unfolding step by simp
    next
      case False
      have "j_failed (put_char CHR '':'' (put_quoted (Some k) j2))"
      proof (cases "j_failed j1")
        case True
        then show ?thesis using put_quoted_failed [of j2 "Some k"] f2(1) by simp
      next
        case ok: False
        then have "j1 = j\<lparr>j_buf := j_buf j @ comma\<rparr>" using w1 by (simp add: wrote_def split: if_splits)
        then show ?thesis using w2 ok False f2 unfolding text1 by (simp add: wrote_def split: if_splits)
      qed
      then have "j_failed j'" by (simp add: j')
      then show ?thesis using False unfolding step by simp
    qed
  qed
qed

lemmas key_steps = json_key_depicts [folded steps_to_def]

lemma length_fmt_d: "length (fmt_d (v :: 64 word)) \<le> 20"
proof -
  have "\<bar>sint v\<bar> \<le> 2 ^ 63" using sint_ge [of v] sint_lt [of v] by simp
  then have "nat \<bar>sint v\<bar> < 10 ^ 19" by simp
  then have "length (print_nat 10 (nat \<bar>sint v\<bar>)) \<le> 19" by (intro length_print_nat) simp_all
  then show ?thesis by (auto simp: fmt_d_def Let_def abs_if split: if_splits)
qed

lemma snprintf_whole: "length s < n \<Longrightarrow> fst (snprintf n s) = s"
  by (simp add: snprintf_def)

text \<open>Every call of the writer is a step of the machine, or fails exactly when the machine has no
  step or the text does not fit.\<close>

lemma put_scalar_steps: "depicts j st \<Longrightarrow> steps_to j (place v st) (put_scalar (render v) j)"
  using value_steps [of j st v "put (render v)"] wrote_put by (simp add: put_scalar_def)

lemma json_string_steps:
  assumes "depicts j st"
  shows "steps_to j (jstep (CString s) st) (json_string s j)"
proof (cases "s = None \<or> \<not> ascii (the s)")
  case True
  obtain good j1 where b: "begin_value j = (good, j1)" by fastforce
  have "\<not> good \<Longrightarrow> j_failed j1"
    using begin_value_depicts [of j "fst st" "snd st" JNull] assms b by (auto split: if_splits)
  then have "j_failed (json_string s j)"
    using put_quoted_bad [OF True, of j1] b by (simp add: json_string_def end_value_def)
  moreover have "jstep (CString s) st = None" using True by (cases s) auto
  ultimately show ?thesis by (simp add: steps_to_def)
next
  case False
  then obtain t where t: "s = Some t" "ascii t" by auto
  then show ?thesis
    using value_steps [OF assms, of "JString t" "put_quoted (Some t)"] put_quoted_wrote by (simp add: json_string_def)
qed

lemma shortest_digits:
  assumes "double_ok v" and "d_isfinite v"
  shows "put_scalar (shortest_g v [15..<18] []) = put_scalar (d_fmt_g v (digits_of v))"
proof -
  have "fst (snprintf 40 (d_fmt_g v prec)) = d_fmt_g v prec" if "prec \<in> {15, 16, 17}" for prec
    using assms that by (auto simp: double_ok_def intro: snprintf_whole)
  then show ?thesis by (simp add: upt_rec digits_of_def Let_def)
qed

lemma call_steps:
  assumes "depicts j st" and "call_ok c"
  shows "steps_to j (jstep c st) (call c j)"
proof -
  obtain fs d where st: "st = (fs, d)" by fastforce
  note scalar = put_scalar_steps [OF assms(1)]
  show ?thesis
  proof (cases c)
    case (CBegin object)
    then show ?thesis
      using container_steps(1) [of j fs d object] assms
      by (cases object) (simp_all add: st json_begin_object_def json_begin_array_def del: jstep.simps)
  next
    case (CEnd object)
    then show ?thesis
      using container_steps(2) [of j fs d object] assms
      by (cases object) (simp_all add: st json_end_object_def json_end_array_def del: jstep.simps)
  next
    case (CKey k)
    then show ?thesis using key_steps [of j fs d k] assms by (simp add: st del: jstep.simps)
  next
    case (CString s)
    then show ?thesis using json_string_steps [OF assms(1)] by simp
  next
    case (CInt v)
    then show ?thesis using scalar [of "JNumber (fmt_d v)"] length_fmt_d [of v] by (simp add: json_int_def snprintf_whole)
  next
    case (CUint v)
    then show ?thesis using scalar [of "JNumber (fmt_u v)"] length_fmt_u64 [of v] by (simp add: json_uint_def snprintf_whole)
  next
    case (CDouble v)
    then have "json_double v j = (if d_isfinite v then put_scalar (d_fmt_g v (digits_of v)) j else fail j)"
      unfolding json_double_def using shortest_digits [of v] assms(2) by (cases "d_isfinite v") simp_all
    then show ?thesis
      using scalar [of "JNumber (d_fmt_g v (digits_of v))"] CDouble by (auto simp: steps_to_def)
  next
    case (CBool b)
    then show ?thesis using scalar [of "JBool b"] by (simp add: json_bool_def)
  next
    case CNull
    then show ?thesis using scalar [of JNull] by (simp add: json_null_def)
  next
    case (CNumber t)
    then show ?thesis using scalar [of "JNumber (the t)"] by (auto simp: json_number_def steps_to_def)
  qed
qed

lemma begin_value_failed: "j_failed j \<Longrightarrow> begin_value j = (False, j)"
  by (simp add: begin_value_def)

lemma call_failed: "j_failed j \<Longrightarrow> j_failed (call c j)"
  by (cases c)
    (auto simp: json_begin_object_def json_begin_array_def json_end_object_def json_end_array_def
      begin_container_def end_container_def json_key_def json_string_def json_int_def json_uint_def json_double_def
      json_bool_def json_null_def json_number_def put_scalar_def begin_value_failed)

section \<open>Sequences of calls\<close>

fun jrun :: "jcall list \<Rightarrow> jstate \<Rightarrow> jstate option" where
  "jrun [] st = Some st"
| "jrun (c # cs) st = (case jstep c st of None \<Rightarrow> None | Some st' \<Rightarrow> jrun cs st')"

lemma jrun_append: "jrun (cs @ cs') st = (case jrun cs st of None \<Rightarrow> None | Some st' \<Rightarrow> jrun cs' st')"
  by (induction cs arbitrary: st) (simp_all split: option.splits)

lemma fail_cap [simp]: "j_cap (fail j) = j_cap j"
  by (simp add: fail_def)

lemma put_cap [simp]: "j_cap (put s j) = j_cap j" "j_cap (put_char c j) = j_cap j"
  by (simp_all add: put_def put_char_def)

lemma put_escaped_cap [simp]: "j_cap (put_escaped s j) = j_cap j"
  by (induction s arbitrary: j) auto

lemma begin_value_cap [simp]: "j_cap (snd (begin_value j)) = j_cap j"
  by (simp add: begin_value_def Let_def)

lemma value_cap [simp]: "j_cap (put_quoted s j) = j_cap j" "j_cap (end_value j) = j_cap j"
  "j_cap (put_scalar t j) = j_cap j" "j_cap (json_string s j) = j_cap j"
  by (simp_all add: put_quoted_def end_value_def put_scalar_def json_string_def case_prod_unfold split: option.splits)

lemma container_cap [simp]: "j_cap (begin_container b j) = j_cap j" "j_cap (end_container b j) = j_cap j"
  "j_cap (json_key k j) = j_cap j"
  by (simp_all add: begin_container_def end_container_def json_key_def case_prod_unfold Let_def)

lemma call_cap: "j_cap (call c j) = j_cap j"
  by (cases c) (simp_all add: json_begin_object_def json_begin_array_def json_end_object_def json_end_array_def
      json_int_def json_uint_def json_double_def json_bool_def json_null_def json_number_def)

lemma steps_to_cap: "j_cap j1 = j_cap j \<Longrightarrow> steps_to j1 so j' = steps_to j so j'"
  by (simp add: steps_to_def split: option.split)

lemma place_grows: "place v (fs, d) = Some st \<Longrightarrow> length (jtext (fs, d)) \<le> length (jtext st)"
  by (cases fs) (auto split: if_splits simp: fill_text)

lemma jstep_grows: "jstep c st = Some st' \<Longrightarrow> length (jtext st) \<le> length (jtext st')"
proof -
  assume step: "jstep c st = Some st'"
  obtain fs d where st: "st = (fs, d)" by fastforce
  show ?thesis
  proof (cases c)
    case (CBegin object)
    then show ?thesis using step by (cases fs) (auto simp: st split: if_splits)
  next
    case (CEnd object)
    then obtain f gs where fs: "fs = f # gs" "\<not> pending f" using step by (cases fs) (auto simp: st split: frame.splits option.splits if_splits)
    define v where "v = (case f of FArr vs \<Rightarrow> JArray vs | FObj kvs k \<Rightarrow> JObject kvs)"
    have "place v (gs, d) = Some st'" using step CEnd fs by (cases f) (auto simp: st v_def split: if_splits)
    moreover have "length (ftext f) \<le> length (render v)"
      using fs(2) by (cases f) (simp_all add: v_def render_object del: render.simps(6))
    ultimately show ?thesis using place_text [of v gs d st'] by (cases gs) (auto simp: st fs(1))
  next
    case (CKey k)
    then show ?thesis using step
      by (auto simp: st split: option.splits list.splits frame.splits if_splits)
  qed (use step place_grows in \<open>auto simp: st split: option.splits if_splits\<close>)
qed

lemma jrun_grows: "jrun cs st = Some st' \<Longrightarrow> length (jtext st) \<le> length (jtext st')"
  by (induction cs arbitrary: st) (auto split: option.splits dest: jstep_grows order_trans)

lemma calls_failed: "j_failed j \<Longrightarrow> j_failed (fold call cs j)"
  by (induction cs arbitrary: j) (simp_all add: call_failed)

lemma calls_steps: "depicts j st \<Longrightarrow> \<forall>c \<in> set cs. call_ok c \<Longrightarrow> steps_to j (jrun cs st) (fold call cs j)"
proof (induction cs arbitrary: j st)
  case Nil
  then show ?case using depicts_common [OF Nil(1)] by (simp add: steps_to_def)
next
  case (Cons c cs)
  have ok: "call_ok c" "\<forall>c \<in> set cs. call_ok c" using Cons.prems(2) by simp_all
  note step = call_steps [OF Cons.prems(1) ok(1)]
  show ?case
  proof (cases "jstep c st")
    case None
    then show ?thesis using step calls_failed [of "call c j" cs] by (simp add: steps_to_def)
  next
    case (Some st')
    show ?thesis
    proof (cases "length (jtext st') < j_cap j")
      case True
      then show ?thesis
        using Cons.IH [OF _ ok(2), of "call c j" st'] step Some steps_to_cap [OF call_cap [of c j]] by (simp add: steps_to_def [of _ "Some _"])
    next
      case False
      then show ?thesis
        using step Some calls_failed [of "call c j" cs] jrun_grows [of cs st']
        by (auto simp: steps_to_def split: option.splits)
    qed
  qed
qed

lemma init_depicts: "0 < cap \<Longrightarrow> depicts (json_init cap) ([], None)"
  by (simp add: depicts_Nil json_init_def)

lemma init_cap: "j_cap (json_init cap) = cap"
  by (simp add: json_init_def Let_def)

definition jresult :: "jcall list \<Rightarrow> jval option" where
  "jresult cs = (case jrun cs ([], None) of Some ([], d) \<Rightarrow> d | _ \<Rightarrow> None)"

lemma finish_calls:
  assumes "\<forall>c \<in> set cs. call_ok c"
  shows "json_finish (fold call cs (json_init cap)) =
     (case jresult cs of
        Some v \<Rightarrow> if length (render v) < cap then Some (length (render v)) else None
      | None \<Rightarrow> None)"
  and finish_calls_text: "jresult cs = Some v \<Longrightarrow> length (render v) < cap \<Longrightarrow> j_buf (fold call cs (json_init cap)) = render v"
proof -
  let ?j = "fold call cs (json_init cap)"
  have "json_finish ?j = (case jresult cs of
        Some v \<Rightarrow> if length (render v) < cap then Some (length (render v)) else None | None \<Rightarrow> None) \<and>
      (jresult cs = Some v \<longrightarrow> length (render v) < cap \<longrightarrow> j_buf ?j = render v)"
  proof (cases "cap = 0")
    case True
    then have "j_failed ?j" by (intro calls_failed) (simp add: json_init_def fail_def)
    then show ?thesis using True by (simp add: json_finish_def split: option.splits)
  next
    case False
    then have s: "steps_to (json_init cap) (jrun cs ([], None)) ?j" using calls_steps [OF init_depicts assms] by simp
    show ?thesis
    proof (cases "jrun cs ([], None)")
      case None
      then show ?thesis using s by (simp add: steps_to_def json_finish_def jresult_def)
    next
      case (Some st)
      obtain fs d where st: "st = (fs, d)" by fastforce
      show ?thesis
      proof (cases "length (jtext st) < cap")
        case True
        then have "depicts ?j (fs, d)" using s Some st by (simp add: steps_to_def init_cap)
        then show ?thesis
          using Some st True by (cases fs; cases d) (auto simp: depicts_Nil depicts_Cons json_finish_def jresult_def)
      next
        case False
        then have "j_failed ?j" using s Some by (simp add: steps_to_def init_cap)
        then show ?thesis using Some st False
          by (cases fs; cases d) (auto simp: json_finish_def jresult_def)
      qed
    qed
  qed
  then show "json_finish ?j = (case jresult cs of
        Some v \<Rightarrow> if length (render v) < cap then Some (length (render v)) else None | None \<Rightarrow> None)"
    and "jresult cs = Some v \<Longrightarrow> length (render v) < cap \<Longrightarrow> j_buf ?j = render v" by blast+
qed


end
