(* ===== verification/Json_Text.thy ===== *)
theory Json_Text
  imports Json_Tree
begin

text \<open>
  The text the JSON writer leaves: \<open>json_is_number\<close> is the grammar of RFC 8259 (\<open>is_number_text\<close>),
  every document is one of the grammar (\<open>jresult_ok\<close>), every document of bounded depth can be
  written (\<open>jresult_calls_of\<close>), and a reader of JSON text gets the same document back
  (\<open>json_read_render\<close>). The reader, the trees and the grammar are specification; only the writer
  is in the sources.
\<close>

section \<open>Numbers\<close>

text \<open>JSON's grammar of numbers, as RFC 8259 and the header write it.\<close>

definition digits :: "string \<Rightarrow> bool" where
  "digits ds \<longleftrightarrow> ds \<noteq> [] \<and> (\<forall>c \<in> set ds. is_digit c)"

definition int_text :: "string \<Rightarrow> bool" where
  "int_text t \<longleftrightarrow> t = ''0'' \<or> (digits t \<and> hd t \<noteq> CHR ''0'')"

definition frac_text :: "string \<Rightarrow> bool" where
  "frac_text t \<longleftrightarrow> t = [] \<or> (\<exists>ds. digits ds \<and> t = ''.'' @ ds)"

definition exp_text :: "string \<Rightarrow> bool" where
  "exp_text t \<longleftrightarrow> t = [] \<or> (\<exists>e sg ds. digits ds \<and> t = e # sg @ ds \<and> e \<in> {CHR ''e'', CHR ''E''} \<and> sg \<in> {[], ''+'', ''-''})"

definition number_text :: "string \<Rightarrow> bool" where
  "number_text t \<longleftrightarrow> (\<exists>sg i f e. t = sg @ i @ f @ e \<and> sg \<in> {[], ''-''} \<and> int_text i \<and> frac_text f \<and> exp_text e)"

abbreviation no_digit :: "string \<Rightarrow> bool" where
  "no_digit r \<equiv> r = [] \<or> \<not> is_digit (hd r)"

lemma digit_facts:
  "\<not> is_digit CHR ''.''" "\<not> is_digit CHR ''e''" "\<not> is_digit CHR ''E''" "\<not> is_digit CHR ''+''"
  "\<not> is_digit CHR ''-''" "is_digit CHR ''0''" "is_digit c \<Longrightarrow> c \<noteq> CHR ''0'' \<Longrightarrow> CHR ''1'' \<le> c \<and> c \<le> CHR ''9''"
  "CHR ''1'' \<le> c \<Longrightarrow> c \<le> CHR ''9'' \<Longrightarrow> is_digit c \<and> c \<noteq> CHR ''0''"
proof -
  show "is_digit c \<Longrightarrow> c \<noteq> CHR ''0'' \<Longrightarrow> CHR ''1'' \<le> c \<and> c \<le> CHR ''9''"
  proof -
    assume a: "is_digit c" "c \<noteq> CHR ''0''"
    have "(of_char c :: nat) \<noteq> of_char CHR ''0''" using a(2) by (metis char_of_char)
    then show ?thesis using a(1) by (simp add: is_digit_def char_le_nat)
  qed
qed (auto simp: is_digit_def char_le_nat)

lemma skip_digits_append: "\<forall>c \<in> set ds. is_digit c \<Longrightarrow> no_digit r \<Longrightarrow> skip_digits (ds @ r) = r"
  unfolding skip_digits_def by (induction ds) (auto simp: dropWhile_eq_self_iff)

lemma skip_digits_split: "\<exists>ds. p = ds @ skip_digits p \<and> (\<forall>c \<in> set ds. is_digit c) \<and> no_digit (skip_digits p)"
proof (intro exI conjI)
  show "p = takeWhile is_digit p @ skip_digits p" by (simp add: skip_digits_def)
  show "\<forall>c \<in> set (takeWhile is_digit p). is_digit c" by (auto dest: set_takeWhileD)
  show "no_digit (skip_digits p)"
    using hd_dropWhile [where P = is_digit and xs = p] unfolding skip_digits_def dropWhile_eq_Nil_conv by blast
qed

lemma some_digits_iff: "some_digits p = Some r \<longleftrightarrow> (\<exists>ds. p = ds @ r \<and> digits ds) \<and> no_digit r \<and> skip_digits p = r"
proof
  assume l: "some_digits p = Some r"
  then obtain c q where p: "p = c # q" "is_digit c" "r = skip_digits p"
    by (auto simp: some_digits_def split: list.splits if_splits)
  obtain ds where ds: "p = ds @ skip_digits p" "\<forall>c \<in> set ds. is_digit c" "no_digit (skip_digits p)"
    using skip_digits_split by blast
  have "ds \<noteq> []" using ds p(1,2) by (cases ds) auto
  then show "(\<exists>ds. p = ds @ r \<and> digits ds) \<and> no_digit r \<and> skip_digits p = r"
    using ds p(3) by (auto simp: digits_def)
next
  assume "(\<exists>ds. p = ds @ r \<and> digits ds) \<and> no_digit r \<and> skip_digits p = r"
  then obtain ds where ds: "p = ds @ r" "digits ds" "skip_digits p = r" by blast
  then show "some_digits p = Some r" by (cases ds) (auto simp: some_digits_def digits_def)
qed

lemma some_digits_append: "digits ds \<Longrightarrow> no_digit r \<Longrightarrow> some_digits (ds @ r) = Some r"
  using skip_digits_append [of ds r] by (auto simp: some_digits_iff digits_def)

lemma int_part_append: "int_text i \<Longrightarrow> no_digit r \<Longrightarrow> int_part (i @ r) = Some r"
  using skip_digits_append [of i r] digit_facts(7)
  by (cases i) (auto simp: int_text_def int_part_def digits_def)

lemma int_part_split: "int_part p = Some r \<Longrightarrow> \<exists>i. p = i @ r \<and> int_text i"
proof -
  assume a: "int_part p = Some r"
  show ?thesis
  proof (cases "hd p = CHR ''0''")
    case True
    then show ?thesis using a by (auto simp: int_part_def int_text_def split: list.splits)
  next
    case False
    then obtain c q where p: "p = c # q" "CHR ''1'' \<le> c" "c \<le> CHR ''9''" "r = skip_digits p"
      using a by (auto simp: int_part_def split: list.splits if_splits)
    then have "some_digits p = Some r" using digit_facts(8) by (simp add: some_digits_def)
    then obtain ds where ds: "p = ds @ r" "digits ds" by (auto simp: some_digits_iff)
    then have "hd ds = c" using p(1) by (cases ds) (auto simp: digits_def)
    then have "int_text ds" using ds(2) p(2,3) digit_facts(8) by (auto simp: int_text_def)
    then show ?thesis using ds(1) by blast
  qed
qed

lemma frac_part_append: "frac_text f \<Longrightarrow> no_digit r \<Longrightarrow> r = [] \<or> hd r \<noteq> CHR ''.'' \<Longrightarrow> frac_part (f @ r) = Some r"
  using some_digits_append [of _ r] by (cases r) (auto simp: frac_text_def frac_part_def split: list.splits)

lemma frac_part_split: "frac_part p = Some r \<Longrightarrow> \<exists>f. p = f @ r \<and> frac_text f"
proof (cases "p \<noteq> [] \<and> hd p = CHR ''.''")
  case True
  assume "frac_part p = Some r"
  with True have "some_digits (tl p) = Some r" by (auto simp: frac_part_def split: list.splits)
  then obtain ds where "tl p = ds @ r" "digits ds" by (auto simp: some_digits_iff)
  then show ?thesis using True by (intro exI [of _ "CHR ''.'' # ds"]) (auto simp: frac_text_def neq_Nil_conv)
next
  case False
  assume "frac_part p = Some r"
  then show ?thesis using False by (intro exI [of _ "[]"]) (auto simp: frac_part_def frac_text_def split: list.splits)
qed

lemma exp_part_append:
  assumes "exp_text e"
  shows "exp_part e = Some []"
proof (cases "e = []")
  case True
  then show ?thesis by (simp add: exp_part_def)
next
  case False
  then obtain c sg ds where e: "digits ds" "e = c # sg @ ds" "c \<in> {CHR ''e'', CHR ''E''}" "sg \<in> {[], ''+'', ''-''}"
    using assms by (auto simp: exp_text_def)
  have "some_digits ds = Some []" using some_digits_append [OF e(1), of "[]"] by simp
  moreover obtain d ds' where "ds = d # ds'" "is_digit d" using e(1) by (cases ds) (auto simp: digits_def)
  ultimately show ?thesis using e digit_facts(4,5) by (auto simp: exp_part_def)
qed

lemma exp_part_split: "exp_part p = Some [] \<Longrightarrow> exp_text p"
proof (cases p)
  case (Cons c q)
  define sg where "sg = (case q of d # r \<Rightarrow> if d = CHR ''+'' \<or> d = CHR ''-'' then [d] else [] | [] \<Rightarrow> [])"
  define ds where "ds = (case q of d # r \<Rightarrow> if d = CHR ''+'' \<or> d = CHR ''-'' then r else q | [] \<Rightarrow> q)"
  assume "exp_part p = Some []"
  then have c: "c \<in> {CHR ''e'', CHR ''E''}" "some_digits ds = Some []"
    using Cons by (auto simp: exp_part_def ds_def split: if_splits)
  have "q = sg @ ds" "sg \<in> {[], ''+'', ''-''}" by (auto simp: sg_def ds_def split: list.splits)
  moreover have "digits ds" using c(2) by (auto simp: some_digits_iff)
  ultimately show ?thesis using c(1) Cons unfolding exp_text_def by blast
qed (simp add: exp_text_def)

lemma is_number_text: "json_is_number (Some t) \<longleftrightarrow> number_text t"
proof
  assume "json_is_number (Some t)"
  then obtain p2 p3 where p: "int_part (skip_sign t) = Some p2" "frac_part p2 = Some p3" "exp_part p3 = Some []"
    by (auto simp: json_is_number_def split: option.splits)
  define sg where "sg = (if t \<noteq> [] \<and> hd t = CHR ''-'' then ''-'' else [])"
  have sg: "t = sg @ skip_sign t" "sg \<in> {[], ''-''}" by (cases t; simp add: sg_def skip_sign_def)+
  obtain i f where "skip_sign t = i @ p2" "int_text i" "p2 = f @ p3" "frac_text f"
    using int_part_split [OF p(1)] frac_part_split [OF p(2)] by blast
  then show "number_text t" using sg exp_part_split [OF p(3)] unfolding number_text_def by (metis append_assoc)
next
  assume "number_text t"
  then obtain sg i f e where t: "t = sg @ i @ f @ e" "sg \<in> {[], ''-''}" "int_text i" "frac_text f" "exp_text e"
    by (auto simp: number_text_def)
  have e: "no_digit e" "e = [] \<or> hd e \<noteq> CHR ''.''" using t(5) digit_facts by (auto simp: exp_text_def)
  have f: "no_digit (f @ e)" using t(4) e digit_facts by (auto simp: frac_text_def)
  have "i \<noteq> []" "hd i \<noteq> CHR ''-''" using t(3) digit_facts(5) by (cases i; auto simp: int_text_def digits_def)+
  then have "skip_sign t = i @ f @ e" using t(1,2) by (cases i) (auto simp: skip_sign_def)
  then show "json_is_number (Some t)"
    using int_part_append [OF t(3) f] frac_part_append [OF t(4) e] exp_part_append [OF t(5)]
    by (simp add: json_is_number_def)
qed

text \<open>What \<open>%lld\<close> and \<open>%llu\<close> print is a number.\<close>

lemma digit_char_10: "d < 10 \<Longrightarrow> is_digit (digit_char d)" "d < 10 \<Longrightarrow> digit_char d = CHR ''0'' \<longleftrightarrow> d = 0"
proof -
  assume d: "d < 10"
  have n: "(of_char (digit_char d) :: nat) = 48 + d" using d by (simp add: digit_char_def)
  then show "is_digit (digit_char d)" using d by (simp add: is_digit_def char_le_nat)
  have inj: "digit_char d = CHR ''0'' \<Longrightarrow> d = 0" using n by auto
  have z: "(of_char CHR ''0'' :: nat) = 48" by simp
  have "char_of (48 :: nat) = CHR ''0''" unfolding z [symmetric] by (rule char_of_char)
  then show "digit_char d = CHR ''0'' \<longleftrightarrow> d = 0" using inj by (auto simp: digit_char_def)
qed

lemma print_nat_10: "digits (print_nat 10 n)" "n \<noteq> 0 \<Longrightarrow> hd (print_nat 10 n) \<noteq> CHR ''0''"
proof -
  have "digits (print_nat 10 n) \<and> (n \<noteq> 0 \<longrightarrow> hd (print_nat 10 n) \<noteq> CHR ''0'')"
  proof (induction n rule: less_induct)
    case (less n)
    show ?case
    proof (cases "n < 10")
      case True
      then show ?thesis using digit_char_10 by (simp add: print_nat.simps [of 10 n] digits_def)
    next
      case False
      then have "digits (print_nat 10 (n div 10))" "hd (print_nat 10 (n div 10)) \<noteq> CHR ''0''"
        using less [of "n div 10"] by auto
      then show ?thesis
        using False digit_char_10(1) [of "n mod 10"] by (auto simp: print_nat.simps [of 10 n] digits_def)
    qed
  qed
  then show "digits (print_nat 10 n)" "n \<noteq> 0 \<Longrightarrow> hd (print_nat 10 n) \<noteq> CHR ''0''" by blast+
qed

lemma print_nat_int_text: "int_text (print_nat 10 n)"
  using print_nat_10 [of n] digit_char_10(2) [of 0]
  by (cases "n = 0") (auto simp: int_text_def print_nat.simps [of 10 0])

lemma fmt_number: "json_is_number (Some (fmt_d (v :: 64 word)))" "json_is_number (Some (fmt_u (u :: u64)))"
proof -
  have n: "number_text (sg @ print_nat 10 n)" if "sg \<in> {[], ''-''}" for sg n
    using that print_nat_int_text [of n] unfolding number_text_def
    by (intro exI [of _ sg] exI [of _ "print_nat 10 n"] exI [of _ "[]"]) (simp add: frac_text_def exp_text_def)
  show "json_is_number (Some (fmt_d v))" "json_is_number (Some (fmt_u u))"
    using n [of "if sint v < 0 then ''-'' else []"] n [of "[]"]
    by (simp_all add: is_number_text fmt_d_def fmt_u_def Let_def)
qed

section \<open>The documents written are documents of the grammar\<close>

fun frame_good :: "frame \<Rightarrow> bool" where
  "frame_good (FArr vs) = (\<forall>v \<in> set vs. jval_ok v)"
| "frame_good (FObj kvs k) = ((\<forall>kv \<in> set kvs. ascii (fst kv) \<and> jval_ok (snd kv)) \<and> (\<forall>s. k = Some s \<longrightarrow> ascii s))"

definition jstate_ok :: "jstate \<Rightarrow> bool" where
  "jstate_ok st \<longleftrightarrow> (\<forall>f \<in> set (fst st). frame_good f) \<and> (\<forall>v. snd st = Some v \<longrightarrow> jval_ok v)"

lemma fill_good: "busy f \<Longrightarrow> frame_good f \<Longrightarrow> jval_ok v \<Longrightarrow> frame_good (fill f v)"
  by (cases f) auto

lemma number_not_null: "json_is_number t \<Longrightarrow> \<exists>s. t = Some s"
  by (cases t) (simp_all add: json_is_number_def)

lemma place_ok: "place v st = Some st' \<Longrightarrow> jstate_ok st \<Longrightarrow> jval_ok v \<Longrightarrow> jstate_ok st'"
  by (cases "(v, st)" rule: place.cases) (auto simp: jstate_ok_def fill_good split: if_splits)

lemma jstep_ok:
  assumes "jstep c st = Some st'" and "jstate_ok st" and "call_ok c"
  shows "jstate_ok st'"
proof -
  obtain fs d where st: "st = (fs, d)" by fastforce
  show ?thesis
  proof (cases c)
    case (CBegin object)
    then show ?thesis using assms by (auto simp: st jstate_ok_def split: if_splits)
  next
    case (CEnd object)
    then obtain f gs where fs: "fs = f # gs" using assms(1) by (cases fs) (auto simp: st)
    have ok: "frame_good f" "jstate_ok (gs, d)" using assms(2) by (auto simp: st fs jstate_ok_def)
    show ?thesis
      using assms(1) CEnd ok place_ok [of _ "(gs, d)" st']
      by (cases f) (auto simp: st fs split: if_splits option.splits)
  next
    case (CKey k)
    then show ?thesis
      using assms by (auto simp: st jstate_ok_def split: option.splits list.splits frame.splits if_splits)
  next
    case (CNumber t)
    then obtain s where "t = Some s" "json_is_number (Some s)" using assms(1) number_not_null by (auto split: if_splits)
    then show ?thesis using assms CNumber place_ok [of "JNumber s" st st'] by simp
  next
    case (CDouble v)
    then have "json_is_number (Some (d_fmt_g v (digits_of v)))" "place (JNumber (d_fmt_g v (digits_of v))) st = Some st'"
      using assms(1,3) by (auto simp: double_ok_def digits_of_def split: if_splits)
    then show ?thesis using assms(2) place_ok [of "JNumber (d_fmt_g v (digits_of v))" st st'] by simp
  qed (use assms place_ok [of _ st st'] fmt_number in \<open>auto split: option.splits if_splits\<close>)
qed

lemma jrun_ok: "jrun cs st = Some st' \<Longrightarrow> jstate_ok st \<Longrightarrow> \<forall>c \<in> set cs. call_ok c \<Longrightarrow> jstate_ok st'"
  by (induction cs arbitrary: st) (auto split: option.splits dest: jstep_ok)

lemma jresult_ok: "jresult cs = Some v \<Longrightarrow> \<forall>c \<in> set cs. call_ok c \<Longrightarrow> jval_ok v"
  using jrun_ok [of cs "([], None)"]
  by (auto simp: jresult_def jstate_ok_def split: option.splits prod.splits list.splits)

section \<open>The calls that write a given document\<close>

primrec calls_of :: "jval \<Rightarrow> jcall list" where
  "calls_of (JString s) = [CString (Some s)]"
| "calls_of (JNumber t) = [CNumber (Some t)]"
| "calls_of (JBool b) = [CBool b]"
| "calls_of JNull = [CNull]"
| "calls_of (JArray vs) = CBegin False # concat (map calls_of vs) @ [CEnd False]"
| "calls_of (JObject kvs) =
     CBegin True # concat (map (\<lambda>(k, cs). CKey (Some k) # cs) (map (map_prod id calls_of) kvs)) @ [CEnd True]"

text \<open>Nesting within \<open>n\<close> levels.\<close>

primrec nests :: "jval \<Rightarrow> nat \<Rightarrow> bool" where
  "nests (JString s) n = True"
| "nests (JNumber t) n = True"
| "nests (JBool b) n = True"
| "nests JNull n = True"
| "nests (JArray vs) n = (0 < n \<and> (\<forall>p \<in> set (map nests vs). p (n - 1)))"
| "nests (JObject kvs) n = (0 < n \<and> (\<forall>p \<in> set (map (map_prod id nests) kvs). snd p (n - 1)))"

lemma place_not_None: "place v st = Some st' \<Longrightarrow> place w st \<noteq> None"
  by (cases "(v, st)" rule: place.cases) (auto split: if_splits)

lemma jrun_calls_of:
  "jval_ok v \<Longrightarrow> nests v n \<Longrightarrow> length fs + n \<le> JSON_MAX_DEPTH \<Longrightarrow> place v (fs, d) = Some st \<Longrightarrow>
     jrun (calls_of v) (fs, d) = Some st"
proof (induction v arbitrary: n fs d st)
  case (JArray vs)
  have n: "0 < n" "\<forall>v \<in> set vs. nests v (n - 1)" using JArray.prems(2) by auto
  have items: "jrun (concat (map calls_of us)) (FArr ws # fs, d) = Some (FArr (ws @ us) # fs, d)"
    if "set us \<subseteq> set vs" for us ws
    using that
  proof (induction us arbitrary: ws)
    case (Cons u us)
    then have "jrun (calls_of u) (FArr ws # fs, d) = Some (FArr (ws @ [u]) # fs, d)"
      using JArray.IH [of u "n - 1" "FArr ws # fs" d] JArray.prems(1,3) n by auto
    then show ?case using Cons by (simp add: jrun_append)
  qed simp
  have "length fs < JSON_MAX_DEPTH" using JArray.prems(3) n(1) by simp
  then show ?case
    using items [of vs "[]"] place_not_None [OF JArray.prems(4), of JNull] JArray.prems(4) by (auto simp: jrun_append)
next
  case (JObject kvs)
  have n: "0 < n" "\<forall>kv \<in> set kvs. nests (snd kv) (n - 1)" using JObject.prems(2) by auto
  have items: "jrun (concat (map (\<lambda>(k, cs). CKey (Some k) # cs) (map (map_prod id calls_of) us))) (FObj ws None # fs, d) =
      Some (FObj (ws @ us) None # fs, d)" if "set us \<subseteq> set kvs" for us ws
    using that
  proof (induction us arbitrary: ws)
    case (Cons u us)
    obtain k v where u: "u = (k, v)" by fastforce
    then have "(k, v) \<in> set kvs" using Cons.prems by auto
    then have kv: "ascii k" "jval_ok v" "nests v (n - 1)" using JObject.prems(1) n(2) by fastforce+
    have "jrun (calls_of v) (FObj ws (Some k) # fs, d) = Some (FObj (ws @ [(k, v)]) None # fs, d)"
      by (rule JObject.IH [OF \<open>(k, v) \<in> set kvs\<close> _ kv(2,3)]) (use JObject.prems(3) n(1) in auto)
    note this kv(1)
    then show ?case using Cons u by (simp add: jrun_append)
  qed simp
  have "length fs < JSON_MAX_DEPTH" using JObject.prems(3) n(1) by simp
  then show ?case
    using items [of kvs "[]"] place_not_None [OF JObject.prems(4), of JNull] JObject.prems(4) by (auto simp: jrun_append)
qed simp_all

lemma jresult_calls_of: "jval_ok v \<Longrightarrow> nests v JSON_MAX_DEPTH \<Longrightarrow> jresult (calls_of v) = Some v"
  using jrun_calls_of [of v JSON_MAX_DEPTH "[]" None] by (simp add: jresult_def)

section \<open>Reading a document back\<close>

text \<open>A reader of JSON text, as RFC 8259 has it, for texts of one-byte characters: what is left after
  a value is returned with it. \<open>parse_value\<close> needs fuel for the nesting; the length of the text
  is enough.\<close>

definition hex_char :: "char \<Rightarrow> char \<Rightarrow> char \<Rightarrow> char \<Rightarrow> char option" where
  "hex_char a b c d =
     (case (digit_val 16 a, digit_val 16 b, digit_val 16 c, digit_val 16 d) of
        (Some w, Some x, Some y, Some z) \<Rightarrow>
          let n = ((w * 16 + x) * 16 + y) * 16 + z in if n < 256 then Some (char_of n) else None
      | _ \<Rightarrow> None)"

definition unescape :: "char \<Rightarrow> char option" where
  "unescape c =
     (if c = CHR 0x22 \<or> c = CHR 0x5C \<or> c = CHR ''/'' then Some c
      else if c = CHR ''b'' then Some CHR 0x08
      else if c = CHR ''f'' then Some CHR 0x0C
      else if c = CHR ''n'' then Some CHR 0x0A
      else if c = CHR ''r'' then Some CHR 0x0D
      else if c = CHR ''t'' then Some CHR 0x09
      else None)"

fun read_string :: "string \<Rightarrow> (string \<times> string) option" where
  "read_string [] = None"
| "read_string (c # r) =
     (if c = CHR 0x22 then Some ([], r)
      else if c = CHR 0x5C then
        (case r of
           e # r1 \<Rightarrow>
             (case unescape e of
                Some x \<Rightarrow> map_option (\<lambda>(s, t). (x # s, t)) (read_string r1)
              | None \<Rightarrow>
                  (case (e = CHR ''u'', r1) of
                     (True, h1 # h2 # h3 # h4 # r2) \<Rightarrow>
                       (case hex_char h1 h2 h3 h4 of
                          Some x \<Rightarrow> map_option (\<lambda>(s, t). (x # s, t)) (read_string r2)
                        | None \<Rightarrow> None)
                   | _ \<Rightarrow> None))
         | [] \<Rightarrow> None)
      else if (of_char c :: nat) < 0x20 then None
      else map_option (\<lambda>(s, t). (c # s, t)) (read_string r))"

definition num_char :: "char \<Rightarrow> bool" where
  "num_char c \<longleftrightarrow> is_digit c \<or> c \<in> {CHR ''+'', CHR ''-'', CHR ''.'', CHR ''e'', CHR ''E''}"

definition parse_scalar :: "string \<Rightarrow> (jval \<times> string) option" where
  "parse_scalar s =
     (if take 4 s = ''true'' then Some (JBool True, drop 4 s)
      else if take 5 s = ''false'' then Some (JBool False, drop 5 s)
      else if take 4 s = ''null'' then Some (JNull, drop 4 s)
      else if json_is_number (Some (takeWhile num_char s))
      then Some (JNumber (takeWhile num_char s), dropWhile num_char s) else None)"

fun parse_value :: "nat \<Rightarrow> string \<Rightarrow> (jval \<times> string) option"
  and parse_items :: "nat \<Rightarrow> string \<Rightarrow> (jval list \<times> string) option"
  and parse_members :: "nat \<Rightarrow> string \<Rightarrow> ((string \<times> jval) list \<times> string) option" where
  "parse_value 0 s = None"
| "parse_value (Suc n) s =
     (case s of
        [] \<Rightarrow> None
      | c # r \<Rightarrow>
          if c = CHR 0x22 then map_option (\<lambda>(t, r). (JString t, r)) (read_string r)
          else if c = CHR ''['' then
            (case r of
               d # r1 \<Rightarrow> if d = CHR '']'' then Some (JArray [], r1)
                         else map_option (\<lambda>(vs, r). (JArray vs, r)) (parse_items n r)
             | [] \<Rightarrow> None)
          else if c = CHR ''{'' then
            (case r of
               d # r1 \<Rightarrow> if d = CHR ''}'' then Some (JObject [], r1)
                         else map_option (\<lambda>(kvs, r). (JObject kvs, r)) (parse_members n r)
             | [] \<Rightarrow> None)
          else parse_scalar s)"
| "parse_items 0 s = None"
| "parse_items (Suc n) s =
     (case parse_value n s of
        Some (v, c # r) \<Rightarrow>
          if c = CHR '','' then map_option (\<lambda>(vs, r). (v # vs, r)) (parse_items n r)
          else if c = CHR '']'' then Some ([v], r) else None
      | _ \<Rightarrow> None)"
| "parse_members 0 s = None"
| "parse_members (Suc n) s =
     (case s of
        q # r \<Rightarrow>
          if q = CHR 0x22 then
            (case read_string r of
               Some (k, c # r1) \<Rightarrow>
                 if c = CHR '':'' then
                   (case parse_value n r1 of
                      Some (v, d # r2) \<Rightarrow>
                        if d = CHR '','' then map_option (\<lambda>(kvs, r). ((k, v) # kvs, r)) (parse_members n r2)
                        else if d = CHR ''}'' then Some ([(k, v)], r2) else None
                    | _ \<Rightarrow> None)
                 else None
             | _ \<Rightarrow> None)
          else None
      | [] \<Rightarrow> None)"

lemma zero_pad_hex:
  assumes "n < 128"
  shows "zero_pad 4 (fmt_x (of_nat n :: u8)) = [CHR ''0'', CHR ''0'', digit_char (n div 16), digit_char (n mod 16)]"
proof -
  have u: "unat (of_nat n :: u8) = n" using assms by (simp add: unsigned_of_nat take_bit_nat_eq_self)
  have z: "digit_char 0 = CHR ''0''" using digit_char_10(2) [of 0] by simp
  have "n div 16 < 16" using assms by (simp add: less_mult_imp_div_less)
  then have "print_nat 16 n = (if n < 16 then [digit_char n] else [digit_char (n div 16), digit_char (n mod 16)])"
    by (subst print_nat.simps, subst print_nat.simps) simp
  then show ?thesis by (cases "n < 16") (simp_all add: zero_pad_def fmt_x_def u z numeral_2_eq_2 numeral_3_eq_3)
qed

lemma hex_char_digits:
  assumes "n < 128"
  shows "hex_char CHR ''0'' CHR ''0'' (digit_char (n div 16)) (digit_char (n mod 16)) = Some (char_of n)"
proof -
  have "digit_val 16 CHR ''0'' = Some 0" by (simp add: digit_val_def)
  then show ?thesis using assms by (simp add: hex_char_def digit_val_digit_char Let_def)
qed

text \<open>The escape of a character reads back as that character.\<close>

lemma esc_cases:
  assumes "(of_char c :: nat) < 0x80"
  obtains (plain) "esc c = [c]" "c \<noteq> CHR 0x22" "c \<noteq> CHR 0x5C" "0x20 \<le> (of_char c :: nat)"
  | (short) e where "esc c = [CHR 0x5C, e]" "unescape e = Some c"
  | (hex) n where "n < 128" "c = char_of n"
      "esc c = [CHR 0x5C, CHR ''u'', CHR ''0'', CHR ''0'', digit_char (n div 16), digit_char (n mod 16)]"
proof -
  define n where "n = (of_char c :: nat)"
  have c: "c = char_of n" by (simp add: n_def)
  have n: "n < 128" using assms by (simp add: n_def)
  consider "n \<in> {0x22, 0x5C, 8, 12, 10, 13, 9}"
    | "n \<notin> {0x22, 0x5C, 8, 12, 10, 13, 9}" "n < 0x20 \<or> n = 0x7F" | "n \<notin> {0x22, 0x5C}" "0x20 \<le> n" "n \<noteq> 0x7F"
    by force
  then show ?thesis
  proof cases
    case 1
    define e where "e = esc c ! 1"
    have code: "c = d" if "n = of_char d" for d using that of_char_eq_iff [of c d, where ?'a = nat] by (simp add: n_def)
    have "c \<in> {CHR 0x22, CHR 0x5C, CHR 8, CHR 12, CHR 10, CHR 13, CHR 9}"
      using 1 code [of "CHR 0x22"] code [of "CHR 0x5C"] code [of "CHR 8"] code [of "CHR 12"] code [of "CHR 10"]
        code [of "CHR 13"] code [of "CHR 9"] by auto
    then have "esc c = [CHR 0x5C, e] \<and> unescape e = Some c" by (auto simp: e_def esc_def unescape_def)
    then show ?thesis using short by blast
  next
    case 2
    then have "esc c = fst (snprintf 8 (CHR 0x5C # ''u'' @ zero_pad 4 (fmt_x (of_nat n :: u8))))"
      unfolding esc_def by (simp add: n_def [symmetric] Let_def)
    then show ?thesis using hex [OF n c] by (simp add: zero_pad_hex [OF n] snprintf_def)
  next
    case 3
    then have "esc c = [c]" unfolding esc_def by (auto simp: n_def [symmetric] Let_def)
    moreover have "c \<noteq> CHR 0x22" "c \<noteq> CHR 0x5C" using 3 by (auto simp: n_def)
    ultimately show ?thesis using plain 3 by (simp add: n_def)
  qed
qed

lemma read_string_esc:
  assumes "(of_char c :: nat) < 0x80"
  shows "read_string (esc c @ r) = map_option (\<lambda>(s, t). (c # s, t)) (read_string r)"
  using assms
proof (cases rule: esc_cases)
  case (hex n)
  have "unescape CHR ''u'' = None" by (simp add: unescape_def)
  then show ?thesis using hex hex_char_digits [of n] by simp
qed auto

lemma read_string_quoted: "ascii s \<Longrightarrow> read_string (concat (map esc s) @ CHR 0x22 # r) = Some (s, r)"
  by (induction s) (simp_all add: read_string_esc)

section \<open>Rendering and reading\<close>

text \<open>What may follow a value: nothing, or a comma or closing bracket.\<close>

abbreviation ends :: "string \<Rightarrow> bool" where
  "ends r \<equiv> r = [] \<or> hd r \<in> {CHR '','', CHR '']'', CHR ''}''}"

lemma number_chars: "number_text t \<Longrightarrow> c \<in> set t \<Longrightarrow> num_char c"
proof -
  assume "number_text t" and c: "c \<in> set t"
  then obtain sg i f e where t: "t = sg @ i @ f @ e" "sg \<in> {[], ''-''}" "int_text i" "frac_text f" "exp_text e"
    by (auto simp: number_text_def)
  have d: "digits ds \<Longrightarrow> c \<in> set ds \<Longrightarrow> num_char c" for ds by (simp add: digits_def num_char_def)
  have "c \<in> set i \<Longrightarrow> num_char c" using t(3) d [of i] by (auto simp: int_text_def num_char_def digit_facts(6))
  moreover have "c \<in> set f \<Longrightarrow> num_char c" using t(4) d by (auto simp: frac_text_def num_char_def)
  moreover have "c \<in> set e \<Longrightarrow> num_char c" using t(5) d by (auto simp: exp_text_def num_char_def)
  ultimately show ?thesis using t(1,2) c by (auto simp: num_char_def)
qed

lemma takeWhile_ends:
  assumes "\<forall>c \<in> set t. num_char c" and "ends r"
  shows "takeWhile num_char (t @ r) = t" "dropWhile num_char (t @ r) = r"
proof -
  have "\<not> num_char CHR '',''" "\<not> num_char CHR '']''" "\<not> num_char CHR ''}''"
    by (simp_all add: num_char_def is_digit_def char_le_nat)
  then have r: "takeWhile num_char r = []" "dropWhile num_char r = r" using assms(2) by (cases r; auto)+
  show "takeWhile num_char (t @ r) = t" "dropWhile num_char (t @ r) = r" using assms(1) r by (simp_all add: takeWhile_append2 dropWhile_append2)
qed

lemma number_hd:
  assumes "number_text t"
  shows "\<exists>c s. t = c # s \<and> (is_digit c \<or> c = CHR ''-'')"
proof -
  obtain sg i f e where t: "t = sg @ i @ f @ e" "sg \<in> {[], ''-''}" "int_text i" using assms by (auto simp: number_text_def)
  then obtain d ds where "i = d # ds" "is_digit d" by (cases i) (auto simp: int_text_def digits_def digit_facts(6))
  then show ?thesis using t by auto
qed

lemma parse_number:
  assumes "json_is_number (Some t)" and "ends r"
  shows "parse_value (Suc n) (t @ r) = Some (JNumber t, r)"
proof -
  obtain c s where c: "t = c # s" "is_digit c \<or> c = CHR ''-''" using assms(1) number_hd [of t] by (auto simp: is_number_text)
  have "c \<notin> {CHR 0x22, CHR ''['', CHR ''{'', CHR ''t'', CHR ''f'', CHR ''n''}"
    using c(2) by (auto simp: is_digit_def char_le_nat)
  moreover have "takeWhile num_char (t @ r) = t" "dropWhile num_char (t @ r) = r"
    using takeWhile_ends [of t r] number_chars [of t] assms by (simp_all add: is_number_text)
  ultimately show ?thesis using c(1) assms(1) by (simp add: parse_scalar_def)
qed

lemma render_nonempty: "jval_ok v \<Longrightarrow> \<exists>c s. render v = c # s \<and> c \<notin> {CHR '']'', CHR ''}''}"
proof (cases v)
  case (JNumber t)
  assume "jval_ok v"
  then obtain c s where "t = c # s" "is_digit c \<or> c = CHR ''-''" using JNumber number_hd [of t] by (auto simp: is_number_text)
  then show ?thesis using JNumber by (auto simp: is_digit_def char_le_nat)
qed (auto simp: quoted_def)

lemma commas_Cons: "commas (x # xs) = x @ (if xs = [] then [] else CHR '','' # commas xs)"
  by (cases xs) (simp_all add: commas_def)

lemma parse_items_render:
  assumes "\<And>v n r. v \<in> set vs \<Longrightarrow> length (render v) \<le> n \<Longrightarrow> ends r \<Longrightarrow> parse_value n (render v @ r) = Some (v, r)"
    and "vs \<noteq> []" and "length (commas (map render vs)) < n"
  shows "parse_items n (commas (map render vs) @ CHR '']'' # r) = Some (vs, r)"
  using assms
proof (induction vs arbitrary: n)
  case (Cons v vs)
  obtain m where n: "n = Suc m" "length (commas (map render (v # vs))) \<le> m" using Cons.prems(3) by (cases n) auto
  have v: "parse_value m (render v @ t) = Some (v, t)" if "ends t" for t
    using Cons.prems(1) [of v m t] n(2) that by (simp add: commas_Cons)
  show ?case
  proof (cases "vs = []")
    case True
    then show ?thesis using v [of "CHR '']'' # r"] by (simp add: n(1) commas_Cons)
  next
    case False
    then have "parse_items m (commas (map render vs) @ CHR '']'' # r) = Some (vs, r)"
      using Cons.IH [of m] Cons.prems(1) n(2) by (simp add: commas_Cons)
    then show ?thesis using False v [of "CHR '','' # commas (map render vs) @ CHR '']'' # r"] by (simp add: n(1) commas_Cons)
  qed
qed simp

lemma parse_members_render:
  assumes "\<And>kv n r. kv \<in> set kvs \<Longrightarrow> length (render (snd kv)) \<le> n \<Longrightarrow> ends r \<Longrightarrow>
      parse_value n (render (snd kv) @ r) = Some (snd kv, r)"
    and "\<And>kv. kv \<in> set kvs \<Longrightarrow> ascii (fst kv)"
    and "kvs \<noteq> []" and "length (commas (map member kvs)) < n"
  shows "parse_members n (commas (map member kvs) @ CHR ''}'' # r) = Some (kvs, r)"
  using assms
proof (induction kvs arbitrary: n)
  case (Cons kv kvs)
  obtain m where n: "n = Suc m" "length (commas (map member (kv # kvs))) \<le> m" using Cons.prems(4) by (cases n) auto
  have v: "parse_value m (render (snd kv) @ t) = Some (snd kv, t)" if "ends t" for t
    using Cons.prems(1) [of kv m t] n(2) that by (simp add: commas_Cons member_def)
  have k: "read_string (concat (map esc (fst kv)) @ CHR 0x22 # t) = Some (fst kv, t)" for t
    using Cons.prems(2) [of kv] read_string_quoted by simp
  show ?case
  proof (cases "kvs = []")
    case True
    then show ?thesis using v [of "CHR ''}'' # r"] k by (simp add: n(1) commas_Cons member_def quoted_def)
  next
    case False
    have "parse_members m (commas (map member kvs) @ CHR ''}'' # r) = Some (kvs, r)"
      by (rule Cons.IH [OF Cons.prems(1,2) False]) (use n(2) False in \<open>simp_all add: commas_Cons\<close>)
    then show ?thesis using False v [of "CHR '','' # commas (map member kvs) @ CHR ''}'' # r"] k
      by (simp add: n(1) commas_Cons member_def [of kv] quoted_def)
  qed
qed simp

lemma hd_commas: "xs \<noteq> [] \<Longrightarrow> hd xs \<noteq> [] \<Longrightarrow> \<exists>t. commas xs = hd (hd xs) # t"
  by (cases xs; cases "hd xs") (auto simp: commas_Cons)

lemma parse_render: "jval_ok v \<Longrightarrow> length (render v) \<le> n \<Longrightarrow> ends r \<Longrightarrow> parse_value n (render v @ r) = Some (v, r)"
proof (induction v arbitrary: n r)
  case (JString s)
  then obtain m where "n = Suc m" by (cases n) (auto simp: quoted_def)
  then show ?case using JString.prems(1) read_string_quoted by (simp add: quoted_def)
next
  case (JNumber t)
  then obtain m where "n = Suc m" using number_hd [of t] by (cases n) (auto simp: is_number_text)
  then show ?case using JNumber.prems parse_number by simp
next
  case (JBool b)
  then obtain m where "n = Suc m" by (cases n) (auto split: if_splits)
  then show ?case by (simp add: parse_scalar_def)
next
  case JNull
  then obtain m where "n = Suc m" by (cases n) auto
  then show ?case by (simp add: parse_scalar_def)
next
  case (JArray vs)
  then obtain m where n: "n = Suc m" "length (commas (map render vs)) < m" by (cases n) auto
  show ?case
  proof (cases "vs = []")
    case True
    then show ?thesis by (simp add: n(1))
  next
    case False
    have "parse_items m (commas (map render vs) @ CHR '']'' # r) = Some (vs, r)"
      by (rule parse_items_render) (use JArray False n(2) in auto)
    moreover have "jval_ok (hd vs)" using JArray.prems(1) False by simp
    then obtain c s where "render (hd vs) = c # s" "c \<noteq> CHR '']''" using render_nonempty by blast
    then obtain t where "commas (map render vs) = c # t" "c \<noteq> CHR '']''"
      using hd_commas [of "map render vs"] False by (auto simp: hd_map)
    ultimately show ?thesis by (simp add: n(1))
  qed
next
  case (JObject kvs)
  then obtain m where n: "n = Suc m" "length (commas (map member kvs)) < m" 
    using render_object [of kvs] by (cases n) (auto simp del: render.simps)
  show ?case
  proof (cases "kvs = []")
    case True
    then show ?thesis by (simp add: n(1))
  next
    case False
    have "parse_members m (commas (map member kvs) @ CHR ''}'' # r) = Some (kvs, r)"
    proof (rule parse_members_render [OF _ _ False n(2)])
      fix kv n r
      assume k: "kv \<in> set kvs" "length (render (snd kv)) \<le> n" "ends r"
      have "snd kv \<in> Basic_BNFs.snds kv" "jval_ok (snd kv)" using JObject.prems(1) k(1) by (cases kv; auto)+
      then show "parse_value n (render (snd kv) @ r) = Some (snd kv, r)"
        using JObject.IH [OF k(1) _ _ k(2,3)] by blast
    qed (use JObject.prems(1) in auto)
    moreover obtain t where "commas (map member kvs) = CHR 0x22 # t"
      using hd_commas [of "map member kvs"] False by (auto simp: hd_map member_def quoted_def)
    ultimately show ?thesis using render_object [of kvs] by (simp add: n(1) del: render.simps)
  qed
qed

definition json_read :: "string \<Rightarrow> jval option" where
  "json_read s = (case parse_value (length s) s of Some (v, []) \<Rightarrow> Some v | _ \<Rightarrow> None)"

lemma json_read_render: "jval_ok v \<Longrightarrow> json_read (render v) = Some v"
  using parse_render [of v "length (render v)" "[]"] by (simp add: json_read_def)

section \<open>Properties of the writer\<close>

lemma doubles_call_ok: "(\<And>d. CDouble d \<in> set cs \<Longrightarrow> double_ok d) \<Longrightarrow> \<forall>c \<in> set cs. call_ok c"
  using call_ok.elims(3) by blast

text \<open>C25: For every sequence of calls of the writer's functions, \<open>json_double\<close> included, and every buffer size, \<open>json_finish\<close> returns the
  length of the text of the document that the calls describe when they describe one (keys in objects only, every
  container closed, eight levels at most, ASCII strings, JSON numbers, finite doubles) and its text with the NUL
  fits the buffer, and -1 otherwise. Of the doubles that are written it is used that the C library prints a finite one as
  documented, as a JSON number of less than 40 characters; the document holds the first of its texts with 15, 16 and 17 digits
  that reads back as the double.\<close>

theorem json_refines_tree:
  assumes "\<And>d. CDouble d \<in> set cs \<Longrightarrow> double_ok d"
  shows "json_finish (fold call cs (json_init cap)) =
     (case jresult cs of
        Some v \<Rightarrow> if length (render v) < cap then Some (length (render v)) else None
      | None \<Rightarrow> None)"
  by (rule finish_calls [OF doubles_call_ok [OF assms]])

text \<open>The doubles 0.1 and 0.1 + 0.2, which needs all 17 digits, and one that is not finite.\<close>

definition tenth :: dbl where
  "tenth = \<lparr>d_isfinite = True, d_fmt_g = (\<lambda>prec. if prec = 17 then ''0.10000000000000001'' else ''0.1''),
     d_strtod_eq = (\<lambda>t. t \<in> {''0.1'', ''0.10000000000000001''})\<rparr>"

definition three_tenths :: dbl where
  "three_tenths = \<lparr>d_isfinite = True, d_fmt_g = (\<lambda>prec. if prec = 17 then ''0.30000000000000004'' else ''0.3''),
     d_strtod_eq = (\<lambda>t. t = ''0.30000000000000004'')\<rparr>"

definition infinity :: dbl where
  "infinity = \<lparr>d_isfinite = False, d_fmt_g = (\<lambda>_. ''inf''), d_strtod_eq = (\<lambda>t. t = ''inf'')\<rparr>"

lemma demo_doubles: "double_ok tenth" "double_ok three_tenths" "double_ok infinity"
  by (simp_all add: double_ok_def tenth_def three_tenths_def infinity_def) code_simp+

lemma json_refines_tree_witness:
  "json_finish (fold call [CBegin False, CDouble tenth, CDouble three_tenths, CEnd False] (json_init 26)) = Some 25 \<and>
   json_finish (fold call [CBegin False, CDouble tenth, CDouble three_tenths, CEnd False] (json_init 25)) = None \<and>
   json_finish (fold call [CDouble infinity] (json_init 26)) = None"
proof -
  let ?cs = "[CBegin False, CDouble tenth, CDouble three_tenths, CEnd False]"
  let ?len = "\<lambda>cs cap. case jresult cs of Some v \<Rightarrow> if length (render v) < cap then Some (length (render v)) else None | None \<Rightarrow> None"
  have f: "json_finish (fold call ?cs (json_init cap)) = ?len ?cs cap" for cap
    by (rule json_refines_tree) (use demo_doubles in auto)
  have g: "json_finish (fold call [CDouble infinity] (json_init cap)) = ?len [CDouble infinity] cap" for cap
    by (rule json_refines_tree) (use demo_doubles in auto)
  have r: "jresult ?cs = Some (JArray [JNumber ''0.1'', JNumber ''0.30000000000000004''])" "jresult [CDouble infinity] = None"
    by code_simp+
  show ?thesis unfolding f g r by (simp add: commas_def)
qed

text \<open>C26: When \<open>json_finish\<close> succeeds, the buffer holds a JSON text of that length: an RFC 8259
  reader accepts it and reads exactly the document that the calls describe. For calls of \<open>json_double\<close>, that the C library prints a
  finite double as documented is used, as above; the other calls need no condition.\<close>

theorem json_document_roundtrip:
  assumes "json_finish (fold call cs (json_init cap)) = Some n" and "\<And>d. CDouble d \<in> set cs \<Longrightarrow> double_ok d"
  shows "n = length (j_buf (fold call cs (json_init cap))) \<and> n < cap \<and>
    (\<exists>v. jresult cs = Some v \<and> json_read (j_buf (fold call cs (json_init cap))) = Some v)"
proof -
  note ok = doubles_call_ok [OF assms(2)]
  obtain v where v: "jresult cs = Some v" "length (render v) < cap" "n = length (render v)"
    using assms(1) by (auto simp: finish_calls [OF ok] split: option.splits if_splits)
  then show ?thesis using json_read_render [OF jresult_ok [OF v(1) ok]] finish_calls_text [OF ok v(1,2)] by simp
qed

lemma json_document_roundtrip_witness:
  "let j = fold call [CBegin True, CKey (Some ''ok''), CBool True, CKey (Some ''n''), CBegin False,
       CUint 7, CString (Some [CHR 0x22]), CDouble tenth, CEnd False, CEnd True] (json_init 64)
   in j_buf j = ''{'' @ [CHR 0x22] @ ''ok'' @ [CHR 0x22] @ '':true,'' @ [CHR 0x22] @ ''n'' @ [CHR 0x22] @
        '':[7,'' @ [CHR 0x22, CHR 0x5C, CHR 0x22, CHR 0x22] @ '',0.1]}'' \<and>
      json_read (j_buf j) = Some (JObject [(''ok'', JBool True), (''n'', JArray [JNumber ''7'', JString [CHR 0x22], JNumber ''0.1''])])"
proof -
  let ?cs = "[CBegin True, CKey (Some ''ok''), CBool True, CKey (Some ''n''), CBegin False,
       CUint 7, CString (Some [CHR 0x22]), CDouble tenth, CEnd False, CEnd True]"
  let ?v = "JObject [(''ok'', JBool True), (''n'', JArray [JNumber ''7'', JString [CHR 0x22], JNumber ''0.1''])]"
  have r: "jresult ?cs = Some ?v" by code_simp
  have t: "j_buf (fold call ?cs (json_init 64)) = ''{'' @ [CHR 0x22] @ ''ok'' @ [CHR 0x22] @ '':true,'' @
      [CHR 0x22] @ ''n'' @ [CHR 0x22] @ '':[7,'' @ [CHR 0x22, CHR 0x5C, CHR 0x22, CHR 0x22] @ '',0.1]}''"
    by code_simp
  have f: "json_finish (fold call ?cs (json_init 64)) = Some 28" by code_simp
  have "\<exists>v. jresult ?cs = Some v \<and> json_read (j_buf (fold call ?cs (json_init 64))) = Some v"
    using json_document_roundtrip [OF f] demo_doubles by auto
  then show ?thesis unfolding Let_def t r by simp
qed

text \<open>C38: \<open>json_is_number\<close> accepts exactly JSON's grammar of numbers: an optional minus, an
  integer part without a leading zero, an optional fraction and an optional exponent, each with at
  least one digit. A null pointer is no number.\<close>

theorem json_number_grammar:
  "json_is_number text0 \<longleftrightarrow> (\<exists>t. text0 = Some t \<and> number_text t)"
  by (cases text0) (simp_all add: is_number_text, simp add: json_is_number_def)

end
