(* ===== verification/Kv_Text.thy ===== *)
theory Kv_Text
  imports Kv Json_Text
begin

text \<open>
  What the parser of reply lines accepts: the text of well-formed fields (\<open>show_field\<close>, \<open>field_ok\<close>),
  lines (\<open>record_line\<close>, \<open>err_line\<close>) and whole replies (the rules of \<open>reply\<close>). The parser inverts
  the printer in both directions (\<open>parse_fields_show\<close>, \<open>parse_fields_inv\<close>, \<open>parse_line_iff\<close>), the
  walk over a reply ends and accepts exactly the whole replies (\<open>reply_loop_returns\<close>,
  \<open>reply_check_iff\<close>), a reply cut short is incomplete (\<open>reply_loop_cut\<close>), and what is parsed fits the
  C arrays (\<open>parse_line_fits\<close>).
\<close>

section \<open>The lines as their texts\<close>

text \<open>The text of a field and of a record line, and the records a line can hold.\<close>

definition show_value :: "kv_field \<Rightarrow> string" where
  "show_value f = (if ftype f = KV_STR then [CHR 0x22] @ val f @ [CHR 0x22] else val f)"

definition show_field :: "kv_field \<Rightarrow> string" where
  "show_field f = key f @ ''='' @ show_value f"

definition show_fields :: "kv_field list \<Rightarrow> string" where
  "show_fields fs = concat (map (\<lambda>f. '' '' @ show_field f) fs)"

abbreviation printable :: "string \<Rightarrow> bool" where
  "printable s \<equiv> \<forall>c \<in> set s. 0x20 \<le> (of_char c :: nat) \<and> (of_char c :: nat) < 0x7F"

definition field_ok :: "kv_field \<Rightarrow> bool" where
  "field_ok f \<longleftrightarrow> is_name (key f) KV_MAX_KEY \<and> length (val f) < KV_MAX_VALUE \<and> printable (val f) \<and>
     (case ftype f of
        KV_STR \<Rightarrow> CHR 0x22 \<notin> set (val f) \<and> CHR 0x5C \<notin> set (val f)
      | KV_NUM \<Rightarrow> json_is_number (Some (val f))
      | KV_NULL \<Rightarrow> val f = ''null'')"

definition fields_ok :: "kv_field list \<Rightarrow> bool" where
  "fields_ok fs \<longleftrightarrow> (\<forall>f \<in> set fs. field_ok f) \<and> distinct (map key fs) \<and> length fs \<le> KV_MAX_FIELDS"

lemma ident_char:
  assumes "is_ident c"
  shows "c \<notin> {CHR ''='', CHR '' '', CHR 0x22, CHR 0x0D, CHR 0x0A}" "0x20 \<le> (of_char c :: nat) \<and> (of_char c :: nat) < 0x7F"
  using assms by (auto simp: is_ident_def char_le_nat)

lemma name_chars:
  assumes "is_name s n"
  shows "CHR ''='' \<notin> set s" "CHR '' '' \<notin> set s" "CHR 0x22 \<notin> set s" "printable s" "s \<noteq> []"
  using assms ident_char by (fastforce simp: is_name_def list_all_iff)+

lemma number_num_chars: "json_is_number (Some t) \<Longrightarrow> c \<in> set t \<Longrightarrow> num_char c"
  using number_chars by (simp add: is_number_text)

lemma num_char_printable:
  "num_char c \<Longrightarrow> c \<noteq> CHR '' '' \<and> c \<noteq> CHR 0x22 \<and> 0x20 \<le> (of_char c :: nat) \<and> (of_char c :: nat) < 0x7F"
  by (auto simp: num_char_def is_digit_def char_le_nat)

lemma c_str_printable: "printable s \<Longrightarrow> c_str s = s"
  by (rule c_str_id) force

section \<open>Tokens\<close>

lemma token_len_plain:
  "CHR '' '' \<notin> set s \<Longrightarrow> CHR 0x22 \<notin> set s \<Longrightarrow> token_len_from False (s @ r) = length s + token_len_from False r"
  by (induction s) auto

lemma token_len_quoted:
  "CHR 0x22 \<notin> set s \<Longrightarrow> token_len_from True (s @ CHR 0x22 # r) = length s + 1 + token_len_from False r"
  by (induction s) auto

lemma token_len_end: "r = [] \<or> hd r = CHR '' '' \<Longrightarrow> token_len_from q r = 0 \<or> q"
  by (cases r) auto

lemma bare_value:
  assumes "field_ok f" and "ftype f \<noteq> KV_STR"
  shows "CHR '' '' \<notin> set (val f)" "CHR 0x22 \<notin> set (val f)" "val f \<noteq> []"
proof -
  have "(\<forall>c \<in> set (val f). num_char c) \<and> val f \<noteq> [] \<or> val f = ''null''"
    using assms number_num_chars number_hd [of "val f"]
    by (cases "ftype f") (auto simp: field_ok_def is_number_text)
  then show "CHR '' '' \<notin> set (val f)" "CHR 0x22 \<notin> set (val f)" "val f \<noteq> []"
    using num_char_printable by auto
qed

lemma token_len_field:
  assumes "field_ok f" and "r = [] \<or> hd r = CHR '' ''"
  shows "token_len (show_field f @ r) = length (show_field f)"
proof -
  have k: "CHR '' '' \<notin> set (key f @ ''='')" "CHR 0x22 \<notin> set (key f @ ''='')"
    using assms(1) name_chars [of "key f"] by (auto simp: field_ok_def)
  have r: "token_len_from False r = 0" using token_len_end [OF assms(2)] by blast
  have "token_len_from False (show_value f @ r) = length (show_value f)"
  proof (cases "ftype f = KV_STR")
    case True
    then show ?thesis using assms(1) token_len_quoted [of "val f" r] r by (simp add: show_value_def field_ok_def)
  next
    case False
    then show ?thesis using bare_value [OF assms(1)] token_len_plain [of "val f" r] r by (simp add: show_value_def)
  qed
  then show ?thesis using token_len_plain [OF k, of "show_value f @ r"] by (simp add: token_len_def show_field_def)
qed

section \<open>Fields\<close>

lemma field_value_show:
  assumes "field_ok f"
  shows "field_value (show_value f) = Some (ftype f, val f)"
proof (cases "ftype f = KV_STR")
  case True
  then show ?thesis using assms by (simp add: field_value_def show_value_def field_ok_def nth_append)
next
  case False
  then have "val f ! 0 \<noteq> CHR 0x22" using bare_value [OF assms] by (metis length_greater_0_conv nth_mem)
  moreover have "c_str (val f) = val f" using assms c_str_printable by (simp add: field_ok_def)
  moreover have "\<not> json_is_number (Some ''null'')" by code_simp
  ultimately show ?thesis using assms False
    by (cases "ftype f") (auto simp: field_value_def show_value_def field_ok_def Let_def)
qed

lemma field_value_inv:
  assumes "field_value v = Some (ty, w)" and "printable v"
  shows "v = show_value \<lparr>key = k, val = w, ftype = ty\<rparr>"
    and "is_name k KV_MAX_KEY \<Longrightarrow> field_ok \<lparr>key = k, val = w, ftype = ty\<rparr>"
proof -
  have "v = show_value \<lparr>key = k, val = w, ftype = ty\<rparr> \<and> (is_name k KV_MAX_KEY \<longrightarrow> field_ok \<lparr>key = k, val = w, ftype = ty\<rparr>)"
  proof (cases "length v > 0 \<and> v ! 0 = CHR 0x22")
    case True
    then have v: "length v \<ge> 2" "v ! (length v - 1) = CHR 0x22" "w = take (length v - 2) (drop 1 v)" "ty = KV_STR"
        "length w < 96" "CHR 0x22 \<notin> set w" "CHR 0x5C \<notin> set w"
      using assms(1) by (auto simp: field_value_def Let_def split: if_splits)
    obtain u where u: "v = CHR 0x22 # u @ [CHR 0x22]"
    proof -
      obtain b where b: "v = CHR 0x22 # b" using True by (cases v) auto
      then have "b \<noteq> []" "last b = CHR 0x22" using v(1,2) by (auto simp: last_conv_nth nth_Cons' split: if_splits)
      then show thesis using that [of "butlast b"] b by (metis append_butlast_last_id)
    qed
    then have "w = u" using v(3) by simp
    then show ?thesis using v u assms(2) by (simp add: show_value_def field_ok_def)
  next
    case False
    have "c_str v = v" using c_str_printable [OF assms(2)] .
    then have v: "length v < 96" "w = v" "ty = (if v = ''null'' then KV_NULL else KV_NUM)"
        "ty = KV_NUM \<longrightarrow> json_is_number (Some v)"
      using assms(1) False by (auto simp: field_value_def Let_def split: if_splits)
    then show ?thesis using assms(2) by (simp add: show_value_def field_ok_def)
  qed
  then show "v = show_value \<lparr>key = k, val = w, ftype = ty\<rparr>"
    and "is_name k KV_MAX_KEY \<Longrightarrow> field_ok \<lparr>key = k, val = w, ftype = ty\<rparr>" by blast+
qed

lemma add_field_show:
  assumes "field_ok f" and "key f \<notin> key ` set (flds out)" and "length (flds out) < KV_MAX_FIELDS"
  shows "add_field (show_field f) out = Some (out\<lparr>flds := flds out @ [f]\<rparr>)"
proof -
  have "memchr CHR ''='' (show_field f) = Some (length (key f))"
    using memchr_append [of "CHR ''=''" "key f" "show_value f"] assms(1) name_chars(1) [of "key f" 24]
    by (simp add: show_field_def field_ok_def)
  then show ?thesis using assms field_value_show [OF assms(1)]
    by (cases f) (auto simp: add_field_def show_field_def field_ok_def list_ex_iff Let_def image_iff)
qed

lemma add_field_inv:
  assumes "add_field t out = Some out'" and "printable t"
  obtains f where "t = show_field f" "field_ok f" "key f \<notin> key ` set (flds out)" "length (flds out) < KV_MAX_FIELDS"
    "out' = out\<lparr>flds := flds out @ [f]\<rparr>"
proof -
  obtain i where i: "memchr CHR ''='' t = Some i" using assms(1) by (auto simp: add_field_def split: option.splits)
  obtain ty w where f: "length (flds out) < KV_MAX_FIELDS" "is_name (take i t) KV_MAX_KEY"
      "\<forall>f \<in> set (flds out). key f \<noteq> take i t" "field_value (drop (i + 1) t) = Some (ty, w)"
      "out' = out\<lparr>flds := flds out @ [\<lparr>key = take i t, val = w, ftype = ty\<rparr>]\<rparr>"
    using assms(1) i unfolding add_field_def Let_def list_ex_iff option.case
    by (simp only: split: if_splits option.splits prod.splits) auto
  have new: "take i t \<notin> key ` set (flds out)" using f(3) by auto
  have "printable (drop (i + 1) t)" using assms(2) set_drop_subset [of "i + 1" t] by blast
  note v = field_value_inv [OF f(4) this, of "take i t"]
  show thesis
    using that [OF _ v(2) _ f(1,5)] f(2) new v(1) memchr_split(1) [OF i] by (simp add: show_field_def)
qed

lemma show_field_nonempty: "show_field f \<noteq> []"
  by (simp add: show_field_def)

lemma show_fields_Cons: "show_fields (f # fs) = CHR '' '' # show_field f @ show_fields fs"
  by (simp add: show_fields_def)

lemma show_fields_end: "show_fields fs = [] \<or> hd (show_fields fs) = CHR '' ''"
  by (cases fs) (simp_all add: show_fields_def)

lemma parse_fields_show:
  assumes "\<forall>f \<in> set fs. field_ok f" and "distinct (map key (flds out @ fs))" and "length (flds out @ fs) \<le> KV_MAX_FIELDS"
  shows "parse_fields (show_fields fs) out = (KV_RECORD, out\<lparr>flds := flds out @ fs\<rparr>)"
  using assms
proof (induction fs arbitrary: out)
  case Nil
  then show ?case by (simp add: show_fields_def parse_fields.simps)
next
  case (Cons f fs)
  have n: "token_len (show_field f @ show_fields fs) = length (show_field f)"
    using token_len_field [of f "show_fields fs"] Cons.prems(1) show_fields_end by simp
  have "add_field (show_field f) out = Some (out\<lparr>flds := flds out @ [f]\<rparr>)"
    using add_field_show [of f out] Cons.prems by auto
  then show ?case
    using Cons.IH [of "out\<lparr>flds := flds out @ [f]\<rparr>"] Cons.prems n
    by (simp add: parse_fields.simps [of "CHR '' '' # _"] show_fields_Cons show_field_nonempty)
qed

lemma token_len_le: "token_len_from q t \<le> length t"
  by (induction t arbitrary: q) auto

lemma token_len_hd: "token_len_from q t < length t \<Longrightarrow> t ! token_len_from q t = CHR '' ''"
  by (induction t arbitrary: q) (auto split: if_splits)

text \<open>Accepted fields are the text of well-formed fields, added in order.\<close>

lemma parse_fields_inv:
  assumes "parse_fields s out = (KV_RECORD, out')" and "printable s" and "s = [] \<or> hd s = CHR '' ''"
    and "distinct (map key (flds out))" "length (flds out) \<le> KV_MAX_FIELDS"
  shows "\<exists>fs. s = show_fields fs \<and> (\<forall>f \<in> set fs. field_ok f) \<and> distinct (map key (flds out @ fs)) \<and>
    length (flds out @ fs) \<le> KV_MAX_FIELDS \<and> out' = out\<lparr>flds := flds out @ fs\<rparr>"
  using assms
proof (induction s out rule: parse_fields.induct)
  case (1 s out)
  show ?case
  proof (cases "s = []")
    case True
    then show ?thesis using 1 by (intro exI [of _ "[]"]) (simp add: parse_fields.simps show_fields_def)
  next
    case False
    define t where "t = drop 1 s"
    define n where "n = token_len t"
    have s: "s = CHR '' '' # t" using False "1.prems"(3) by (cases s) (auto simp: t_def)
    obtain out1 where a: "n \<noteq> 0" "add_field (take n t) out = Some out1" "parse_fields (drop n t) out1 = (KV_RECORD, out')"
      using "1.prems"(1) False by (auto simp: parse_fields.simps [of s] t_def n_def Let_def split: if_splits option.splits)
    have pr: "printable t" "printable (take n t)" "printable (drop n t)"
      using "1.prems"(2) s set_take_subset [of n t] set_drop_subset [of n t] by auto
    obtain f where f: "take n t = show_field f" "field_ok f" "key f \<notin> key ` set (flds out)"
        "length (flds out) < KV_MAX_FIELDS" "out1 = out\<lparr>flds := flds out @ [f]\<rparr>"
      using add_field_inv [OF a(2) pr(2)] by metis
    have "drop n t = [] \<or> hd (drop n t) = CHR '' ''"
      using token_len_hd [of False t] by (cases "n < length t") (auto simp: n_def token_len_def hd_drop_conv_nth)
    then obtain fs where fs: "drop n t = show_fields fs" "\<forall>f \<in> set fs. field_ok f" "distinct (map key (flds out1 @ fs))"
        "length (flds out1 @ fs) \<le> KV_MAX_FIELDS" "out' = out1\<lparr>flds := flds out1 @ fs\<rparr>"
      using "1.IH" [OF False t_def n_def a(1,2,3) pr(3)] f "1.prems"(4) by auto
    have "s = show_fields (f # fs)" using s f(1) fs(1) append_take_drop_id [of n t] by (metis show_fields_Cons)
    then show ?thesis using f fs by (intro exI [of _ "f # fs"]) auto
  qed
qed

section \<open>Lines\<close>

text \<open>The three kinds of line that are accepted.\<close>

definition record_line :: "string \<Rightarrow> kv_line \<Rightarrow> bool" where
  "record_line s line \<longleftrightarrow> s = tag line @ show_fields (flds line) \<and> is_name (tag line) KV_MAX_TAG \<and>
     tag line \<noteq> ''ok'' \<and> tag line \<noteq> ''err'' \<and> fields_ok (flds line) \<and> err_code line = [] \<and> err_reason line = []"

definition err_line :: "string \<Rightarrow> kv_line \<Rightarrow> bool" where
  "err_line s line \<longleftrightarrow> tag line = [] \<and> flds line = [] \<and> is_name (err_code line) KV_MAX_CODE \<and>
     (let r = err_reason line
      in s = ''err '' @ err_code line @ (if r = [] then [] else '' '' @ r) \<and> length r < KV_MAX_REASON \<and>
         printable r \<and> (r \<noteq> [] \<longrightarrow> hd r \<noteq> CHR '' '' \<and> last r \<noteq> CHR '' ''))"

lemma show_field_printable: "field_ok f \<Longrightarrow> printable (show_field f)"
proof -
  assume f: "field_ok f"
  then have "printable (key f)" "printable (val f)" using name_chars(4) by (auto simp: field_ok_def)
  then show ?thesis by (auto simp: show_field_def show_value_def)
qed

lemma show_fields_printable: "\<forall>f \<in> set fs. field_ok f \<Longrightarrow> printable (show_fields fs)"
proof (induction fs)
  case (Cons f fs)
  then show ?case using show_field_printable [of f] by (auto simp: show_fields_Cons)
qed (simp add: show_fields_def)

lemma memchr_head:
  assumes "CHR '' '' \<notin> set w" and "r = [] \<or> hd r = CHR '' ''"
  shows "memchr CHR '' '' (w @ r) = (if r = [] then None else Some (length w))"
  using assms memchr_append [of "CHR '' ''" w "tl r"] by (cases r) auto

lemma parse_line_head:
  assumes "printable (w @ r)" and "CHR '' '' \<notin> set w" and "r = [] \<or> hd r = CHR '' ''"
    and "w @ r \<noteq> []" and "length (w @ r) \<le> KV_MAX_LINE" and "w @ r \<noteq> ''ok''"
  shows "kv_parse_line (w @ r) =
    (if w = ''err'' then if r = [] then (KV_BAD, empty_line) else parse_err (w @ r) 3 empty_line
     else if \<not> is_name w KV_MAX_TAG \<or> w = ''ok'' then (KV_BAD, empty_line)
     else parse_fields r (empty_line\<lparr>tag := w\<rparr>))"
proof -
  have p: "\<not> list_ex (\<lambda>c. (of_char c :: nat) < 0x20 \<or> (of_char c :: nat) \<ge> 0x7F) (w @ r)"
    using assms(1) unfolding list_ex_iff by (meson not_le)
  show ?thesis
    unfolding kv_parse_line_def Let_def memchr_head [OF assms(2,3)] using assms(4-6) p
    by (cases "r = []") (auto simp: not_less numeral_3_eq_3)
qed

lemma line_split:
  obtains w r where "s = w @ r" "CHR '' '' \<notin> set w" "r = [] \<or> hd r = CHR '' ''"
proof
  show "s = takeWhile (\<lambda>c. c \<noteq> CHR '' '') s @ dropWhile (\<lambda>c. c \<noteq> CHR '' '') s" by simp
  show "CHR '' '' \<notin> set (takeWhile (\<lambda>c. c \<noteq> CHR '' '') s)" by (auto dest: set_takeWhileD)
  show "dropWhile (\<lambda>c. c \<noteq> CHR '' '') s = [] \<or> hd (dropWhile (\<lambda>c. c \<noteq> CHR '' '') s) = CHR '' ''"
    using hd_dropWhile [of "\<lambda>c. c \<noteq> CHR '' ''" s] by blast
qed

lemma take_last: "s \<noteq> [] \<Longrightarrow> s ! (length s - 1) = last s"
  by (simp add: last_conv_nth)

text \<open>What \<open>parse_err\<close> accepts after \<open>err\<close> and a space.\<close>

lemma parse_err_code:
  assumes "CHR '' '' \<notin> set code" and "r = [] \<or> hd r = CHR '' ''"
  shows "parse_err (''err '' @ code @ r) 3 out =
    (if \<not> is_name code KV_MAX_CODE then (KV_BAD, out)
     else if r = [] then (KV_ERR, out\<lparr>err_code := code\<rparr>)
     else let reason = tl r
          in if reason = [] \<or> length reason \<ge> KV_MAX_REASON \<or> hd reason = CHR '' '' \<or> last reason = CHR '' ''
             then (KV_BAD, out\<lparr>err_code := code\<rparr>)
             else (KV_ERR, out\<lparr>err_code := code, err_reason := reason\<rparr>))"
proof -
  have d: "drop (3 + 1) (''err '' @ code @ r) = code @ r" by simp
  show ?thesis unfolding parse_err_def d memchr_head [OF assms] Let_def
    by (cases r; cases "tl r") (auto simp: hd_conv_nth last_conv_nth)
qed

lemma err_line_parses:
  assumes "err_line s line" and "length s \<le> KV_MAX_LINE"
  shows "kv_parse_line s = (KV_ERR, line)"
proof -
  define code where "code = err_code line"
  define r where "r = (if err_reason line = [] then [] else '' '' @ err_reason line)"
  have c: "is_name code KV_MAX_CODE" using assms(1) by (simp add: err_line_def code_def)
  have s: "s = ''err'' @ ('' '' @ code @ r)" using assms(1) by (auto simp: err_line_def Let_def code_def r_def)
  have p: "printable s" using assms(1) name_chars(4) [OF c] by (auto simp: s r_def err_line_def Let_def)
  have "kv_parse_line s = parse_err (''err '' @ code @ r) 3 empty_line"
    unfolding s by (subst parse_line_head) (use p assms(2) s in auto)
  also have "\<dots> = (KV_ERR, line)"
    using parse_err_code [OF name_chars(2) [OF c], of r empty_line] c assms(1)
    by (cases line) (auto simp: r_def code_def err_line_def Let_def empty_line_def)
  finally show ?thesis .
qed

lemma record_line_parses:
  assumes "record_line s line" and "length s \<le> KV_MAX_LINE"
  shows "kv_parse_line s = (KV_RECORD, line)"
proof -
  have t: "is_name (tag line) KV_MAX_TAG" "tag line \<noteq> ''ok''" "tag line \<noteq> ''err''"
      "s = tag line @ show_fields (flds line)" "fields_ok (flds line)"
    using assms(1) by (simp_all add: record_line_def)
  have p: "printable s" using name_chars(4) [OF t(1)] show_fields_printable [of "flds line"] t(5) by (auto simp: t(4) fields_ok_def)
  have s: "s \<noteq> ''ok''"
    using t(2,4) show_fields_end [of "flds line"] by (cases "show_fields (flds line) = []") (auto simp: append_eq_Cons_conv neq_Nil_conv)
  have "kv_parse_line s = parse_fields (show_fields (flds line)) (empty_line\<lparr>tag := tag line\<rparr>)"
    unfolding t(4)
    by (subst parse_line_head) (use p s t(1-4) assms(2) name_chars(2,5) [OF t(1)] show_fields_end in auto)
  also have "\<dots> = (KV_RECORD, line)"
    using parse_fields_show [of "flds line" "empty_line\<lparr>tag := tag line\<rparr>"] t(5) assms(1)
    by (cases line) (simp add: fields_ok_def empty_line_def record_line_def)
  finally show ?thesis .
qed

lemma parse_fields_kind: "fst (parse_fields s out) \<in> {KV_RECORD, KV_BAD}"
  by (induction s out rule: parse_fields.induct) (subst parse_fields.simps, auto simp: Let_def split: option.splits)

text \<open>Every line is one of the three kinds, or bad.\<close>

lemma parse_line_inv:
  assumes "kv_parse_line s = (k, line)"
  shows "k = KV_BAD \<or> length s \<le> KV_MAX_LINE \<and>
    (k = KV_OK \<and> s = ''ok'' \<and> line = empty_line \<or> k = KV_ERR \<and> err_line s line \<or> k = KV_RECORD \<and> record_line s line)"
proof (cases "s = [] \<or> length s > KV_MAX_LINE \<or> \<not> printable s \<or> s = ''ok''")
  case True
  then show ?thesis using assms by (auto simp: kv_parse_line_def Let_def list_ex_iff not_less not_le split: if_splits)
next
  case False
  then have p: "printable s" and l: "length s \<le> KV_MAX_LINE" "s \<noteq> []" "s \<noteq> ''ok''" by (auto simp: not_less)
  obtain w r where s: "s = w @ r" "CHR '' '' \<notin> set w" "r = [] \<or> hd r = CHR '' ''" by (rule line_split)
  note parse = parse_line_head [OF p [unfolded s(1)] s(2,3) l(2) [unfolded s(1)] l(1) [unfolded s(1)] l(3) [unfolded s(1)],
      folded s(1), unfolded assms]
  show ?thesis
  proof (cases "w = ''err'' \<and> r \<noteq> []")
    case True
    then obtain r' where r: "r = CHR '' '' # r'" using s(3) by (cases r) auto
    obtain code q where q: "r' = code @ q" "CHR '' '' \<notin> set code" "q = [] \<or> hd q = CHR '' ''" by (rule line_split)
    have s': "s = ''err '' @ code @ q" using True r q(1) s(1) by simp
    have pq: "printable q" using p s' by auto
    have "(k, line) = parse_err (''err '' @ code @ q) 3 empty_line" using parse True s' by auto
    then show ?thesis
      using parse_err_code [OF q(2,3), of empty_line] l(1) pq q(3)
      by (cases q) (auto simp: err_line_def s' Let_def empty_line_def split: if_splits)
  next
    case False
    show ?thesis
    proof (cases "k = KV_BAD")
      case False
      then have w: "is_name w KV_MAX_TAG" "w \<noteq> ''ok''" "w \<noteq> ''err''" "(k, line) = parse_fields r (empty_line\<lparr>tag := w\<rparr>)"
        using parse \<open>\<not> (w = ''err'' \<and> r \<noteq> [])\<close> by (auto split: if_splits)
      then have k: "k = KV_RECORD" using False parse_fields_kind [of r "empty_line\<lparr>tag := w\<rparr>"] by (auto simp: w(4) [symmetric])
      have pr: "printable r" using p s(1) by simp
      obtain fs where "r = show_fields fs" "\<forall>f \<in> set fs. field_ok f" "distinct (map key fs)" "length fs \<le> KV_MAX_FIELDS"
          "line = empty_line\<lparr>tag := w, flds := fs\<rparr>"
        using parse_fields_inv [OF w(4) [unfolded k, symmetric] pr s(3)] by (auto simp: empty_line_def)
      then have "record_line s line" using w(1-3) s(1) by (simp add: record_line_def fields_ok_def empty_line_def)
      then show ?thesis using k l(1) by simp
    qed simp
  qed
qed

lemma parse_line_iff:
  "kv_parse_line s = (KV_RECORD, line) \<longleftrightarrow> length s \<le> KV_MAX_LINE \<and> record_line s line"
  "kv_parse_line s = (KV_ERR, line) \<longleftrightarrow> length s \<le> KV_MAX_LINE \<and> err_line s line"
  "kv_parse_line s = (KV_OK, line) \<longleftrightarrow> s = ''ok'' \<and> line = empty_line"
proof -
  show "kv_parse_line s = (KV_RECORD, line) \<longleftrightarrow> length s \<le> KV_MAX_LINE \<and> record_line s line"
    using parse_line_inv [of s KV_RECORD line] record_line_parses [of s line] by auto
  show "kv_parse_line s = (KV_ERR, line) \<longleftrightarrow> length s \<le> KV_MAX_LINE \<and> err_line s line"
    using parse_line_inv [of s KV_ERR line] err_line_parses [of s line] by auto
  have "kv_parse_line ''ok'' = (KV_OK, empty_line)" by (simp add: kv_parse_line_def)
  then show "kv_parse_line s = (KV_OK, line) \<longleftrightarrow> s = ''ok'' \<and> line = empty_line"
    using parse_line_inv [of s KV_OK line] by auto
qed

lemma parse_line_not_incomplete: "fst (kv_parse_line s) \<noteq> KV_INCOMPLETE"
  using parse_line_inv [of s "fst (kv_parse_line s)" "snd (kv_parse_line s)"] by auto

section \<open>Replies\<close>

text \<open>A line with its end: a newline, or a carriage return and a newline.\<close>

definition eol_of :: "string \<Rightarrow> string \<Rightarrow> bool" where
  "eol_of s l \<longleftrightarrow> l = s @ [CHR 0x0A] \<or> l = s @ [CHR 0x0D, CHR 0x0A]"

text \<open>A whole reply: its record lines, then the terminator with what \<open>*final\<close> gets.\<close>

inductive reply :: "string \<Rightarrow> kv_kind \<Rightarrow> kv_line \<Rightarrow> bool" where
  final: "eol_of s l \<Longrightarrow> kv_parse_line s = (k, line) \<Longrightarrow> k = KV_OK \<or> k = KV_ERR \<Longrightarrow> reply l k line"
| more: "eol_of s l \<Longrightarrow> kv_parse_line s = (KV_RECORD, line') \<Longrightarrow> reply r k line \<Longrightarrow> reply (l @ r) k line"

lemma line_printable:
  assumes "kv_parse_line s = (k, line)" and "k \<noteq> KV_BAD"
  shows "printable s" "s \<noteq> []"
  using assms by (auto simp: kv_parse_line_def Let_def list_ex_iff not_less not_le split: if_splits)

lemma reply_next_eol:
  assumes "eol_of s l" and "printable s"
  shows "kv_reply_next (l @ r) out = (fst (kv_parse_line s), r, snd (kv_parse_line s))"
proof -
  have nl: "CHR 0x0A \<notin> set s" "CHR 0x0D \<notin> set s" using assms(2) by force+
  show ?thesis
  proof (cases "l = s @ [CHR 0x0A]")
    case True
    have "s \<noteq> [] \<Longrightarrow> s ! (length s - 1) \<noteq> CHR 0x0D" using nl(2) by (metis last_conv_nth last_in_set)
    then show ?thesis
      using memchr_append [OF nl(1), of r] True
      by (auto simp: kv_reply_next_def Let_def nth_append case_prod_beta)
  next
    case False
    then have l: "l @ r = (s @ [CHR 0x0D]) @ CHR 0x0A # r" using assms(1) by (auto simp: eol_of_def)
    have "memchr CHR 0x0A (l @ r) = Some (length s + 1)" unfolding l using memchr_append [of "CHR 0x0A" "s @ [CHR 0x0D]" r] nl(1) by simp
    then show ?thesis by (auto simp: kv_reply_next_def Let_def l nth_append case_prod_beta)
  qed
qed

lemma reply_next_inv:
  assumes "kv_reply_next cur out = (k, cur', out')" and "k \<noteq> KV_INCOMPLETE"
  obtains s l where "cur = l @ cur'" "eol_of s l" "kv_parse_line s = (k, out')"
proof -
  obtain nl where nl: "memchr CHR 0x0A cur = Some nl" using assms by (auto simp: kv_reply_next_def split: option.splits)
  define len where "len = (if nl > 0 \<and> cur ! (nl - 1) = CHR 0x0D then nl - 1 else nl)"
  have r: "kv_parse_line (take len cur) = (k, out')" "cur' = drop (nl + 1) cur"
    using assms(1) nl by (auto simp: kv_reply_next_def len_def Let_def split: prod.splits)
  note split = memchr_split [OF nl]
  have "take nl cur = take len cur @ (if len = nl then [] else [CHR 0x0D])"
    using split(3) by (cases nl) (auto simp: len_def take_Suc_conv_app_nth)
  then have "eol_of (take len cur) (take (nl + 1) cur)"
    using split by (auto simp: eol_of_def take_Suc_conv_app_nth memchr_Some nl [unfolded memchr_Some] split: if_splits)
  then show thesis using that r by (metis append_take_drop_id)
qed

lemma reply_next_shorter: "kv_reply_next cur out = (k, cur', out') \<Longrightarrow> k \<noteq> KV_INCOMPLETE \<Longrightarrow> length cur' < length cur"
  by (erule reply_next_inv) (auto simp: eol_of_def)

lemma reply_loop_returns: "\<exists>res. reply_loop cur line = Some res"
proof (induction "length cur" arbitrary: cur line rule: less_induct)
  case less
  obtain k cur' line' where n: "kv_reply_next cur line = (k, cur', line')" by (metis prod_cases3)
  show ?case
  proof (cases "k = KV_RECORD")
    case True
    then show ?thesis using less reply_next_shorter [OF n] by (subst reply_loop.simps) (simp add: n)
  next
    case False
    then show ?thesis by (subst reply_loop.simps) (simp add: n)
  qed
qed

lemma reply_loop_reply: "reply buf k line \<Longrightarrow> reply_loop buf out = Some (k, Some line)"
proof (induction arbitrary: out rule: reply.induct)
  case (final s l k line)
  have "printable s" using line_printable(1) [OF final(2)] final(3) by auto
  then show ?case using reply_next_eol [OF final(1), of "[]" out] final(2,3) by (subst reply_loop.simps) auto
next
  case (more s l line' r k line)
  have "printable s" using line_printable(1) [OF more(2)] by auto
  then show ?case using reply_next_eol [OF more(1), of r out] more by (subst reply_loop.simps) auto
qed

lemma reply_loop_inv:
  "reply_loop buf out = Some (k, fin) \<Longrightarrow> k = KV_OK \<or> k = KV_ERR \<Longrightarrow> \<exists>line. fin = Some line \<and> reply buf k line"
proof (induction "length buf" arbitrary: buf out rule: less_induct)
  case less
  obtain k' cur line where n: "kv_reply_next buf out = (k', cur, line)" by (metis prod_cases3)
  have k': "k' \<noteq> KV_INCOMPLETE" using less.prems n by (subst (asm) reply_loop.simps) auto
  obtain s l where s: "buf = l @ cur" "eol_of s l" "kv_parse_line s = (k', line)" using reply_next_inv [OF n k'] .
  show ?case
  proof (cases "k' = KV_RECORD")
    case True
    then have "reply_loop cur line = Some (k, fin)" using less.prems(1) n by (subst (asm) reply_loop.simps) simp
    then obtain line2 where "fin = Some line2" "reply cur k line2"
      using less.hyps [OF reply_next_shorter [OF n k']] less.prems(2) by blast
    then show ?thesis using reply.more [OF s(2)] s(1,3) True by blast
  next
    case False
    then have "k' = k" "fin = Some line" "cur = []" using less.prems n by (subst (asm) reply_loop.simps, auto split: if_splits)+
    then show ?thesis using s reply.final [OF s(2)] less.prems(2) by auto
  qed
qed

lemma reply_kind: "reply buf k line \<Longrightarrow> k = KV_OK \<or> k = KV_ERR"
  by (induction rule: reply.induct) auto

lemma reply_check_iff:
  "kv_reply_check buf = Some (k, Some line) \<and> (k = KV_OK \<or> k = KV_ERR) \<longleftrightarrow> reply buf k line"
proof
  assume "reply buf k line"
  then show "kv_reply_check buf = Some (k, Some line) \<and> (k = KV_OK \<or> k = KV_ERR)"
    using reply_loop_reply [of buf k line] reply_kind [of buf k line] by (simp add: kv_reply_check_def)
qed (use reply_loop_inv in \<open>auto simp: kv_reply_check_def\<close>)

text \<open>A reply cut short anywhere is incomplete.\<close>

lemma reply_next_none: "CHR 0x0A \<notin> set cur \<Longrightarrow> kv_reply_next cur out = (KV_INCOMPLETE, cur, out)"
  using memchr_None [of "CHR 0x0A" cur] by (simp add: kv_reply_next_def del: memchr_None)

lemma reply_loop_none: "CHR 0x0A \<notin> set cur \<Longrightarrow> reply_loop cur out = Some (KV_INCOMPLETE, None)"
  by (subst reply_loop.simps) (simp add: reply_next_none)

lemma eol_prefix_no_nl: "eol_of s l \<Longrightarrow> printable s \<Longrightarrow> n < length l \<Longrightarrow> CHR 0x0A \<notin> set (take n l)"
proof -
  assume e: "eol_of s l" and p: "printable s" and n: "n < length l"
  have s: "CHR 0x0A \<notin> set (s @ [CHR 0x0D])" using p by force
  have "take n l = take n (butlast l)" using n by (simp add: take_butlast)
  moreover have "set (butlast l) \<subseteq> set (s @ [CHR 0x0D])" using e by (auto simp: eol_of_def butlast_append)
  ultimately show ?thesis using s by (auto dest!: in_set_takeD)
qed

lemma reply_loop_cut: "reply buf k line \<Longrightarrow> n < length buf \<Longrightarrow> reply_loop (take n buf) out = Some (KV_INCOMPLETE, None)"
proof (induction arbitrary: n out rule: reply.induct)
  case (final s l k line)
  have "printable s" using line_printable(1) [OF final(2)] final(3) by auto
  then show ?case using final by (intro reply_loop_none eol_prefix_no_nl)
next
  case (more s l line' r k line)
  have p: "printable s" using line_printable(1) [OF more(2)] by auto
  show ?case
  proof (cases "n < length l")
    case True
    then show ?thesis using reply_loop_none eol_prefix_no_nl [OF more(1) p True] by simp
  next
    case False
    then have "reply_loop (take (n - length l) r) (snd (kv_parse_line s)) = Some (KV_INCOMPLETE, None)"
      using more.IH [of "n - length l"] more.prems by auto
    then show ?thesis using False reply_next_eol [OF more(1) p, of "take (n - length l) r" out] more(2)
      by (subst reply_loop.simps) simp
  qed
qed

section \<open>Fields by key\<close>

lemma find_key: "f \<in> set fs \<Longrightarrow> distinct (map key fs) \<Longrightarrow> find (\<lambda>g. key g = key f) fs = Some f"
  by (induction fs) (auto simp: image_iff)

lemma kv_get_field: "record_line s line \<Longrightarrow> f \<in> set (flds line) \<Longrightarrow> kv_get line (key f) = Some (val f)"
  using find_key [of f "flds line"] by (simp add: kv_get_def record_line_def fields_ok_def)

section \<open>Bounds of the fixed-size fields\<close>

definition line_fits :: "kv_line \<Rightarrow> bool" where
  "line_fits line \<longleftrightarrow> length (tag line) < KV_MAX_TAG \<and> length (flds line) \<le> KV_MAX_FIELDS \<and>
     (\<forall>f \<in> set (flds line). length (key f) < KV_MAX_KEY \<and> length (val f) < KV_MAX_VALUE) \<and>
     length (err_code line) < KV_MAX_CODE \<and> length (err_reason line) < KV_MAX_REASON"

lemma field_value_fits: "field_value v = Some (ty, w) \<Longrightarrow> length w < KV_MAX_VALUE"
  by (auto simp: field_value_def Let_def split: if_splits)

lemma add_field_fits: "add_field t out = Some out' \<Longrightarrow> line_fits out \<Longrightarrow> line_fits out'"
  by (auto simp: add_field_def line_fits_def is_name_def Let_def not_le split: option.splits if_splits)
    (erule field_value_fits)

lemma parse_fields_fits: "line_fits out \<Longrightarrow> line_fits (snd (parse_fields s out))"
  by (induction s out rule: parse_fields.induct)
    (subst parse_fields.simps, auto simp: Let_def add_field_fits split: option.splits)

lemma parse_err_fits: "line_fits out \<Longrightarrow> line_fits (snd (parse_err s i out))"
  by (auto simp: parse_err_def line_fits_def is_name_def Let_def split: option.splits)

lemma empty_line_fits: "line_fits empty_line"
  by (simp add: line_fits_def empty_line_def)

lemma parse_line_fits: "line_fits (snd (kv_parse_line s))"
proof -
  have "line_fits (empty_line\<lparr>tag := w\<rparr>)" if "is_name w KV_MAX_TAG" for w
    using empty_line_fits that by (simp add: line_fits_def is_name_def)
  then show ?thesis
    using empty_line_fits parse_fields_fits parse_err_fits
    by (simp add: kv_parse_line_def Let_def split: option.split)
qed

section \<open>Properties of the line parser\<close>

text \<open>C27: \<open>kv_parse_line\<close> is the inverse of printing. A line is a record exactly when it is the text
  of a record (a tag that is not ok or err, then at most 16 fields with distinct keys, each value in
  quotes, a JSON number, or null), and the record returned is that one; it is an error line exactly
  when it is \<open>err\<close> with a code and perhaps a reason; it is a terminator exactly when it is \<open>ok\<close>.
  Everything else is bad.\<close>

theorem kv_line_grammar:
  "(kv_parse_line s = (KV_RECORD, line) \<longleftrightarrow> length s \<le> KV_MAX_LINE \<and> record_line s line) \<and>
   (kv_parse_line s = (KV_ERR, line) \<longleftrightarrow> length s \<le> KV_MAX_LINE \<and> err_line s line) \<and>
   (kv_parse_line s = (KV_OK, line) \<longleftrightarrow> s = ''ok'' \<and> line = empty_line) \<and>
   fst (kv_parse_line s) \<noteq> KV_INCOMPLETE"
  using parse_line_iff parse_line_not_incomplete by blast

text \<open>C28: On every input, also one refused half way, what \<open>kv_parse_line\<close> leaves in \<open>*out\<close> fits
  the fixed-size fields of \<open>kv_line_t\<close> with their NULs.\<close>

theorem kv_parse_line_fits: "line_fits (snd (kv_parse_line s))"
  by (rule parse_line_fits)

text \<open>C29: The loop of \<open>kv_reply_check\<close>, which has no bound of its own, ends on every buffer, and it
  reports OK or ERR exactly for a whole reply (record lines, then one terminator line and nothing
  more, each line ended by a newline or a carriage return and a newline), with the terminator's
  contents.\<close>

theorem kv_reply_check_terminates:
  "(\<exists>k fin. kv_reply_check buf = Some (k, fin)) \<and>
   (kv_reply_check buf = Some (k, Some line) \<and> (k = KV_OK \<or> k = KV_ERR) \<longleftrightarrow> reply buf k line)"
  using reply_loop_returns [of buf empty_line] reply_check_iff by (auto simp: kv_reply_check_def)

text \<open>C30: A whole reply cut at any byte before its end is reported incomplete, so a reply that is
  still arriving is never taken for a finished or a refused one.\<close>

theorem kv_reply_cut:
  assumes "kv_reply_check buf = Some (k, fin)" and "k = KV_OK \<or> k = KV_ERR" and "n < length buf"
  shows "kv_reply_check (take n buf) = Some (KV_INCOMPLETE, None)"
proof -
  obtain line where "reply buf k line" using assms(1,2) reply_loop_inv unfolding kv_reply_check_def by blast
  then show ?thesis using reply_loop_cut assms(3) by (simp add: kv_reply_check_def)
qed

lemma kv_reply_cut_witness:
  "kv_reply_check (take 8 (''t a=1'' @ [CHR 0x0A] @ ''ok'' @ [CHR 0x0A])) = Some (KV_INCOMPLETE, None)"
proof (rule kv_reply_cut)
  let ?b = "''t a=1'' @ [CHR 0x0A] @ ''ok'' @ [CHR 0x0A]"
  have a: "kv_reply_next ?b empty_line = (KV_RECORD, ''ok'' @ [CHR 0x0A],
      empty_line\<lparr>tag := ''t'', flds := [\<lparr>key = ''a'', val = ''1'', ftype = KV_NUM\<rparr>]\<rparr>)"
    by code_simp
  have "kv_reply_next (''ok'' @ [CHR 0x0A]) out = (KV_OK, [], empty_line)" for out
    by code_simp
  then have b: "reply_loop (''ok'' @ [CHR 0x0A]) out = Some (KV_OK, Some empty_line)" for out
    by (simp only: reply_loop.simps [of "''ok'' @ _"]) simp
  show "kv_reply_check ?b = Some (KV_OK, Some empty_line)"
    unfolding kv_reply_check_def by (simp only: reply_loop.simps [of ?b] a) (simp only: prod.case b simp_thms if_True)
qed simp_all


end
