(* ===== verification/Http.thy ===== *)
theory Http
  imports C_Text
begin

text \<open>
  The HTTP layer: \<open>include/interface/http.h\<close> and \<open>src/interface/http.c\<close>. Buffers are lists of
  characters; a result of -1 is \<open>None\<close>. \<open>http_parse_request\<close> returns the request only with
  \<open>HTTP_OK\<close>, as the C fills \<open>*out\<close> only then.
\<close>

section \<open>Limits and results\<close>

abbreviation (input) HTTP_MAX_REQUEST :: nat where "HTTP_MAX_REQUEST \<equiv> 4096"
abbreviation (input) HTTP_PATH_MAX :: nat where "HTTP_PATH_MAX \<equiv> 128"
abbreviation (input) HTTP_QUERY_MAX :: nat where "HTTP_QUERY_MAX \<equiv> 256"

abbreviation (input) HTTP_STATUS_OK :: int where "HTTP_STATUS_OK \<equiv> 200"
abbreviation (input) HTTP_STATUS_BAD_REQUEST :: int where "HTTP_STATUS_BAD_REQUEST \<equiv> 400"
abbreviation (input) HTTP_STATUS_NOT_FOUND :: int where "HTTP_STATUS_NOT_FOUND \<equiv> 404"
abbreviation (input) HTTP_STATUS_METHOD_NOT_ALLOWED :: int where "HTTP_STATUS_METHOD_NOT_ALLOWED \<equiv> 405"
abbreviation (input) HTTP_STATUS_HEADERS_TOO_LARGE :: int where "HTTP_STATUS_HEADERS_TOO_LARGE \<equiv> 431"
abbreviation (input) HTTP_STATUS_INTERNAL_ERROR :: int where "HTTP_STATUS_INTERNAL_ERROR \<equiv> 500"
abbreviation (input) HTTP_STATUS_UNAVAILABLE :: int where "HTTP_STATUS_UNAVAILABLE \<equiv> 503"

datatype http_parse = HTTP_INCOMPLETE | HTTP_OK | HTTP_BAD | HTTP_BAD_METHOD | HTTP_TOO_LARGE

text \<open>The values of the enumeration: a refusal is its own status.\<close>

fun http_parse_val :: "http_parse \<Rightarrow> int" where
  "http_parse_val HTTP_INCOMPLETE = -1"
| "http_parse_val HTTP_OK = 0"
| "http_parse_val HTTP_BAD = HTTP_STATUS_BAD_REQUEST"
| "http_parse_val HTTP_BAD_METHOD = HTTP_STATUS_METHOD_NOT_ALLOWED"
| "http_parse_val HTTP_TOO_LARGE = HTTP_STATUS_HEADERS_TOO_LARGE"

record http_request =
  path :: string
  query :: string

section \<open>Percent-decoding\<close>

definition hexval :: "char \<Rightarrow> int" where
  "hexval c =
     (if CHR ''0'' \<le> c \<and> c \<le> CHR ''9'' then of_char c - of_char CHR ''0''
      else if CHR ''a'' \<le> c \<and> c \<le> CHR ''f'' then of_char c - of_char CHR ''a'' + 10
      else if CHR ''A'' \<le> c \<and> c \<le> CHR ''F'' then of_char c - of_char CHR ''A'' + 10
      else -1)"

text \<open>One step of the loop of \<open>decode\<close>: the byte written and what is left of the input; \<open>None\<close>
  is the return of -1.\<close>

definition decode_char :: "bool \<Rightarrow> char \<Rightarrow> string \<Rightarrow> (char \<times> string) option" where
  "decode_char plus_is_space c rest =
     (if c = CHR ''%'' then
        (case rest of
           h # l # rest' \<Rightarrow>
             let hi = hexval h; lo = hexval l
             in if hi < 0 \<or> lo < 0 then None
                else let c' = char_of (nat (hi * 16 + lo)) in if c' = CHR 0x00 then None else Some (c', rest')
         | _ \<Rightarrow> None)
      else if c = CHR ''+'' \<and> plus_is_space then Some (CHR '' '', rest)
      else Some (c, rest))"

lemma decode_char_shorter: "decode_char plus_is_space c rest = Some (c', rest') \<Longrightarrow> length rest' \<le> length rest"
  by (auto simp: decode_char_def Let_def split: if_splits list.splits)

function decode_loop :: "bool \<Rightarrow> nat \<Rightarrow> string \<Rightarrow> string \<Rightarrow> string option" where
  "decode_loop plus_is_space cap [] out = Some out"
| "decode_loop plus_is_space cap (c # rest) out =
     (case decode_char plus_is_space c rest of
        None \<Rightarrow> None
      | Some (c', rest') \<Rightarrow>
          if length out + 1 \<ge> cap then None else decode_loop plus_is_space cap rest' (out @ [c']))"
  by pat_completeness auto
termination
  by (relation "measure (\<lambda>(p, cap, i, out). length i)") (auto dest!: decode_char_shorter)

definition decode :: "string \<Rightarrow> nat \<Rightarrow> bool \<Rightarrow> string option" where
  "decode i cap plus_is_space = (if cap = 0 then None else decode_loop plus_is_space cap i [])"

section \<open>Requests\<close>

text \<open>The loop over the decoded path: \<open>i\<close> the position, \<open>seg\<close> the start of the segment.\<close>

function unsafe_loop :: "string \<Rightarrow> nat \<Rightarrow> nat \<Rightarrow> bool" where
  "unsafe_loop dec i seg =
     (if i \<le> length dec then
        let d = length dec; c = (dec @ [CHR 0x00]) ! i; n = of_char c :: nat
        in if i < d \<and> (n < 0x20 \<or> n = 0x7F \<or> c = CHR 0x5C) then True
           else if i = d \<or> c = CHR ''/'' then
             if i - seg = 2 \<and> dec ! seg = CHR ''.'' \<and> dec ! (seg + 1) = CHR ''.'' then True
             else unsafe_loop dec (i + 1) (i + 1)
           else unsafe_loop dec (i + 1) seg
      else False)"
  by pat_completeness auto
termination by (relation "measure (\<lambda>(dec, i, seg). length dec + 1 - i)") auto

declare unsafe_loop.simps [simp del]

definition path_is_unsafe :: "string \<Rightarrow> bool" where
  "path_is_unsafe p =
     (case decode p HTTP_PATH_MAX False of None \<Rightarrow> True | Some dec \<Rightarrow> unsafe_loop dec 0 0)"

abbreviation (input) crlf :: string where "crlf \<equiv> [CHR 0x0D, CHR 0x0A]"

text \<open>The target of a request line, from after the first space: what \<open>http_parse_request\<close> does with
  \<open>target\<close> once the version is accepted.\<close>

definition parse_target :: "string \<Rightarrow> http_parse \<times> http_request option" where
  "parse_target target =
     (if length target = 0 \<or> target ! 0 \<noteq> CHR ''/'' then (HTTP_BAD, None)
      else if list_ex (\<lambda>c. (of_char c :: nat) \<le> 0x20 \<or> (of_char c :: nat) \<ge> 0x7F \<or> c = CHR 0x5C) target then (HTTP_BAD, None)
      else let q = memchr CHR ''?'' target;
               path_len = (case q of Some i \<Rightarrow> i | None \<Rightarrow> length target);
               query_len = (case q of Some i \<Rightarrow> length target - path_len - 1 | None \<Rightarrow> 0)
           in if path_len \<ge> HTTP_PATH_MAX \<or> query_len \<ge> HTTP_QUERY_MAX then (HTTP_BAD, None)
              else if path_is_unsafe (take path_len target) then (HTTP_BAD, None)
              else (HTTP_OK, Some \<lparr>path = take path_len target, query = take query_len (drop (path_len + 1) target)\<rparr>))"

text \<open>The request line.\<close>

definition parse_request_line :: "string \<Rightarrow> http_parse \<times> http_request option" where
  "parse_request_line line =
     (if memchr CHR 0x0A line \<noteq> None \<or> memchr CHR 0x0D line \<noteq> None then (HTTP_BAD, None)
      else case memchr CHR '' '' line of
          None \<Rightarrow> (HTTP_BAD, None)
        | Some sp1 \<Rightarrow>
            if take sp1 line \<noteq> ''GET'' then (HTTP_BAD_METHOD, None)
            else let target = drop (sp1 + 1) line
                 in case memchr CHR '' '' target of
                      None \<Rightarrow> (HTTP_BAD, None)
                    | Some target_len \<Rightarrow>
                        let ver = drop (target_len + 1) target
                        in if ver \<noteq> ''HTTP/1.1'' \<and> ver \<noteq> ''HTTP/1.0'' then (HTTP_BAD, None)
                           else parse_target (take target_len target))"

definition http_parse_request :: "string \<Rightarrow> http_parse \<times> http_request option" where
  "http_parse_request buf =
     (case memmem buf (crlf @ crlf) of
        None \<Rightarrow> (if length buf \<ge> HTTP_MAX_REQUEST then HTTP_TOO_LARGE else HTTP_INCOMPLETE, None)
      | Some end \<Rightarrow>
          let head = end + 4
          in if head > HTTP_MAX_REQUEST then (HTTP_TOO_LARGE, None)
             else if list_ex (\<lambda>c. let n = of_char c :: nat
                       in (n < 0x20 \<and> c \<noteq> CHR 0x0D \<and> c \<noteq> CHR 0x0A \<and> c \<noteq> CHR 0x09) \<or> n = 0x7F) (take head buf)
             then (HTTP_BAD, None)
             else parse_request_line (take (the (memmem (take head buf) crlf)) buf))"

section \<open>Queries\<close>

text \<open>The end of the loop's body: past the pair and its \<open>&\<close>.\<close>

definition next_pair :: "string \<Rightarrow> string" where
  "next_pair p = (let p' = drop (strcspn p ''&'') p in if p' \<noteq> [] \<and> hd p' = CHR ''&'' then tl p' else p')"

lemma next_pair_shorter: "p \<noteq> [] \<Longrightarrow> length (next_pair p) < length p"
proof (cases "strcspn p ''&''")
  case 0
  assume p: "p \<noteq> []"
  then have "hd p = CHR ''&''" using 0 by (cases p) (auto simp: strcspn_def split: if_splits)
  then show ?thesis using 0 p by (simp add: next_pair_def Let_def)
qed (simp add: next_pair_def Let_def)

function http_query_get :: "string \<Rightarrow> string \<Rightarrow> nat \<Rightarrow> string option" where
  "http_query_get p k n =
     (if p = [] then None
      else let pair = strcspn p ''&''; name = strcspn p ''=&''
           in if take name p = k then
                let val = drop name (take pair p)
                in decode (if val \<noteq> [] then tl val else val) n True
              else http_query_get (next_pair p) k n)"
  by pat_completeness auto
termination by (relation "measure (\<lambda>(p, k, n). length p)") (simp_all add: next_pair_shorter)

declare http_query_get.simps [simp del]

section \<open>Responses\<close>

definition status_text :: "int \<Rightarrow> string option" where
  "status_text status =
     (if status = HTTP_STATUS_OK then Some ''OK''
      else if status = HTTP_STATUS_BAD_REQUEST then Some ''Bad Request''
      else if status = HTTP_STATUS_NOT_FOUND then Some ''Not Found''
      else if status = HTTP_STATUS_METHOD_NOT_ALLOWED then Some ''Method Not Allowed''
      else if status = HTTP_STATUS_HEADERS_TOO_LARGE then Some ''Request Header Fields Too Large''
      else if status = HTTP_STATUS_INTERNAL_ERROR then Some ''Internal Server Error''
      else if status = HTTP_STATUS_UNAVAILABLE then Some ''Service Unavailable''
      else None)"

definition head_text :: "int \<Rightarrow> string \<Rightarrow> string \<Rightarrow> u64 \<Rightarrow> string \<Rightarrow> string" where
  "head_text status text0 ctype body_len allow =
     ''HTTP/1.1 '' @ fmt_d (word_of_int status :: 32 word) @ '' '' @ text0 @ crlf @
     ''Content-Type: '' @ ctype @ crlf @
     ''Content-Length: '' @ fmt_u body_len @ crlf @
     ''Connection: close'' @ crlf @
     ''Cache-Control: no-store'' @ crlf @
     ''X-Content-Type-Options: nosniff'' @ crlf @
     allow @ crlf"

definition http_write_head :: "nat \<Rightarrow> int \<Rightarrow> string option \<Rightarrow> u64 \<Rightarrow> string option" where
  "http_write_head cap status ctype body_len =
     (case (status_text status, ctype) of
        (Some text0, Some ctype) \<Rightarrow>
          let allow = (if status = HTTP_STATUS_METHOD_NOT_ALLOWED then ''Allow: GET'' @ crlf else []);
              (out, n) = snprintf cap (head_text status text0 ctype body_len allow)
          in if n \<ge> cap then None else Some out
      | _ \<Rightarrow> None)"


end
