(* ===== verification/Route.thy ===== *)
theory Route
  imports Kv_Text Http
begin

text \<open>
  The routes: \<open>include/interface/route.h\<close> and \<open>src/interface/route.c\<close>, with \<open>server_response_t\<close> of
  \<open>include/interface/server.h\<close>. The response's \<open>body\<close> and \<open>body_len\<close> are the text \<open>rs_body\<close>. The
  source of \<open>include/interface/source.h\<close> is the argument \<open>source_query\<close>, the text of the status page
  the argument \<open>page_html\<close>. A string result that is a reason for a refusal is \<open>Inl\<close>.
\<close>

section \<open>Responses\<close>

abbreviation (input) ROUTE_VALUE_MAX :: nat where "ROUTE_VALUE_MAX \<equiv> 24"
abbreviation (input) ROUTE_LINE_MAX :: nat where "ROUTE_LINE_MAX \<equiv> 160"
abbreviation (input) ROUTE_REPLY_MAX :: nat where "ROUTE_REPLY_MAX \<equiv> 65536"

record server_response =
  rs_status :: int
  rs_ctype :: "string option"
  rs_body :: string
  rs_cap :: nat

definition api :: "(string \<times> string) list" where
  "api = [(''/api/status'', ''status''), (''/api/verdicts'', ''verdicts''),
          (''/api/faults'', ''faults''), (''/api/series'', ''series'')]"

definition series_keys :: "string list" where
  "series_keys = [''pid'', ''from'', ''to'']"

definition set_empty_500 :: "server_response \<Rightarrow> server_response" where
  "set_empty_500 r = r\<lparr>rs_status := HTTP_STATUS_INTERNAL_ERROR, rs_ctype := Some ''text/plain'', rs_body := []\<rparr>"

definition set_text :: "server_response \<Rightarrow> int \<Rightarrow> string \<Rightarrow> string \<Rightarrow> server_response" where
  "set_text r status ctype text0 =
     (if length text0 > rs_cap r then set_empty_500 r
      else r\<lparr>rs_status := status, rs_ctype := Some ctype, rs_body := text0\<rparr>)"

definition set_error :: "server_response \<Rightarrow> int \<Rightarrow> string \<Rightarrow> string \<Rightarrow> server_response" where
  "set_error r status code reason =
     (let j = json_init (rs_cap r);
          j = json_begin_object j;
          j = json_key (Some ''ok'') j;
          j = json_bool False j;
          j = json_key (Some ''code'') j;
          j = json_string (Some code) j;
          j = json_key (Some ''reason'') j;
          j = json_string (Some reason) j;
          j = json_end_object j
      in case json_finish j of
           None \<Rightarrow> set_empty_500 r
         | Some n \<Rightarrow> r\<lparr>rs_status := status, rs_ctype := Some ''application/json'', rs_body := take n (j_buf j)\<rparr>)"

definition status_for_code :: "string \<Rightarrow> int" where
  "status_for_code code =
     (if code = ''usage'' then HTTP_STATUS_BAD_REQUEST
      else if code = ''unknown_pid'' \<or> code = ''unknown_verb'' then HTTP_STATUS_NOT_FOUND
      else if code = ''unavailable'' then HTTP_STATUS_UNAVAILABLE
      else HTTP_STATUS_INTERNAL_ERROR)"

text \<open>One field, one record, and the loop over the records of a reply.\<close>

definition json_field :: "kv_field \<Rightarrow> json \<Rightarrow> json" where
  "json_field f j =
     (let j = json_key (Some (key f)) j
      in case ftype f of
           KV_STR \<Rightarrow> json_string (Some (val f)) j
         | KV_NUM \<Rightarrow> json_number (Some (val f)) j
         | KV_NULL \<Rightarrow> json_null j)"

definition json_record :: "kv_line \<Rightarrow> json \<Rightarrow> json" where
  "json_record rec j =
     json_end_object (fold json_field (flds rec)
       (json_string (Some (tag rec)) (json_key (Some ''tag'') (json_begin_object j))))"

text \<open>\<open>None\<close> is the return for a record with a field called tag.\<close>

function records_loop :: "string \<Rightarrow> kv_line \<Rightarrow> json \<Rightarrow> json option" where
  "records_loop cur rec j =
     (case kv_reply_next cur rec of
        (k, cur', rec') \<Rightarrow>
          if k = KV_RECORD then
            if kv_get rec' ''tag'' \<noteq> None then None else records_loop cur' rec' (json_record rec' j)
          else Some j)"
  by pat_completeness auto
termination
  by (relation "measure (\<lambda>(cur, rec, j). length cur)") (auto dest!: reply_next_shorter [OF sym])

declare records_loop.simps [simp del]

definition records_to_json :: "server_response \<Rightarrow> string \<Rightarrow> string + server_response" where
  "records_to_json r text0 =
     (let j = json_init (rs_cap r);
          j = json_begin_object j;
          j = json_key (Some ''ok'') j;
          j = json_bool True j;
          j = json_key (Some ''records'') j;
          j = json_begin_array j
      in case records_loop text0 empty_line j of
           None \<Rightarrow> Inl ''source sent a field named tag''
         | Some j \<Rightarrow>
             let j = json_end_object (json_end_array j)
             in case json_finish j of
                  None \<Rightarrow> Inl ''response did not fit''
                | Some len \<Rightarrow> Inr (r\<lparr>rs_status := HTTP_STATUS_OK, rs_ctype := Some ''application/json'',
                                     rs_body := take len (j_buf j)\<rparr>))"

section \<open>The request line\<close>

definition safe_char :: "char \<Rightarrow> bool" where
  "safe_char c \<longleftrightarrow> (CHR ''a'' \<le> c \<and> c \<le> CHR ''z'') \<or> (CHR ''A'' \<le> c \<and> c \<le> CHR ''Z'') \<or>
     (CHR ''0'' \<le> c \<and> c \<le> CHR ''9'') \<or> c \<in> set '':+.,_/-''"

definition safe_value :: "string \<Rightarrow> bool" where
  "safe_value v \<longleftrightarrow> \<not> (length v = 0 \<or> length v > ROUTE_VALUE_MAX) \<and> list_all safe_char v"

text \<open>The index of a key in \<open>series_keys\<close>, or their number.\<close>

definition series_index :: "string \<Rightarrow> nat" where
  "series_index k = length (takeWhile (\<lambda>s. s \<noteq> k) series_keys)"

text \<open>\<open>Inl\<close> is the reason for a refusal, \<open>Inr\<close> the bits of \<open>*seen\<close>.\<close>

function check_loop :: "string \<Rightarrow> u32 \<Rightarrow> string + u32" where
  "check_loop p seen =
     (if p = [] then Inr seen
      else let k = series_index (take (strcspn p ''=&'') p);
               p' = drop (strcspn p ''&'') p
           in if k = length series_keys then Inl ''unknown query key''
              else if bit seen k then Inl ''repeated query key''
              else if p' \<noteq> [] \<and> hd p' = CHR ''&'' \<and> tl p' = [] then Inl ''empty query pair''
              else check_loop (next_pair p) (set_bit k seen))"
  by pat_completeness auto
termination by (relation "measure (\<lambda>(p, seen). length p)") (simp_all add: next_pair_shorter)

declare check_loop.simps [simp del]

definition check_keys :: "string \<Rightarrow> string + u32" where
  "check_keys q = check_loop q 0"

text \<open>One turn of the loop of \<open>build_series\<close> for the key \<open>k\<close>, and the loop.\<close>

definition series_part :: "string \<Rightarrow> nat \<Rightarrow> string + string" where
  "series_part q k =
     (let name = series_keys ! k
      in case http_query_get q name HTTP_QUERY_MAX of
           None \<Rightarrow> Inl ''bad query value''
         | Some v \<Rightarrow>
             if \<not> safe_value v then Inl ''unsafe query value''
             else let bare = (k \<noteq> 0 \<and> list_all is_digit v)
                  in Inr (if bare then '' '' @ name @ ''='' @ v else '' '' @ name @ ''='' @ [CHR 0x22] @ v @ [CHR 0x22]))"

fun series_loop :: "string \<Rightarrow> u32 \<Rightarrow> nat \<Rightarrow> nat list \<Rightarrow> string \<Rightarrow> string + string" where
  "series_loop q seen cap [] line = Inr line"
| "series_loop q seen cap (k # ks) line =
     (if \<not> bit seen k then series_loop q seen cap ks line
      else case series_part q k of
          Inl why \<Rightarrow> Inl why
        | Inr part \<Rightarrow>
            let (w, n) = snprintf (cap - length line) part
            in if n \<ge> cap - length line then Inl ''query too long''
               else series_loop q seen cap ks (line @ w))"

definition build_series :: "string \<Rightarrow> nat \<Rightarrow> string + string" where
  "build_series q cap =
     (case check_keys q of
        Inl why \<Rightarrow> Inl why
      | Inr seen \<Rightarrow> series_loop q seen cap [0..<length series_keys] (fst (snprintf cap ''series'')))"

section \<open>The handler\<close>

text \<open>\<open>source_query\<close> is the source: a request line and a capacity give a reply, \<open>None\<close> for -1.
  \<open>page_html\<close> is the text of the status page.\<close>

definition found_api :: "string \<Rightarrow> nat" where
  "found_api p = fold (\<lambda>i found. if p = fst (api ! i) then i else found) [0..<length api] (length api)"

definition request_line :: "http_request \<Rightarrow> nat \<Rightarrow> string + string" where
  "request_line req found =
     (if snd (api ! found) = ''series'' then build_series (query req) ROUTE_LINE_MAX
      else if query req \<noteq> [] then Inl ''this route takes no query''
      else Inr (fst (snprintf ROUTE_LINE_MAX (snd (api ! found)))))"

definition answer_reply :: "server_response \<Rightarrow> string option \<Rightarrow> server_response" where
  "answer_reply resp answer =
     (case answer of
        None \<Rightarrow> set_error resp HTTP_STATUS_INTERNAL_ERROR ''internal'' ''reply did not fit''
      | Some text0 \<Rightarrow>
          (case kv_reply_check text0 of
             Some (KV_OK, final) \<Rightarrow>
               (case records_to_json resp text0 of
                  Inr resp' \<Rightarrow> resp'
                | Inl why \<Rightarrow> set_error resp HTTP_STATUS_INTERNAL_ERROR ''internal'' why)
           | Some (KV_ERR, Some final) \<Rightarrow>
               set_error resp (status_for_code (err_code final)) (err_code final) (err_reason final)
           | _ \<Rightarrow> set_error resp HTTP_STATUS_INTERNAL_ERROR ''internal'' ''malformed source reply''))"

definition route_handle :: "string \<Rightarrow> (string \<Rightarrow> nat \<Rightarrow> string option) \<Rightarrow> http_request \<Rightarrow> server_response \<Rightarrow> server_response" where
  "route_handle page_html source_query req resp =
     (if path req = ''/'' then
        if query req \<noteq> [] then set_text resp HTTP_STATUS_BAD_REQUEST ''text/plain'' (''bad request'' @ [CHR 0x0A])
        else set_text resp HTTP_STATUS_OK ''text/html; charset=utf-8'' page_html
      else if take 5 (path req) \<noteq> ''/api/'' then
        set_text resp HTTP_STATUS_NOT_FOUND ''text/plain'' (''not found'' @ [CHR 0x0A])
      else let found = found_api (path req)
           in if found = length api then set_error resp HTTP_STATUS_NOT_FOUND ''not_found'' ''no such route''
              else case request_line req found of
                  Inl why \<Rightarrow> set_error resp HTTP_STATUS_BAD_REQUEST ''usage'' why
                | Inr line \<Rightarrow> answer_reply resp (source_query line ROUTE_REPLY_MAX))"


end
