(* ===== verification/Route_Answers.thy ===== *)
theory Route_Answers
  imports Route
begin

text \<open>
  What the routes answer. The JSON calls of a response are those of a document (\<open>error_json\<close>,
  \<open>reply_json\<close>), so \<open>set_error\<close> and \<open>records_to_json\<close> write its text or refuse (\<open>set_error_json\<close>,
  \<open>records_to_json_calls\<close>); the request line is built from checked values only (\<open>series_loop_line\<close>,
  \<open>request_line_safe\<close>) and always fits (\<open>series_loop_fits\<close>).
\<close>

section \<open>Documents of the responses\<close>

definition error_json :: "string \<Rightarrow> string \<Rightarrow> jval" where
  "error_json code reason = JObject [(''ok'', JBool False), (''code'', JString code), (''reason'', JString reason)]"

definition error_calls :: "string \<Rightarrow> string \<Rightarrow> jcall list" where
  "error_calls code reason =
     [CBegin True, CKey (Some ''ok''), CBool False, CKey (Some ''code''), CString (Some code),
      CKey (Some ''reason''), CString (Some reason), CEnd True]"

lemma error_calls_result:
  "jresult (error_calls code reason) = (if ascii code \<and> ascii reason then Some (error_json code reason) else None)"
  by (simp add: jresult_def error_calls_def error_json_def)

lemma error_calls_ok: "\<forall>c \<in> set (error_calls code reason). call_ok c"
  by (simp add: error_calls_def)

lemma finish_document:
  "\<forall>c \<in> set cs. call_ok c \<Longrightarrow> json_finish (fold call cs (json_init cap)) =
     (case jresult cs of Some v \<Rightarrow> if length (render v) < cap then Some (length (render v)) else None | None \<Rightarrow> None)"
  "\<forall>c \<in> set cs. call_ok c \<Longrightarrow> jresult cs = Some v \<Longrightarrow> length (render v) < cap \<Longrightarrow>
     take (length (render v)) (j_buf (fold call cs (json_init cap))) = render v"
  using finish_calls finish_calls_text by simp_all

lemma set_error_json:
  "set_error r status code reason =
     (if ascii code \<and> ascii reason \<and> length (render (error_json code reason)) < rs_cap r
      then r\<lparr>rs_status := status, rs_ctype := Some ''application/json'', rs_body := render (error_json code reason)\<rparr>
      else set_empty_500 r)"
proof -
  let ?j = "fold call (error_calls code reason) (json_init (rs_cap r))"
  have "set_error r status code reason =
      (case json_finish ?j of None \<Rightarrow> set_empty_500 r
       | Some n \<Rightarrow> r\<lparr>rs_status := status, rs_ctype := Some ''application/json'', rs_body := take n (j_buf ?j)\<rparr>)"
    by (simp add: set_error_def error_calls_def Let_def split: option.split)
  then show ?thesis
    using finish_document(1) [of "error_calls code reason" "rs_cap r"]
      finish_document(2) [of "error_calls code reason" "error_json code reason" "rs_cap r"] error_calls_ok [of code reason]
    by (simp add: error_calls_result)
qed

text \<open>Records as JSON.\<close>

definition field_json :: "kv_field \<Rightarrow> string \<times> jval" where
  "field_json f = (key f, case ftype f of KV_STR \<Rightarrow> JString (val f) | KV_NUM \<Rightarrow> JNumber (val f) | KV_NULL \<Rightarrow> JNull)"

definition record_json :: "kv_line \<Rightarrow> jval" where
  "record_json l = JObject ((''tag'', JString (tag l)) # map field_json (flds l))"

definition reply_json :: "kv_line list \<Rightarrow> jval" where
  "reply_json ls = JObject [(''ok'', JBool True), (''records'', JArray (map record_json ls))]"

definition field_calls :: "kv_field \<Rightarrow> jcall list" where
  "field_calls f = [CKey (Some (key f)),
     case ftype f of KV_STR \<Rightarrow> CString (Some (val f)) | KV_NUM \<Rightarrow> CNumber (Some (val f)) | KV_NULL \<Rightarrow> CNull]"

definition record_calls :: "kv_line \<Rightarrow> jcall list" where
  "record_calls l = [CBegin True, CKey (Some ''tag''), CString (Some (tag l))] @
     concat (map field_calls (flds l)) @ [CEnd True]"

definition reply_calls :: "kv_line list \<Rightarrow> jcall list" where
  "reply_calls ls = [CBegin True, CKey (Some ''ok''), CBool True, CKey (Some ''records''), CBegin False] @
     concat (map record_calls ls) @ [CEnd False, CEnd True]"

lemma json_field_calls: "json_field f = fold call (field_calls f)"
  by (rule ext) (simp add: json_field_def field_calls_def Let_def split: kv_type.split)

lemma json_record_calls: "json_record l = fold call (record_calls l)"
proof
  fix j
  have "fold json_field fs j = fold call (concat (map field_calls fs)) j" for fs j
    by (induction fs arbitrary: j) (simp_all add: json_field_calls)
  then show "json_record l j = fold call (record_calls l) j" by (simp add: json_record_def record_calls_def)
qed

lemma reply_calls_ok: "\<forall>c \<in> set (reply_calls ls). call_ok c"
  by (auto simp: reply_calls_def record_calls_def field_calls_def split: kv_type.splits)

text \<open>A record as the parser returns it.\<close>

abbreviation well_formed :: "kv_line \<Rightarrow> bool" where
  "well_formed l \<equiv> \<exists>s. record_line s l"

lemma printable_ascii: "printable s \<Longrightarrow> ascii s"
  by force

lemma field_calls_run:
  assumes "field_ok f"
  shows "jrun (field_calls f @ cs) (FObj kvs None # fs, d) = jrun cs (FObj (kvs @ [field_json f]) None # fs, d)"
proof -
  have "ascii (key f)" "ascii (val f)" "ftype f = KV_NUM \<Longrightarrow> json_is_number (Some (val f))"
    using assms printable_ascii [OF name_chars(4) [of "key f" 24]] printable_ascii [of "val f"]
    by (auto simp: field_ok_def split: kv_type.splits)
  then show ?thesis by (cases "ftype f") (simp_all add: field_calls_def field_json_def)
qed

lemma record_calls_run:
  assumes "well_formed l" and "length fs < 7"
  shows "jrun (record_calls l @ cs) (FArr vs # fs, d) = jrun cs (FArr (vs @ [record_json l]) # fs, d)"
proof -
  have t: "ascii (tag l)" "\<forall>f \<in> set (flds l). field_ok f"
    using assms(1) printable_ascii [OF name_chars(4) [of "tag l" 24]] by (auto simp: record_line_def fields_ok_def)
  have "jrun (concat (map field_calls gs) @ cs) (FObj kvs None # fs', d) = jrun cs (FObj (kvs @ map field_json gs) None # fs', d)"
    if "\<forall>f \<in> set gs. field_ok f" for gs kvs fs' cs
    using that by (induction gs arbitrary: kvs) (simp_all add: field_calls_run)
  then show ?thesis using t assms(2) by (simp add: record_calls_def record_json_def)
qed

lemma reply_calls_result: "\<forall>l \<in> set ls. well_formed l \<Longrightarrow> jresult (reply_calls ls) = Some (reply_json ls)"
proof -
  assume ls: "\<forall>l \<in> set ls. well_formed l"
  have "jrun (concat (map record_calls gs) @ cs) (FArr vs # fs, d) = jrun cs (FArr (vs @ map record_json gs) # fs, d)"
    if "\<forall>l \<in> set gs. well_formed l" "length fs < 7" for gs vs cs fs d
    using that by (induction gs arbitrary: vs) (simp_all add: record_calls_run)
  then show ?thesis using ls by (simp add: jresult_def reply_calls_def reply_json_def)
qed

section \<open>The records of a reply\<close>

text \<open>The record lines at the head of a reply.\<close>

function reply_records :: "string \<Rightarrow> kv_line list" where
  "reply_records cur =
     (case kv_reply_next cur empty_line of
        (k, cur', l) \<Rightarrow> if k = KV_RECORD then l # reply_records cur' else [])"
  by pat_completeness auto
termination
  by (relation "measure length") (auto dest!: reply_next_shorter [OF sym])

declare reply_records.simps [simp del]

lemma reply_next_out: "kv_reply_next cur out = (KV_RECORD, cur', l) \<Longrightarrow> kv_reply_next cur out' = (KV_RECORD, cur', l)"
  by (cases "memchr CHR 0x0A cur") (simp_all add: kv_reply_next_def Let_def case_prod_beta del: memchr_None)

lemma reply_next_kind: "fst (kv_reply_next cur out) = fst (kv_reply_next cur out')"
  by (cases "memchr CHR 0x0A cur") (simp_all add: kv_reply_next_def Let_def case_prod_beta del: memchr_None)

lemma reply_records_wf: "l \<in> set (reply_records cur) \<Longrightarrow> well_formed l"
proof (induction cur rule: reply_records.induct)
  case (1 cur)
  obtain k cur' l' where n: "kv_reply_next cur empty_line = (k, cur', l')" by (metis prod_cases3)
  show ?case
  proof (cases "k = KV_RECORD")
    case True
    obtain s where "kv_parse_line s = (KV_RECORD, l')" using reply_next_inv [OF n] True by auto
    then have "well_formed l'" using parse_line_iff(1) by blast
    then show ?thesis using 1 n True by (subst (asm) (2) reply_records.simps) auto
  next
    case False
    then show ?thesis using 1 n by (subst (asm) (2) reply_records.simps) auto
  qed
qed

lemma records_loop_calls:
  "records_loop cur rec j =
     (if \<exists>l \<in> set (reply_records cur). kv_get l ''tag'' \<noteq> None then None
      else Some (fold call (concat (map record_calls (reply_records cur))) j))"
proof (induction "length cur" arbitrary: cur rec j rule: less_induct)
  case less
  obtain k cur' l where n: "kv_reply_next cur rec = (k, cur', l)" by (metis prod_cases3)
  show ?case
  proof (cases "k = KV_RECORD")
    case True
    have e: "kv_reply_next cur empty_line = (KV_RECORD, cur', l)" using reply_next_out n True by blast
    have "reply_records cur = l # reply_records cur'" by (subst reply_records.simps) (simp add: e)
    moreover have "length cur' < length cur" using reply_next_shorter [OF n] True by simp
    ultimately show ?thesis
      using less [of cur' l "json_record l j"] True by (subst records_loop.simps) (simp add: n json_record_calls)
  next
    case False
    then have "fst (kv_reply_next cur empty_line) \<noteq> KV_RECORD" using reply_next_kind [of cur empty_line rec] n by simp
    then have "reply_records cur = []" by (subst reply_records.simps) (auto split: prod.splits)
    then show ?thesis using False by (subst records_loop.simps) (simp add: n)
  qed
qed

lemma records_to_json_calls:
  "records_to_json r text0 =
     (let ls = reply_records text0
      in if \<exists>l \<in> set ls. kv_get l ''tag'' \<noteq> None then Inl ''source sent a field named tag''
         else if length (render (reply_json ls)) < rs_cap r
         then Inr (r\<lparr>rs_status := HTTP_STATUS_OK, rs_ctype := Some ''application/json'', rs_body := render (reply_json ls)\<rparr>)
         else Inl ''response did not fit'')"
proof -
  let ?ls = "reply_records text0"
  let ?j = "fold call (reply_calls ?ls) (json_init (rs_cap r))"
  have wf: "\<forall>l \<in> set ?ls. well_formed l" using reply_records_wf by blast
  have "records_to_json r text0 =
      (if \<exists>l \<in> set ?ls. kv_get l ''tag'' \<noteq> None then Inl ''source sent a field named tag''
       else case json_finish ?j of
           None \<Rightarrow> Inl ''response did not fit''
         | Some len \<Rightarrow> Inr (r\<lparr>rs_status := HTTP_STATUS_OK, rs_ctype := Some ''application/json'',
                              rs_body := take len (j_buf ?j)\<rparr>))"
    by (simp add: records_to_json_def records_loop_calls reply_calls_def Let_def split: option.split)
  then show ?thesis
    using finish_document(1) [OF reply_calls_ok, of ?ls "rs_cap r"]
      finish_document(2) [OF reply_calls_ok reply_calls_result [OF wf], of "rs_cap r"] reply_calls_result [OF wf]
    by (simp add: Let_def)
qed

text \<open>The text of a reply.\<close>

definition line_text :: "kv_line \<Rightarrow> string" where
  "line_text l = tag l @ show_fields (flds l)"

definition reply_text :: "kv_line list \<Rightarrow> string" where
  "reply_text ls = concat (map (\<lambda>l. line_text l @ [CHR 0x0A]) ls) @ ''ok'' @ [CHR 0x0A]"

definition record_fits :: "kv_line \<Rightarrow> bool" where
  "record_fits l \<longleftrightarrow> record_line (line_text l) l \<and> length (line_text l) \<le> KV_MAX_LINE"

lemma record_fits_parses: "record_fits l \<Longrightarrow> kv_parse_line (line_text l) = (KV_RECORD, l)"
  by (simp add: record_fits_def record_line_parses)

lemma reply_text_Cons: "reply_text (l # ls) = (line_text l @ [CHR 0x0A]) @ reply_text ls"
  by (simp add: reply_text_def)

lemma reply_text_ok: "\<forall>l \<in> set ls. record_fits l \<Longrightarrow> reply (reply_text ls) KV_OK empty_line"
proof (induction ls)
  case Nil
  have "kv_parse_line ''ok'' = (KV_OK, empty_line)" using parse_line_iff(3) by simp
  then show ?case by (intro reply.final [of "''ok''"]) (simp_all add: reply_text_def eol_of_def)
next
  case (Cons l ls)
  then show ?case
    unfolding reply_text_Cons
    by (intro reply.more [of "line_text l" _ l]) (simp_all add: eol_of_def record_fits_parses)
qed

lemma reply_records_text: "\<forall>l \<in> set ls. record_fits l \<Longrightarrow> reply_records (reply_text ls) = ls"
proof (induction ls)
  case Nil
  have "kv_parse_line ''ok'' = (KV_OK, empty_line)" using parse_line_iff(3) by simp
  then have "fst (kv_reply_next (''ok'' @ [CHR 0x0A]) empty_line) = KV_OK"
    using reply_next_eol [of "''ok''" "''ok'' @ [CHR 0x0A]" "[]"] by (simp add: eol_of_def)
  then show ?case by (subst reply_records.simps) (auto simp: reply_text_def split: prod.splits)
next
  case (Cons l ls)
  have p: "kv_parse_line (line_text l) = (KV_RECORD, l)" using Cons.prems record_fits_parses by simp
  have "kv_reply_next (reply_text (l # ls)) empty_line = (KV_RECORD, reply_text ls, l)"
    unfolding reply_text_Cons using reply_next_eol [of "line_text l" "line_text l @ [CHR 0x0A]"] p
      line_printable(1) [OF p] by (simp add: eol_of_def)
  then show ?case using Cons by (subst reply_records.simps) simp
qed

section \<open>The request line\<close>

lemma safe_char_facts:
  assumes "safe_char c"
  shows "c \<noteq> CHR 0x22" "c \<noteq> CHR 0x5C" "c \<noteq> CHR '' ''" "0x20 \<le> (of_char c :: nat) \<and> (of_char c :: nat) < 0x7F"
  using assms by (auto simp: safe_char_def char_le_nat)

text \<open>The fields of a series request: a string for the pid, and for the ends of the window a string
  or, when it is all digits, a bare value.\<close>

definition series_field :: "nat \<Rightarrow> string \<Rightarrow> kv_field" where
  "series_field k v = \<lparr>key = series_keys ! k, val = v,
     ftype = (if k \<noteq> 0 \<and> list_all is_digit v then KV_NUM else KV_STR)\<rparr>"

lemma series_part_field:
  "series_part q k = Inr part \<longleftrightarrow>
     (\<exists>v. http_query_get q (series_keys ! k) HTTP_QUERY_MAX = Some v \<and> safe_value v \<and> part = '' '' @ show_field (series_field k v))"
  by (auto simp: series_part_def series_field_def show_field_def show_value_def Let_def split: option.splits)

definition series_fields :: "string \<Rightarrow> u32 \<Rightarrow> nat list \<Rightarrow> kv_field list" where
  "series_fields q seen ks =
     map (\<lambda>k. series_field k (the (http_query_get q (series_keys ! k) HTTP_QUERY_MAX))) (filter (bit seen) ks)"

lemma series_loop_line:
  "series_loop q seen cap ks line = Inr res \<Longrightarrow>
     res = line @ show_fields (series_fields q seen ks) \<and>
     (\<forall>k \<in> set ks. bit seen k \<longrightarrow> (\<exists>v. http_query_get q (series_keys ! k) HTTP_QUERY_MAX = Some v \<and> safe_value v))"
proof (induction ks arbitrary: line)
  case Nil
  then show ?case by (simp add: series_fields_def show_fields_def)
next
  case (Cons k ks)
  show ?case
  proof (cases "bit seen k")
    case True
    then obtain part where p: "series_part q k = Inr part" "length part < cap - length line"
        "series_loop q seen cap ks (line @ take (cap - length line - 1) part) = Inr res"
      using Cons.prems by (auto simp: snprintf_def split: sum.splits if_splits)
    obtain v where v: "http_query_get q (series_keys ! k) HTTP_QUERY_MAX = Some v" "safe_value v"
        "part = '' '' @ show_field (series_field k v)"
      using p(1) series_part_field by blast
    have "take (cap - length line - 1) part = part" using p(2) by simp
    then show ?thesis using Cons.IH [OF p(3)] v True by (simp add: series_fields_def show_fields_def)
  next
    case False
    then show ?thesis using Cons by (simp add: series_fields_def)
  qed
qed

lemma show_series_field: "safe_value v \<Longrightarrow> k < 3 \<Longrightarrow> length (show_field (series_field k v)) \<le> 31"
  by (auto simp: show_field_def show_value_def series_field_def safe_value_def series_keys_def nth_Cons' split: if_splits)

text \<open>The line always fits: the refusal for a line too long is never given.\<close>

lemma series_loop_fits:
  assumes "\<forall>k \<in> set ks. k < 3" and "length line + 32 * length ks < cap"
  shows "series_loop q seen cap ks line \<noteq> Inl ''query too long''"
  using assms
proof (induction ks arbitrary: line)
  case (Cons k ks)
  have "length part \<le> 32" if "series_part q k = Inr part" for part
    using that Cons.prems(1) show_series_field by (auto simp: series_part_field)
  moreover have "series_part q k \<noteq> Inl ''query too long''"
    by (simp add: series_part_def Let_def split: option.split)
  ultimately show ?case using Cons by (auto simp: snprintf_def split: sum.split)
qed simp

text \<open>What may reach the source.\<close>

definition line_safe :: "string \<Rightarrow> bool" where
  "line_safe line \<longleftrightarrow> line \<in> {''status'', ''verdicts'', ''faults''} \<or>
     (\<exists>vs. line = ''series'' @ show_fields (map (\<lambda>(k, v). series_field k v) vs) \<and>
        sorted_wrt (<) (map fst vs) \<and> (\<forall>(k, v) \<in> set vs. k < length series_keys \<and> safe_value v))"

lemma build_series_safe:
  assumes "build_series q ROUTE_LINE_MAX = Inr line"
  shows "line_safe line"
proof -
  obtain seen where s: "check_keys q = Inr seen"
      "series_loop q seen ROUTE_LINE_MAX [0..<length series_keys] ''series'' = Inr line"
    using assms by (auto simp: build_series_def snprintf_def split: sum.splits)
  define ks where "ks = filter (bit seen) [0..<length series_keys]"
  define vs where "vs = map (\<lambda>k. (k, the (http_query_get q (series_keys ! k) HTTP_QUERY_MAX))) ks"
  note l = series_loop_line [OF s(2)]
  have "line = ''series'' @ show_fields (map (\<lambda>(k, v). series_field k v) vs)"
    using l by (simp add: vs_def ks_def series_fields_def comp_def)
  moreover have "sorted_wrt (<) (map fst vs)"
    by (simp add: vs_def ks_def comp_def sorted_wrt_filter)
  moreover have "\<forall>(k, v) \<in> set vs. k < length series_keys \<and> safe_value v"
    using l by (auto simp: vs_def ks_def)
  ultimately show ?thesis by (auto simp: line_safe_def)
qed

lemma request_line_safe:
  assumes "request_line req found = Inr line" and "found < length api"
  shows "line_safe line"
proof (cases "snd (api ! found) = ''series''")
  case True
  then show ?thesis using assms(1) build_series_safe by (simp add: request_line_def)
next
  case False
  then have "snd (api ! found) \<in> {''status'', ''verdicts'', ''faults''}"
    using assms(2) by (auto simp: api_def nth_Cons' split: if_splits)
  then show ?thesis using assms(1) False by (auto simp: request_line_def line_safe_def snprintf_def split: if_splits)
qed

text \<open>Such a line parses as one request with those fields, unless a bare value begins with a zero.\<close>

lemma series_field_ok:
  assumes "k < length series_keys" and "safe_value v" and "k \<noteq> 0 \<and> list_all is_digit v \<longrightarrow> hd v \<noteq> CHR ''0'' \<or> v = ''0''"
  shows "field_ok (series_field k v)"
proof -
  have n: "is_name (series_keys ! k) KV_MAX_KEY"
    using assms(1) by (auto simp: series_keys_def nth_Cons' is_name_def is_ident_def char_le_nat less_Suc_eq)
  have v: "length v < 96" "printable v" "CHR 0x22 \<notin> set v" "CHR 0x5C \<notin> set v" "v \<noteq> []"
    using assms(2) safe_char_facts by (fastforce simp: safe_value_def list_all_iff)+
  have "json_is_number (Some v)" if "k \<noteq> 0" "list_all is_digit v"
  proof -
    have "int_text v" using that assms(3) v(5) by (auto simp: int_text_def digits_def list_all_iff)
    then show ?thesis unfolding is_number_text number_text_def
      by (intro exI [of _ "[]"] exI [of _ v]) (simp add: frac_text_def exp_text_def)
  qed
  then show ?thesis using n v by (simp add: field_ok_def series_field_def)
qed

section \<open>Every answer under /api/ is JSON\<close>

lemma length_esc: "printable [c] \<Longrightarrow> length (esc c) \<le> 2"
  by (auto simp: esc_def Let_def)

lemma length_quoted: "printable s \<Longrightarrow> length (quoted s) \<le> 2 + 2 * length s"
proof -
  have "length (concat (map esc s)) \<le> 2 * length s" if "printable s"
    using that
  proof (induction s)
    case (Cons c s)
    then show ?case using length_esc [of c] by simp
  qed simp
  then show "printable s \<Longrightarrow> length (quoted s) \<le> 2 + 2 * length s" by (simp add: quoted_def)
qed

lemma length_error_json:
  assumes "printable code" and "printable reason" and "length code < 24" and "length reason < 96"
  shows "length (render (error_json code reason)) < 512"
proof -
  have "length (render (error_json code reason)) \<le> 60 + length (quoted code) + length (quoted reason)"
    by (simp add: error_json_def commas_Cons quoted_def esc_def)
  then show ?thesis using length_quoted [OF assms(1)] length_quoted [OF assms(2)] assms(3,4) by simp
qed

definition json_answer :: "server_response \<Rightarrow> bool" where
  "json_answer r \<longleftrightarrow> rs_ctype r = Some ''application/json'' \<and>
     (\<exists>kvs good. json_read (rs_body r) = Some (JObject ((''ok'', JBool good) # kvs)) \<and>
        (rs_status r = HTTP_STATUS_OK \<longleftrightarrow> good)) \<and>
     rs_status r \<in> {HTTP_STATUS_OK, HTTP_STATUS_BAD_REQUEST, HTTP_STATUS_NOT_FOUND, HTTP_STATUS_INTERNAL_ERROR,
       HTTP_STATUS_UNAVAILABLE}"

lemma set_error_answer:
  assumes "printable code" and "printable reason" and "length code < 24" and "length reason < 96"
    and "rs_cap r \<ge> 512"
    and "status \<in> {HTTP_STATUS_BAD_REQUEST, HTTP_STATUS_NOT_FOUND, HTTP_STATUS_INTERNAL_ERROR, HTTP_STATUS_UNAVAILABLE}"
  shows "json_answer (set_error r status code reason)"
proof -
  have a: "ascii code" "ascii reason" using assms(1,2) printable_ascii by blast+
  have "json_read (render (error_json code reason)) = Some (error_json code reason)"
    using json_read_render [of "error_json code reason"] a by (simp add: error_json_def)
  then show ?thesis
    using a length_error_json [OF assms(1-4)] assms(5,6)
    by (auto simp: json_answer_def set_error_json error_json_def)
qed

text \<open>The reasons the routes give themselves.\<close>

lemma series_reason: "series_part q k = Inl why \<Longrightarrow> printable why \<and> length why < 96"
  by (auto simp: series_part_def Let_def split: option.splits if_splits)

lemma series_loop_reason: "series_loop q seen cap ks line = Inl why \<Longrightarrow> printable why \<and> length why < 96"
proof (induction ks arbitrary: line)
  case (Cons k ks)
  have "printable ''query too long''" by simp
  then show ?case using Cons series_reason [of q k why]
    by (auto simp: snprintf_def simp del: set_simps split: sum.splits if_splits)
qed simp

lemma check_loop_reason: "check_loop p seen = Inl why \<Longrightarrow> printable why \<and> length why < 96"
proof (induction p seen rule: check_loop.induct)
  case (1 p seen)
  have "printable ''unknown query key''" "printable ''repeated query key''" "printable ''empty query pair''" by simp_all
  then show ?case
    using 1 by (subst (asm) (2) check_loop.simps) (auto simp: Let_def split: if_splits)
qed

lemma request_line_reason: "request_line req found = Inl why \<Longrightarrow> printable why \<and> length why < 96"
  using series_loop_reason check_loop_reason
  by (auto simp: request_line_def build_series_def check_keys_def split: if_splits sum.splits)

lemma err_reply: "reply text0 k l \<Longrightarrow> k = KV_ERR \<Longrightarrow> \<exists>s. err_line s l"
  by (induction rule: reply.induct) (auto simp: parse_line_iff(2))

lemma answer_reply_json:
  assumes "rs_cap resp \<ge> 512"
  shows "json_answer (answer_reply resp answer)"
proof -
  have err: "json_answer (set_error resp HTTP_STATUS_INTERNAL_ERROR ''internal'' why)" if "printable why" "length why < 96" for why
    by (rule set_error_answer) (use assms that in auto)
  have whys: "printable ''reply did not fit''" "printable ''malformed source reply''" "printable ''source sent a field named tag''"
    "printable ''response did not fit''" by simp_all
  show ?thesis
  proof (cases answer)
    case None
    then show ?thesis using err [OF whys(1)] by (simp add: answer_reply_def)
  next
    case (Some text0)
    obtain k fin where k: "kv_reply_check text0 = Some (k, fin)"
      using reply_loop_returns [of text0 empty_line] by (auto simp: kv_reply_check_def)
    consider "k = KV_OK" | l where "k = KV_ERR" "fin = Some l" "reply text0 KV_ERR l" | "k \<notin> {KV_OK, KV_ERR}"
      using reply_loop_inv [of text0 empty_line k fin] k unfolding kv_reply_check_def by blast
    then show ?thesis
    proof cases
      case 1
      let ?ls = "reply_records text0"
      have ok: "jval_ok (reply_json ?ls)" using jresult_ok [OF reply_calls_result reply_calls_ok] reply_records_wf by blast
      have "json_answer (resp\<lparr>rs_status := HTTP_STATUS_OK, rs_ctype := Some ''application/json'', rs_body := render (reply_json ?ls)\<rparr>)"
        using json_read_render [OF ok] by (auto simp: json_answer_def reply_json_def)
      then show ?thesis
        using err [OF whys(3)] err [OF whys(4)] Some k 1
        by (simp add: answer_reply_def records_to_json_calls Let_def)
    next
      case 2
      obtain s where "err_line s l" using err_reply [OF 2(3) refl] by blast
      then have "printable (err_code l)" "printable (err_reason l)" "length (err_code l) < 24" "length (err_reason l) < 96"
        using name_chars(4) [of "err_code l" 24] by (auto simp: err_line_def Let_def is_name_def)
      then have "json_answer (set_error resp (status_for_code (err_code l)) (err_code l) (err_reason l))"
        by (rule set_error_answer) (use assms in \<open>auto simp: status_for_code_def\<close>)
      then show ?thesis using Some k 2 by (simp add: answer_reply_def)
    next
      case 3
      then show ?thesis using err [OF whys(2)] Some k by (cases k) (simp_all add: answer_reply_def)
    qed
  qed
qed

lemma show_field_no_newline: "safe_value v \<Longrightarrow> k < 3 \<Longrightarrow> CHR 0x0A \<notin> set (show_field (series_field k v))"
proof -
  assume v: "safe_value v" and k: "k < 3"
  have "CHR 0x0A \<notin> set v" using v safe_char_facts(4) [of "CHR 0x0A"] by (auto simp: safe_value_def list_all_iff)
  moreover have "CHR 0x0A \<notin> set (series_keys ! k)" using k by (auto simp: series_keys_def nth_Cons' split: if_splits)
  ultimately show ?thesis by (simp add: show_field_def show_value_def series_field_def)
qed

lemma sorted_below: "sorted_wrt (<) ks \<Longrightarrow> \<forall>k \<in> set ks. k < n \<Longrightarrow> length ks \<le> n" for ks :: "nat list"
proof -
  assume s: "sorted_wrt (<) ks" and n: "\<forall>k \<in> set ks. k < n"
  have "distinct ks" using s strict_sorted_iff by blast
  then have "length ks = card (set ks)" by (rule distinct_card [symmetric])
  also have "\<dots> \<le> card {..<n}" by (rule card_mono) (use n in auto)
  finally show ?thesis by simp
qed

lemma line_safe_bounds:
  assumes "line_safe l"
  shows "CHR 0x0A \<notin> set l \<and> length l < ROUTE_LINE_MAX"
proof (cases "l \<in> {''status'', ''verdicts'', ''faults''}")
  case False
  then obtain vs where l: "l = ''series'' @ show_fields (map (\<lambda>(k, v). series_field k v) vs)"
      "sorted_wrt (<) (map fst vs)" "\<forall>(k, v) \<in> set vs. k < length series_keys \<and> safe_value v"
    using assms unfolding line_safe_def by blast
  have three: "length series_keys = 3" by (simp add: series_keys_def)
  have vs: "length vs \<le> 3" using sorted_below [OF l(2), of 3] l(3) three by fastforce
  have "CHR 0x0A \<notin> set (show_fields (map (\<lambda>(k, v). series_field k v) vs)) \<and>
      length (show_fields (map (\<lambda>(k, v). series_field k v) vs)) \<le> 32 * length vs"
    using l(3) unfolding three
  proof (induction vs)
    case (Cons kv vs)
    obtain k v where kv: "kv = (k, v)" by fastforce
    then have "CHR 0x0A \<notin> set (show_field (series_field k v))" "length (show_field (series_field k v)) \<le> 31"
      using Cons.prems show_field_no_newline [of v k] show_series_field [of v k] by auto
    then show ?case using Cons kv by (simp add: show_fields_Cons)
  qed (simp add: show_fields_def)
  then show ?thesis using l(1) vs by simp
qed auto

lemma found_api_cases: "found_api p < length api \<or> found_api p = length api"
  by (auto simp: found_api_def api_def)

section \<open>Properties of the routes\<close>

lemma route_api_json:
  assumes "take 5 (path req) = ''/api/''" and "rs_cap resp \<ge> 512"
  shows "json_answer (route_handle page_html source_query req resp)"
proof -
  have p: "path req \<noteq> ''/''" using assms(1) by auto
  have nf: "json_answer (set_error resp HTTP_STATUS_NOT_FOUND ''not_found'' ''no such route'')"
    by (rule set_error_answer) (use assms(2) in auto)
  have "json_answer (set_error resp HTTP_STATUS_BAD_REQUEST ''usage'' why)" if "request_line req (found_api (path req)) = Inl why" for why
    by (rule set_error_answer) (use assms(2) request_line_reason [OF that] in auto)
  then show ?thesis using nf p assms answer_reply_json
    by (auto simp: route_handle_def Let_def split: sum.split)
qed

text \<open>C33: Whatever the URL carries and whatever the source answers (a reply too long, a malformed
  one, a refusal, a reply that does not fit the response), a request under /api/ is answered with
  JSON: an object whose first member ok says whether the status is 200, and the status is one the
  header writer knows. The buffer has 49152 bytes in the server; 512 are enough for every refusal.\<close>

theorem route_api_answers_json:
  assumes "take 5 (path req) = ''/api/''" and "rs_cap resp \<ge> 512"
  shows "json_answer (route_handle page_html source_query req resp)"
  using assms by (rule route_api_json)

lemma route_api_answers_json_witness:
  "json_answer (route_handle [] (\<lambda>l n. Some ''x'') \<lparr>path = ''/api/status'', query = []\<rparr>
     \<lparr>rs_status = 500, rs_ctype = None, rs_body = [], rs_cap = 512\<rparr>)"
  by (rule route_api_answers_json) simp_all

text \<open>What the URL can make the routes send to the source: nothing but \<open>status\<close>, \<open>verdicts\<close>,
  \<open>faults\<close>, or \<open>series\<close> with at most one each of pid, from and to, in this order, whose values are 1
  to 24 letters, digits and \<open>:+.,_/-\<close>, in quotes or all digits. Two sources that agree on those lines
  make the handler answer alike on every request. Such a line holds no newline and fits the buffer
  it is built in.\<close>

theorem route_source_isolated:
  assumes "\<forall>l. line_safe l \<longrightarrow> src_a l ROUTE_REPLY_MAX = src_b l ROUTE_REPLY_MAX"
  shows "route_handle page_html src_a req resp = route_handle page_html src_b req resp \<and>
    (line_safe l \<longrightarrow> CHR 0x0A \<notin> set l \<and> length l < ROUTE_LINE_MAX)"
proof (intro conjI impI)
  show "CHR 0x0A \<notin> set l" "length l < ROUTE_LINE_MAX" if "line_safe l" using line_safe_bounds [OF that] by simp_all
  show "route_handle page_html src_a req resp = route_handle page_html src_b req resp"
  proof (cases "found_api (path req) < length api")
  case True
  have "answer_reply resp (src_a l ROUTE_REPLY_MAX) = answer_reply resp (src_b l ROUTE_REPLY_MAX)"
    if "request_line req (found_api (path req)) = Inr l" for l
    using assms request_line_safe [OF that True] by simp
  then show ?thesis by (simp add: route_handle_def Let_def split: sum.split)
next
  case False
  then have "found_api (path req) = length api" using found_api_cases by blast
  then show ?thesis by (simp add: route_handle_def Let_def)
  qed
qed

lemma route_source_isolated_witness:
  "route_handle [] (\<lambda>l n. None) \<lparr>path = ''/api/series'', query = ''pid=0C%0Aok''\<rparr>
     \<lparr>rs_status = 500, rs_ctype = None, rs_body = [], rs_cap = 64\<rparr> =
   route_handle [] (\<lambda>l n. if CHR 0x0A \<in> set l then Some l else None) \<lparr>path = ''/api/series'', query = ''pid=0C%0Aok''\<rparr>
     \<lparr>rs_status = 500, rs_ctype = None, rs_body = [], rs_cap = 64\<rparr> \<and>
   CHR 0x0A \<notin> set ''status''"
proof -
  have "\<forall>l. line_safe l \<longrightarrow> None = (if CHR 0x0A \<in> set l then Some l else None)" using line_safe_bounds by auto
  from route_source_isolated [where src_a = "\<lambda>l n. None" and src_b = "\<lambda>l n. if CHR 0x0A \<in> set l then Some l else None",
      OF this, of "[]" "\<lparr>path = ''/api/series'', query = ''pid=0C%0Aok''\<rparr>"
      "\<lparr>rs_status = 500, rs_ctype = None, rs_body = [], rs_cap = 64\<rparr>" "''status''"]
  show ?thesis by (simp add: line_safe_def)
qed

text \<open>C34: The records of the source arrive as they were sent: when the source answers the line of a
  route with the text of records (none with a field called tag) and an ok, and the document fits, the
  response is 200 and its body reads back as exactly those records, each field with the type the
  source gave it.\<close>

theorem route_answers_records:
  assumes "found_api (path req) < length api" and "take 5 (path req) = ''/api/''"
    and "request_line req (found_api (path req)) = Inr line"
    and "source_query line ROUTE_REPLY_MAX = Some (reply_text ls)"
    and "\<forall>l \<in> set ls. record_fits l \<and> kv_get l ''tag'' = None"
    and "length (render (reply_json ls)) < rs_cap resp"
  shows "rs_status (route_handle page_html source_query req resp) = HTTP_STATUS_OK \<and>
    json_read (rs_body (route_handle page_html source_query req resp)) = Some (reply_json ls)"
proof -
  have fits: "\<forall>l \<in> set ls. record_fits l" using assms(5) by blast
  have "kv_reply_check (reply_text ls) = Some (KV_OK, Some empty_line)"
    using reply_check_iff reply_text_ok [OF fits] by blast
  moreover have "records_to_json resp (reply_text ls) =
      Inr (resp\<lparr>rs_status := HTTP_STATUS_OK, rs_ctype := Some ''application/json'', rs_body := render (reply_json ls)\<rparr>)"
    using assms(5,6) by (simp add: records_to_json_calls reply_records_text [OF fits])
  moreover have "path req \<noteq> ''/''" using assms(2) by auto
  ultimately have "route_handle page_html source_query req resp =
      resp\<lparr>rs_status := HTTP_STATUS_OK, rs_ctype := Some ''application/json'', rs_body := render (reply_json ls)\<rparr>"
    using assms(1-4) by (simp add: route_handle_def answer_reply_def)
  moreover have "\<forall>l \<in> set ls. well_formed l" using fits by (auto simp: record_fits_def)
  then have "jval_ok (reply_json ls)" using jresult_ok [OF reply_calls_result reply_calls_ok] by blast
  ultimately show ?thesis using json_read_render by simp
qed

lemma route_answers_records_witness:
  "json_read (rs_body (route_handle [] (\<lambda>l n. Some (reply_text [\<lparr>tag = ''t'', flds = [\<lparr>key = ''n'', val = ''1'', ftype = KV_NUM\<rparr>],
        err_code = [], err_reason = []\<rparr>])) \<lparr>path = ''/api/faults'', query = []\<rparr>
      \<lparr>rs_status = 500, rs_ctype = None, rs_body = [], rs_cap = 64\<rparr>)) =
    Some (JObject [(''ok'', JBool True), (''records'', JArray [JObject [(''tag'', JString ''t''), (''n'', JNumber ''1'')]])])"
proof -
  let ?l = "\<lparr>tag = ''t'', flds = [\<lparr>key = ''n'', val = ''1'', ftype = KV_NUM\<rparr>], err_code = [], err_reason = []\<rparr>"
  let ?req = "\<lparr>path = ''/api/faults'', query = []\<rparr>"
  have l: "kv_parse_line ''t n=1'' = (KV_RECORD, ?l)" by code_simp
  have t: "line_text ?l = ''t n=1''" by (simp add: line_text_def show_fields_def show_field_def show_value_def)
  have f: "record_fits ?l" using parse_line_iff(1) [of "''t n=1''" ?l] l by (simp add: record_fits_def t)
  have a: "found_api (path ?req) < length api" "request_line ?req (found_api (path ?req)) = Inr ''faults''" by code_simp+
  have j: "reply_json [?l] = JObject [(''ok'', JBool True), (''records'', JArray [JObject [(''tag'', JString ''t''), (''n'', JNumber ''1'')]])]"
    by (simp add: reply_json_def record_json_def field_json_def)
  have r: "length (render (reply_json [?l])) < 64" unfolding j by code_simp
  show ?thesis
    using route_answers_records [OF a(1) _ a(2), of "\<lambda>l n. Some (reply_text [?l])" "[?l]"
        "\<lparr>rs_status = 500, rs_ctype = None, rs_body = [], rs_cap = 64\<rparr>" "[]"] f r
    by (simp add: j kv_get_def)
qed

section \<open>A window end with a leading zero\<close>

lemma series_line_parses:
  assumes "\<forall>(k, v) \<in> set vs. k < length series_keys \<and> safe_value v \<and>
      (k \<noteq> 0 \<and> list_all is_digit v \<longrightarrow> hd v \<noteq> CHR ''0'' \<or> v = ''0'')"
    and "sorted_wrt (<) (map fst vs)"
  shows "kv_parse_line (''series'' @ show_fields (map (\<lambda>(k, v). series_field k v) vs)) =
    (KV_RECORD, empty_line\<lparr>tag := ''series'', flds := map (\<lambda>(k, v). series_field k v) vs\<rparr>)"
proof -
  let ?l = "empty_line\<lparr>tag := ''series'', flds := map (\<lambda>(k, v). series_field k v) vs\<rparr>"
  let ?s = "''series'' @ show_fields (map (\<lambda>(k, v). series_field k v) vs)"
  have f: "\<forall>f \<in> set (flds ?l). field_ok f" using assms(1) series_field_ok by fastforce
  have inj: "inj_on (\<lambda>k. series_keys ! k) {..<3}" by (auto simp: inj_on_def series_keys_def nth_Cons' less_Suc_eq numeral_3_eq_3)
  have d: "distinct (map fst vs)" using assms(2) strict_sorted_iff by blast
  have sub: "set (map fst vs) \<subseteq> {..<3}" using assms(1) by (auto simp: series_keys_def)
  have "distinct (map ((!) series_keys) (map fst vs))" using d inj_on_subset [OF inj sub] by (simp add: distinct_map comp_inj_on)
  moreover have k: "map key (flds ?l) = map ((!) series_keys) (map fst vs)" by (auto simp: series_field_def)
  ultimately have "distinct (map key (flds ?l))" by metis
  moreover have three: "length vs \<le> 3" using sorted_below [OF assms(2), of 3] sub by auto
  ultimately have "record_line ?s ?l" using f
    by (simp add: record_line_def fields_ok_def empty_line_def is_name_def is_ident_def char_le_nat)
  moreover have "line_safe ?s" unfolding line_safe_def using assms by (intro disjI2 exI [of _ vs]) auto
  then have "length ?s \<le> KV_MAX_LINE" using line_safe_bounds [of ?s] by simp
  ultimately show ?thesis using record_line_parses by blast
qed

text \<open>A window end given as digits with a leading zero passes every check of the routes and becomes a
  bare value, which the grammar of the request line refuses: a URL the header allows is answered as a
  malformed request.\<close>

lemma series_leading_zero_refused:
  "build_series ''pid=0C&from=007'' ROUTE_LINE_MAX = Inr (''series pid='' @ [CHR 0x22] @ ''0C'' @ [CHR 0x22] @ '' from=007'') \<and>
   fst (kv_parse_line (''series pid='' @ [CHR 0x22] @ ''0C'' @ [CHR 0x22] @ '' from=007'')) = KV_BAD"
  by code_simp


end
