(* ===== verification/Server.thy ===== *)
theory Server
  imports Route_Answers
begin

text \<open>
  statusd's connection loop (\<open>src/interface/server.c\<close>, \<open>include/interface/server.h\<close>): one thread, one request per
  connection, four slots. The network is a record with the results of the calls still to come, one list
  per call; when a list runs out the call would block. Besides the results it keeps what a proof needs to
  know of the past: the descriptors open (each number is given out once), the bytes received and sent on
  each, and when each was accepted. A server's handler is a function of its state, the request and the
  preset response; nothing is assumed of what it returns. The clock is an argument of every round.
  A C string holds no NUL, and log lines are left out.
\<close>

section \<open>The network\<close>

text \<open>What a call on a socket can do. A reception of no bytes is the end of the stream; a result of
  \<open>send\<close> counts the bytes taken.\<close>

datatype recv_result = Received string | Recv_Again | Recv_Intr | Recv_Error
datatype send_result = Sent nat | Send_Again | Send_Intr | Send_Error
datatype accept_result = Accepted | Accept_Again | Accept_Retry | Accept_Error
datatype revents = Ev_None | Ev_Ready | Ev_Error
datatype poll_result = Poll_Intr | Poll_Error | Poll_Ready "revents list"

record net =
  n_recv :: "recv_result list"
  n_send :: "send_result list"
  n_accept :: "accept_result list"
  n_fresh :: nat
  n_open :: "nat list"
  n_got :: "(nat \<times> string) list"
  n_sent :: "(nat \<times> string) list"
  n_since :: "(nat \<times> u64) list"

definition sys_recv :: "nat \<Rightarrow> nat \<Rightarrow> net \<Rightarrow> recv_result \<times> net" where
  "sys_recv fd room w =
     (case n_recv w of
        [] \<Rightarrow> (Recv_Again, w)
      | Received d # rs \<Rightarrow>
          (Received (take room d), w\<lparr>n_recv := rs, n_got := n_got w @ [(fd, take room d)]\<rparr>)
      | r # rs \<Rightarrow> (r, w\<lparr>n_recv := rs\<rparr>))"

text \<open>\<open>send\<close> of the bytes given: it may take fewer.\<close>

definition sys_send :: "nat \<Rightarrow> string \<Rightarrow> net \<Rightarrow> send_result \<times> net" where
  "sys_send fd bytes w =
     (case n_send w of
        [] \<Rightarrow> (Send_Again, w)
      | Sent k # rs \<Rightarrow>
          (Sent (length (take k bytes)), w\<lparr>n_send := rs, n_sent := n_sent w @ [(fd, take k bytes)]\<rparr>)
      | r # rs \<Rightarrow> (r, w\<lparr>n_send := rs\<rparr>))"

definition sys_close :: "nat \<Rightarrow> net \<Rightarrow> net" where
  "sys_close fd w = w\<lparr>n_open := remove1 fd (n_open w)\<rparr>"

section \<open>State\<close>

abbreviation (input) SERVER_MAX_CONNS :: nat where "SERVER_MAX_CONNS \<equiv> 4"
abbreviation (input) SERVER_HEAD_MAX :: nat where "SERVER_HEAD_MAX \<equiv> 256"
abbreviation (input) SERVER_BODY_MAX :: nat where "SERVER_BODY_MAX \<equiv> 49152"
abbreviation (input) SERVER_DEADLINE_MS :: u64 where "SERVER_DEADLINE_MS \<equiv> 5000"
abbreviation (input) SERVER_ACCEPT_PAUSE_MS :: u64 where "SERVER_ACCEPT_PAUSE_MS \<equiv> 100"
abbreviation (input) ACCEPTS_PER_STEP :: nat where "ACCEPTS_PER_STEP \<equiv> 16"
abbreviation (input) DRAIN_MAX :: nat where "DRAIN_MAX \<equiv> 65536"
abbreviation (input) BUSY_LOG_EVERY_MS :: u64 where "BUSY_LOG_EVERY_MS \<equiv> 1000"

datatype conn_state = CONN_FREE | CONN_READING | CONN_WRITING

record server_conn =
  c_fd :: "nat option"
  c_state :: conn_state
  c_deadline_ms :: u64
  c_req :: string
  c_out_pos :: nat
  c_out_end :: nat
  c_buf :: string

record 'h server =
  s_listen :: "nat option"
  s_port :: u16
  s_ctx :: 'h
  s_accept_resume_ms :: u64
  s_last_busy_log_ms :: u64
  s_served :: u64
  s_drops :: u64
  s_timeouts :: u64
  s_conns :: "server_conn list"

type_synonym 'h handler = "'h \<Rightarrow> http_request \<Rightarrow> server_response \<Rightarrow> server_response \<times> 'h"

definition mono_ms :: "(u64 \<times> u64) option \<Rightarrow> u64" where
  "mono_ms ts = (case ts of None \<Rightarrow> 0 | Some (tv_sec, tv_nsec) \<Rightarrow> tv_sec * 1000 + tv_nsec div 1000000)"

definition internal_error_body :: string where
  "internal_error_body = ''internal error'' @ [CHR 0x0A]"

text \<open>\<open>memcpy\<close> into a buffer at a position.\<close>

definition splice_at :: "nat \<Rightarrow> string \<Rightarrow> string \<Rightarrow> string" where
  "splice_at i s buf = take i buf @ s @ drop (i + length s) buf"

section \<open>Open and close\<close>

text \<open>The outcomes of the calls of \<open>server_open\<close>, in order: whether the address is one, the socket,
  and whether setting the option, binding and listening worked; then the port.\<close>

record open_calls =
  k_pton :: bool
  k_socket :: bool
  k_sockopt :: bool
  k_bind :: bool
  k_listen :: bool
  k_name :: "u16 option"

definition zero_conn :: server_conn where
  "zero_conn = \<lparr>c_fd = None, c_state = CONN_FREE, c_deadline_ms = 0, c_req = [], c_out_pos = 0, c_out_end = 0,
     c_buf = replicate (SERVER_HEAD_MAX + SERVER_BODY_MAX) CHR 0x00\<rparr>"

definition zero_server :: "'h \<Rightarrow> 'h server" where
  "zero_server ctx =
     \<lparr>s_listen = None, s_port = 0, s_ctx = ctx, s_accept_resume_ms = 0, s_last_busy_log_ms = 0, s_served = 0,
      s_drops = 0, s_timeouts = 0, s_conns = replicate SERVER_MAX_CONNS zero_conn\<rparr>"

definition server_open :: "open_calls \<Rightarrow> 'h \<Rightarrow> net \<Rightarrow> bool \<times> 'h server \<times> net" where
  "server_open k ctx w =
     (let s = zero_server ctx
      in if \<not> k_pton k then (False, s, w)
         else if \<not> k_socket k then (False, s, w)
         else let fd = n_fresh w;
                  w1 = w\<lparr>n_fresh := fd + 1, n_open := fd # n_open w\<rparr>;
                  failed0 = (False, s, sys_close fd w1)
              in if \<not> k_sockopt k then failed0
                 else if \<not> k_bind k then failed0
                 else if \<not> k_listen k then failed0
                 else case k_name k of
                     None \<Rightarrow> failed0
                   | Some port \<Rightarrow> (True, s\<lparr>s_listen := Some fd, s_port := port\<rparr>, w1))"

definition close_conn :: "server_conn \<Rightarrow> net \<Rightarrow> server_conn \<times> net" where
  "close_conn c w =
     (c\<lparr>c_fd := None, c_state := CONN_FREE, c_req := []\<rparr>,
      case c_fd c of None \<Rightarrow> w | Some fd \<Rightarrow> sys_close fd w)"

fun close_all :: "server_conn list \<Rightarrow> net \<Rightarrow> server_conn list \<times> net" where
  "close_all [] w = ([], w)"
| "close_all (c # cs) w =
     (let (c', w1) = (if c_state c \<noteq> CONN_FREE then close_conn c w else (c, w));
          (cs', w2) = close_all cs w1
      in (c' # cs', w2))"

definition server_close :: "'h server \<Rightarrow> net \<Rightarrow> 'h server \<times> net" where
  "server_close s w =
     (let (cs, w1) = close_all (s_conns s) w; s1 = s\<lparr>s_conns := cs\<rparr>
      in case s_listen s1 of None \<Rightarrow> (s1, w1) | Some fd \<Rightarrow> (s1\<lparr>s_listen := None\<rparr>, sys_close fd w1))"

definition server_port :: "'h server \<Rightarrow> u16" where "server_port s = s_port s"
definition server_served :: "'h server \<Rightarrow> u64" where "server_served s = s_served s"
definition server_drops :: "'h server \<Rightarrow> u64" where "server_drops s = s_drops s"
definition server_timeouts :: "'h server \<Rightarrow> u64" where "server_timeouts s = s_timeouts s"

section \<open>Writing\<close>

definition finish :: "server_conn \<Rightarrow> int \<Rightarrow> string option \<Rightarrow> nat \<Rightarrow> server_conn option" where
  "finish c status ctype body_len =
     (case http_write_head SERVER_HEAD_MAX status ctype (of_nat body_len) of
        None \<Rightarrow> None
      | Some head \<Rightarrow>
          let pos = SERVER_HEAD_MAX - length head
          in Some (c\<lparr>c_out_pos := pos, c_buf := splice_at pos head (c_buf c), c_out_end := SERVER_HEAD_MAX + body_len\<rparr>))"

function drain_fd :: "nat \<Rightarrow> nat \<Rightarrow> net \<Rightarrow> net" where
  "drain_fd fd got w =
     (if got < DRAIN_MAX then
        (case sys_recv fd 1024 w of
           (Received d, w1) \<Rightarrow> if d = [] then w1 else drain_fd fd (got + length d) w1
         | (_, w1) \<Rightarrow> w1)
      else w)"
  by pat_completeness auto
termination
  by (relation "measure (\<lambda>(fd, got, w). DRAIN_MAX - got)") (auto intro!: diff_less_mono2)

declare drain_fd.simps [simp del]

text \<open>The connection is taken out of the table and put back by the caller. Every turn of the loop makes
  one call of \<open>send\<close>, and one that would block ends it.\<close>

function conn_write :: "'h server \<Rightarrow> server_conn \<Rightarrow> net \<Rightarrow> 'h server \<times> server_conn \<times> net" where
  "conn_write s c w =
     (if c_out_pos c < c_out_end c then
        (case sys_send (the (c_fd c)) (take (c_out_end c - c_out_pos c) (drop (c_out_pos c) (c_buf c))) w of
           (Sent n, w1) \<Rightarrow>
             if n > 0 then conn_write s (c\<lparr>c_out_pos := c_out_pos c + n\<rparr>) w1 else (s, close_conn c w1)
         | (Send_Intr, w1) \<Rightarrow> conn_write s c w1
         | (Send_Again, w1) \<Rightarrow> (s, c, w1)
         | (Send_Error, w1) \<Rightarrow> (s, close_conn c w1))
      else (s\<lparr>s_served := s_served s + 1\<rparr>, close_conn c (drain_fd (the (c_fd c)) 0 w)))"
  by pat_completeness auto
termination
  by (relation "measure (\<lambda>(s, c, w). length (n_send w))")
     (auto simp: sys_send_def split: list.splits send_result.splits)

declare conn_write.simps [simp del]

definition begin_write :: "'h server \<Rightarrow> server_conn \<Rightarrow> u64 \<Rightarrow> net \<Rightarrow> 'h server \<times> server_conn \<times> net" where
  "begin_write s c now w =
     conn_write s (c\<lparr>c_state := CONN_WRITING, c_deadline_ms := now + SERVER_DEADLINE_MS\<rparr>) w"

definition fail_500 :: "server_conn \<Rightarrow> server_conn" where
  "fail_500 c =
     (let c1 = c\<lparr>c_buf := splice_at SERVER_HEAD_MAX internal_error_body (c_buf c)\<rparr>
      in case finish c1 HTTP_STATUS_INTERNAL_ERROR (Some ''text/plain'') (length internal_error_body) of
           None \<Rightarrow> c1 | Some c2 \<Rightarrow> c2)"

fun refusal_text :: "http_parse \<Rightarrow> string" where
  "refusal_text HTTP_BAD_METHOD = ''method not allowed'' @ [CHR 0x0A]"
| "refusal_text HTTP_TOO_LARGE = ''request headers too large'' @ [CHR 0x0A]"
| "refusal_text _ = ''bad request'' @ [CHR 0x0A]"

definition respond_error :: "'h server \<Rightarrow> server_conn \<Rightarrow> http_parse \<Rightarrow> u64 \<Rightarrow> net \<Rightarrow> 'h server \<times> server_conn \<times> net" where
  "respond_error s c refusal now w =
     (let text0 = refusal_text refusal;
          c1 = c\<lparr>c_buf := splice_at SERVER_HEAD_MAX text0 (c_buf c)\<rparr>;
          c2 = (case finish c1 (http_parse_val refusal) (Some ''text/plain'') (length text0) of
                  None \<Rightarrow> fail_500 c1 | Some c2 \<Rightarrow> c2)
      in begin_write s c2 now w)"

definition ctype_ok :: "string option \<Rightarrow> bool" where
  "ctype_ok ctype =
     (case ctype of None \<Rightarrow> False | Some t \<Rightarrow> list_all (\<lambda>c. \<not> ((of_char c :: nat) < 0x20 \<or> (of_char c :: nat) = 0x7F)) t)"

text \<open>The handler fills the body area of the connection's own buffer and says how long the body is;
  it is not trusted to say no more than the area holds.\<close>

definition dispatch :: "'h handler \<Rightarrow> 'h server \<Rightarrow> server_conn \<Rightarrow> http_request \<Rightarrow> u64 \<Rightarrow> net \<Rightarrow> 'h server \<times> server_conn \<times> net" where
  "dispatch handler s c req now w =
     (let (r, ctx) = handler (s_ctx s) req
            \<lparr>rs_status = HTTP_STATUS_INTERNAL_ERROR, rs_ctype = Some ''text/plain'', rs_body = [], rs_cap = SERVER_BODY_MAX\<rparr>;
          body_len = length (rs_body r);
          c1 = c\<lparr>c_buf := splice_at SERVER_HEAD_MAX (take SERVER_BODY_MAX (rs_body r)) (c_buf c)\<rparr>;
          c2 = (if body_len > SERVER_BODY_MAX \<or> \<not> ctype_ok (rs_ctype r) then fail_500 c1
                else case finish c1 (rs_status r) (rs_ctype r) body_len of None \<Rightarrow> fail_500 c1 | Some c2 \<Rightarrow> c2)
      in begin_write (s\<lparr>s_ctx := ctx\<rparr>) c2 now w)"

section \<open>Reading\<close>

definition conn_read :: "'h handler \<Rightarrow> 'h server \<Rightarrow> server_conn \<Rightarrow> u64 \<Rightarrow> net \<Rightarrow> 'h server \<times> server_conn \<times> net" where
  "conn_read handler s c now w =
     (let room = HTTP_MAX_REQUEST - length (c_req c)
      in if room = 0 then respond_error s c HTTP_TOO_LARGE now w
         else case sys_recv (the (c_fd c)) room w of
             (Recv_Again, w1) \<Rightarrow> (s, c, w1)
           | (Recv_Intr, w1) \<Rightarrow> (s, c, w1)
           | (Recv_Error, w1) \<Rightarrow> (s, close_conn c w1)
           | (Received d, w1) \<Rightarrow>
               if d = [] then (s, close_conn c w1)
               else let c1 = c\<lparr>c_req := c_req c @ d\<rparr>
                    in case http_parse_request (c_req c1) of
                         (HTTP_INCOMPLETE, _) \<Rightarrow> (s, c1, w1)
                       | (HTTP_OK, Some req) \<Rightarrow> dispatch handler s c1 req now w1
                       | (p, _) \<Rightarrow> respond_error s c1 p now w1)"

section \<open>The loop\<close>

definition free_slot :: "'h server \<Rightarrow> nat option" where
  "free_slot s = find (\<lambda>i. c_state (s_conns s ! i) = CONN_FREE) [0..<length (s_conns s)]"

definition put_conn :: "nat \<Rightarrow> 'h server \<times> server_conn \<times> net \<Rightarrow> 'h server \<times> net" where
  "put_conn i res = (case res of (s, c, w) \<Rightarrow> (s\<lparr>s_conns := (s_conns s)[i := c]\<rparr>, w))"

fun accept_new :: "'h handler \<Rightarrow> nat \<Rightarrow> 'h server \<Rightarrow> u64 \<Rightarrow> net \<Rightarrow> 'h server \<times> net" where
  "accept_new handler 0 s now w = (s, w)"
| "accept_new handler (Suc left) s now w =
     (case n_accept w of
        [] \<Rightarrow> (s, w)
      | Accept_Again # as \<Rightarrow> (s, w\<lparr>n_accept := as\<rparr>)
      | Accept_Retry # as \<Rightarrow> accept_new handler left s now (w\<lparr>n_accept := as\<rparr>)
      | Accept_Error # as \<Rightarrow> (s\<lparr>s_accept_resume_ms := now + SERVER_ACCEPT_PAUSE_MS\<rparr>, w\<lparr>n_accept := as\<rparr>)
      | Accepted # as \<Rightarrow>
          let fd = n_fresh w;
              w1 = w\<lparr>n_accept := as, n_fresh := fd + 1, n_open := fd # n_open w, n_since := (fd, now) # n_since w\<rparr>
          in case free_slot s of
               None \<Rightarrow>
                 let s1 = s\<lparr>s_drops := s_drops s + 1\<rparr>;
                     s2 = (if s_drops s1 = 1 \<or> now \<ge> s_last_busy_log_ms s1 + BUSY_LOG_EVERY_MS
                           then s1\<lparr>s_last_busy_log_ms := now\<rparr> else s1)
                 in accept_new handler left s2 now (sys_close fd w1)
             | Some i \<Rightarrow>
                 let c = (s_conns s ! i)\<lparr>c_fd := Some fd, c_state := CONN_READING,
                            c_deadline_ms := now + SERVER_DEADLINE_MS, c_req := []\<rparr>;
                     (s1, w2) = put_conn i (conn_read handler s c now w1)
                 in accept_new handler left s1 now w2)"

fun reap_from :: "u64 \<Rightarrow> server_conn list \<Rightarrow> u64 \<Rightarrow> net \<Rightarrow> server_conn list \<times> u64 \<times> net" where
  "reap_from now [] n w = ([], n, w)"
| "reap_from now (c # cs) n w =
     (if c_state c = CONN_FREE \<or> now < c_deadline_ms c
      then let (cs', n', w') = reap_from now cs n w in (c # cs', n', w')
      else let (c', w1) = close_conn c w; (cs', n', w') = reap_from now cs (n + 1) w1 in (c' # cs', n', w'))"

definition reap :: "'h server \<Rightarrow> u64 \<Rightarrow> net \<Rightarrow> 'h server \<times> net" where
  "reap s now w =
     (case reap_from now (s_conns s) (s_timeouts s) w of
        (cs, n, w1) \<Rightarrow> (s\<lparr>s_conns := cs, s_timeouts := n\<rparr>, w1))"

text \<open>What is polled, \<open>None\<close> for the listener, and for how long.\<close>

definition poll_set :: "'h server \<Rightarrow> u64 \<Rightarrow> u64 \<Rightarrow> nat option list \<times> u64" where
  "poll_set s now wait0 =
     (let busy = filter (\<lambda>i. c_state (s_conns s ! i) \<noteq> CONN_FREE) [0..<length (s_conns s)];
          listening = now \<ge> s_accept_resume_ms s;
          wait1 = (if \<not> listening \<and> s_accept_resume_ms s - now < wait0 then s_accept_resume_ms s - now else wait0);
          left = (\<lambda>i. let d = c_deadline_ms (s_conns s ! i) in if d > now then d - now else 0);
          wait2 = fold (\<lambda>i wait. if left i < wait then left i else wait) busy wait1
      in ((if listening then [None] else []) @ map Some busy, wait2))"

text \<open>The events of a round, in the order of the poll set. A slot reaped and taken again by \<open>accept_new\<close> in the same
  round gets the event of its predecessor: one more attempt to read, which does not block.\<close>

fun handle_events :: "'h handler \<Rightarrow> u64 \<Rightarrow> (nat option \<times> revents) list \<Rightarrow> int \<Rightarrow> 'h server \<Rightarrow> net \<Rightarrow> int \<times> 'h server \<times> net" where
  "handle_events handler now [] handled s w = (handled, s, w)"
| "handle_events handler now ((who, ev) # es) handled s w =
     (if ev = Ev_None then handle_events handler now es handled s w
      else case who of
          None \<Rightarrow>
            if ev = Ev_Error then (-1, s, w)
            else let (s1, w1) = accept_new handler ACCEPTS_PER_STEP s now w
                 in handle_events handler now es (handled + 1) s1 w1
        | Some i \<Rightarrow>
            let c = s_conns s ! i
            in if c_state c = CONN_FREE then handle_events handler now es handled s w
               else let (s1, w1) = put_conn i (if c_state c = CONN_READING then conn_read handler s c now w
                                               else conn_write s c w)
                    in handle_events handler now es (handled + 1) s1 w1)"

text \<open>\<open>poll\<close> is the system call: what is polled and the longest wait give its result; \<open>now0\<close> and
  \<open>now1\<close> are the clock before and after it.\<close>

definition server_step :: "'h handler \<Rightarrow> (nat option list \<Rightarrow> u64 \<Rightarrow> poll_result) \<Rightarrow> u64 \<Rightarrow> u64 \<Rightarrow> int \<Rightarrow> 'h server \<Rightarrow> net \<Rightarrow> int \<times> 'h server \<times> net" where
  "server_step handler poll now0 now1 max_wait_ms s w =
     (if s_listen s = None then (-1, s, w)
      else let (who, wait) = poll_set s now0 (if max_wait_ms > 0 then word_of_int max_wait_ms else 0)
           in case poll who wait of
                Poll_Intr \<Rightarrow> (0, s, w)
              | Poll_Error \<Rightarrow> (-1, s, w)
              | Poll_Ready evs \<Rightarrow>
                  let (s1, w1) = reap s now1 w in handle_events handler now1 (zip who evs) 0 s1 w1)"


end
