(* ===== verification/Http_Safety.thy ===== *)
theory Http_Safety
  imports Http Json_Text
begin

text \<open>
  What the HTTP layer guarantees: the check of the path is exactly that the decoded path has no
  \<open>..\<close> segment and no refused byte (\<open>unsafe_loop_iff\<close>, \<open>path_unsafe_iff\<close>), an accepted request is a
  well-formed GET (\<open>parse_target_ok\<close>, \<open>parse_line_ok\<close>), further bytes do not change an answer
  (\<open>parse_request_stable\<close>), and percent-encoded values read back (\<open>decode_pct\<close>, \<open>query_get_text\<close>).
\<close>

section \<open>Path safety\<close>

text \<open>A byte that no path should carry, and a \<open>..\<close> segment at a position.\<close>

definition bad_path_char :: "char \<Rightarrow> bool" where
  "bad_path_char c \<longleftrightarrow> (of_char c :: nat) < 0x20 \<or> (of_char c :: nat) = 0x7F \<or> c = CHR 0x5C"

definition dotdot_at :: "string \<Rightarrow> nat \<Rightarrow> bool" where
  "dotdot_at dec a \<longleftrightarrow> a + 2 \<le> length dec \<and> dec ! a = CHR ''.'' \<and> dec ! (a + 1) = CHR ''.'' \<and>
     (a = 0 \<or> dec ! (a - 1) = CHR ''/'') \<and> (a + 2 = length dec \<or> dec ! (a + 2) = CHR ''/'')"

text \<open>A \<open>..\<close> that begins where the current segment begins ends where the segment ends.\<close>

lemma dotdot_segment:
  assumes "dotdot_at dec a" and "seg \<le> a" and "a \<le> i" and "seg \<le> i" and "\<forall>j. seg \<le> j \<and> j < i \<longrightarrow> dec ! j \<noteq> CHR ''/''"
    and "i = length dec \<or> dec ! i = CHR ''/''" and "i \<le> length dec"
  shows "a = seg \<and> i - seg = 2"
proof -
  have "a = seg"
  proof (rule ccontr)
    assume "a \<noteq> seg"
    then have "dec ! (a - 1) = CHR ''/''" "seg \<le> a - 1" "a - 1 < i" using assms(1-3) by (auto simp: dotdot_at_def)
    then show False using assms(5) by blast
  qed
  moreover have "i \<noteq> a" "i \<noteq> a + 1" using assms(1,6) by (auto simp: dotdot_at_def)
  moreover have "\<not> a + 2 < i"
  proof
    assume i: "a + 2 < i"
    then have "dec ! (a + 2) \<noteq> CHR ''/''" using assms(2,5) by auto
    then have "a + 2 = length dec" using assms(1) by (simp add: dotdot_at_def)
    then show False using assms(7) i by simp
  qed
  ultimately show ?thesis using assms(3) by linarith
qed

lemma unsafe_loop_iff:
  assumes "seg \<le> i" and "i \<le> length dec + 1" and "\<forall>j. seg \<le> j \<and> j < i \<longrightarrow> dec ! j \<noteq> CHR ''/''"
    and "i \<le> length dec \<or> seg = i"
    and "seg = 0 \<or> seg = length dec + 1 \<or> dec ! (seg - 1) = CHR ''/''"
  shows "unsafe_loop dec i seg \<longleftrightarrow>
    (\<exists>j. i \<le> j \<and> j < length dec \<and> bad_path_char (dec ! j)) \<or> (\<exists>a. seg \<le> a \<and> dotdot_at dec a)"
  using assms
proof (induction dec i seg rule: unsafe_loop.induct)
  case (1 dec i seg)
  note IH = "1.IH" [OF _ refl refl refl]
  let ?c = "(dec @ [CHR 0x00]) ! i"
  show ?case
  proof (cases "i \<le> length dec")
    case False
    then show ?thesis using "1.prems" by (subst unsafe_loop.simps) (auto simp: dotdot_at_def)
  next
    case le: True
    show ?thesis
    proof (cases "i < length dec \<and> bad_path_char (dec ! i)")
      case True
      then show ?thesis using le by (subst unsafe_loop.simps) (auto simp: Let_def nth_append bad_path_char_def)
    next
      case good: False
      have j: "(\<exists>j. i \<le> j \<and> j < length dec \<and> bad_path_char (dec ! j)) \<longleftrightarrow>
          (\<exists>j. i + 1 \<le> j \<and> j < length dec \<and> bad_path_char (dec ! j))"
        using good by (metis Suc_eq_plus1 Suc_leI le_eq_less_or_eq le_SucI Suc_leD)
      have unbad: "\<not> (i < length dec \<and> ((of_char ?c :: nat) < 0x20 \<or> (of_char ?c :: nat) = 0x7F \<or> ?c = CHR 0x5C))"
        using good by (auto simp: nth_append bad_path_char_def)
      show ?thesis
      proof (cases "i = length dec \<or> ?c = CHR ''/''")
        case seg_end: True
        then have end': "i = length dec \<or> dec ! i = CHR ''/''" using le by (auto simp: nth_append split: if_splits)
        show ?thesis
        proof (cases "i - seg = 2 \<and> dec ! seg = CHR ''.'' \<and> dec ! (seg + 1) = CHR ''.''")
          case True
          then have "i = seg + 2" using "1.prems"(1) by linarith
          then have "dotdot_at dec seg" using True "1.prems" end' le by (auto simp: dotdot_at_def)
          moreover have "unsafe_loop dec i seg" using True seg_end unbad le by (subst unsafe_loop.simps) (simp add: Let_def)
          ultimately show ?thesis by auto
        next
          case no: False
          have "unsafe_loop dec i seg = unsafe_loop dec (i + 1) (i + 1)"
            using no seg_end unbad le by (subst unsafe_loop.simps) (auto simp: Let_def)
          also have "\<dots> \<longleftrightarrow> (\<exists>j. i + 1 \<le> j \<and> j < length dec \<and> bad_path_char (dec ! j)) \<or> (\<exists>a. i + 1 \<le> a \<and> dotdot_at dec a)"
            by (rule IH(1)) (use le unbad seg_end no end' in auto)
          also have "(\<exists>a. i + 1 \<le> a \<and> dotdot_at dec a) \<longleftrightarrow> (\<exists>a. seg \<le> a \<and> dotdot_at dec a)"
            using dotdot_segment [OF _ _ _ "1.prems"(1,3) end' le] no "1.prems"(1)
            by (metis Suc_eq_plus1 dotdot_at_def dual_order.trans le_SucI not_less_eq_eq)
          finally show ?thesis unfolding j .
        qed
      next
        case mid: False
        have "unsafe_loop dec i seg = unsafe_loop dec (i + 1) seg"
          using mid unbad le by (subst unsafe_loop.simps) (auto simp: Let_def)
        also have "\<dots> \<longleftrightarrow> (\<exists>j. i + 1 \<le> j \<and> j < length dec \<and> bad_path_char (dec ! j)) \<or> (\<exists>a. seg \<le> a \<and> dotdot_at dec a)"
          by (rule IH(2)) (use le unbad mid "1.prems" in \<open>auto simp: nth_append less_Suc_eq\<close>)
        finally show ?thesis unfolding j .
      qed
    qed
  qed
qed

lemma path_unsafe_iff:
  "path_is_unsafe p \<longleftrightarrow>
     (case decode p HTTP_PATH_MAX False of
        None \<Rightarrow> True
      | Some dec \<Rightarrow> (\<exists>c \<in> set dec. bad_path_char c) \<or> (\<exists>a. dotdot_at dec a))"
  using unsafe_loop_iff [of 0 0] by (simp add: path_is_unsafe_def Bex_def in_set_conv_nth split: option.split) blast

lemma parse_target_ok:
  assumes "parse_target target = (HTTP_OK, Some req)"
  shows "hd (path req) = CHR ''/'' \<and> path req \<noteq> [] \<and> length (path req) < HTTP_PATH_MAX \<and> length (query req) < HTTP_QUERY_MAX \<and>
    CHR ''?'' \<notin> set (path req) \<and> \<not> path_is_unsafe (path req) \<and>
    (\<forall>c \<in> set (path req @ query req). 0x20 < (of_char c :: nat) \<and> (of_char c :: nat) < 0x7F) \<and>
    (target = path req \<or> target = path req @ ''?'' @ query req)"
proof -
  define n where "n = (case memchr CHR ''?'' target of Some i \<Rightarrow> i | None \<Rightarrow> length target)"
  define m where "m = (case memchr CHR ''?'' target of Some i \<Rightarrow> length target - n - 1 | None \<Rightarrow> 0)"
  have p: "target \<noteq> []" "hd target = CHR ''/''"
      "\<forall>c \<in> set target. 0x20 < (of_char c :: nat) \<and> (of_char c :: nat) < 0x7F"
      "n < HTTP_PATH_MAX" "m < HTTP_QUERY_MAX" "\<not> path_is_unsafe (take n target)"
      "req = \<lparr>path = take n target, query = take m (drop (n + 1) target)\<rparr>"
    using assms unfolding parse_target_def n_def m_def
    by (auto simp: Let_def hd_conv_nth list_ex_iff not_le not_less split: if_splits)
  show ?thesis
  proof (cases "memchr CHR ''?'' target")
    case None
    have "n = length target" "m = 0" by (simp_all only: n_def m_def None option.case)
    moreover have "CHR ''?'' \<notin> set target" using None by simp
    ultimately show ?thesis using p by auto
  next
    case (Some i)
    then have nm: "n = i" "m = length target - i - 1" by (simp_all add: n_def m_def)
    note s = memchr_split [OF Some]
    have "i \<noteq> 0" using Some p(1,2) by (cases target; cases i) (auto simp: memchr_Some)
    then have "take i target \<noteq> []" "hd (take i target) = CHR ''/''" using p(1,2) by (simp_all add: hd_take)
    then show ?thesis using p nm s by (auto dest: in_set_takeD in_set_dropD)
  qed
qed

lemma parse_line_ok:
  assumes "parse_request_line line = (HTTP_OK, Some req)"
  shows "\<exists>target ver. line = ''GET '' @ target @ '' '' @ ver \<and> ver \<in> {''HTTP/1.1'', ''HTTP/1.0''} \<and>
    parse_target target = (HTTP_OK, Some req)"
proof -
  obtain sp1 where s1: "memchr CHR '' '' line = Some sp1" "take sp1 line = ''GET''"
    using assms by (auto simp: parse_request_line_def split: if_splits option.splits)
  define target where "target = drop (sp1 + 1) line"
  obtain n where n: "memchr CHR '' '' target = Some n" "drop (n + 1) target \<in> {''HTTP/1.1'', ''HTTP/1.0''}"
      "parse_target (take n target) = (HTTP_OK, Some req)"
    using assms s1 by (auto simp: parse_request_line_def target_def Let_def split: if_splits option.splits)
  have "line = ''GET '' @ target" using memchr_split(1) [OF s1(1)] s1(2) by (simp add: target_def)
  also have "target = take n target @ '' '' @ drop (n + 1) target" using memchr_split(1) [OF n(1)] by simp
  finally show ?thesis using n(2,3) by blast
qed

section \<open>More bytes do not change an answer\<close>

lemma line_end_found: "memmem buf (crlf @ crlf) = Some e \<Longrightarrow> \<exists>n. memmem (take (e + 4) buf) crlf = Some n"
proof -
  assume e: "memmem buf (crlf @ crlf) = Some e"
  have "memmem (take (e + 4) buf) crlf \<noteq> None"
  proof (rule memmem_found [of _ e])
    have "take (length crlf) (take (length (crlf @ crlf)) (drop e buf)) = crlf" using memmem_bound [OF e] by simp
    then show "take (length crlf) (drop e (take (e + 4) buf)) = crlf" by (simp add: drop_take)
  qed (use memmem_bound [OF e] in simp)
  then show ?thesis by blast
qed

lemma parse_incomplete_short:
  assumes "fst (http_parse_request buf) = HTTP_INCOMPLETE"
  shows "length buf < HTTP_MAX_REQUEST"
proof -
  have "fst (parse_target t) \<noteq> HTTP_INCOMPLETE" for t by (simp add: parse_target_def Let_def)
  then have "fst (parse_request_line l) \<noteq> HTTP_INCOMPLETE" for l
    by (simp add: parse_request_line_def Let_def split: option.splits)
  then show ?thesis using assms by (auto simp: http_parse_request_def Let_def split: option.splits if_splits)
qed

lemma parse_target_some: "fst (parse_target t) = HTTP_OK \<Longrightarrow> snd (parse_target t) \<noteq> None"
  by (auto simp: parse_target_def Let_def split: if_splits)

lemma parse_request_some:
  assumes "http_parse_request buf = (p, q)" and "p \<noteq> HTTP_INCOMPLETE"
  shows "(\<exists>req. p = HTTP_OK \<and> q = Some req) \<or> p \<in> {HTTP_BAD, HTTP_BAD_METHOD, HTTP_TOO_LARGE}"
proof -
  have "fst (parse_request_line l) = HTTP_OK \<Longrightarrow> snd (parse_request_line l) \<noteq> None" for l
    using parse_target_some by (auto simp: parse_request_line_def Let_def simp del: memchr_None split: option.splits if_splits)
  then have "parse_request_line l = (HTTP_OK, q) \<Longrightarrow> q \<noteq> None" for l by (metis fst_conv snd_conv)
  then have "p = HTTP_OK \<Longrightarrow> q \<noteq> None"
    using assms(1) by (auto simp: http_parse_request_def Let_def split: option.splits if_splits)
  then show ?thesis using assms(2) by (cases p) auto
qed

lemma parse_request_stable:
  assumes "fst (http_parse_request buf) \<noteq> HTTP_INCOMPLETE"
  shows "http_parse_request (buf @ rest) = http_parse_request buf"
proof (cases "memmem buf (crlf @ crlf)")
  case None
  then have l: "length buf \<ge> HTTP_MAX_REQUEST" using assms by (simp add: http_parse_request_def split: if_splits)
  show ?thesis
  proof (cases "memmem (buf @ rest) (crlf @ crlf)")
    case (Some e)
    have "length buf < e + 4" using memmem_late [OF None Some] by simp
    then show ?thesis using None Some l by (simp add: http_parse_request_def Let_def)
  qed (use None l in \<open>simp add: http_parse_request_def\<close>)
next
  case (Some e)
  have e: "e + 4 \<le> length buf" using memmem_bound [OF Some] by simp
  obtain n where n: "memmem (take (e + 4) buf) crlf = Some n" using line_end_found [OF Some] by blast
  then have "n \<le> length buf" using memmem_bound [OF n] by simp
  then show ?thesis using n Some memmem_append [OF Some, of rest] e by (simp add: http_parse_request_def Let_def)
qed

section \<open>Queries\<close>

text \<open>Percent-encoding, as a client writes it: letters, digits and \<open>-._~\<close> stand for themselves.\<close>

definition unreserved :: "char \<Rightarrow> bool" where
  "unreserved c \<longleftrightarrow> (CHR ''a'' \<le> c \<and> c \<le> CHR ''z'') \<or> (CHR ''A'' \<le> c \<and> c \<le> CHR ''Z'') \<or> is_digit c \<or>
     c \<in> {CHR ''-'', CHR ''.'', CHR ''_'', CHR ''~''}"

definition pct :: "char \<Rightarrow> string" where
  "pct c = (if unreserved c then [c]
            else let n = of_char c :: nat in [CHR ''%'', digit_char (n div 16), digit_char (n mod 16)])"

definition pct_encode :: "string \<Rightarrow> string" where
  "pct_encode s = concat (map pct s)"

lemma hexval_digit_char: "d < 16 \<Longrightarrow> hexval (digit_char d) = int d"
proof -
  assume d: "d < 16"
  have n: "(of_char (digit_char d) :: nat) = (if d < 10 then 48 + d else 87 + d)" using d by (simp add: digit_char_def)
  have i: "(of_char (digit_char d) :: int) = int (of_char (digit_char d))" by (simp add: of_nat_of_char)
  show ?thesis using d by (simp add: hexval_def char_le_nat i n)
qed

lemma decode_char_pct:
  assumes "c \<noteq> CHR 0x00"
  obtains d r where "pct c = d # r" "\<And>t. decode_char ps d (r @ t) = Some (c, t)"
proof (cases "unreserved c")
  case True
  have "c \<noteq> CHR ''%''" "c \<noteq> CHR ''+''" using True by (auto simp: unreserved_def is_digit_def char_le_nat)
  then show ?thesis using that [of c "[]"] True by (simp add: pct_def decode_char_def)
next
  case False
  define n where "n = (of_char c :: nat)"
  have n: "n < 256" "char_of n = c" by (simp_all add: n_def)
  have d: "n div 16 < 16" "n mod 16 < 16" using n(1) by (simp_all add: less_mult_imp_div_less)
  have "int (n div 16) * 16 + int (n mod 16) = int n" by (metis div_mult_mod_eq of_nat_add of_nat_mult of_nat_numeral)
  then have "nat (int (n div 16) * 16 + int (n mod 16)) = n" by simp
  then have "decode_char ps CHR ''%'' ([digit_char (n div 16), digit_char (n mod 16)] @ t) = Some (c, t)" for t
    using assms n(2) by (simp add: decode_char_def hexval_digit_char d Let_def)
  then show ?thesis using that [of "CHR ''%''"] False by (simp add: pct_def Let_def n_def)
qed

lemma decode_loop_pct:
  "CHR 0x00 \<notin> set s \<Longrightarrow> decode_loop ps cap (pct_encode s) out =
     (if s = [] \<or> length out + length s < cap then Some (out @ s) else None)"
proof (induction s arbitrary: out)
  case (Cons c s)
  obtain d r where p: "pct c = d # r" "\<And>t. decode_char ps d (r @ t) = Some (c, t)"
    using decode_char_pct [of c ps] Cons.prems by auto
  then show ?case using Cons by (auto simp: pct_encode_def)
qed (simp add: pct_encode_def)

lemma decode_pct: "CHR 0x00 \<notin> set s \<Longrightarrow> decode (pct_encode s) cap ps = (if length s < cap then Some s else None)"
  by (auto simp: decode_def decode_loop_pct)

text \<open>The text of a query: the pairs in order.\<close>

fun query_text :: "(string \<times> string) list \<Rightarrow> string" where
  "query_text [] = []"
| "query_text [(k, v)] = k @ ''='' @ pct_encode v"
| "query_text ((k, v) # kvs) = k @ ''='' @ pct_encode v @ ''&'' @ query_text kvs"

definition key_text :: "string \<Rightarrow> bool" where
  "key_text k \<longleftrightarrow> CHR ''='' \<notin> set k \<and> CHR ''&'' \<notin> set k"

lemma pct_no_amp: "CHR ''&'' \<notin> set (pct_encode v)"
proof -
  have "digit_char d \<noteq> CHR ''&''" if "d < 16" for d
  proof -
    have "(of_char (digit_char d) :: nat) \<noteq> 38" using that by (simp add: digit_char_def)
    then show ?thesis by auto
  qed
  note d = this
  have "CHR ''&'' \<notin> set (pct c)" for c
  proof (cases "unreserved c")
    case True
    then show ?thesis by (auto simp: pct_def unreserved_def is_digit_def char_le_nat)
  next
    case False
    have "(of_char c :: nat) div 16 < 16" by (simp add: less_mult_imp_div_less)
    then show ?thesis using False d [of "of_char c div 16"] d [of "of_char c mod 16"] by (simp add: pct_def Let_def)
  qed
  then show ?thesis by (auto simp: pct_encode_def)
qed

lemma query_get_text:
  assumes "\<forall>kv \<in> set kvs. key_text (fst kv) \<and> CHR 0x00 \<notin> set (snd kv)"
  shows "http_query_get (query_text kvs) k n =
    (case map_of kvs k of Some v \<Rightarrow> if length v < n then Some v else None | None \<Rightarrow> None)"
  using assms
proof (induction kvs)
  case Nil
  then show ?case by (simp add: http_query_get.simps)
next
  case (Cons kv kvs)
  obtain k1 v1 where kv: "kv = (k1, v1)" by fastforce
  define r where "r = (if kvs = [] then [] else ''&'' @ query_text kvs)"
  have q: "query_text (kv # kvs) = k1 @ (''='' @ pct_encode v1 @ r)"
    by (cases kvs) (simp_all add: kv r_def)
  have k1: "key_text k1" "CHR 0x00 \<notin> set v1" using Cons.prems kv by auto
  have "strcspn (k1 @ (''='' @ pct_encode v1 @ r)) ''=&'' = length k1"
    by (rule strcspn_append) (use k1(1) in \<open>auto simp: key_text_def\<close>)
  moreover have pair: "strcspn ((k1 @ ''='' @ pct_encode v1) @ r) ''&'' = length (k1 @ ''='' @ pct_encode v1)"
    by (rule strcspn_append) (use k1(1) pct_no_amp [of v1] in \<open>auto simp: key_text_def r_def\<close>)
  moreover have "next_pair (query_text (kv # kvs)) = query_text kvs"
    using pair by (simp add: next_pair_def q Let_def) (simp add: r_def)
  ultimately show ?case
    using Cons k1(2) unfolding q by (subst http_query_get.simps) (simp add: kv decode_pct Let_def)
qed

section \<open>Properties of the HTTP layer\<close>

lemma request_line_found:
  assumes "http_parse_request buf = (HTTP_OK, Some req)"
  shows "\<exists>line r. buf = line @ crlf @ r \<and> parse_request_line line = (HTTP_OK, Some req)"
proof -
  obtain e where e: "memmem buf (crlf @ crlf) = Some e"
    using assms by (auto simp: http_parse_request_def split: option.splits if_splits)
  define n where "n = the (memmem (take (e + 4) buf) crlf)"
  have p: "parse_request_line (take n buf) = (HTTP_OK, Some req)"
    using assms e by (auto simp: http_parse_request_def n_def Let_def split: if_splits)
  have n: "memmem (take (e + 4) buf) crlf = Some n" using line_end_found [OF e] by (auto simp: n_def)
  have "take 2 (drop n buf) = crlf"
    using memmem_bound [OF n] by (auto simp: drop_take min_def numeral_2_eq_2 split: if_splits)
  then have "buf = take n buf @ crlf @ drop 2 (drop n buf)" by (metis append_take_drop_id)
  then show ?thesis using p by blast
qed

text \<open>C31: A request accepted by \<open>http_parse_request\<close> is a GET of HTTP/1.0 or 1.1 whose target is the
  path, or the path, a question mark and the query. The path begins with a slash, it and the query
  fit their buffers, both are printable ASCII, and the path is safe once percent-decoded: it decodes,
  no segment of it is \<open>..\<close>, and it holds no control byte and no backslash.\<close>

theorem http_request_safe:
  assumes "http_parse_request buf = (HTTP_OK, Some req)"
  shows "(\<exists>target ver r. buf = ''GET '' @ target @ '' '' @ ver @ crlf @ r \<and> ver \<in> {''HTTP/1.1'', ''HTTP/1.0''} \<and>
      (target = path req \<or> target = path req @ ''?'' @ query req)) \<and>
    hd (path req) = CHR ''/'' \<and> length (path req) < HTTP_PATH_MAX \<and> length (query req) < HTTP_QUERY_MAX \<and>
    (\<forall>c \<in> set (path req @ query req). 0x20 < (of_char c :: nat) \<and> (of_char c :: nat) < 0x7F) \<and>
    (\<exists>dec. decode (path req) HTTP_PATH_MAX False = Some dec \<and> (\<forall>c \<in> set dec. \<not> bad_path_char c) \<and>
      (\<forall>a. \<not> dotdot_at dec a))"
proof -
  obtain line r where line: "buf = line @ crlf @ r" "parse_request_line line = (HTTP_OK, Some req)"
    using request_line_found [OF assms] by blast
  obtain target ver where t: "line = ''GET '' @ target @ '' '' @ ver" "ver \<in> {''HTTP/1.1'', ''HTTP/1.0''}"
      "parse_target target = (HTTP_OK, Some req)"
    using parse_line_ok [OF line(2)] by blast
  note p = parse_target_ok [OF t(3)]
  have "buf = ''GET '' @ target @ '' '' @ ver @ crlf @ r" using line(1) t(1) by simp
  moreover have "\<exists>dec. decode (path req) HTTP_PATH_MAX False = Some dec \<and> (\<forall>c \<in> set dec. \<not> bad_path_char c) \<and>
      (\<forall>a. \<not> dotdot_at dec a)"
    using p path_unsafe_iff [of "path req"] by (auto split: option.splits)
  ultimately show ?thesis using p t(2) by blast
qed

lemma http_request_safe_witness:
  "(\<exists>dec. decode ''/a'' HTTP_PATH_MAX False = Some dec \<and> (\<forall>c \<in> set dec. \<not> bad_path_char c) \<and> (\<forall>a. \<not> dotdot_at dec a)) \<and>
   fst (http_parse_request (''GET /%2e%2E/x HTTP/1.1'' @ crlf @ crlf)) = HTTP_BAD"
proof
  have "http_parse_request (''GET /a?b=1 HTTP/1.1'' @ crlf @ crlf) = (HTTP_OK, Some \<lparr>path = ''/a'', query = ''b=1''\<rparr>)"
    by code_simp
  from http_request_safe [OF this]
  show "\<exists>dec. decode ''/a'' HTTP_PATH_MAX False = Some dec \<and> (\<forall>c \<in> set dec. \<not> bad_path_char c) \<and> (\<forall>a. \<not> dotdot_at dec a)"
    by simp
  show "fst (http_parse_request (''GET /%2e%2E/x HTTP/1.1'' @ crlf @ crlf)) = HTTP_BAD" by code_simp
qed

text \<open>C32: The parser decides: once 4096 bytes have arrived it answers, and an answer once given, the
  refusals too, is the same whatever bytes follow. So the way a request is cut into reads makes no
  difference, and no client can keep the server reading for ever.\<close>

theorem http_parse_decides:
  "(fst (http_parse_request buf) = HTTP_INCOMPLETE \<longrightarrow> length buf < HTTP_MAX_REQUEST) \<and>
   (fst (http_parse_request buf) \<noteq> HTTP_INCOMPLETE \<longrightarrow> http_parse_request (buf @ rest) = http_parse_request buf)"
  using parse_incomplete_short parse_request_stable by blast

lemma http_parse_decides_witness:
  "http_parse_request ((''GET /a HTTP/1.1'' @ crlf @ crlf) @ ''GET /b'') = (HTTP_OK, Some \<lparr>path = ''/a'', query = []\<rparr>)"
proof -
  have "http_parse_request (''GET /a HTTP/1.1'' @ crlf @ crlf) = (HTTP_OK, Some \<lparr>path = ''/a'', query = []\<rparr>)"
    by code_simp
  then show ?thesis using http_parse_decides [of "''GET /a HTTP/1.1'' @ crlf @ crlf" "''GET /b''"] by simp
qed

text \<open>A query built from percent-encoded values reads back: \<open>http_query_get\<close> gives the value of
  the first pair with the key, whatever bytes but NUL it holds, if it fits the buffer with its NUL,
  and -1 otherwise.\<close>

theorem http_query_roundtrip:
  assumes "\<forall>kv \<in> set kvs. key_text (fst kv) \<and> CHR 0x00 \<notin> set (snd kv)"
  shows "http_query_get (query_text kvs) k n =
    (case map_of kvs k of Some v \<Rightarrow> if length v < n then Some v else None | None \<Rightarrow> None)"
  using assms by (rule query_get_text)

lemma http_query_roundtrip_witness:
  "http_query_get (query_text [(''a'', ''x''), (''sig'', ''b c&d'')]) ''sig'' 8 = Some ''b c&d'' \<and>
   query_text [(''a'', ''x''), (''sig'', ''b c&d'')] = ''a=x&sig=b%20c%26d''"
proof
  show "http_query_get (query_text [(''a'', ''x''), (''sig'', ''b c&d'')]) ''sig'' 8 = Some ''b c&d''"
    by (subst http_query_roundtrip) (simp_all add: key_text_def)
qed code_simp


end
