(* ===== verification/Server_Conn.thy ===== *)
theory Server_Conn
  imports Server Http_Safety
begin

text \<open>
  One connection of the server. \<open>answer\<close> is what a client should get for the bytes it sent; \<open>wire_of\<close> is
  what is made of a handler's response. Laying a response out puts it whole in the buffer
  (\<open>finish_text\<close>, \<open>wire_of_laid_out\<close>); sending takes it from there piece by piece
  (\<open>conn_write_moves\<close>). The lemmas on moves say of each call that the connection is left in order
  or closed, and that the bytes sent begin the answer. What is used of the handler is the locale
  \<open>handler_contract\<close>: it keeps some property of its state.
\<close>

section \<open>The answer to a request\<close>

text \<open>The bytes a descriptor carried, in each direction.\<close>

definition carried :: "nat \<Rightarrow> (nat \<times> string) list \<Rightarrow> string" where
  "carried fd log = concat (map snd (filter (\<lambda>x. fst x = fd) log))"

abbreviation recv_from :: "nat \<Rightarrow> net \<Rightarrow> string" where "recv_from fd w \<equiv> carried fd (n_got w)"
abbreviation sent_to :: "nat \<Rightarrow> net \<Rightarrow> string" where "sent_to fd w \<equiv> carried fd (n_sent w)"

lemma carried_Nil [simp]: "carried fd [] = []"
  by (simp add: carried_def)

lemma carried_append [simp]: "carried fd (xs @ ys) = carried fd xs @ carried fd ys"
  by (simp add: carried_def)

lemma carried_one [simp]: "carried fd [(g, d)] = (if g = fd then d else [])"
  by (simp add: carried_def)

text \<open>One response as the wire carries it: its head, then its body.\<close>

definition response_bytes :: "int \<Rightarrow> string option \<Rightarrow> string \<Rightarrow> string option" where
  "response_bytes status ctype body =
     map_option (\<lambda>head. head @ body) (http_write_head SERVER_HEAD_MAX status ctype (of_nat (length body)))"

definition error_500 :: string where
  "error_500 = the (response_bytes HTTP_STATUS_INTERNAL_ERROR (Some ''text/plain'') internal_error_body)"

definition preset :: server_response where
  "preset = \<lparr>rs_status = HTTP_STATUS_INTERNAL_ERROR, rs_ctype = Some ''text/plain'', rs_body = [], rs_cap = SERVER_BODY_MAX\<rparr>"

text \<open>What the server makes of a handler's response.\<close>

definition wire_of :: "server_response \<Rightarrow> string" where
  "wire_of r =
     (if length (rs_body r) \<le> SERVER_BODY_MAX \<and> ctype_ok (rs_ctype r)
      then case response_bytes (rs_status r) (rs_ctype r) (rs_body r) of Some b \<Rightarrow> b | None \<Rightarrow> error_500
      else error_500)"

text \<open>The answer to what \<open>http_parse_request\<close> made of the bytes of a connection.\<close>

definition answer :: "'h handler \<Rightarrow> 'h \<Rightarrow> http_parse \<times> http_request option \<Rightarrow> string" where
  "answer handler h p =
     (case p of
        (HTTP_OK, Some req) \<Rightarrow> wire_of (fst (handler h req preset))
      | (e, _) \<Rightarrow> the (response_bytes (http_parse_val e) (Some ''text/plain'') (refusal_text e)))"

lemma write_head_length: "http_write_head cap status ctype n = Some head \<Longrightarrow> length head < cap"
  by (auto simp: http_write_head_def Let_def snprintf_def split: option.splits if_splits)

text \<open>The bytes still to be sent.\<close>

definition pending :: "server_conn \<Rightarrow> string" where
  "pending c = take (c_out_end c - c_out_pos c) (drop (c_out_pos c) (c_buf c))"

text \<open>A connection whose buffer holds a response, and one that has nothing left to send.\<close>

definition laid_out :: "server_conn \<Rightarrow> bool" where
  "laid_out c \<longleftrightarrow> length (c_buf c) = SERVER_HEAD_MAX + SERVER_BODY_MAX \<and> c_out_pos c \<le> c_out_end c \<and>
     c_out_end c \<le> SERVER_HEAD_MAX + SERVER_BODY_MAX"

lemma splice_length [simp]: "i + length s \<le> length buf \<Longrightarrow> length (splice_at i s buf) = length buf"
  by (simp add: splice_at_def)

lemma finish_lays_out:
  assumes "finish c status ctype (length body) = Some c'" and "length (c_buf c) = SERVER_HEAD_MAX + SERVER_BODY_MAX"
    and "length body \<le> SERVER_BODY_MAX"
    and "take (length body) (drop SERVER_HEAD_MAX (c_buf c)) = body"
  shows "laid_out c' \<and> response_bytes status ctype body = Some (pending c') \<and>
    c' = c\<lparr>c_out_pos := c_out_pos c', c_buf := c_buf c', c_out_end := c_out_end c'\<rparr>"
proof -
  obtain head where h: "http_write_head SERVER_HEAD_MAX status ctype (of_nat (length body)) = Some head"
    and c': "c' = c\<lparr>c_out_pos := 256 - length head, c_buf := splice_at (256 - length head) head (c_buf c), c_out_end := 256 + length body\<rparr>"
    using assms(1) by (auto simp: finish_def Let_def split: option.splits)
  have l: "length head < 256" using write_head_length [OF h] .
  have "pending c' = head @ take (length body) (drop 256 (c_buf c))"
    using l assms(2) by (simp add: c' pending_def splice_at_def)
  then show ?thesis using h c' l assms(2-4) by (simp add: laid_out_def response_bytes_def)
qed

lemma finish_None: "finish c status ctype (length body) = None \<longleftrightarrow> response_bytes status ctype body = None"
  by (auto simp: finish_def response_bytes_def Let_def split: option.splits)

lemma splice_body: "i + length s \<le> length buf \<Longrightarrow> take (length s) (drop i (splice_at i s buf)) = s"
  by (simp add: splice_at_def)

lemma error_500_head:
  "response_bytes HTTP_STATUS_INTERNAL_ERROR (Some ''text/plain'') internal_error_body = Some error_500"
proof -
  have "response_bytes HTTP_STATUS_INTERNAL_ERROR (Some ''text/plain'') internal_error_body \<noteq> None" by code_simp
  then show ?thesis by (auto simp: error_500_def)
qed

lemma refusal_head:
  assumes "e \<in> {HTTP_BAD, HTTP_BAD_METHOD, HTTP_TOO_LARGE}"
  shows "\<exists>b. response_bytes (http_parse_val e) (Some ''text/plain'') (refusal_text e) = Some b"
proof -
  have "\<forall>e \<in> set [HTTP_BAD, HTTP_BAD_METHOD, HTTP_TOO_LARGE].
    response_bytes (http_parse_val e) (Some ''text/plain'') (refusal_text e) \<noteq> None" by code_simp
  then show ?thesis using assms by auto
qed

text \<open>What laying a response out leaves of a connection: all but the buffer and its two positions.\<close>

definition same_conn :: "server_conn \<Rightarrow> server_conn \<Rightarrow> bool" where
  "same_conn c c' \<longleftrightarrow> c' = c\<lparr>c_out_pos := c_out_pos c', c_buf := c_buf c', c_out_end := c_out_end c'\<rparr>"

lemma same_connD:
  "same_conn c c' \<Longrightarrow> c_fd c' = c_fd c \<and> c_state c' = c_state c \<and> c_deadline_ms c' = c_deadline_ms c \<and> c_req c' = c_req c"
  unfolding same_conn_def
  by (erule ssubst) simp

lemma finish_text:
  assumes "length (c_buf c) = SERVER_HEAD_MAX + SERVER_BODY_MAX" and "length body \<le> SERVER_BODY_MAX"
    and "finish (c\<lparr>c_buf := splice_at SERVER_HEAD_MAX body (c_buf c)\<rparr>) status ctype (length body) = Some c'"
  shows "laid_out c' \<and> response_bytes status ctype body = Some (pending c') \<and> same_conn c c'"
proof -
  have "laid_out c' \<and> response_bytes status ctype body = Some (pending c') \<and>
    c' = c\<lparr>c_buf := splice_at SERVER_HEAD_MAX body (c_buf c), c_out_pos := c_out_pos c', c_buf := c_buf c', c_out_end := c_out_end c'\<rparr>"
    using finish_lays_out [OF assms(3)] assms(1,2) by (simp add: splice_body)
  then show ?thesis by (simp add: same_conn_def)
qed

lemma fail_500_lays_out:
  assumes "length (c_buf c) = SERVER_HEAD_MAX + SERVER_BODY_MAX"
  shows "laid_out (fail_500 c) \<and> pending (fail_500 c) = error_500 \<and> same_conn c (fail_500 c)"
proof -
  let ?c = "c\<lparr>c_buf := splice_at SERVER_HEAD_MAX internal_error_body (c_buf c)\<rparr>"
  have l: "length internal_error_body \<le> SERVER_BODY_MAX" by (simp add: internal_error_body_def)
  obtain c' where f: "finish ?c HTTP_STATUS_INTERNAL_ERROR (Some ''text/plain'') (length internal_error_body) = Some c'"
    using error_500_head finish_None [of ?c HTTP_STATUS_INTERNAL_ERROR "Some ''text/plain''" internal_error_body] by auto
  then have "fail_500 c = c'" by (simp add: fail_500_def)
  then show ?thesis using finish_text [OF assms l f] error_500_head by simp
qed

section \<open>One connection\<close>

text \<open>What a call on one descriptor leaves of the rest: the other descriptors' bytes, and what is open.\<close>

definition net_frame :: "nat \<Rightarrow> net \<Rightarrow> net \<Rightarrow> bool" where
  "net_frame fd w w' \<longleftrightarrow> n_fresh w' = n_fresh w \<and> n_since w' = n_since w \<and> n_open w' = n_open w \<and>
     (\<forall>g. g \<noteq> fd \<longrightarrow> recv_from g w' = recv_from g w \<and> sent_to g w' = sent_to g w)"

lemma net_frame_refl [simp]: "net_frame fd w w"
  by (simp add: net_frame_def)

lemma net_frame_trans: "net_frame fd w w1 \<Longrightarrow> net_frame fd w1 w2 \<Longrightarrow> net_frame fd w w2"
  by (simp add: net_frame_def)

lemma sys_recv_effect:
  assumes "sys_recv fd room w = (r, w')"
  shows "net_frame fd w w' \<and> n_sent w' = n_sent w \<and>
    recv_from fd w' = recv_from fd w @ (case r of Received d \<Rightarrow> d | _ \<Rightarrow> []) \<and>
    (case r of Received d \<Rightarrow> length d \<le> room | _ \<Rightarrow> True)"
  using assms by (auto simp: sys_recv_def net_frame_def split: list.splits recv_result.splits)

lemma sys_send_effect:
  assumes "sys_send fd bytes w = (r, w')"
  shows "net_frame fd w w' \<and> n_got w' = n_got w \<and>
    sent_to fd w' = sent_to fd w @ (case r of Sent n \<Rightarrow> take n bytes | _ \<Rightarrow> []) \<and>
    (case r of Sent n \<Rightarrow> n \<le> length bytes | _ \<Rightarrow> True)"
  using assms by (auto simp: sys_send_def net_frame_def min_def split: list.splits send_result.splits)

lemma drain_effect:
  "net_frame fd w (drain_fd fd got w) \<and> n_sent (drain_fd fd got w) = n_sent w \<and>
   (\<exists>d. recv_from fd (drain_fd fd got w) = recv_from fd w @ d)"
proof (induction fd got w rule: drain_fd.induct)
  case (1 fd got w)
  obtain r w1 where r: "sys_recv fd 1024 w = (r, w1)" by (cases "sys_recv fd 1024 w")
  note e = sys_recv_effect [OF r]
  show ?case
  proof (cases "got < DRAIN_MAX \<and> (\<exists>d. r = Received d \<and> d \<noteq> [])")
    case True
    then obtain d where d: "got < DRAIN_MAX" "r = Received d" "d \<noteq> []" by blast
    then have "drain_fd fd got w = drain_fd fd (got + length d) w1" using r by (subst drain_fd.simps) simp
    moreover note 1 [OF d(1) r [symmetric] d(2,3)]
    ultimately show ?thesis using e d(2) by (auto intro: net_frame_trans)
  next
    case False
    then have "drain_fd fd got w = (if got < DRAIN_MAX then w1 else w)"
      using r by (subst drain_fd.simps) (auto split: recv_result.splits)
    then show ?thesis using e by auto
  qed
qed

text \<open>\<open>answered\<close>: the bytes are the whole answer to the request that the connection received.\<close>

definition answered :: "'h handler \<Rightarrow> ('h \<Rightarrow> bool) \<Rightarrow> net \<Rightarrow> nat \<Rightarrow> string \<Rightarrow> bool" where
  "answered handler ctx_ok w fd bytes \<longleftrightarrow> fst (http_parse_request (recv_from fd w)) \<noteq> HTTP_INCOMPLETE \<and>
     (\<exists>h. ctx_ok h \<and> bytes = answer handler h (http_parse_request (recv_from fd w)))"

lemma answered_more:
  "answered handler ctx_ok w fd bytes \<Longrightarrow> recv_from fd w' = recv_from fd w @ d \<Longrightarrow> answered handler ctx_ok w' fd bytes"
  using parse_request_stable [of "recv_from fd w" d] by (simp add: answered_def)

definition conn_ok :: "'h handler \<Rightarrow> ('h \<Rightarrow> bool) \<Rightarrow> net \<Rightarrow> server_conn \<Rightarrow> bool" where
  "conn_ok handler ctx_ok w c \<longleftrightarrow> length (c_buf c) = SERVER_HEAD_MAX + SERVER_BODY_MAX \<and>
     (case c_state c of
        CONN_FREE \<Rightarrow> c_fd c = None
      | CONN_READING \<Rightarrow> (\<exists>fd. c_fd c = Some fd \<and> c_req c = recv_from fd w \<and>
          fst (http_parse_request (c_req c)) = HTTP_INCOMPLETE \<and> sent_to fd w = [])
      | CONN_WRITING \<Rightarrow> (\<exists>fd. c_fd c = Some fd \<and> laid_out c \<and> c_out_pos c < c_out_end c \<and>
          answered handler ctx_ok w fd (sent_to fd w @ pending c)))"

text \<open>What one call that moves a connection forward does: the connection is left in order or closed,
  and what it sent is the beginning of the answer.\<close>

definition moved :: "'h handler \<Rightarrow> ('h \<Rightarrow> bool) \<Rightarrow> nat \<Rightarrow> net \<Rightarrow> server_conn \<Rightarrow> net \<Rightarrow> bool" where
  "moved handler ctx_ok fd w c' w' \<longleftrightarrow>
     n_fresh w' = n_fresh w \<and> n_since w' = n_since w \<and>
     (\<forall>g. g \<noteq> fd \<longrightarrow> recv_from g w' = recv_from g w \<and> sent_to g w' = sent_to g w) \<and>
     (if c_state c' = CONN_FREE then n_open w' = remove1 fd (n_open w)
      else c_fd c' = Some fd \<and> n_open w' = n_open w) \<and>
     conn_ok handler ctx_ok w' c' \<and>
     (sent_to fd w' = [] \<or> (\<exists>rest. answered handler ctx_ok w' fd (sent_to fd w' @ rest)))"

lemma moved_frame: "net_frame fd w w1 \<Longrightarrow> moved handler ctx_ok fd w1 c' w' \<Longrightarrow> moved handler ctx_ok fd w c' w'"
  by (simp add: moved_def net_frame_def)

lemma moved_closed:
  assumes "net_frame fd w w1" and "c_fd c = Some fd" and "length (c_buf c) = SERVER_HEAD_MAX + SERVER_BODY_MAX"
    and "sent_to fd w1 = [] \<or> answered handler ctx_ok w1 fd (sent_to fd w1 @ rest)"
  shows "moved handler ctx_ok fd w (fst (close_conn c w1)) (snd (close_conn c w1))"
  using assms
  by (auto simp: moved_def close_conn_def sys_close_def conn_ok_def net_frame_def answered_def)

text \<open>What a call leaves of the server besides the connection it works on.\<close>

definition same_server :: "('h \<Rightarrow> bool) \<Rightarrow> 'h server \<Rightarrow> 'h server \<Rightarrow> bool" where
  "same_server ctx_ok s s' \<longleftrightarrow> s_conns s' = s_conns s \<and> s_listen s' = s_listen s \<and> (ctx_ok (s_ctx s) \<longrightarrow> ctx_ok (s_ctx s'))"

lemma same_server_refl [simp]: "same_server ctx_ok s s"
  by (simp add: same_server_def)

lemma pending_step:
  assumes "laid_out c" and "n \<le> c_out_end c - c_out_pos c"
  shows "take n (pending c) @ pending (c\<lparr>c_out_pos := c_out_pos c + n\<rparr>) = pending c"
proof -
  have "pending (c\<lparr>c_out_pos := c_out_pos c + n\<rparr>) = drop n (pending c)"
    by (simp add: pending_def drop_take add.commute)
  then show ?thesis by simp
qed

lemma pending_length: "laid_out c \<Longrightarrow> length (pending c) = c_out_end c - c_out_pos c"
  by (auto simp: laid_out_def pending_def)

lemma conn_write_step:
  assumes "c_out_pos c < c_out_end c" and "sys_send (the (c_fd c)) (pending c) w = (r, w1)"
  shows "conn_write s c w = (case r of
      Sent n \<Rightarrow> if n > 0 then conn_write s (c\<lparr>c_out_pos := c_out_pos c + n\<rparr>) w1 else (s, close_conn c w1)
    | Send_Intr \<Rightarrow> conn_write s c w1 | Send_Again \<Rightarrow> (s, c, w1) | Send_Error \<Rightarrow> (s, close_conn c w1))"
  using assms unfolding pending_def by (subst conn_write.simps) (simp split: send_result.splits)

lemma conn_write_moves:
  assumes "conn_write s c w = (s', c', w')" and "laid_out c" and "c_fd c = Some fd" and "c_state c = CONN_WRITING"
    and "answered handler ctx_ok w fd (sent_to fd w @ pending c)"
  shows "moved handler ctx_ok fd w c' w' \<and> same_server ctx_ok s s' \<and>
    (c_state c' \<noteq> CONN_FREE \<longrightarrow> c_deadline_ms c' = c_deadline_ms c \<and> c_state c' = CONN_WRITING)"
  using assms
proof (induction s c w rule: conn_write.induct)
  case (1 s c w)
  note p = 1(3-7)
  have b: "length (c_buf c) = SERVER_HEAD_MAX + SERVER_BODY_MAX" using p(2) by (simp add: laid_out_def)
  show ?case
  proof (cases "c_out_pos c < c_out_end c")
    case False
    let ?w = "drain_fd fd 0 w"
    have "pending c = []" using False by (simp add: pending_def)
    then have "answered handler ctx_ok ?w fd (sent_to fd ?w @ [])"
      using p(5) drain_effect [of fd w 0] answered_more by fastforce
    from moved_closed [OF _ p(3) b disjI2 [OF this], of w] drain_effect [of fd w 0]
    show ?thesis using p(1,3) False by (subst (asm) conn_write.simps) (auto simp: same_server_def close_conn_def)
  next
    case True
    obtain r w1 where r: "sys_send fd (pending c) w = (r, w1)" by (cases "sys_send fd (pending c) w")
    have r': "sys_send (the (c_fd c)) (take (c_out_end c - c_out_pos c) (drop (c_out_pos c) (c_buf c))) w = (r, w1)"
      using r p(3) by (simp add: pending_def)
    note e = sys_send_effect [OF r]
    have step: "sys_send (the (c_fd c)) (pending c) w = (r, w1)" using r p(3) by simp
    note step = conn_write_step [OF True step, of s]
    have closed: "moved handler ctx_ok fd w c' w' \<and> same_server ctx_ok s s' \<and> c_state c' = CONN_FREE"
      if "conn_write s c w = (s, close_conn c w1)" "sent_to fd w1 = sent_to fd w"
    proof -
      have "answered handler ctx_ok w1 fd (sent_to fd w1 @ pending c)" using p(5) e that(2) by (simp add: answered_def)
      from moved_closed [OF _ p(3) b disjI2 [OF this], of w] e that(1) p(1)
      show ?thesis by (auto simp: close_conn_def)
    qed
    show ?thesis
    proof (cases r)
      case (Sent n)
      show ?thesis
      proof (cases "n > 0")
        case False
        then show ?thesis using closed step Sent e by simp
      next
        case n: True
        let ?c = "c\<lparr>c_out_pos := c_out_pos c + n\<rparr>"
        have le: "n \<le> c_out_end c - c_out_pos c" using e Sent pending_length [OF p(2)] by simp
        have "laid_out ?c" using p(2) le True by (simp add: laid_out_def)
        moreover have "answered handler ctx_ok w1 fd (sent_to fd w1 @ pending ?c)"
          using p(5) e Sent pending_step [OF p(2) le] by (simp add: answered_def)
        moreover have "conn_write s ?c w1 = (s', c', w')" using step Sent n p(1) by simp
        ultimately show ?thesis using 1(1) [OF True r' [symmetric] Sent n] p(3,4) e moved_frame by fastforce
      qed
    next
      case Send_Again
      then have "s' = s \<and> c' = c \<and> w' = w1" using step p(1) by simp
      moreover have "answered handler ctx_ok w1 fd (sent_to fd w1 @ pending c)"
        using p(5) e Send_Again by (simp add: answered_def)
      ultimately show ?thesis using e p True b by (auto simp: moved_def conn_ok_def net_frame_def)
    next
      case Send_Intr
      moreover have "answered handler ctx_ok w1 fd (sent_to fd w1 @ pending c)"
        using p(5) e Send_Intr by (simp add: answered_def)
      moreover have "conn_write s c w1 = (s', c', w')" using step Send_Intr p(1) by simp
      ultimately show ?thesis using 1(2) [OF True r' [symmetric] Send_Intr] p(2,3,4) e moved_frame by fastforce
    next
      case Send_Error
      then show ?thesis using closed step e by simp
    qed
  qed
qed

text \<open>Where a connection's deadline stands after it was moved forward: kept while it reads, fresh once
  it writes.\<close>

definition timed :: "u64 \<Rightarrow> server_conn \<Rightarrow> server_conn \<Rightarrow> bool" where
  "timed now c c' \<longleftrightarrow>
     (c_state c' = CONN_READING \<longrightarrow> c_state c = CONN_READING \<and> c_deadline_ms c' = c_deadline_ms c) \<and>
     (c_state c' = CONN_WRITING \<longrightarrow>
        (if c_state c = CONN_READING then c_deadline_ms c' = now + SERVER_DEADLINE_MS else c_deadline_ms c' = c_deadline_ms c))"

lemma begin_write_moves:
  assumes "begin_write s c now w = (s', c', w')" and "laid_out c" and "c_fd c = Some fd" and "c_state c = CONN_READING"
    and "sent_to fd w = []" and "answered handler ctx_ok w fd (pending c)"
  shows "moved handler ctx_ok fd w c' w' \<and> same_server ctx_ok s s' \<and> timed now c c'"
proof -
  let ?c = "c\<lparr>c_state := CONN_WRITING, c_deadline_ms := now + SERVER_DEADLINE_MS\<rparr>"
  have "laid_out ?c" "pending ?c = pending c" using assms(2) by (simp_all add: laid_out_def pending_def)
  then show ?thesis
    using conn_write_moves [of s ?c w s' c' w' fd handler ctx_ok] assms
    by (cases "c_state c'") (auto simp: begin_write_def timed_def)
qed

lemma respond_error_begins:
  assumes "length (c_buf c) = SERVER_HEAD_MAX + SERVER_BODY_MAX" and "e \<in> {HTTP_BAD, HTTP_BAD_METHOD, HTTP_TOO_LARGE}"
  shows "\<exists>c'. respond_error s c e now w = begin_write s c' now w \<and> laid_out c' \<and> same_conn c c' \<and>
    response_bytes (http_parse_val e) (Some ''text/plain'') (refusal_text e) = Some (pending c')"
proof -
  let ?c = "c\<lparr>c_buf := splice_at SERVER_HEAD_MAX (refusal_text e) (c_buf c)\<rparr>"
  have l: "length (refusal_text e) \<le> SERVER_BODY_MAX" by (cases e) simp_all
  obtain c' where f: "finish ?c (http_parse_val e) (Some ''text/plain'') (length (refusal_text e)) = Some c'"
    using refusal_head [OF assms(2)] finish_None [of ?c "http_parse_val e" "Some ''text/plain''" "refusal_text e"] by auto
  then have "respond_error s c e now w = begin_write s c' now w" by (simp add: respond_error_def Let_def)
  then show ?thesis using finish_text [OF assms(1) l f] by blast
qed

lemma respond_error_moves:
  assumes "respond_error s c e now w = (s', c', w')" and "length (c_buf c) = SERVER_HEAD_MAX + SERVER_BODY_MAX"
    and "c_fd c = Some fd" and "c_state c = CONN_READING" and "sent_to fd w = []" and "ctx_ok (s_ctx s)"
    and "http_parse_request (recv_from fd w) = (e, q)" and "e \<in> {HTTP_BAD, HTTP_BAD_METHOD, HTTP_TOO_LARGE}"
  shows "moved handler ctx_ok fd w c' w' \<and> same_server ctx_ok s s' \<and> timed now c c'"
proof -
  obtain d where d: "respond_error s c e now w = begin_write s d now w" "laid_out d" "same_conn c d"
    "response_bytes (http_parse_val e) (Some ''text/plain'') (refusal_text e) = Some (pending d)"
    using respond_error_begins [OF assms(2,8)] by blast
  have "answer handler (s_ctx s) (e, q) = pending d" using assms(8) d(4) by (auto simp: answer_def)
  then have "answered handler ctx_ok w fd (pending d)" using assms(6-8) by (auto simp: answered_def)
  then show ?thesis
    using begin_write_moves [of s d now w s' c' w' fd handler ctx_ok] d(1,2) same_connD [OF d(3)] assms(1,3-5)
    by (simp add: timed_def)
qed

lemma wire_of_laid_out:
  assumes "length (c_buf c) = SERVER_HEAD_MAX + SERVER_BODY_MAX"
    and "c1 = c\<lparr>c_buf := splice_at SERVER_HEAD_MAX (take SERVER_BODY_MAX (rs_body r)) (c_buf c)\<rparr>"
    and "c2 = (if length (rs_body r) > SERVER_BODY_MAX \<or> \<not> ctype_ok (rs_ctype r) then fail_500 c1
               else case finish c1 (rs_status r) (rs_ctype r) (length (rs_body r)) of None \<Rightarrow> fail_500 c1 | Some c2 \<Rightarrow> c2)"
  shows "laid_out c2 \<and> pending c2 = wire_of r \<and> same_conn c c2"
proof -
  have l: "length (c_buf c1) = SERVER_HEAD_MAX + SERVER_BODY_MAX" using assms(1) by (simp add: assms(2))
  have "same_conn c1 c' \<Longrightarrow> same_conn c c'" for c' by (simp add: assms(2) same_conn_def)
  note f = fail_500_lays_out [OF l]
  show ?thesis
  proof (cases "length (rs_body r) \<le> SERVER_BODY_MAX \<and> ctype_ok (rs_ctype r)")
    case False
    then have "c2 = fail_500 c1" "wire_of r = error_500" unfolding assms(3) wire_of_def by auto
    then show ?thesis using f \<open>\<And>c'. same_conn c1 c' \<Longrightarrow> same_conn c c'\<close> by simp
  next
    case True
    show ?thesis
    proof (cases "finish c1 (rs_status r) (rs_ctype r) (length (rs_body r))")
      case None
      then have "c2 = fail_500 c1" using True unfolding assms(3) by simp
      moreover have "wire_of r = error_500" using None True finish_None [of c1] by (simp add: wire_of_def)
      ultimately show ?thesis using f \<open>\<And>c'. same_conn c1 c' \<Longrightarrow> same_conn c c'\<close> by simp
    next
      case (Some c')
      then have "c2 = c'" using True by (simp add: assms(3))
      then show ?thesis using finish_text [OF assms(1), of "rs_body r" "rs_status r" "rs_ctype r" c'] Some True
        by (simp add: assms(2) wire_of_def)
    qed
  qed
qed

lemma dispatch_begins:
  assumes "length (c_buf c) = SERVER_HEAD_MAX + SERVER_BODY_MAX" and "handler (s_ctx s) req preset = (r, h)"
  shows "\<exists>c'. dispatch handler s c req now w = begin_write (s\<lparr>s_ctx := h\<rparr>) c' now w \<and> laid_out c' \<and> same_conn c c' \<and>
    pending c' = wire_of r"
proof -
  define c1 where "c1 = c\<lparr>c_buf := splice_at SERVER_HEAD_MAX (take SERVER_BODY_MAX (rs_body r)) (c_buf c)\<rparr>"
  define c2 where "c2 = (if length (rs_body r) > SERVER_BODY_MAX \<or> \<not> ctype_ok (rs_ctype r) then fail_500 c1
    else case finish c1 (rs_status r) (rs_ctype r) (length (rs_body r)) of None \<Rightarrow> fail_500 c1 | Some c2 \<Rightarrow> c2)"
  have "dispatch handler s c req now w = begin_write (s\<lparr>s_ctx := h\<rparr>) c2 now w"
    unfolding dispatch_def Let_def preset_def [symmetric] assms(2) prod.case c1_def [symmetric] c2_def [symmetric] ..
  then show ?thesis using wire_of_laid_out [OF assms(1) c1_def c2_def] by blast
qed

locale handler_contract =
  fixes handler :: "'h handler" and ctx_ok :: "'h \<Rightarrow> bool"
  assumes handler_keeps: "ctx_ok h \<Longrightarrow> ctx_ok (snd (handler h req r))"
begin

lemma dispatch_moves:
  assumes "dispatch handler s c req now w = (s', c', w')" and "length (c_buf c) = SERVER_HEAD_MAX + SERVER_BODY_MAX"
    and "c_fd c = Some fd" and "c_state c = CONN_READING" and "sent_to fd w = []" and "ctx_ok (s_ctx s)"
    and "http_parse_request (recv_from fd w) = (HTTP_OK, Some req)"
  shows "moved handler ctx_ok fd w c' w' \<and> same_server ctx_ok s s' \<and> timed now c c'"
proof -
  obtain r h where r: "handler (s_ctx s) req preset = (r, h)" by (cases "handler (s_ctx s) req preset")
  obtain d where d: "dispatch handler s c req now w = begin_write (s\<lparr>s_ctx := h\<rparr>) d now w" "laid_out d" "same_conn c d"
    "pending d = wire_of r"
    using dispatch_begins [where handler = handler and s = s, OF assms(2) r] by blast
  have "answered handler ctx_ok w fd (pending d)" using assms(6,7) d(4) r by (auto simp: answered_def answer_def)
  moreover have "ctx_ok h" using handler_keeps [OF assms(6), of req preset] r by simp
  ultimately show ?thesis
    using begin_write_moves [of "s\<lparr>s_ctx := h\<rparr>" d now w s' c' w' fd handler ctx_ok] d same_connD [OF d(3)] assms(1,3-5)
    by (simp add: timed_def same_server_def)
qed

lemma conn_read_moves:
  assumes "conn_read handler s c now w = (s', c', w')" and "conn_ok handler ctx_ok w c"
    and "c_fd c = Some fd" and "c_state c = CONN_READING" and "ctx_ok (s_ctx s)"
  shows "moved handler ctx_ok fd w c' w' \<and> same_server ctx_ok s s' \<and> timed now c c'"
proof -
  have c: "length (c_buf c) = SERVER_HEAD_MAX + SERVER_BODY_MAX" "c_req c = recv_from fd w" "sent_to fd w = []"
    "fst (http_parse_request (c_req c)) = HTTP_INCOMPLETE"
    using assms(2-4) by (auto simp: conn_ok_def)
  obtain r w1 where r: "sys_recv fd (HTTP_MAX_REQUEST - length (c_req c)) w = (r, w1)"
    by (cases "sys_recv fd (HTTP_MAX_REQUEST - length (c_req c)) w")
  note e = sys_recv_effect [OF r]
  have room: "HTTP_MAX_REQUEST - length (c_req c) \<noteq> 0" using parse_incomplete_short [OF c(4)] by simp
  have closed: "moved handler ctx_ok fd w c' w' \<and> same_server ctx_ok s s' \<and> timed now c c'"
    if "(s, close_conn c w1) = (s', c', w')"
    using moved_closed [of fd w w1 c handler ctx_ok] e assms(3) c that
    by (auto simp: close_conn_def timed_def)
  have waits: "moved handler ctx_ok fd w c' w' \<and> same_server ctx_ok s s' \<and> timed now c c'"
    if "(s, c, w1) = (s', c', w')" "recv_from fd w1 = recv_from fd w"
    using e c assms(3,4) that by (auto simp: moved_def conn_ok_def net_frame_def timed_def)
  show ?thesis
  proof (cases r)
    case (Received d)
    define c1 where "c1 = c\<lparr>c_req := c_req c @ d\<rparr>"
    have c1: "length (c_buf c1) = SERVER_HEAD_MAX + SERVER_BODY_MAX" "c_fd c1 = Some fd" "c_state c1 = CONN_READING"
      "sent_to fd w1 = []" "c_req c1 = recv_from fd w1" "timed now c1 c' = timed now c c'"
      using c assms(3,4) e Received by (simp_all add: c1_def timed_def)
    obtain p q where p: "http_parse_request (c_req c1) = (p, q)" by (cases "http_parse_request (c_req c1)")
    have step: "conn_read handler s c now w =
      (if d = [] then (s, close_conn c w1)
       else if p = HTTP_INCOMPLETE then (s, c1, w1)
       else if p = HTTP_OK \<and> q \<noteq> None then dispatch handler s c1 (the q) now w1
       else respond_error s c1 p now w1)"
      using room r assms(3) Received p
      by (cases q; cases p) (simp_all add: conn_read_def Let_def c1_def)
    consider "d = []" | "d \<noteq> []" "p = HTTP_INCOMPLETE" | req where "d \<noteq> []" "p = HTTP_OK" "q = Some req"
      | "d \<noteq> []" "p \<in> {HTTP_BAD, HTTP_BAD_METHOD, HTTP_TOO_LARGE}"
      using parse_request_some [OF p] by blast
    then show ?thesis
    proof cases
      case 1
      then show ?thesis using closed step assms(1) by simp
    next
      case 2
      then show ?thesis using step assms(1) e p c1 by (auto simp: moved_def conn_ok_def net_frame_def timed_def)
    next
      case 3
      then show ?thesis using step assms(1) dispatch_moves [of s c1 req now w1 s' c' w' fd] c1 p assms(5) e moved_frame
        by fastforce
    next
      case 4
      then have "respond_error s c1 p now w1 = (s', c', w')" using step assms(1) by auto
      from respond_error_moves [where ctx_ok = ctx_ok and handler = handler, OF this c1(1-4) assms(5)] p c1(5,6) 4 e
      show ?thesis using moved_frame by metis
    qed
  next
    case Recv_Error
    then show ?thesis using closed assms(1,3) r room by (simp add: conn_read_def Let_def)
  next
    case Recv_Again
    then show ?thesis using waits assms(1,3) r room e by (simp add: conn_read_def Let_def)
  next
    case Recv_Intr
    then show ?thesis using waits assms(1,3) r room e by (simp add: conn_read_def Let_def)
  qed
qed

end


end
