(* ===== verification/Server_Run.thy ===== *)
theory Server_Run
  imports Server_Conn
begin

text \<open>
  The table of connections and the rounds of the loop: the invariant \<open>server_inv\<close> (descriptors, bytes on the
  wire, deadlines) is kept by \<open>accept_new\<close>, \<open>reap\<close>, \<open>handle_events\<close>, \<open>server_step\<close> and \<open>server_close\<close>, for every
  handler that keeps its contract; the interpretation \<open>untrusted\<close> takes any handler, with the states it can
  reach. \<open>server_reach\<close> are the histories of a server. A client reads a response with \<open>read_head\<close>.
\<close>

section \<open>The table\<close>

text \<open>The open descriptors are the listener and those of the connections, each once.\<close>

definition fds_ok :: "'h server \<Rightarrow> net \<Rightarrow> bool" where
  "fds_ok s w \<longleftrightarrow> distinct (n_open w) \<and>
     (\<forall>fd. fd \<in> set (n_open w) \<longleftrightarrow> s_listen s = Some fd \<or> (\<exists>i < SERVER_MAX_CONNS. c_fd (s_conns s ! i) = Some fd)) \<and>
     (\<forall>i < SERVER_MAX_CONNS. \<forall>fd. c_fd (s_conns s ! i) = Some fd \<longrightarrow>
        s_listen s \<noteq> Some fd \<and> (\<forall>j < SERVER_MAX_CONNS. c_fd (s_conns s ! j) = Some fd \<longrightarrow> j = i)) \<and>
     (\<forall>fd \<in> set (n_open w). fd < n_fresh w)"

text \<open>The bytes sent on every descriptor begin the answer to those received on it.\<close>

definition wire_ok :: "'h handler \<Rightarrow> ('h \<Rightarrow> bool) \<Rightarrow> net \<Rightarrow> bool" where
  "wire_ok handler ctx_ok w \<longleftrightarrow>
     (\<forall>fd. sent_to fd w = [] \<or> (\<exists>rest. answered handler ctx_ok w fd (sent_to fd w @ rest))) \<and>
     (\<forall>fd \<ge> n_fresh w. sent_to fd w = [] \<and> recv_from fd w = [])"

text \<open>A connection's deadline: one allowance after it was accepted, two once it writes.\<close>

definition held :: "net \<Rightarrow> server_conn \<Rightarrow> bool" where
  "held w c \<longleftrightarrow> c_state c \<noteq> CONN_FREE \<longrightarrow>
     (\<exists>t. map_of (n_since w) (the (c_fd c)) = Some t \<and>
        unat (c_deadline_ms c) \<le> unat t + (if c_state c = CONN_READING then 5000 else 9999))"

definition alive :: "u64 \<Rightarrow> server_conn \<Rightarrow> bool" where
  "alive now c \<longleftrightarrow> c_state c = CONN_FREE \<or> now < c_deadline_ms c"

definition server_inv :: "'h handler \<Rightarrow> ('h \<Rightarrow> bool) \<Rightarrow> 'h server \<Rightarrow> net \<Rightarrow> bool" where
  "server_inv handler ctx_ok s w \<longleftrightarrow> length (s_conns s) = SERVER_MAX_CONNS \<and> ctx_ok (s_ctx s) \<and>
     fds_ok s w \<and> wire_ok handler ctx_ok w \<and>
     (\<forall>i < SERVER_MAX_CONNS. conn_ok handler ctx_ok w (s_conns s ! i) \<and> held w (s_conns s ! i))"

definition all_alive :: "u64 \<Rightarrow> 'h server \<Rightarrow> bool" where
  "all_alive now s \<longleftrightarrow> (\<forall>i < SERVER_MAX_CONNS. alive now (s_conns s ! i))"

lemma conn_ok_other:
  assumes "conn_ok handler ctx_ok w c" and "c_fd c \<noteq> Some fd"
    and "\<forall>g. g \<noteq> fd \<longrightarrow> recv_from g w' = recv_from g w \<and> sent_to g w' = sent_to g w"
  shows "conn_ok handler ctx_ok w' c"
  using assms by (cases "c_state c") (auto simp: conn_ok_def answered_def)

lemma conn_ok_fd: "conn_ok handler ctx_ok w c \<Longrightarrow> c_state c \<noteq> CONN_FREE \<longleftrightarrow> c_fd c \<noteq> None"
  by (cases "c_state c") (auto simp: conn_ok_def)

lemma fds_okD:
  assumes "fds_ok s w"
  shows "distinct (n_open w)" and "g \<in> set (n_open w) \<Longrightarrow> g < n_fresh w"
    and "g \<in> set (n_open w) \<longleftrightarrow> s_listen s = Some g \<or> (\<exists>j < SERVER_MAX_CONNS. c_fd (s_conns s ! j) = Some g)"
    and "j < SERVER_MAX_CONNS \<Longrightarrow> c_fd (s_conns s ! j) = Some g \<Longrightarrow> s_listen s \<noteq> Some g"
    and "j < SERVER_MAX_CONNS \<Longrightarrow> c_fd (s_conns s ! j) = Some g \<Longrightarrow> k < SERVER_MAX_CONNS \<Longrightarrow>
       c_fd (s_conns s ! k) = Some g \<Longrightarrow> k = j"
  using assms unfolding fds_ok_def by blast+

lemma fds_okI:
  assumes "distinct (n_open w)" and "\<And>g. g \<in> set (n_open w) \<Longrightarrow> g < n_fresh w"
    and "\<And>g. g \<in> set (n_open w) \<longleftrightarrow> s_listen s = Some g \<or> (\<exists>j < SERVER_MAX_CONNS. c_fd (s_conns s ! j) = Some g)"
    and "\<And>j g. j < SERVER_MAX_CONNS \<Longrightarrow> c_fd (s_conns s ! j) = Some g \<Longrightarrow> s_listen s \<noteq> Some g"
    and "\<And>j k g. j < SERVER_MAX_CONNS \<Longrightarrow> c_fd (s_conns s ! j) = Some g \<Longrightarrow> k < SERVER_MAX_CONNS \<Longrightarrow>
       c_fd (s_conns s ! k) = Some g \<Longrightarrow> k = j"
  shows "fds_ok s w"
  using assms unfolding fds_ok_def by blast

lemma fds_ok_cong:
  assumes "fds_ok s w" and "\<And>j. j < SERVER_MAX_CONNS \<Longrightarrow> c_fd (s_conns s' ! j) = c_fd (s_conns s ! j)"
    and "s_listen s' = s_listen s" and "n_open w' = n_open w" and "n_fresh w \<le> n_fresh w'"
  shows "fds_ok s' w'"
proof (rule fds_okI)
  note old = fds_okD [OF assms(1)]
  show "distinct (n_open w')" using old(1) assms(4) by simp
  show "g < n_fresh w'" if "g \<in> set (n_open w')" for g using old(2) [of g] assms(4,5) that by simp
  show "g \<in> set (n_open w') \<longleftrightarrow> s_listen s' = Some g \<or> (\<exists>j < SERVER_MAX_CONNS. c_fd (s_conns s' ! j) = Some g)" for g
    using old(3) [of g] assms(2-4) by metis
  fix j g assume j: "j < SERVER_MAX_CONNS" "c_fd (s_conns s' ! j) = Some g"
  show "s_listen s' \<noteq> Some g" using old(4) [of j g] j assms(2,3) by simp
  show "k = j" if "k < SERVER_MAX_CONNS" "c_fd (s_conns s' ! k) = Some g" for k
    using old(5) [of j g k] j that assms(2) by simp
qed

lemma fds_ok_moved:
  assumes "fds_ok s w" and "i < SERVER_MAX_CONNS" and "c_fd (s_conns s ! i) = Some fd"
    and "moved handler ctx_ok fd w c' w'" and "length (s_conns s) = SERVER_MAX_CONNS"
    and "s_conns s' = (s_conns s)[i := c']" and "s_listen s' = s_listen s"
  shows "fds_ok s' w'"
proof (cases "c_state c' = CONN_FREE")
  case True
  then have m: "n_open w' = remove1 fd (n_open w)" "c_fd c' = None" "n_fresh w' = n_fresh w"
    using assms(4) by (auto simp: moved_def conn_ok_def)
  note old = fds_okD [OF assms(1)]
  have u: "c_fd (s_conns s' ! j) = Some g \<longleftrightarrow> j \<noteq> i \<and> c_fd (s_conns s ! j) = Some g" if "j < SERVER_MAX_CONNS" for j g
    using that assms(2,5,6) m by (cases "j = i") simp_all
  have o: "g \<in> set (n_open w') \<longleftrightarrow> g \<noteq> fd \<and> g \<in> set (n_open w)" for g using old(1) m(1) by auto
  show ?thesis
  proof (rule fds_okI)
    show "distinct (n_open w')" using old(1) m(1) by simp
    show "g \<in> set (n_open w') \<longleftrightarrow> s_listen s' = Some g \<or> (\<exists>j < SERVER_MAX_CONNS. c_fd (s_conns s' ! j) = Some g)" for g
      using o [of g] u old(3) [of g] old(4) [OF assms(2,3)] old(5) [OF assms(2,3)] assms(2,3,7) by (metis option.inject)
    show "g < n_fresh w'" if "g \<in> set (n_open w')" for g using that o old(2) m(3) by simp
    fix j g assume j: "j < SERVER_MAX_CONNS" "c_fd (s_conns s' ! j) = Some g"
    show "s_listen s' \<noteq> Some g" using old(4) [of j g] j u assms(7) by simp
    show "k = j" if "k < SERVER_MAX_CONNS" "c_fd (s_conns s' ! k) = Some g" for k
      using old(5) [of j g k] j that u by simp
  qed
next
  case False
  then have m: "n_open w' = n_open w" "c_fd c' = Some fd" "n_fresh w' = n_fresh w"
    using assms(4) by (auto simp: moved_def)
  have "c_fd (s_conns s' ! j) = c_fd (s_conns s ! j)" if "j < SERVER_MAX_CONNS" for j
    using that assms m by (cases "j = i") simp_all
  from fds_ok_cong [OF assms(1) this assms(7) m(1)] show ?thesis using m(3) by simp
qed

lemma wire_ok_moved:
  assumes "wire_ok handler ctx_ok w" and "moved handler ctx_ok fd w c' w'" and "fd < n_fresh w"
  shows "wire_ok handler ctx_ok w'"
  unfolding wire_ok_def
proof (intro conjI allI impI)
  fix g
  show "sent_to g w' = [] \<or> (\<exists>rest. answered handler ctx_ok w' g (sent_to g w' @ rest))"
    using assms by (cases "g = fd") (auto simp: wire_ok_def moved_def answered_def)
next
  fix g assume "n_fresh w' \<le> g"
  then show "sent_to g w' = []" and "recv_from g w' = []" using assms by (auto simp: wire_ok_def moved_def)
qed

lemma server_inv_moved:
  assumes "server_inv handler ctx_ok s w" and "i < SERVER_MAX_CONNS" and "c_fd (s_conns s ! i) = Some fd"
    and "moved handler ctx_ok fd w c' w'" and "held w' c'"
    and "s_conns s' = (s_conns s)[i := c']" and "s_listen s' = s_listen s" and "ctx_ok (s_ctx s')"
  shows "server_inv handler ctx_ok s' w'"
proof -
  have inv: "length (s_conns s) = SERVER_MAX_CONNS" "fds_ok s w" "wire_ok handler ctx_ok w"
    "\<And>j. j < SERVER_MAX_CONNS \<Longrightarrow> conn_ok handler ctx_ok w (s_conns s ! j) \<and> held w (s_conns s ! j)"
    using assms(1) by (auto simp: server_inv_def)
  have "fd < n_fresh w" using inv(2) assms(2,3) unfolding fds_ok_def by blast
  then have "wire_ok handler ctx_ok w'" using wire_ok_moved [OF inv(3) assms(4)] by blast
  moreover have "conn_ok handler ctx_ok w' (s_conns s' ! j) \<and> held w' (s_conns s' ! j)" if j: "j < SERVER_MAX_CONNS" for j
  proof (cases "j = i")
    case True
    then show ?thesis using assms(4-6) inv(1) j by (simp add: moved_def)
  next
    case False
    have "c_fd (s_conns s ! j) \<noteq> Some fd" using inv(2) assms(2,3) j False unfolding fds_ok_def by blast
    then have "conn_ok handler ctx_ok w' (s_conns s ! j)"
      using conn_ok_other [of handler ctx_ok w "s_conns s ! j" fd w'] inv(4) [OF j] assms(4) by (simp add: moved_def)
    moreover have "held w' (s_conns s ! j)" using inv(4) [OF j] assms(4) by (simp add: held_def moved_def)
    ultimately show ?thesis using False assms(6) by simp
  qed
  ultimately show ?thesis
    using assms(6,8) inv(1) fds_ok_moved [OF inv(2) assms(2,3,4) inv(1) assms(6,7)] by (simp add: server_inv_def)
qed

lemma held_moved:
  assumes "held w c" and "alive now c" and "timed now c c'" and "now < 2 ^ 63" and "n_since w' = n_since w"
    and "c_state c \<noteq> CONN_FREE" and "c_state c' \<noteq> CONN_FREE \<Longrightarrow> c_fd c' = c_fd c"
  shows "held w' c' \<and> alive now c'"
proof (cases "c_state c'")
  case CONN_FREE
  then show ?thesis by (simp add: held_def alive_def)
next
  case CONN_READING
  then show ?thesis using assms by (simp add: held_def alive_def timed_def)
next
  case w: CONN_WRITING
  show ?thesis
  proof (cases "c_state c = CONN_READING")
    case False
    then show ?thesis using assms w by (simp add: held_def alive_def timed_def)
  next
    case True
    have u: "unat (now + 5000) = unat now + 5000"
      using assms(4) unat_add_lem [of now 5000] by (simp add: word_less_nat_alt)
    have "now < c_deadline_ms c" using assms(2) True by (simp add: alive_def)
    then show ?thesis using assms True w u by (auto simp: held_def alive_def timed_def word_less_nat_alt)
  qed
qed

section \<open>The loop\<close>

lemma close_conn_moved:
  assumes "wire_ok handler ctx_ok w" and "conn_ok handler ctx_ok w c" and "c_fd c = Some fd" and "close_conn c w = (c', w')"
  shows "moved handler ctx_ok fd w c' w' \<and> held w' c' \<and> alive now c' \<and> c_state c' = CONN_FREE"
  using assms
  by (auto simp: moved_def close_conn_def sys_close_def conn_ok_def wire_ok_def answered_def held_def alive_def)

text \<open>A descriptor that \<open>accept4\<close> gave, put in a free slot or closed at once.\<close>

definition accepted_net :: "accept_result list \<Rightarrow> u64 \<Rightarrow> net \<Rightarrow> net" where
  "accepted_net as now w = w\<lparr>n_accept := as, n_fresh := n_fresh w + 1, n_open := n_fresh w # n_open w,
     n_since := (n_fresh w, now) # n_since w\<rparr>"

definition accepted_conn :: "nat \<Rightarrow> u64 \<Rightarrow> server_conn \<Rightarrow> server_conn" where
  "accepted_conn fd now c =
     c\<lparr>c_fd := Some fd, c_state := CONN_READING, c_deadline_ms := now + SERVER_DEADLINE_MS, c_req := []\<rparr>"

lemma sys_accept_close [simp]:
  "sys_close (n_fresh w) (accepted_net as now w) =
     w\<lparr>n_accept := as, n_fresh := n_fresh w + 1, n_since := (n_fresh w, now) # n_since w\<rparr>"
  by (simp add: sys_close_def accepted_net_def)

text \<open>Nothing a server relies on is about a descriptor not yet given out.\<close>

lemma server_inv_fresh:
  assumes "server_inv handler ctx_ok s w"
  shows "server_inv handler ctx_ok s (w\<lparr>n_accept := as, n_fresh := n_fresh w + 1, n_since := (n_fresh w, now) # n_since w\<rparr>)"
proof -
  let ?w = "w\<lparr>n_accept := as, n_fresh := n_fresh w + 1, n_since := (n_fresh w, now) # n_since w\<rparr>"
  have f: "fds_ok s w" and wo: "wire_ok handler ctx_ok w"
    and c: "\<And>i. i < SERVER_MAX_CONNS \<Longrightarrow> conn_ok handler ctx_ok w (s_conns s ! i) \<and> held w (s_conns s ! i)"
    using assms by (simp_all add: server_inv_def)
  have "fds_ok s ?w" by (rule fds_ok_cong [OF f]) simp_all
  moreover have "wire_ok handler ctx_ok ?w" using wo by (simp add: wire_ok_def answered_def)
  moreover have "conn_ok handler ctx_ok ?w (s_conns s ! i) \<and> held ?w (s_conns s ! i)" if i: "i < SERVER_MAX_CONNS" for i
  proof -
    have "c_state (s_conns s ! i) \<noteq> CONN_FREE \<Longrightarrow> the (c_fd (s_conns s ! i)) \<noteq> n_fresh w"
      using c [OF i] conn_ok_fd [of handler ctx_ok w "s_conns s ! i"] fds_okD(2,3) [OF f, of "n_fresh w"] i by auto
    moreover have "conn_ok handler ctx_ok ?w (s_conns s ! i)"
      using c [OF i] by (simp add: conn_ok_def answered_def split: conn_state.splits)
    ultimately show ?thesis using c [OF i] by (auto simp: held_def)
  qed
  ultimately show ?thesis using assms by (simp add: server_inv_def)
qed

lemma parse_empty: "fst (http_parse_request []) = HTTP_INCOMPLETE"
  by code_simp

lemma server_inv_accepted:
  assumes "server_inv handler ctx_ok s w" and "i < SERVER_MAX_CONNS" and "c_state (s_conns s ! i) = CONN_FREE" and "now < 2 ^ 63"
    and "s' = s\<lparr>s_conns := (s_conns s)[i := accepted_conn (n_fresh w) now (s_conns s ! i)]\<rparr>"
  shows "server_inv handler ctx_ok s' (accepted_net as now w)"
proof -
  let ?w = "w\<lparr>n_accept := as, n_fresh := n_fresh w + 1, n_since := (n_fresh w, now) # n_since w\<rparr>"
  let ?n = "accepted_net as now w" and ?c = "accepted_conn (n_fresh w) now (s_conns s ! i)"
  have inv: "server_inv handler ctx_ok s ?w" by (rule server_inv_fresh [OF assms(1)])
  then have l: "length (s_conns s) = SERVER_MAX_CONNS" and f: "fds_ok s ?w" and wo: "wire_ok handler ctx_ok ?w"
    and c: "\<And>j. j < SERVER_MAX_CONNS \<Longrightarrow> conn_ok handler ctx_ok ?w (s_conns s ! j) \<and> held ?w (s_conns s ! j)"
    by (simp_all add: server_inv_def)
  have n: "c_fd (s_conns s ! i) = None" using c [OF assms(2)] conn_ok_fd assms(3) by blast
  have fresh: "\<And>g. g \<in> set (n_open w) \<Longrightarrow> g < n_fresh w" "sent_to (n_fresh w) w = []" "recv_from (n_fresh w) w = []"
    using assms(1) fds_okD(2) by (auto simp: server_inv_def wire_ok_def)
  have u: "c_fd (s_conns s' ! j) = (if j = i then Some (n_fresh w) else c_fd (s_conns s ! j))" if "j < SERVER_MAX_CONNS" for j
    using that l assms(2) by (simp add: assms(5) accepted_conn_def)
  have "unat (now + 5000) = unat now + 5000" using assms(4) unat_add_lem [of now 5000] by (simp add: word_less_nat_alt)
  then have "conn_ok handler ctx_ok ?n ?c \<and> held ?n ?c"
    using c [OF assms(2)] parse_empty fresh by (simp add: conn_ok_def held_def accepted_conn_def accepted_net_def)
  moreover have "conn_ok handler ctx_ok ?n d \<and> held ?n d" if "conn_ok handler ctx_ok ?w d \<and> held ?w d" for d
    using that by (simp add: conn_ok_def answered_def held_def accepted_net_def split: conn_state.splits)
  ultimately have "conn_ok handler ctx_ok ?n (s_conns s' ! j) \<and> held ?n (s_conns s' ! j)" if "j < SERVER_MAX_CONNS" for j
    using that c [OF that] l assms(2) by (cases "j = i") (simp_all add: assms(5))
  moreover have "fds_ok s' ?n"
  proof (rule fds_okI)
    note old = fds_okD [OF f]
    have o: "set (n_open ?n) = insert (n_fresh w) (set (n_open w))" by (simp add: accepted_net_def)
    have no: "n_fresh w \<notin> set (n_open w)" using fresh(1) [of "n_fresh w"] by blast
    show "distinct (n_open ?n)" using old(1) no by (simp add: accepted_net_def)
    show "g < n_fresh ?n" if "g \<in> set (n_open ?n)" for g
      using that fresh(1) [of g] by (auto simp: accepted_net_def)
    show "g \<in> set (n_open ?n) \<longleftrightarrow> s_listen s' = Some g \<or> (\<exists>j < SERVER_MAX_CONNS. c_fd (s_conns s' ! j) = Some g)" for g
    proof -
      have "(\<exists>j < SERVER_MAX_CONNS. c_fd (s_conns s' ! j) = Some g) \<longleftrightarrow>
        g = n_fresh w \<or> (\<exists>j < SERVER_MAX_CONNS. c_fd (s_conns s ! j) = Some g)"
        using u n assms(2) by (metis option.distinct(1) option.inject)
      then show ?thesis using old(3) [of g] o by (auto simp: assms(5))
    qed
    fix j g assume j: "j < SERVER_MAX_CONNS" "c_fd (s_conns s' ! j) = Some g"
    show "s_listen s' \<noteq> Some g" using old(4) [of j g] old(3) [of g] j u no by (auto simp: assms(5) split: if_splits)
    show "k = j" if "k < SERVER_MAX_CONNS" "c_fd (s_conns s' ! k) = Some g" for k
      using old(5) [of j g k] old(3) [of g] j that u no by (auto split: if_splits)
  qed
  moreover have "wire_ok handler ctx_ok ?n" using wo by (simp add: wire_ok_def answered_def accepted_net_def)
  ultimately show ?thesis using inv l by (simp add: server_inv_def assms(5))
qed

lemma moved_inv:
  assumes "server_inv handler ctx_ok s w" and "all_alive now s" and "now < 2 ^ 63" and "i < SERVER_MAX_CONNS"
    and "c_fd (s_conns s ! i) = Some fd" and "moved handler ctx_ok fd w c' w'" and "timed now (s_conns s ! i) c'"
    and "s_conns s' = (s_conns s)[i := c']" and "s_listen s' = s_listen s" and "ctx_ok (s_ctx s')"
  shows "server_inv handler ctx_ok s' w' \<and> all_alive now s'"
proof -
  let ?c = "s_conns s ! i"
  have l: "length (s_conns s) = SERVER_MAX_CONNS" and c: "conn_ok handler ctx_ok w ?c" "held w ?c"
    using assms(1,4) by (auto simp: server_inv_def)
  have "c_state ?c \<noteq> CONN_FREE" using conn_ok_fd [OF c(1)] assms(5) by simp
  moreover have "alive now ?c" using assms(2,4) by (simp add: all_alive_def)
  ultimately have h: "held w' c' \<and> alive now c'"
    using held_moved [OF c(2) _ assms(7,3)] assms(5,6) by (simp add: moved_def)
  have "alive now (s_conns s' ! j)" if "j < SERVER_MAX_CONNS" for j
    using that h assms(2,4,8) l by (cases "j = i") (simp_all add: all_alive_def)
  then show ?thesis using server_inv_moved [OF assms(1,4,5,6) _ assms(8-10)] h by (simp add: all_alive_def)
qed

lemma free_slot_Some:
  assumes "free_slot s = Some i"
  shows "i < length (s_conns s) \<and> c_state (s_conns s ! i) = CONN_FREE"
proof -
  let ?P = "\<lambda>i. c_state (s_conns s ! i) = CONN_FREE"
  have "find ?P xs = Some i \<Longrightarrow> i \<in> set xs \<and> ?P i" for xs :: "nat list"
    by (induction xs) (auto split: if_splits)
  from this [of "[0..<length (s_conns s)]"] assms show ?thesis by (simp add: free_slot_def)
qed

lemma server_inv_counters:
  assumes "server_inv handler ctx_ok s w" and "s_conns s' = s_conns s" and "s_listen s' = s_listen s" and "s_ctx s' = s_ctx s"
  shows "server_inv handler ctx_ok s' w"
proof -
  have "fds_ok s w" using assms(1) by (simp add: server_inv_def)
  then have "fds_ok s' w" by (rule fds_ok_cong) (simp_all add: assms)
  then show ?thesis using assms by (simp add: server_inv_def)
qed

lemma server_inv_net:
  assumes "server_inv handler ctx_ok s w" and "n_got w' = n_got w" and "n_sent w' = n_sent w" and "n_open w' = n_open w"
    and "n_fresh w' = n_fresh w" and "n_since w' = n_since w"
  shows "server_inv handler ctx_ok s w'"
proof -
  have "fds_ok s w" using assms(1) by (simp add: server_inv_def)
  then have "fds_ok s w'" by (rule fds_ok_cong) (simp_all add: assms)
  moreover have "conn_ok handler ctx_ok w' c \<longleftrightarrow> conn_ok handler ctx_ok w c" for c
    by (simp add: conn_ok_def answered_def assms split: conn_state.split)
  ultimately show ?thesis using assms by (simp add: server_inv_def wire_ok_def answered_def held_def)
qed

context handler_contract
begin

lemma accepted_read_inv:
  assumes "server_inv handler ctx_ok s w" and "all_alive now s" and "now < 2 ^ 63" and "free_slot s = Some i"
    and "put_conn i (conn_read handler s (accepted_conn (n_fresh w) now (s_conns s ! i)) now (accepted_net as now w)) = (s', w')"
  shows "server_inv handler ctx_ok s' w' \<and> all_alive now s'"
proof -
  let ?c = "accepted_conn (n_fresh w) now (s_conns s ! i)" and ?w = "accepted_net as now w"
  define s1 where "s1 = s\<lparr>s_conns := (s_conns s)[i := ?c]\<rparr>"
  obtain s2 c' w2 where r: "conn_read handler s ?c now ?w = (s2, c', w2)" by (cases "conn_read handler s ?c now ?w") auto
  have l: "length (s_conns s) = SERVER_MAX_CONNS" and x: "ctx_ok (s_ctx s)" using assms(1) by (auto simp: server_inv_def)
  have i: "i < SERVER_MAX_CONNS" "c_state (s_conns s ! i) = CONN_FREE" using free_slot_Some [OF assms(4)] l by auto
  have inv: "server_inv handler ctx_ok s1 ?w" using server_inv_accepted [OF assms(1) i assms(3) s1_def] .
  have at: "s_conns s1 ! i = ?c" using i l by (simp add: s1_def)
  have "unat (now + 5000) = unat now + 5000" using assms(3) unat_add_lem [of now 5000] by (simp add: word_less_nat_alt)
  then have "alive now (s_conns s1 ! j)" if "j < SERVER_MAX_CONNS" for j
    using that assms(2) i l by (cases "j = i") (simp_all add: s1_def all_alive_def alive_def accepted_conn_def word_less_nat_alt)
  then have al: "all_alive now s1" by (simp add: all_alive_def)
  have "conn_ok handler ctx_ok ?w ?c" using inv i at by (auto simp: server_inv_def)
  from conn_read_moves [OF r this] x
  have m: "moved handler ctx_ok (n_fresh w) ?w c' w2 \<and> same_server ctx_ok s s2 \<and> timed now ?c c'"
    by (simp add: accepted_conn_def)
  have "s_conns s' = (s_conns s1)[i := c']" "s_listen s' = s_listen s1" "ctx_ok (s_ctx s')" "w' = w2"
    using assms(5) r m x by (auto simp: put_conn_def same_server_def s1_def)
  moreover have "c_fd (s_conns s1 ! i) = Some (n_fresh w)" using at by (simp add: accepted_conn_def)
  ultimately show ?thesis using moved_inv [OF inv al assms(3) i(1), of "n_fresh w" c' w2 s'] m at by simp
qed

lemma accept_new_inv:
  assumes "server_inv handler ctx_ok s w" and "all_alive now s" and "now < 2 ^ 63" and "accept_new handler n s now w = (s', w')"
  shows "server_inv handler ctx_ok s' w' \<and> all_alive now s'"
  using assms
proof (induction n arbitrary: s w)
  case 0
  then show ?case by simp
next
  case (Suc n)
  note inv = Suc.prems(1,2)
  show ?case
  proof (cases "n_accept w")
    case Nil
    then show ?thesis using Suc.prems by simp
  next
    case (Cons a as)
    have quiet: "server_inv handler ctx_ok s (w\<lparr>n_accept := as\<rparr>)" by (rule server_inv_net [OF inv(1)]) simp_all
    show ?thesis
    proof (cases a)
      case Accept_Again
      then show ?thesis using Suc.prems Cons quiet by simp
    next
      case Accept_Retry
      then show ?thesis using Suc.IH [OF quiet inv(2)] Suc.prems(3,4) Cons by simp
    next
      case Accept_Error
      then show ?thesis using Suc.prems Cons server_inv_counters [OF quiet, of s'] by (auto simp: all_alive_def)
    next
      case Accepted
      show ?thesis
      proof (cases "free_slot s")
        case None
        define s1 where "s1 = s\<lparr>s_drops := s_drops s + 1\<rparr>"
        define s2 where "s2 = (if s_drops s1 = 1 \<or> now \<ge> s_last_busy_log_ms s1 + BUSY_LOG_EVERY_MS
          then s1\<lparr>s_last_busy_log_ms := now\<rparr> else s1)"
        have same: "s_conns s2 = s_conns s" "s_listen s2 = s_listen s" "s_ctx s2 = s_ctx s" by (auto simp: s2_def s1_def)
        have "accept_new handler (Suc n) s now w = accept_new handler n s2 now (sys_close (n_fresh w) (accepted_net as now w))"
          using Cons Accepted None by (simp add: Let_def s2_def s1_def accepted_net_def del: sys_accept_close)
        then have "accept_new handler n s2 now (sys_close (n_fresh w) (accepted_net as now w)) = (s', w')"
          using Suc.prems(4) by (simp del: accept_new.simps sys_accept_close)
        moreover have "server_inv handler ctx_ok s2 (sys_close (n_fresh w) (accepted_net as now w))"
          unfolding sys_accept_close by (rule server_inv_counters [OF server_inv_fresh [OF inv(1)] same])
        moreover have "all_alive now s2" using inv(2) same(1) by (simp add: all_alive_def)
        ultimately show ?thesis using Suc.IH Suc.prems(3) by blast
      next
        case (Some i)
        obtain s1 w1 where p: "put_conn i (conn_read handler s (accepted_conn (n_fresh w) now (s_conns s ! i)) now
            (accepted_net as now w)) = (s1, w1)" by fastforce
        then have "accept_new handler n s1 now w1 = (s', w')"
          using Suc.prems(4) Cons Accepted Some by (simp add: Let_def accepted_conn_def accepted_net_def)
        then show ?thesis using accepted_read_inv [OF inv Suc.prems(3) Some p] Suc.IH Suc.prems(3) by blast
      qed
    qed
  qed
qed

lemma conn_event_inv:
  assumes "server_inv handler ctx_ok s w" and "all_alive now s" and "now < 2 ^ 63" and "i < SERVER_MAX_CONNS"
    and "c = s_conns s ! i" and "c_state c \<noteq> CONN_FREE"
    and "put_conn i (if c_state c = CONN_READING then conn_read handler s c now w else conn_write s c w) = (s', w')"
  shows "server_inv handler ctx_ok s' w' \<and> all_alive now s'"
proof -
  obtain s1 c' where r: "(if c_state c = CONN_READING then conn_read handler s c now w else conn_write s c w) = (s1, c', w')"
    and s': "s' = s1\<lparr>s_conns := (s_conns s1)[i := c']\<rparr>"
    using assms(7) by (auto simp: put_conn_def split: prod.splits)
  have c: "conn_ok handler ctx_ok w c" and x: "ctx_ok (s_ctx s)" using assms(1,4,5) by (auto simp: server_inv_def)
  obtain fd where fd: "c_fd c = Some fd" using conn_ok_fd [OF c] assms(6) by blast
  have "moved handler ctx_ok fd w c' w' \<and> same_server ctx_ok s s1 \<and> timed now c c'"
  proof (cases "c_state c = CONN_READING")
    case True
    then show ?thesis using conn_read_moves [OF _ c fd True x] r by simp
  next
    case False
    then have st: "c_state c = CONN_WRITING" using assms(6) by (cases "c_state c") auto
    then have "laid_out c" "answered handler ctx_ok w fd (sent_to fd w @ pending c)" using c fd by (auto simp: conn_ok_def)
    then show ?thesis using conn_write_moves [of s c w s1 c' w' fd handler ctx_ok] r st fd by (auto simp: timed_def)
  qed
  then show ?thesis
    using moved_inv [OF assms(1-4), of fd c' w' s'] fd x assms(5) by (simp add: s' same_server_def)
qed

end

lemma server_inv_closed_at:
  assumes "server_inv handler ctx_ok (s\<lparr>s_conns := pre @ c # cs\<rparr>) w" and "c_state c \<noteq> CONN_FREE" and "close_conn c w = (c', w')"
  shows "server_inv handler ctx_ok (s\<lparr>s_conns := pre @ c' # cs\<rparr>) w' \<and> alive now c'"
proof -
  have i: "length pre < SERVER_MAX_CONNS" "wire_ok handler ctx_ok w" "ctx_ok (s_ctx s)"
    "\<And>i. i < SERVER_MAX_CONNS \<Longrightarrow> conn_ok handler ctx_ok w ((pre @ c # cs) ! i)"
    using assms(1) by (auto simp: server_inv_def)
  have c: "conn_ok handler ctx_ok w c" using i(4) [OF i(1)] by simp
  obtain fd where fd: "c_fd c = Some fd" using conn_ok_fd [OF c] assms(2) by blast
  from close_conn_moved [OF i(2) c fd assms(3)]
  have "moved handler ctx_ok fd w c' w'" "held w' c'" "alive now c'" by blast+
  then show ?thesis using server_inv_moved [OF assms(1) i(1)] fd i(3) by simp
qed

lemma reap_from_inv:
  assumes "reap_from now cs n w = (cs', n', w')" and "server_inv handler ctx_ok (s\<lparr>s_conns := pre @ cs\<rparr>) w"
  shows "server_inv handler ctx_ok (s\<lparr>s_conns := pre @ cs'\<rparr>) w' \<and> (\<forall>c \<in> set cs'. alive now c)"
  using assms
proof (induction cs arbitrary: n w cs' n' w' pre)
  case Nil
  then show ?case by simp
next
  case (Cons c cs)
  show ?case
  proof (cases "c_state c = CONN_FREE \<or> now < c_deadline_ms c")
    case True
    then obtain ds where r: "reap_from now cs n w = (ds, n', w')" "cs' = c # ds"
      using Cons.prems(1) by (auto split: prod.splits)
    then show ?thesis using Cons.IH [OF r(1), of "pre @ [c]"] Cons.prems(2) True by (auto simp: alive_def)
  next
    case False
    obtain c1 w1 where cl: "close_conn c w = (c1, w1)" by (cases "close_conn c w")
    then obtain ds where r: "reap_from now cs (n + 1) w1 = (ds, n', w')" "cs' = c1 # ds"
      using Cons.prems(1) False by (auto split: prod.splits)
    then show ?thesis
      using Cons.IH [OF r(1), of "pre @ [c1]"] server_inv_closed_at [OF Cons.prems(2) _ cl] False by simp
  qed
qed

lemma reap_inv:
  assumes "server_inv handler ctx_ok s w" and "reap s now w = (s', w')"
  shows "server_inv handler ctx_ok s' w' \<and> all_alive now s'"
proof -
  obtain cs n where r: "reap_from now (s_conns s) (s_timeouts s) w = (cs, n, w')"
    and s': "s' = s\<lparr>s_conns := cs, s_timeouts := n\<rparr>"
    using assms(2) by (auto simp: reap_def split: prod.splits)
  have "server_inv handler ctx_ok (s\<lparr>s_conns := cs\<rparr>) w' \<and> (\<forall>c \<in> set cs. alive now c)"
    using reap_from_inv [OF r, where pre = "[]" and s = s] assms(1) by simp
  moreover have "server_inv handler ctx_ok s' w'" if "server_inv handler ctx_ok (s\<lparr>s_conns := cs\<rparr>) w'"
    by (rule server_inv_counters [OF that]) (simp_all add: s')
  ultimately show ?thesis by (auto simp: all_alive_def s' server_inv_def)
qed

lemma close_all_inv:
  assumes "close_all cs w = (cs', w')" and "server_inv handler ctx_ok (s\<lparr>s_conns := pre @ cs\<rparr>) w"
  shows "server_inv handler ctx_ok (s\<lparr>s_conns := pre @ cs'\<rparr>) w' \<and> (\<forall>c \<in> set cs'. c_state c = CONN_FREE)"
  using assms
proof (induction cs arbitrary: w cs' w' pre)
  case Nil
  then show ?case by simp
next
  case (Cons c cs)
  obtain c1 w1 where c1: "(if c_state c \<noteq> CONN_FREE then close_conn c w else (c, w)) = (c1, w1)" by fastforce
  then obtain ds where r: "close_all cs w1 = (ds, w')" "cs' = c1 # ds"
    using Cons.prems(1) by (auto split: prod.splits)
  have "server_inv handler ctx_ok (s\<lparr>s_conns := pre @ c1 # cs\<rparr>) w1 \<and> c_state c1 = CONN_FREE"
    using c1 server_inv_closed_at [OF Cons.prems(2), of c1 w1] Cons.prems(2)
    by (auto simp: close_conn_def split: if_splits)
  then show ?case using Cons.IH [OF r(1), of "pre @ [c1]"] r(2) by simp
qed

lemma server_close_inv:
  assumes "server_inv handler ctx_ok s w" and "server_close s w = (s', w')"
  shows "server_inv handler ctx_ok s' w' \<and> n_open w' = [] \<and> s_listen s' = None"
proof -
  obtain cs w1 where c: "close_all (s_conns s) w = (cs, w1)" by fastforce
  let ?s = "s\<lparr>s_conns := cs\<rparr>"
  have "server_inv handler ctx_ok (s\<lparr>s_conns := [] @ cs\<rparr>) w1 \<and> (\<forall>c \<in> set cs. c_state c = CONN_FREE)"
    using close_all_inv [OF c, where pre = "[]" and s = s] assms(1) by simp
  then have i: "server_inv handler ctx_ok ?s w1" "length cs = SERVER_MAX_CONNS" "\<And>c. c \<in> set cs \<Longrightarrow> c_state c = CONN_FREE"
    by (auto simp: server_inv_def)
  have none: "c_fd (cs ! j) = None" if "j < SERVER_MAX_CONNS" for j
    using i that conn_ok_fd [of handler ctx_ok w1 "cs ! j"] by (force simp: server_inv_def)
  note f = fds_okD [of ?s w1]
  have fo: "fds_ok ?s w1" using i(1) by (simp add: server_inv_def)
  have o: "g \<in> set (n_open w1) \<longleftrightarrow> s_listen s = Some g" for g using f(3) [OF fo, of g] none by auto
  show ?thesis
  proof (cases "s_listen s")
    case None
    then have "n_open w1 = []" using o [of "hd (n_open w1)"] by (cases "n_open w1") auto
    then show ?thesis using assms(2) c i(1) None by (auto simp: server_close_def)
  next
    case (Some fd)
    have "set (n_open w1) = {fd}" using o Some by auto
    then have e: "n_open w1 = [fd]" using f(1) [OF fo]
      by (cases "n_open w1") (auto dest!: subset_singletonD)
    have s': "s' = ?s\<lparr>s_listen := None\<rparr>" "w' = sys_close fd w1" using assms(2) c Some by (auto simp: server_close_def)
    have "fds_ok s' w'" by (rule fds_okI) (auto simp: s' e sys_close_def none)
    moreover have "conn_ok handler ctx_ok w' d \<and> held w' d \<longleftrightarrow> conn_ok handler ctx_ok w1 d \<and> held w1 d" for d
      by (simp add: s' sys_close_def conn_ok_def answered_def held_def split: conn_state.split)
    moreover have "wire_ok handler ctx_ok w'" using i(1) by (simp add: s' sys_close_def server_inv_def wire_ok_def answered_def)
    ultimately show ?thesis using i(1) e by (simp add: s' sys_close_def server_inv_def)
  qed
qed

context handler_contract
begin

lemma handle_events_inv:
  assumes "handle_events handler now es n s w = (r, s', w')" and "server_inv handler ctx_ok s w" and "all_alive now s"
    and "now < 2 ^ 63" and "\<forall>i. Some i \<in> fst ` set es \<longrightarrow> i < SERVER_MAX_CONNS"
  shows "server_inv handler ctx_ok s' w' \<and> all_alive now s'"
  using assms
proof (induction es arbitrary: n s w)
  case Nil
  then show ?case by simp
next
  case (Cons e es)
  obtain who ev where e: "e = (who, ev)" by (cases e)
  note p = Cons.prems(1)[unfolded e] and inv = Cons.prems(2,3)
  have later: ?case if "handle_events handler now es k t v = (r, s', w')" "server_inv handler ctx_ok t v \<and> all_alive now t" for k t v
    using Cons.IH that Cons.prems(4,5) by auto
  consider "ev = Ev_None" | "ev \<noteq> Ev_None" "who = None" "ev = Ev_Error" | "ev \<noteq> Ev_None" "who = None" "ev \<noteq> Ev_Error"
    | i where "ev \<noteq> Ev_None" "who = Some i" by (cases who) auto
  then show ?case
  proof cases
    case 1
    then show ?thesis using p inv later by simp
  next
    case 2
    then show ?thesis using p inv by simp
  next
    case 3
    obtain s1 w1 where a: "accept_new handler ACCEPTS_PER_STEP s now w = (s1, w1)" by fastforce
    then have "handle_events handler now es (n + 1) s1 w1 = (r, s', w')" using p 3 by simp
    then show ?thesis using later accept_new_inv [OF inv Cons.prems(4) a] by blast
  next
    case 4
    let ?c = "s_conns s ! i"
    show ?thesis
    proof (cases "c_state ?c = CONN_FREE")
      case True
      then show ?thesis using p inv later 4 by simp
    next
      case False
      have i: "i < SERVER_MAX_CONNS" using Cons.prems(5) e 4 by force
      obtain s1 w1 where a: "put_conn i (if c_state ?c = CONN_READING then conn_read handler s ?c now w
          else conn_write s ?c w) = (s1, w1)" by fastforce
      then have "handle_events handler now es (n + 1) s1 w1 = (r, s', w')" using p 4 False by (simp add: Let_def)
      then show ?thesis using later conn_event_inv [OF inv Cons.prems(4) i refl False a] by blast
    qed
  qed
qed

lemma poll_set_slots:
  assumes "poll_set s now wait0 = (who, wait)" and "Some i \<in> set who"
  shows "i < length (s_conns s) \<and> c_state (s_conns s ! i) \<noteq> CONN_FREE"
  using assms by (auto simp: poll_set_def Let_def split: if_splits)

lemma server_step_inv:
  assumes "server_step handler poll now_a now_b max_wait_ms s w = (r, s', w')" and "server_inv handler ctx_ok s w" and "now_b < 2 ^ 63"
  shows "server_inv handler ctx_ok s' w'"
    and "s_listen s \<noteq> None \<Longrightarrow>
      case_prod poll (poll_set s now_a (if max_wait_ms > 0 then word_of_int max_wait_ms else 0)) = Poll_Ready evs \<Longrightarrow> all_alive now_b s'"
proof -
  obtain who wait where ps: "poll_set s now_a (if max_wait_ms > 0 then word_of_int max_wait_ms else 0) = (who, wait)"
    by fastforce
  have ready: "server_inv handler ctx_ok s' w' \<and> all_alive now_b s'" if l: "s_listen s \<noteq> None" and "poll who wait = Poll_Ready evs" for evs
  proof -
    obtain s1 w1 where rp: "reap s now_b w = (s1, w1)" by fastforce
    have ev: "handle_events handler now_b (zip who evs) 0 s1 w1 = (r, s', w')"
      using assms(1) that ps rp by (simp add: server_step_def)
    have "i < SERVER_MAX_CONNS" if "Some i \<in> fst ` set (zip who evs)" for i
      using that poll_set_slots [OF ps, of i] assms(2) by (auto simp: server_inv_def dest!: set_zip_leftD)
    then show ?thesis using handle_events_inv [OF ev _ _ assms(3)] reap_inv [OF assms(2) rp] by blast
  qed
  show "server_inv handler ctx_ok s' w'"
  proof (cases "s_listen s = None \<or> (\<forall>evs. poll who wait \<noteq> Poll_Ready evs)")
    case True
    then show ?thesis using assms(1,2) ps by (cases "poll who wait") (auto simp: server_step_def split: if_splits)
  qed (use ready in blast)
  show "all_alive now_b s'" if "s_listen s \<noteq> None"
    "case_prod poll (poll_set s now_a (if max_wait_ms > 0 then word_of_int max_wait_ms else 0)) = Poll_Ready evs"
    using ready that ps by simp
qed

end

section \<open>Histories\<close>

text \<open>A history of the server: it is opened, then goes round while the network does what it likes, and
  may be closed at any time. The clock is below \<open>2 ^ 63\<close> ms.\<close>

inductive server_reach :: "'h handler \<Rightarrow> 'h \<Rightarrow> 'h server \<Rightarrow> net \<Rightarrow> bool" for handler ctx where
  opened: "server_open k ctx w = (True, s, w') \<Longrightarrow> n_open w = [] \<Longrightarrow> n_got w = [] \<Longrightarrow> n_sent w = [] \<Longrightarrow>
    server_reach handler ctx s w'"
| stepped: "server_reach handler ctx s w \<Longrightarrow>
    server_step handler poll now_a now_b max_wait_ms s (w\<lparr>n_recv := rs, n_send := ss, n_accept := as\<rparr>) = (r, s', w') \<Longrightarrow>
    now_b < 2 ^ 63 \<Longrightarrow> server_reach handler ctx s' w'"
| closed: "server_reach handler ctx s w \<Longrightarrow> server_close s w = (s', w') \<Longrightarrow> server_reach handler ctx s' w'"

lemma server_open_inv:
  assumes "server_open k ctx w = (True, s, w')" and "n_open w = []" and "n_got w = []" and "n_sent w = []" and "ctx_ok ctx"
  shows "server_inv handler ctx_ok s w'"
proof -
  obtain port where s: "s = (zero_server ctx)\<lparr>s_listen := Some (n_fresh w), s_port := port\<rparr>"
    and w': "w' = w\<lparr>n_fresh := n_fresh w + 1, n_open := [n_fresh w]\<rparr>"
    using assms(1,2) by (auto simp: server_open_def Let_def split: if_splits option.splits)
  have z: "s_conns s ! i = zero_conn" if "i < SERVER_MAX_CONNS" for i using that by (simp add: s zero_server_def)
  have "fds_ok s w'" by (rule fds_okI) (auto simp: s w' z zero_server_def zero_conn_def)
  moreover have "wire_ok handler ctx_ok w'" using assms(3,4) by (simp add: w' wire_ok_def)
  moreover have "conn_ok handler ctx_ok w' zero_conn \<and> held w' zero_conn" by (simp add: conn_ok_def held_def zero_conn_def)
  ultimately show ?thesis using assms(5) z by (simp add: server_inv_def s zero_server_def)
qed

context handler_contract
begin

lemma served_inv:
  assumes "server_reach handler ctx s w" and "ctx_ok ctx"
  shows "server_inv handler ctx_ok s w"
  using assms(1)
proof induction
  case (opened k w s w')
  show ?case using server_open_inv [where ctx_ok = ctx_ok, OF opened assms(2)] .
next
  case (stepped s w poll now_a now_b max_wait_ms as ss rs r s' w')
  have "server_inv handler ctx_ok s (w\<lparr>n_recv := rs, n_send := ss, n_accept := as\<rparr>)"
    by (rule server_inv_net [OF stepped.IH]) simp_all
  from server_step_inv(1) [OF stepped.hyps(2) this stepped.hyps(3)] show ?case .
next
  case (closed s w s' w')
  then show ?case using server_close_inv by blast
qed

end

text \<open>The states of the handler that requests can lead to.\<close>

inductive ctx_reach :: "'h handler \<Rightarrow> 'h \<Rightarrow> 'h \<Rightarrow> bool" for handler ctx where
  first: "ctx_reach handler ctx ctx"
| called: "ctx_reach handler ctx h \<Longrightarrow> ctx_reach handler ctx (snd (handler h req r))"

interpretation untrusted: handler_contract handler "ctx_reach handler ctx" for handler ctx
  by unfold_locales (rule ctx_reach.called)

lemma server_reach_inv:
  "server_reach handler ctx s w \<Longrightarrow> server_inv handler (ctx_reach handler ctx) s w"
  by (rule untrusted.served_inv [OF _ ctx_reach.first])

section \<open>What a client reads\<close>

text \<open>A client's reading of a response: the lines of its head up to the empty one, and the rest.\<close>

fun read_line :: "string \<Rightarrow> (string \<times> string) option" where
  "read_line (a # b # s) =
     (if a = CHR 0x0D \<and> b = CHR 0x0A then Some ([], s)
      else map_option (\<lambda>(l, r). (a # l, r)) (read_line (b # s)))"
| "read_line _ = None"

lemma read_line_shorter: "read_line s = Some (l, r) \<Longrightarrow> length r < length s"
  by (induction s arbitrary: l rule: read_line.induct) (auto split: if_splits)

function read_head :: "string \<Rightarrow> (string list \<times> string) option" where
  "read_head s =
     (case read_line s of
        None \<Rightarrow> None
      | Some (l, r) \<Rightarrow> if l = [] then Some ([], r) else map_option (\<lambda>(ls, body). (l # ls, body)) (read_head r))"
  by pat_completeness auto
termination by (relation "measure length") (auto simp: read_line_shorter)

declare read_head.simps [simp del]

lemma read_line_line: "CHR 0x0D \<notin> set l \<Longrightarrow> read_line (l @ crlf @ s) = Some (l, s)"
proof (induction l)
  case (Cons a l)
  then show ?case by (cases "l @ crlf @ s") auto
qed simp

lemma read_head_lines:
  "(\<forall>l \<in> set ls. l \<noteq> [] \<and> CHR 0x0D \<notin> set l) \<Longrightarrow> read_head (concat (map (\<lambda>l. l @ crlf) ls) @ crlf @ body) = Some (ls, body)"
proof (induction ls)
  case Nil
  show ?case by (subst read_head.simps) simp
next
  case (Cons l ls)
  then show ?case
    using read_line_line [of l "concat (map (\<lambda>l. l @ crlf) ls) @ crlf @ body"] by (subst read_head.simps) simp
qed

definition head_lines :: "int \<Rightarrow> string \<Rightarrow> string \<Rightarrow> nat \<Rightarrow> string list" where
  "head_lines status text0 ctype n =
     [''HTTP/1.1 '' @ fmt_d (word_of_int status :: 32 word) @ '' '' @ text0, ''Content-Type: '' @ ctype,
      ''Content-Length: '' @ fmt_u (of_nat n :: u64), ''Connection: close'', ''Cache-Control: no-store'',
      ''X-Content-Type-Options: nosniff''] @
     (if status = HTTP_STATUS_METHOD_NOT_ALLOWED then [''Allow: GET''] else [])"

lemma fmt_u_no_cr: "CHR 0x0D \<notin> set (fmt_u v)"
proof
  assume "CHR 0x0D \<in> set (fmt_u v)"
  then have "is_digit_of 10 (CHR 0x0D)" using print_nat_digits [of 10 _ "unat v"] by (simp add: fmt_u_def)
  then show False by code_simp
qed

lemma status_line_no_cr:
  assumes "status_text status = Some text0"
  shows "CHR 0x0D \<notin> set (''HTTP/1.1 '' @ fmt_d (word_of_int status :: 32 word) @ '' '' @ text0)"
proof -
  have "\<forall>st \<in> set [200, 400, 404, 405, 431, 500, 503]. CHR 0x0D \<notin> set (fmt_d (word_of_int st :: 32 word))" by code_simp
  moreover have "status \<in> set [200, 400, 404, 405, 431, 500, 503] \<and> CHR 0x0D \<notin> set text0"
    using assms by (auto simp: status_text_def split: if_splits)
  ultimately show ?thesis by auto
qed

lemma ctype_ok_no_cr: "ctype_ok (Some t) \<Longrightarrow> CHR 0x0D \<notin> set t"
  by (auto simp: ctype_ok_def list_all_iff)

lemma response_reads_back:
  assumes "response_bytes status (Some ctype) body = Some b" and "ctype_ok (Some ctype)"
  shows "\<exists>text0. status_text status = Some text0 \<and> read_head b = Some (head_lines status text0 ctype (length body), body)"
proof -
  obtain text0 where t: "status_text status = Some text0"
    and b: "b = head_text status text0 ctype (of_nat (length body))
      (if status = HTTP_STATUS_METHOD_NOT_ALLOWED then ''Allow: GET'' @ crlf else []) @ body"
    using assms(1) by (auto simp: response_bytes_def http_write_head_def Let_def snprintf_def split: option.splits if_splits)
  have "b = concat (map (\<lambda>l. l @ crlf) (head_lines status text0 ctype (length body))) @ crlf @ body"
    by (simp add: b head_text_def head_lines_def)
  moreover have "\<forall>l \<in> set (head_lines status text0 ctype (length body)). l \<noteq> [] \<and> CHR 0x0D \<notin> set l"
    using ctype_ok_no_cr [OF assms(2)] fmt_u_no_cr [of "of_nat (length body) :: u64"] status_line_no_cr [OF t]
    by (auto simp: head_lines_def)
  ultimately show ?thesis using t read_head_lines by blast
qed

text \<open>Every answer is one response.\<close>

lemma wire_of_response:
  "\<exists>status ctype body. response_bytes status (Some ctype) body = Some (wire_of r) \<and> ctype_ok (Some ctype) \<and> length body \<le> SERVER_BODY_MAX"
proof -
  have e: "response_bytes HTTP_STATUS_INTERNAL_ERROR (Some ''text/plain'') internal_error_body = Some error_500 \<and>
    ctype_ok (Some ''text/plain'') \<and> length internal_error_body \<le> SERVER_BODY_MAX"
    using error_500_head by (simp add: ctype_ok_def internal_error_body_def)
  show ?thesis
  proof (cases "length (rs_body r) \<le> SERVER_BODY_MAX \<and> ctype_ok (rs_ctype r) \<and> response_bytes (rs_status r) (rs_ctype r) (rs_body r) \<noteq> None")
    case True
    then obtain t b where "rs_ctype r = Some t" "response_bytes (rs_status r) (rs_ctype r) (rs_body r) = Some b"
      by (cases "rs_ctype r") (auto simp: ctype_ok_def)
    then show ?thesis using True by (auto simp: wire_of_def)
  next
    case False
    then have "wire_of r = error_500" by (auto simp: wire_of_def split: option.splits)
    then show ?thesis using e by metis
  qed
qed

lemma answer_response:
  assumes "http_parse_request buf = p" and "fst p \<noteq> HTTP_INCOMPLETE"
  shows "\<exists>status ctype body. response_bytes status (Some ctype) body = Some (answer handler h p) \<and> ctype_ok (Some ctype) \<and>
    length body \<le> SERVER_BODY_MAX"
proof -
  obtain e q where p: "p = (e, q)" by (cases p)
  consider req where "e = HTTP_OK" "q = Some req" | "e \<in> {HTTP_BAD, HTTP_BAD_METHOD, HTTP_TOO_LARGE}"
    using parse_request_some [of buf e q] assms p by auto
  then show ?thesis
  proof cases
    case 1
    then show ?thesis using wire_of_response p by (simp add: answer_def)
  next
    case 2
    obtain b where b: "response_bytes (http_parse_val e) (Some ''text/plain'') (refusal_text e) = Some b"
      using refusal_head [OF 2] by blast
    have "answer handler h p = b" using 2 b p by (auto simp: answer_def)
    moreover have "length (refusal_text e) \<le> SERVER_BODY_MAX" by (cases e) simp_all
    moreover have "ctype_ok (Some ''text/plain'')" by (simp add: ctype_ok_def)
    ultimately show ?thesis using b by blast
  qed
qed

section \<open>Properties\<close>

lemma server_sent_answers:
  assumes "server_reach handler ctx s w" and "sent_to fd w \<noteq> []"
  shows "fst (http_parse_request (recv_from fd w)) \<noteq> HTTP_INCOMPLETE \<and>
    (\<exists>h rest. ctx_reach handler ctx h \<and> sent_to fd w @ rest = answer handler h (http_parse_request (recv_from fd w)))"
proof -
  have "wire_ok handler (ctx_reach handler ctx) w" using server_reach_inv [OF assms(1)] by (simp add: server_inv_def)
  then show ?thesis using assms(2) unfolding wire_ok_def answered_def by metis
qed

text \<open>C5: Whatever the handler returns, however the bytes of a request arrive and however few the socket takes at a
  time, what the server has sent on a connection is the beginning of one answer, that of the handler to the request that
  \<open>http_parse_request\<close> reads from all the bytes received, or the refusal of that request. A client reads from the
  answer the lines of one head, with the length of the body, and one body: a response is never split.\<close>

theorem server_answers_once:
  assumes "server_reach handler ctx s w" and "sent_to fd w \<noteq> []"
  shows "\<exists>h rest b status text0 ctype body.
    ctx_reach handler ctx h \<and> b = answer handler h (http_parse_request (recv_from fd w)) \<and> b = sent_to fd w @ rest \<and>
    status_text status = Some text0 \<and> read_head b = Some (head_lines status text0 ctype (length body), body) \<and>
    length body \<le> SERVER_BODY_MAX"
proof -
  obtain h rest where h: "ctx_reach handler ctx h"
    "answer handler h (http_parse_request (recv_from fd w)) = sent_to fd w @ rest"
    using server_sent_answers [OF assms] by metis
  obtain status ctype body where r: "response_bytes status (Some ctype) body = Some (answer handler h (http_parse_request (recv_from fd w)))"
    "ctype_ok (Some ctype)" "length body \<le> SERVER_BODY_MAX"
    using answer_response [OF refl, of "recv_from fd w" handler h] server_sent_answers [OF assms] by blast
  show ?thesis using h response_reads_back [OF r(1,2)] r(3) by metis
qed

text \<open>C9: No descriptor is leaked or closed twice: after any history the descriptors open are the listener and
  those of the connections in use, all different, at most five; a connection is in use exactly when it has
  one; and \<open>server_close\<close> leaves none.\<close>

theorem server_descriptors:
  assumes "server_reach handler ctx s w"
  shows "distinct (n_open w) \<and> length (n_open w) \<le> SERVER_MAX_CONNS + 1 \<and>
    set (n_open w) = set_option (s_listen s) \<union> {fd. \<exists>c \<in> set (s_conns s). c_fd c = Some fd} \<and>
    (\<forall>c \<in> set (s_conns s). c_state c = CONN_FREE \<longleftrightarrow> c_fd c = None) \<and> n_open (snd (server_close s w)) = []"
proof -
  have inv: "server_inv handler (ctx_reach handler ctx) s w" by (rule server_reach_inv [OF assms])
  then have l: "length (s_conns s) = SERVER_MAX_CONNS" and f: "fds_ok s w"
    and c: "\<And>c. c \<in> set (s_conns s) \<Longrightarrow> conn_ok handler (ctx_reach handler ctx) w c"
    by (auto simp: server_inv_def in_set_conv_nth)
  let ?fds = "{fd. \<exists>c \<in> set (s_conns s). c_fd c = Some fd}"
  have o: "set (n_open w) = set_option (s_listen s) \<union> ?fds"
  proof (rule set_eqI)
    fix g
    have "(\<exists>j < SERVER_MAX_CONNS. c_fd (s_conns s ! j) = Some g) \<longleftrightarrow> g \<in> ?fds"
      using list_ex_length [of "\<lambda>c. c_fd c = Some g" "s_conns s"] l by (simp add: list_ex_iff)
    then show "g \<in> set (n_open w) \<longleftrightarrow> g \<in> set_option (s_listen s) \<union> ?fds" using fds_okD(3) [OF f, of g] by auto
  qed
  have "?fds \<subseteq> the ` c_fd ` set (s_conns s)" by force
  then have "card ?fds \<le> SERVER_MAX_CONNS"
    using card_mono [of "the ` c_fd ` set (s_conns s)" ?fds] card_image_le [of "set (s_conns s)" "\<lambda>c. the (c_fd c)"]
      card_length [of "s_conns s"] l by (simp add: image_image)
  moreover have "card (set_option (s_listen s)) \<le> 1" by (cases "s_listen s") auto
  ultimately have "card (set (n_open w)) \<le> SERVER_MAX_CONNS + 1"
    using card_Un_le [of "set_option (s_listen s)" ?fds] o by simp
  moreover have "n_open (snd (server_close s w)) = []"
    using server_close_inv [OF inv] by (cases "server_close s w") auto
  ultimately show ?thesis using o fds_okD(1) [OF f] distinct_card c conn_ok_fd by fastforce
qed

lemma fold_least:
  fixes f :: "'a \<Rightarrow> u64"
  shows "fold (\<lambda>i m. if f i < m then f i else m) xs a \<le> a \<and> (\<forall>i \<in> set xs. fold (\<lambda>i m. if f i < m then f i else m) xs a \<le> f i)"
proof (induction xs arbitrary: a)
  case (Cons x xs)
  then show ?case by (auto intro: order_trans [of _ "if f x < a then f x else a"])
qed simp

lemma poll_set_wait:
  assumes "poll_set s now wait_a = (who, wait)" and "c \<in> set (s_conns s)" and "c_state c \<noteq> CONN_FREE"
  shows "wait \<le> (if c_deadline_ms c > now then c_deadline_ms c - now else 0)"
proof -
  obtain i where i: "i < length (s_conns s)" "c = s_conns s ! i" using assms(2) by (auto simp: in_set_conv_nth)
  let ?left = "\<lambda>i. if c_deadline_ms (s_conns s ! i) > now then c_deadline_ms (s_conns s ! i) - now else 0"
  let ?busy = "filter (\<lambda>i. c_state (s_conns s ! i) \<noteq> CONN_FREE) [0..<length (s_conns s)]"
  obtain a where "wait = fold (\<lambda>i m. if ?left i < m then ?left i else m) ?busy a"
    using assms(1) unfolding poll_set_def Let_def by (elim Pair_inject) (rule that, erule sym)
  moreover have "i \<in> set ?busy" using i assms(3) by simp
  ultimately have "wait \<le> ?left i" using fold_least [of ?left ?busy a] by blast
  then show ?thesis unfolding i(2) .
qed

text \<open>C10: No client holds a slot for long: after a round whose wait ended at \<open>now_b\<close>, every connection in use
  was accepted less than 10 s before, and the wait that the round asked for ended at the latest with the nearest deadline.\<close>

theorem server_slots_expire:
  assumes "server_reach handler ctx s w" and "s_listen s \<noteq> None" and "now_b < 2 ^ 63"
    and "server_step handler poll now_a now_b max_wait_ms s (w\<lparr>n_recv := rs, n_send := ss, n_accept := as\<rparr>) = (r, s', w')"
    and "poll_set s now_a (if max_wait_ms > 0 then word_of_int max_wait_ms else 0) = (who, wait)"
    and "poll who wait = Poll_Ready evs"
  shows "(\<forall>c \<in> set (s_conns s'). c_state c \<noteq> CONN_FREE \<longrightarrow>
      (\<exists>t. map_of (n_since w') (the (c_fd c)) = Some t \<and> unat now_b < unat t + 2 * unat SERVER_DEADLINE_MS)) \<and>
    (\<forall>c \<in> set (s_conns s). c_state c \<noteq> CONN_FREE \<longrightarrow> wait \<le> (if c_deadline_ms c > now_a then c_deadline_ms c - now_a else 0))"
proof
  have "server_inv handler (ctx_reach handler ctx) s (w\<lparr>n_recv := rs, n_send := ss, n_accept := as\<rparr>)"
    by (rule server_inv_net [OF server_reach_inv [OF assms(1)]]) simp_all
  note step = untrusted.server_step_inv [OF assms(4) this assms(3)]
  have "all_alive now_b s'" using step(2) [OF assms(2)] assms(5,6) by simp
  moreover note step(1)
  ultimately have "alive now_b c \<and> held w' c" if "c \<in> set (s_conns s')" for c
    using that by (auto simp: server_inv_def all_alive_def in_set_conv_nth)
  then show "\<forall>c \<in> set (s_conns s'). c_state c \<noteq> CONN_FREE \<longrightarrow>
      (\<exists>t. map_of (n_since w') (the (c_fd c)) = Some t \<and> unat now_b < unat t + 2 * unat SERVER_DEADLINE_MS)"
    by (fastforce simp: alive_def held_def word_less_nat_alt split: if_splits)
  show "\<forall>c \<in> set (s_conns s). c_state c \<noteq> CONN_FREE \<longrightarrow> wait \<le> (if c_deadline_ms c > now_a then c_deadline_ms c - now_a else 0)"
    using poll_set_wait [OF assms(5)] by blast
qed

definition quiet_net :: net where
  "quiet_net = \<lparr>n_recv = [], n_send = [], n_accept = [], n_fresh = 3, n_open = [], n_got = [], n_sent = [], n_since = []\<rparr>"

definition all_well :: open_calls where
  "all_well = \<lparr>k_pton = True, k_socket = True, k_sockopt = True, k_bind = True, k_listen = True, k_name = Some 8080\<rparr>"

definition empty_handler :: "unit handler" where
  "empty_handler h req r = (r, h)"

lemma conn_write_first:
  assumes "laid_out c" and "length (pending c) > 1" and "c_fd c = Some fd" and "n_send w = [Sent 1]"
  shows "conn_write s c w = (s, c\<lparr>c_out_pos := c_out_pos c + 1\<rparr>,
    w\<lparr>n_send := [], n_sent := n_sent w @ [(fd, take 1 (pending c))]\<rparr>)"
proof -
  have p: "c_out_pos c + 1 < c_out_end c" using assms(2) pending_length [OF assms(1)] by simp
  have a: "sys_send fd (pending c) w = (Sent 1, w\<lparr>n_send := [], n_sent := n_sent w @ [(fd, take 1 (pending c))]\<rparr>)"
    using assms(2,4) by (simp add: sys_send_def)
  show ?thesis
    using p a assms(3) unfolding pending_def
    by (subst conn_write.simps, subst conn_write.simps) (simp add: sys_send_def)
qed

lemma response_long: "response_bytes status ctype body = Some b \<Longrightarrow> length b > 1"
  by (auto simp: response_bytes_def http_write_head_def head_text_def Let_def snprintf_def split: option.splits if_splits)

text \<open>A whole request that arrives at once gets the first byte of its answer.\<close>

lemma first_write:
  assumes "c_fd c = Some fd" and "c_req c = []" and "length (c_buf c) = SERVER_HEAD_MAX + SERVER_BODY_MAX"
    and "n_recv w = [Received q]" and "n_send w = [Sent 1]" and "q \<noteq> []" and "length q \<le> HTTP_MAX_REQUEST"
    and "fst (http_parse_request q) \<noteq> HTTP_INCOMPLETE"
  shows "\<exists>s' c' d. conn_read handler s c now w =
    (s', c', w\<lparr>n_recv := [], n_got := n_got w @ [(fd, q)], n_send := [], n_sent := n_sent w @ [(fd, d)]\<rparr>) \<and> d \<noteq> []"
proof -
  let ?w = "w\<lparr>n_recv := [], n_got := n_got w @ [(fd, q)]\<rparr>" and ?c = "c\<lparr>c_req := q\<rparr>"
  obtain p r where p: "http_parse_request q = (p, r)" by fastforce
  have step: "conn_read handler s c now w =
      (if p = HTTP_OK \<and> r \<noteq> None then dispatch handler s ?c (the r) now ?w else respond_error s ?c p now ?w)"
    using assms p by (cases r; cases p) (simp_all add: conn_read_def Let_def sys_recv_def)
  have "\<exists>s' d. conn_read handler s c now w = begin_write s' d now ?w \<and> laid_out d \<and> same_conn ?c d \<and> length (pending d) > 1"
  proof (cases "p = HTTP_OK \<and> r \<noteq> None")
    case True
    obtain a h where a: "handler (s_ctx s) (the r) preset = (a, h)" by fastforce
    have "length (wire_of a) > 1" using wire_of_response [of a] response_long by blast
    moreover obtain d where "dispatch handler s ?c (the r) now ?w = begin_write (s\<lparr>s_ctx := h\<rparr>) d now ?w" "laid_out d"
      "same_conn ?c d" "pending d = wire_of a"
      using dispatch_begins [of ?c handler s "the r" a h now ?w] assms(3) a by auto
    ultimately show ?thesis using step True by (intro exI [of _ "s\<lparr>s_ctx := h\<rparr>"] exI [of _ d]) simp
  next
    case False
    then have "p \<in> {HTTP_BAD, HTTP_BAD_METHOD, HTTP_TOO_LARGE}" using parse_request_some [OF p] assms(8) p by auto
    then obtain d where "respond_error s ?c p now ?w = begin_write s d now ?w" "laid_out d" "same_conn ?c d"
      "response_bytes (http_parse_val p) (Some ''text/plain'') (refusal_text p) = Some (pending d)"
      using respond_error_begins [of ?c p s now ?w] assms(3) by auto
    moreover from this(4) have "length (pending d) > 1" by (rule response_long)
    ultimately show ?thesis using step False by (intro exI [of _ s] exI [of _ d]) auto
  qed
  then obtain s' d where d: "conn_read handler s c now w = begin_write s' d now ?w" "laid_out d" "same_conn ?c d" "length (pending d) > 1"
    by blast
  let ?d = "d\<lparr>c_state := CONN_WRITING, c_deadline_ms := now + SERVER_DEADLINE_MS\<rparr>"
  have e: "pending ?d = pending d" "laid_out ?d" using d(2) by (simp_all add: pending_def laid_out_def)
  have "c_fd d = Some fd" using same_connD [OF d(3)] assms(1) by simp
  from conn_write_first [OF e(2), of fd ?w s'] this d(1,4) assms(5) e(1)
  have "conn_read handler s c now w = (s', ?d\<lparr>c_out_pos := c_out_pos d + 1\<rparr>,
    w\<lparr>n_recv := [], n_got := n_got w @ [(fd, q)], n_send := [], n_sent := n_sent w @ [(fd, take 1 (pending d))]\<rparr>)"
    by (simp add: begin_write_def)
  moreover have "take 1 (pending d) \<noteq> []" using d(4) by auto
  ultimately show ?thesis by blast
qed

lemma zero_conn_fields [simp]:
  "c_state zero_conn = CONN_FREE" "c_fd zero_conn = None" "length (c_buf zero_conn) = SERVER_HEAD_MAX + SERVER_BODY_MAX"
  by (simp_all add: zero_conn_def)

definition idle_server :: "'h \<Rightarrow> 'h server" where
  "idle_server ctx = (zero_server ctx)\<lparr>s_listen := Some 3, s_port := 8080\<rparr>"

definition idle_net :: net where
  "idle_net = quiet_net\<lparr>n_fresh := 4, n_open := [3]\<rparr>"

definition busy_net :: "string \<Rightarrow> net" where
  "busy_net q = idle_net\<lparr>n_recv := [Received q], n_send := [Sent 1], n_accept := [Accepted]\<rparr>"

lemma busy_net_fields [simp]:
  "n_recv (busy_net q) = [Received q]" "n_send (busy_net q) = [Sent 1]" "n_accept (busy_net q) = [Accepted]"
  "n_fresh (busy_net q) = 4" "n_got (busy_net q) = []" "n_sent (busy_net q) = []"
  by (simp_all add: busy_net_def idle_net_def quiet_net_def)

lemma idle_server_fields [simp]:
  "s_listen (idle_server ctx) = Some 3" "s_conns (idle_server ctx) = replicate 4 zero_conn" "s_accept_resume_ms (idle_server ctx) = 0"
  by (simp_all add: idle_server_def zero_server_def)

lemma idle_reach: "server_reach handler ctx (idle_server ctx) idle_net"
  by (rule server_reach.opened [of all_well _ quiet_net])
     (simp_all add: server_open_def all_well_def quiet_net_def Let_def idle_server_def idle_net_def)

lemma idle_poll: "poll_set (idle_server ctx) 0 0 = ([None], 0)"
proof -
  have "filter (\<lambda>i. c_state (replicate 4 zero_conn ! i) \<noteq> CONN_FREE) [0..<4] = []" by (simp add: filter_empty_conv)
  then show ?thesis by (simp add: poll_set_def Let_def)
qed

lemma idle_slot: "free_slot (idle_server ctx) = Some 0"
  by (simp add: free_slot_def upt_rec [of 0])

lemma idle_reap: "reap (idle_server ctx) now w = (idle_server ctx, w)"
proof -
  have "reap_from now (replicate n zero_conn) t w = (replicate n zero_conn, t, w)" for n t by (induction n) auto
  then show ?thesis by (simp add: reap_def)
qed

lemma first_step:
  assumes "q \<noteq> []" and "length q \<le> HTTP_MAX_REQUEST" and "fst (http_parse_request q) \<noteq> HTTP_INCOMPLETE"
  shows "\<exists>s w. server_step handler (\<lambda>_ _. Poll_Ready [Ev_Ready]) 0 1 0 (idle_server ctx) (busy_net q) = (1, s, w) \<and>
    sent_to 4 w \<noteq> [] \<and> recv_from 4 w = q"
proof -
  let ?c = "accepted_conn 4 1 zero_conn" and ?w = "accepted_net [] 1 (busy_net q)" and ?s = "idle_server ctx"
  have f: "n_recv ?w = [Received q]" "n_send ?w = [Sent 1]" "n_accept ?w = []" "n_sent ?w = []" "n_got ?w = []" "c_fd ?c = Some 4"
    "c_req ?c = []" "length (c_buf ?c) = SERVER_HEAD_MAX + SERVER_BODY_MAX"
    by (simp_all add: accepted_net_def accepted_conn_def)
  obtain s' c' d where d: "conn_read handler ?s ?c 1 ?w =
    (s', c', ?w\<lparr>n_recv := [], n_got := n_got ?w @ [(4, q)], n_send := [], n_sent := n_sent ?w @ [(4, d)]\<rparr>)" "d \<noteq> []"
    using first_write [OF f(6,7,8,1,2) assms] by blast
  have "accept_new handler (Suc n) ?s 1 (busy_net q) =
    (case put_conn 0 (conn_read handler ?s ?c 1 ?w) of (s1, w2) \<Rightarrow> accept_new handler n s1 1 w2)" for n
    by (simp add: idle_slot Let_def accepted_conn_def accepted_net_def split: prod.split)
  from this [of 15] have "accept_new handler 16 ?s 1 (busy_net q) =
    (case put_conn 0 (conn_read handler ?s ?c 1 ?w) of (s1, w2) \<Rightarrow> accept_new handler 15 s1 1 w2)" by simp
  moreover have "accept_new handler n s 1 w = (s, w)" if "n_accept w = []" for n s w using that by (cases n) simp_all
  ultimately obtain s1 w1 where a: "accept_new handler 16 ?s 1 (busy_net q) = (s1, w1)" "n_sent w1 = [(4, d)]" "n_got w1 = [(4, q)]"
    using d(1) f(3,4,5) by (simp add: put_conn_def)
  then show ?thesis using d(2) by (simp add: server_step_def idle_reap idle_poll)
qed

text \<open>One such round is a history.\<close>

lemma first_reach:
  assumes "q \<noteq> []" and "length q \<le> HTTP_MAX_REQUEST" and "fst (http_parse_request q) \<noteq> HTTP_INCOMPLETE"
  shows "\<exists>s w. server_reach handler ctx s w \<and> sent_to 4 w \<noteq> [] \<and> recv_from 4 w = q"
proof -
  obtain s w where st: "server_step handler (\<lambda>_ _. Poll_Ready [Ev_Ready]) 0 1 0 (idle_server ctx) (busy_net q) = (1, s, w)"
    and n: "sent_to 4 w \<noteq> []" "recv_from 4 w = q"
    using first_step [OF assms, of handler ctx] by blast
  have "server_reach handler ctx s w" by (rule server_reach.stepped [OF idle_reach st [unfolded busy_net_def]]) simp
  then show ?thesis using n by blast
qed

lemma nonsense_request: "fst (http_parse_request (''X'' @ crlf @ crlf)) \<noteq> HTTP_INCOMPLETE"
  by code_simp

lemma server_answers_once_witness:
  "\<exists>s w h rest b status text0 ctype body. server_reach empty_handler () s w \<and> recv_from 4 w = ''X'' @ crlf @ crlf \<and> sent_to 4 w \<noteq> [] \<and>
    ctx_reach empty_handler () h \<and> b = answer empty_handler h (http_parse_request (recv_from 4 w)) \<and> b = sent_to 4 w @ rest \<and>
    status_text status = Some text0 \<and> read_head b = Some (head_lines status text0 ctype (length body), body) \<and>
    length body \<le> SERVER_BODY_MAX"
proof -
  have "\<exists>s w. server_reach empty_handler () s w \<and> sent_to 4 w \<noteq> [] \<and> recv_from 4 w = ''X'' @ crlf @ crlf"
    by (rule first_reach [OF _ _ nonsense_request]) simp_all
  then obtain s w where r: "server_reach empty_handler () s w" "sent_to 4 w \<noteq> []" "recv_from 4 w = ''X'' @ crlf @ crlf"
    by blast
  show ?thesis using server_answers_once [OF r(1,2)] r by blast
qed

lemma server_descriptors_witness:
  "n_open idle_net = [3] \<and> n_open (snd (server_close (idle_server ()) idle_net)) = []"
  using server_descriptors [OF idle_reach [of empty_handler "()"]] by (simp add: idle_net_def)

lemma server_slots_expire_witness:
  "\<exists>s w. server_step empty_handler (\<lambda>_ _. Poll_Ready [Ev_Ready]) 0 1 0 (idle_server ()) (busy_net (''X'' @ crlf @ crlf)) = (1, s, w) \<and>
    (\<forall>c \<in> set (s_conns s). c_state c \<noteq> CONN_FREE \<longrightarrow>
      (\<exists>t. map_of (n_since w) (the (c_fd c)) = Some t \<and> unat (1 :: u64) < unat t + 2 * unat SERVER_DEADLINE_MS))"
proof -
  have "\<exists>s w. server_step empty_handler (\<lambda>_ _. Poll_Ready [Ev_Ready]) 0 1 0 (idle_server ()) (busy_net (''X'' @ crlf @ crlf)) = (1, s, w) \<and>
    sent_to 4 w \<noteq> [] \<and> recv_from 4 w = ''X'' @ crlf @ crlf"
    by (rule first_step [OF _ _ nonsense_request]) simp_all
  then obtain s w where st: "server_step empty_handler (\<lambda>_ _. Poll_Ready [Ev_Ready]) 0 1 0 (idle_server ()) (busy_net (''X'' @ crlf @ crlf)) = (1, s, w)"
    by blast
  have "poll_set (idle_server ()) 0 (if (0 :: int) > 0 then word_of_int 0 else 0) = ([None], 0)" using idle_poll by simp
  from server_slots_expire [OF idle_reach _ _ st [unfolded busy_net_def] this] st show ?thesis by simp
qed


end
