(* ===== verification/Synth_Source.thy ===== *)
theory Synth_Source
  imports Route_Answers
begin

text \<open>
  The source of made-up numbers: \<open>include/interface/synth_source.h\<close> and
  \<open>src/interface/synth_source.c\<close>. Times are 64-bit words and wrap as in C. The arithmetic and the
  printing of doubles are the C library's: a \<open>doubles\<close> record is an argument of what uses them, its
  literals the source's texts. A reply is the text before its NUL.
\<close>

unbundle bit_operations_syntax

section \<open>State and output\<close>

abbreviation (input) MAX_WINDOW_S :: u64 where "MAX_WINDOW_S \<equiv> 3600"
abbreviation (input) MAX_SAMPLES :: u64 where "MAX_SAMPLES \<equiv> 300"
abbreviation (input) BOOT_AGO_S :: u64 where "BOOT_AGO_S \<equiv> 3600"

record synth =
  sy_t0 :: u64
  sy_now_s :: u64

text \<open>The C library's doubles: literals, arithmetic, \<open>sin\<close>, conversion, and printing with \<open>%.1f\<close>.\<close>

record 'd doubles =
  d_lit :: "string \<Rightarrow> 'd"
  d_of :: "u64 \<Rightarrow> 'd"
  d_add :: "'d \<Rightarrow> 'd \<Rightarrow> 'd"
  d_sub :: "'d \<Rightarrow> 'd \<Rightarrow> 'd"
  d_mul :: "'d \<Rightarrow> 'd \<Rightarrow> 'd"
  d_div :: "'d \<Rightarrow> 'd \<Rightarrow> 'd"
  d_sin :: "'d \<Rightarrow> 'd"
  d_fmt1 :: "'d \<Rightarrow> string"

record out_buf =
  o_cap :: nat
  o_buf :: string
  o_over :: bool

definition outf :: "string \<Rightarrow> out_buf \<Rightarrow> out_buf" where
  "outf text0 ob =
     (if o_over ob then ob
      else let room = o_cap ob - length (o_buf ob);
               (w, n) = snprintf room text0
           in if n \<ge> room then ob\<lparr>o_over := True\<rparr> else ob\<lparr>o_buf := o_buf ob @ w\<rparr>)"

abbreviation (input) nl :: string where "nl \<equiv> [CHR 0x0A]"
abbreviation (input) quote :: "string \<Rightarrow> string" where "quote s \<equiv> [CHR 0x22] @ s @ [CHR 0x22]"

definition reply_err :: "string \<Rightarrow> string \<Rightarrow> out_buf \<Rightarrow> out_buf" where
  "reply_err code reason = outf (''err '' @ code @ '' '' @ reason @ nl)"

definition mix :: "u64 \<Rightarrow> u32" where
  "mix x =
     (let x = x XOR drop_bit 33 x;
          x = x * 0xff51afd7ed558ccd;
          x = x XOR drop_bit 33 x;
          x = x * 0xc4ceb9fe1a85ec53;
          x = x XOR drop_bit 33 x
      in ucast x)"

definition noise :: "'d doubles \<Rightarrow> u64 \<Rightarrow> u64 \<Rightarrow> 'd" where
  "noise D t k = d_sub D (d_div D (d_of D (ucast (mix (t * 31 + k) mod 2001))) (d_lit D ''1000.0'')) (d_lit D ''1.0'')"

definition ago :: "u64 \<Rightarrow> u64 \<Rightarrow> u64" where
  "ago now secs = (if now \<ge> secs then now - secs else 0)"

definition find_field :: "kv_line \<Rightarrow> string \<Rightarrow> kv_field option" where
  "find_field l k = find (\<lambda>f. key f = k) (flds l)"

section \<open>status\<close>

record proc =
  p_name :: string
  p_pid :: u32
  p_rss_kb :: u32
  p_restarts :: u32
  p_events_per_s :: u32

definition proc_of :: "string \<Rightarrow> u32 \<Rightarrow> u32 \<Rightarrow> u32 \<Rightarrow> u32 \<Rightarrow> proc" where
  "proc_of n p m r e = \<lparr>p_name = n, p_pid = p, p_rss_kb = m, p_restarts = r, p_events_per_s = e\<rparr>"

definition procs :: "proc list" where
  "procs =
     [proc_of ''supervisor'' 101 1400 0 1, proc_of ''obdd'' 102 2100 0 15,
      proc_of ''ambientd'' 103 1500 0 1, proc_of ''storaged'' 104 3200 0 16,
      proc_of ''analyzed'' 105 4800 2 16, proc_of ''statusd'' 106 2600 0 1]"

definition uptime :: "synth \<Rightarrow> proc \<Rightarrow> u64" where
  "uptime s p = (if p_restarts p > 0 then sy_now_s s - sy_t0 s + 900 else sy_now_s s - sy_t0 s + BOOT_AGO_S)"

definition cpu_pct :: "'d doubles \<Rightarrow> synth \<Rightarrow> nat \<Rightarrow> 'd" where
  "cpu_pct D s i =
     d_add D (d_lit D ''0.2'') (d_div D (d_of D (ucast (mix (sy_now_s s div 5 + 7 * of_nat i) mod 40))) (d_lit D ''10.0''))"

definition proc_line :: "'d doubles \<Rightarrow> synth \<Rightarrow> nat \<Rightarrow> string" where
  "proc_line D s i =
     (let p = procs ! i; u = uptime s p
      in ''proc name='' @ quote (p_name p) @ '' state='' @ quote ''up'' @ '' pid='' @ fmt_u (p_pid p) @
         '' uptime_s='' @ fmt_u u @ '' restarts='' @ fmt_u (p_restarts p) @
         '' rss_kb='' @ fmt_u (p_rss_kb p + mix (sy_now_s s div 10 + of_nat i) mod 64) @
         '' cpu_pct='' @ d_fmt1 D (cpu_pct D s i) @
         '' events='' @ fmt_u (u * ucast (p_events_per_s p)) @ '' drops=0 src='' @ quote ''synth'' @ nl)"

definition ring_line :: "string \<Rightarrow> u32 \<Rightarrow> string" where
  "ring_line name depth =
     ''ring name='' @ quote name @ '' depth='' @ fmt_u depth @ '' capacity=4096 overruns=0 src='' @ quote ''synth'' @ nl"

definition link_line :: string where
  "link_line = ''link dongle='' @ quote ''up'' @ '' probe='' @ quote ''present'' @ '' light='' @ quote ''green'' @
     '' time_trusted=1 src='' @ quote ''synth'' @ nl"

definition srcmix_line :: "synth \<Rightarrow> string" where
  "srcmix_line s = ''srcmix live=0 replay=0 synth='' @ fmt_u ((sy_now_s s - sy_t0 s + BOOT_AGO_S) * 16) @
     '' src='' @ quote ''synth'' @ nl"

definition reply_status :: "'d doubles \<Rightarrow> synth \<Rightarrow> out_buf \<Rightarrow> out_buf" where
  "reply_status D s ob =
     (let ob = fold (\<lambda>i. outf (proc_line D s i)) [0..<length procs] ob;
          ob = outf (ring_line ''obd'' (mix (sy_now_s s + 1) mod 40)) ob;
          ob = outf (ring_line ''ambient'' (mix (sy_now_s s + 2) mod 3)) ob;
          ob = outf link_line ob;
          ob = outf (srcmix_line s) ob
      in outf (''ok'' @ nl) ob)"

section \<open>verdicts\<close>

definition reply_verdicts :: "synth \<Rightarrow> out_buf \<Rightarrow> out_buf" where
  "reply_verdicts s ob =
     (let ob = outf (''verdict id=1 area='' @ quote ''cooling'' @ '' sensors='' @ quote ''coolant,intake'' @
                 '' residual=3.4 state='' @ quote ''active'' @ '' start_s='' @ fmt_u (ago (sy_now_s s) 420) @
                 '' end_s=null src='' @ quote ''synth'' @ nl) ob;
          ob = outf (''verdict id=2 area='' @ quote ''air_fuel'' @ '' sensors='' @ quote ''ltft,maf'' @
                 '' residual=2.6 state='' @ quote ''ended'' @ '' start_s='' @ fmt_u (ago (sy_now_s s) 5400) @
                 '' end_s='' @ fmt_u (ago (sy_now_s s) 4200) @ '' src='' @ quote ''synth'' @ nl) ob
      in outf (''ok'' @ nl) ob)"

section \<open>faults\<close>

record fault_event =
  e_secs_ago :: u64
  e_kind :: string
  e_source :: string
  e_fcode :: string
  e_detail :: string

definition events :: "fault_event list" where
  "events =
     [\<lparr>e_secs_ago = 3000, e_kind = ''detection'', e_source = ''ambientd'', e_fcode = ''sensor_absent'',
       e_detail = ''probe not answering''\<rparr>,
      \<lparr>e_secs_ago = 2990, e_kind = ''degradation'', e_source = ''ambientd'', e_fcode = ''capture_continues'',
       e_detail = ''engine capture unaffected''\<rparr>,
      \<lparr>e_secs_ago = 2400, e_kind = ''recovery'', e_source = ''ambientd'', e_fcode = ''sensor_present'',
       e_detail = ''probe answering again''\<rparr>,
      \<lparr>e_secs_ago = 420, e_kind = ''detection'', e_source = ''analyzed'', e_fcode = ''verdict_surfaced'',
       e_detail = ''cooling residual above trip level''\<rparr>]"

definition fault_line :: "synth \<Rightarrow> fault_event \<Rightarrow> string" where
  "fault_line s e =
     ''fault t_s='' @ fmt_u (ago (sy_now_s s) (e_secs_ago e)) @ '' kind='' @ quote (e_kind e) @
     '' source='' @ quote (e_source e) @ '' code='' @ quote (e_fcode e) @ '' detail='' @ quote (e_detail e) @
     '' src='' @ quote ''synth'' @ nl"

definition reply_faults :: "synth \<Rightarrow> out_buf \<Rightarrow> out_buf" where
  "reply_faults s ob = outf (''ok'' @ nl) (fold (\<lambda>e. outf (fault_line s e)) events ob)"

section \<open>series\<close>

record signal =
  g_pid :: string
  g_base :: string
  g_amp :: string
  g_period_s :: string
  g_wobble :: string

definition signal_of :: "string \<Rightarrow> string \<Rightarrow> string \<Rightarrow> string \<Rightarrow> string \<Rightarrow> signal" where
  "signal_of p b a t w = \<lparr>g_pid = p, g_base = b, g_amp = a, g_period_s = t, g_wobble = w\<rparr>"

definition signals :: "signal list" where
  "signals =
     [signal_of ''0C'' ''1800'' ''700'' ''90'' ''25'', signal_of ''0D'' ''55'' ''25'' ''140'' ''1'',
      signal_of ''05'' ''88'' ''4'' ''600'' ''0.3'', signal_of ''04'' ''35'' ''20'' ''90'' ''2'',
      signal_of ''06'' ''0.5'' ''2'' ''60'' ''0.3'', signal_of ''07'' ''1.5'' ''0.5'' ''3000'' ''0.1'',
      signal_of ''probe'' ''21'' ''2'' ''1800'' ''0.1'']"

abbreviation (input) PROBE :: nat where "PROBE \<equiv> length signals - 1"

text \<open>The text of a time: \<open>now\<close>, or 1 to 5 digits before now in seconds, minutes or hours, or bare
  Unix seconds.\<close>

definition parse_text :: "string \<Rightarrow> u64 \<Rightarrow> u64 option" where
  "parse_text text0 now =
     (if text0 = ''now'' then Some now
      else let d = (if text0 \<noteq> [] \<and> hd text0 = CHR ''-'' then length (takeWhile is_digit (tl text0)) else 0)
           in if d < 1 \<or> d > 5 then None
              else case drop (1 + d) text0 of
                  [unit0] \<Rightarrow>
                    if unit0 \<noteq> CHR ''s'' \<and> unit0 \<noteq> CHR ''m'' \<and> unit0 \<noteq> CHR ''h'' then None
                    else let secs = of_nat (read_digits 10 (takeWhile is_digit (tl text0))) *
                               (if unit0 = CHR ''s'' then 1 else if unit0 = CHR ''m'' then 60 else 3600) :: u64
                         in if secs > now then None else Some (now - secs)
                | _ \<Rightarrow> None)"

definition parse_when :: "kv_line \<Rightarrow> string \<Rightarrow> string \<Rightarrow> u64 \<Rightarrow> u64 option" where
  "parse_when req k dflt now =
     (let f = find_field req k;
          text0 = (case f of Some f \<Rightarrow> val f | None \<Rightarrow> dflt);
          type = (case f of Some f \<Rightarrow> ftype f | None \<Rightarrow> KV_STR)
      in if type = KV_NULL then None
         else if type = KV_NUM then
           if length text0 > 12 \<or> \<not> list_all is_digit text0 then None
           else Some (of_nat (read_digits 10 text0))
         else parse_text text0 now)"

definition signal_value :: "'d doubles \<Rightarrow> nat \<Rightarrow> u64 \<Rightarrow> 'd" where
  "signal_value D k t =
     (let g = signals ! k;
          angle = d_add D (d_div D (d_mul D (d_mul D (d_lit D ''2'') (d_lit D ''3.14159265358979323846'')) (d_of D t))
                     (d_lit D (g_period_s g))) (d_of D (of_nat k))
      in d_add D (d_add D (d_lit D (g_base g)) (d_mul D (d_lit D (g_amp g)) (d_sin D angle)))
           (d_mul D (d_lit D (g_wobble g)) (noise D t (of_nat k))))"

definition sample_line :: "'d doubles \<Rightarrow> nat \<Rightarrow> u64 \<Rightarrow> string" where
  "sample_line D k t =
     (let value = (if k = PROBE \<and> t mod 900 < 60 then ''null'' else d_fmt1 D (signal_value D k t))
      in ''sample pid='' @ quote (g_pid (signals ! k)) @ '' t_s='' @ fmt_u t @ '' value='' @ value @
         '' src='' @ quote ''synth'' @ nl)"

text \<open>The loop over the samples: with 64-bit times it need not end by itself, so not returning is
  \<open>None\<close>.\<close>

partial_function (option) sample_loop :: "'d doubles \<Rightarrow> nat \<Rightarrow> u64 \<Rightarrow> u64 \<Rightarrow> u64 \<Rightarrow> out_buf \<Rightarrow> out_buf option" where
  "sample_loop D k to0 step t ob =
     (if t \<le> to0 then sample_loop D k to0 step (t + step) (outf (sample_line D k t) ob) else Some ob)"

definition reply_series :: "'d doubles \<Rightarrow> synth \<Rightarrow> kv_line \<Rightarrow> out_buf \<Rightarrow> out_buf option" where
  "reply_series D s req ob =
     (case find_field req ''pid'' of
        None \<Rightarrow> Some (reply_err ''usage'' ''series needs a pid'' ob)
      | Some pid \<Rightarrow>
          if ftype pid \<noteq> KV_STR then Some (reply_err ''usage'' ''series needs a pid'' ob)
          else let k = length (takeWhile (\<lambda>g. g_pid g \<noteq> val pid) signals)
               in if k = length signals then Some (reply_err ''unknown_pid'' ''no such pid'' ob)
                  else case (parse_when req ''from'' ''-5m'' (sy_now_s s), parse_when req ''to'' ''now'' (sy_now_s s)) of
                      (Some from0, Some to0) \<Rightarrow>
                        if from0 \<ge> to0 \<or> to0 - from0 > MAX_WINDOW_S
                        then Some (reply_err ''usage'' ''window must be 1 to 3600 seconds'' ob)
                        else let step = (to0 - from0) div MAX_SAMPLES + 1
                             in map_option (outf (''ok'' @ nl))
                                  (sample_loop D k to0 step ((from0 + step - 1) div step * step) ob)
                    | _ \<Rightarrow> Some (reply_err ''usage'' ''bad from or to'' ob))"

section \<open>The seam\<close>

definition synth_dispatch :: "'d doubles \<Rightarrow> synth \<Rightarrow> kv_kind \<Rightarrow> kv_line \<Rightarrow> out_buf \<Rightarrow> out_buf option" where
  "synth_dispatch D s k req ob =
     (if k \<noteq> KV_RECORD then Some (reply_err ''usage'' ''malformed request'' ob)
      else if tag req = ''status'' then Some (reply_status D s ob)
      else if tag req = ''verdicts'' then Some (reply_verdicts s ob)
      else if tag req = ''faults'' then Some (reply_faults s ob)
      else if tag req = ''series'' then reply_series D s req ob
      else if tag req = ''baseline'' then Some (reply_err ''unavailable'' ''baseline is not served yet'' ob)
      else Some (reply_err ''unknown_verb'' ''no such verb'' ob))"

text \<open>The outer \<open>None\<close> is not returning, the inner one the return of -1.\<close>

definition synth_query :: "'d doubles \<Rightarrow> synth \<Rightarrow> string \<Rightarrow> nat \<Rightarrow> string option option" where
  "synth_query D s request cap =
     (let (k, req) = kv_parse_line request
      in map_option (\<lambda>ob. if o_over ob then None else Some (o_buf ob))
           (synth_dispatch D s k req \<lparr>o_cap = cap, o_buf = [], o_over = False\<rparr>))"

definition synth_init :: "u64 \<Rightarrow> synth" where
  "synth_init now_s = \<lparr>sy_t0 = now_s, sy_now_s = now_s\<rparr>"

definition synth_set_time :: "synth \<Rightarrow> u64 \<Rightarrow> synth" where
  "synth_set_time s now_s = s\<lparr>sy_now_s := now_s\<rparr>"


end
