(* ===== verification/Synth_Replies.thy ===== *)
theory Synth_Replies
  imports Synth_Source
begin

text \<open>
  The synthetic source keeps the contract of \<open>source.h\<close> (locale \<open>reply_source\<close>, interpreted on
  \<open>synth_query\<close>): each line it prints is a well-formed record marked src="synth" (\<open>synth_lineI\<close> and
  the lemmas on the lines), the loop over the samples ends (\<open>sample_loop_ends\<close>), and every branch
  leaves a whole reply (\<open>synth_query_replies\<close>).
\<close>

section \<open>Output\<close>

lemma outf_cap [simp]: "o_cap (outf t ob) = o_cap ob"
  by (simp add: outf_def Let_def case_prod_beta)

lemma outf_text: "\<not> o_over (outf t ob) \<Longrightarrow>
   \<not> o_over ob \<and> o_buf (outf t ob) = o_buf ob @ t \<and> length (o_buf (outf t ob)) < o_cap ob"
  by (auto simp: outf_def Let_def snprintf_def split: if_splits)

text \<open>A reply that was not cut is the concatenation of its lines, and fits.\<close>

lemma fold_outf_text: "\<not> o_over (fold outf ts ob) \<Longrightarrow>
   \<not> o_over ob \<and> o_buf (fold outf ts ob) = o_buf ob @ concat ts \<and> (ts \<noteq> [] \<longrightarrow> length (o_buf (fold outf ts ob)) < o_cap ob)"
proof (induction ts arbitrary: ob)
  case (Cons t ts)
  then show ?case using Cons.IH [of "outf t ob"] outf_text [of t ob] by (cases "ts = []") auto
qed simp

section \<open>Lines\<close>

definition short_number :: "string \<Rightarrow> bool" where
  "short_number t \<longleftrightarrow> json_is_number (Some t) \<and> length t \<le> 40"

definition num :: "string \<Rightarrow> string \<Rightarrow> kv_field" where
  "num k v = \<lparr>key = k, val = v, ftype = KV_NUM\<rparr>"

definition str :: "string \<Rightarrow> string \<Rightarrow> kv_field" where
  "str k v = \<lparr>key = k, val = v, ftype = KV_STR\<rparr>"

definition line_of :: "string \<Rightarrow> kv_field list \<Rightarrow> kv_line" where
  "line_of t fs = \<lparr>tag = t, flds = fs, err_code = [], err_reason = []\<rparr>"

definition str_ok :: "string \<Rightarrow> bool" where
  "str_ok v \<longleftrightarrow> length v \<le> 40 \<and> list_all (\<lambda>c. 0x20 \<le> (of_char c :: nat) \<and> (of_char c :: nat) < 0x7F \<and> c \<noteq> CHR 0x22 \<and> c \<noteq> CHR 0x5C) v"

fun field_short :: "kv_field \<Rightarrow> bool" where
  "field_short f = (is_name (key f) KV_MAX_KEY \<and>
     (case ftype f of KV_NUM \<Rightarrow> short_number (val f) | KV_STR \<Rightarrow> str_ok (val f) | KV_NULL \<Rightarrow> val f = ''null''))"

lemma field_short_ok: "field_short f \<Longrightarrow> field_ok f \<and> length (show_field f) \<le> 66"
proof -
  assume f: "field_short f"
  have n: "length (key f) < 24" using f by (auto simp: is_name_def)
  have p: "printable (val f)" if "ftype f = KV_NUM"
    using f that number_num_chars [of "val f"] num_char_printable by (auto simp: short_number_def)
  show ?thesis
    using f n p by (cases "ftype f")
      (auto simp: field_ok_def short_number_def str_ok_def list_all_iff show_field_def show_value_def)
qed

text \<open>A line of the source: a record marked synthetic.\<close>

definition synth_line :: "string \<Rightarrow> bool" where
  "synth_line t \<longleftrightarrow> (\<exists>l. t = line_text l @ nl \<and> record_fits l \<and> kv_get l ''src'' = Some ''synth'' \<and> kv_get l ''tag'' = None)"

lemma show_fields_length: "\<forall>f \<in> set fs. field_short f \<Longrightarrow> length (show_fields fs) \<le> 67 * length fs"
proof (induction fs)
  case (Cons f fs)
  then show ?case using field_short_ok [of f] by (simp add: show_fields_Cons)
qed (simp add: show_fields_def)

lemma synth_lineI:
  assumes "t = tg @ show_fields fs @ nl" and "is_name tg KV_MAX_TAG" and "tg \<noteq> ''ok''" "tg \<noteq> ''err''"
    and "list_all field_short fs" and "distinct (map key fs)" and "length fs \<le> 7 \<or> length (tg @ show_fields fs) \<le> KV_MAX_LINE"
    and "length fs \<le> KV_MAX_FIELDS" and "''tag'' \<notin> set (map key fs)" and "last fs = str ''src'' ''synth''" and "fs \<noteq> []"
  shows "synth_line t"
proof -
  have f: "\<forall>f \<in> set fs. field_short f" using assms(5) by (simp add: list_all_iff)
  then have ok: "fields_ok fs" using field_short_ok assms(6,8) by (auto simp: fields_ok_def)
  have "record_line (tg @ show_fields fs) (line_of tg fs)" using assms(2-4) ok by (simp add: record_line_def line_of_def)
  moreover have "length (tg @ show_fields fs) \<le> KV_MAX_LINE"
    using assms(7) show_fields_length [OF f] assms(2) by (auto simp: is_name_def)
  moreover have "kv_get (line_of tg fs) ''src'' = Some ''synth''"
    using find_key [of "last fs" fs] last_in_set [OF assms(11)] assms(6,10) by (simp add: kv_get_def line_of_def str_def)
  moreover have "kv_get (line_of tg fs) ''tag'' = None"
    using assms(9) by (auto simp: kv_get_def line_of_def find_None_iff image_iff)
  ultimately show ?thesis using assms(1) unfolding synth_line_def record_fits_def
    by (intro exI [of _ "line_of tg fs"]) (simp add: line_text_def line_of_def)
qed

lemma fmt_u_number: "json_is_number (Some (fmt_u (w :: 'a::len word)))"
proof -
  have "number_text ([] @ print_nat 10 (unat w))"
    using print_nat_int_text [of "unat w"] unfolding number_text_def
    by (intro exI [of _ "[]"] exI [of _ "print_nat 10 (unat w)"]) (simp add: frac_text_def exp_text_def)
  then show ?thesis by (simp add: is_number_text fmt_u_def)
qed

lemma fmt_u_short: "short_number (fmt_u (w :: u64))" "short_number (fmt_u (v :: u32))"
  using fmt_u_number [of w] fmt_u_number [of v] length_fmt_u64 [of w] length_fmt_u [of v]
  by (simp_all add: short_number_def)

lemmas line_simps = show_fields_def show_field_def show_value_def num_def str_def

text \<open>What the source relies on of the C library: \<open>%.1f\<close> prints the values it computes as short
  decimal numbers.\<close>

definition prints_numbers :: "'d doubles \<Rightarrow> bool" where
  "prints_numbers D \<longleftrightarrow> (\<forall>k t. short_number (d_fmt1 D (signal_value D k t))) \<and>
     (\<forall>s i. short_number (d_fmt1 D (cpu_pct D s i)))"

lemma short_literals: "short_number ''0''" "short_number ''4096''" "short_number ''1''" "short_number ''2''"
  "short_number ''3.4''" "short_number ''2.6''"
  by code_simp+

lemma ring_line_synth: "str_ok name \<Longrightarrow> synth_line (ring_line name depth)"
  by (rule synth_lineI [of _ "''ring''" "[str ''name'' name, num ''depth'' (fmt_u depth), num ''capacity'' ''4096'',
        num ''overruns'' ''0'', str ''src'' ''synth'']"])
    (simp_all add: ring_line_def line_simps is_name_def is_ident_def char_le_nat str_ok_def fmt_u_short short_literals)

lemma link_line_synth: "synth_line link_line"
  by (rule synth_lineI [of _ "''link''" "[str ''dongle'' ''up'', str ''probe'' ''present'', str ''light'' ''green'',
        num ''time_trusted'' ''1'', str ''src'' ''synth'']"])
    (simp_all add: link_line_def line_simps is_name_def is_ident_def char_le_nat str_ok_def short_literals)

lemma srcmix_line_synth: "synth_line (srcmix_line s)"
  by (rule synth_lineI [of _ "''srcmix''" "[num ''live'' ''0'', num ''replay'' ''0'',
        num ''synth'' (fmt_u ((sy_now_s s - sy_t0 s + BOOT_AGO_S) * 16)), str ''src'' ''synth'']"])
    (simp_all add: srcmix_line_def line_simps is_name_def is_ident_def char_le_nat str_ok_def fmt_u_short short_literals)

lemma fault_line_synth:
  "str_ok (e_kind e) \<Longrightarrow> str_ok (e_source e) \<Longrightarrow> str_ok (e_fcode e) \<Longrightarrow> str_ok (e_detail e) \<Longrightarrow> synth_line (fault_line s e)"
  by (rule synth_lineI [of _ "''fault''" "[num ''t_s'' (fmt_u (ago (sy_now_s s) (e_secs_ago e))), str ''kind'' (e_kind e),
        str ''source'' (e_source e), str ''code'' (e_fcode e), str ''detail'' (e_detail e), str ''src'' ''synth'']"])
    (simp_all add: fault_line_def line_simps is_name_def is_ident_def char_le_nat fmt_u_short, simp_all add: str_ok_def)

lemma sample_line_synth:
  assumes "prints_numbers D" and "k < length signals"
  shows "synth_line (sample_line D k t)"
proof -
  define v where "v = (if k = PROBE \<and> t mod 900 < 60 then \<lparr>key = ''value'', val = ''null'', ftype = KV_NULL\<rparr>
      else num ''value'' (d_fmt1 D (signal_value D k t)))"
  have v: "key v = ''value''" "field_short v"
    using assms(1) by (simp_all add: v_def num_def is_name_def is_ident_def char_le_nat prints_numbers_def)
  have p: "str_ok (g_pid (signals ! k))"
    using assms(2) by (auto simp: signals_def signal_of_def nth_Cons' str_ok_def split: if_splits)
  have t: "sample_line D k t = ''sample'' @ show_fields [str ''pid'' (g_pid (signals ! k)), num ''t_s'' (fmt_u t), v,
      str ''src'' ''synth''] @ nl"
    by (simp add: sample_line_def v_def line_simps Let_def)
  show ?thesis
    by (rule synth_lineI [OF t])
      (use v p in \<open>simp_all add: str_def num_def is_name_def is_ident_def char_le_nat fmt_u_short, simp_all add: str_ok_def\<close>)
qed

lemma proc_line_synth:
  assumes "prints_numbers D" and "i < length procs"
  shows "synth_line (proc_line D s i)"
proof -
  define p where "p = procs ! i"
  define u where "u = uptime s p"
  have n: "str_ok (p_name p)" "length (p_name p) \<le> 10"
    using assms(2) by (auto simp: p_def procs_def proc_of_def nth_Cons' str_ok_def split: if_splits)
  have c: "short_number (d_fmt1 D (cpu_pct D s i))" using assms(1) by (simp add: prints_numbers_def)
  let ?fs = "[str ''name'' (p_name p), str ''state'' ''up'', num ''pid'' (fmt_u (p_pid p)), num ''uptime_s'' (fmt_u u),
      num ''restarts'' (fmt_u (p_restarts p)),
      num ''rss_kb'' (fmt_u (p_rss_kb p + mix (sy_now_s s div 10 + of_nat i) mod 64)),
      num ''cpu_pct'' (d_fmt1 D (cpu_pct D s i)), num ''events'' (fmt_u (u * ucast (p_events_per_s p))),
      num ''drops'' ''0'', str ''src'' ''synth'']"
  have t: "proc_line D s i = ''proc'' @ show_fields ?fs @ nl"
    by (simp add: proc_line_def p_def [symmetric] u_def [symmetric] line_simps Let_def)
  have "length (''proc'' @ show_fields ?fs) \<le> KV_MAX_LINE"
    using n(2) c length_fmt_u64 [of u] length_fmt_u64 [of "u * ucast (p_events_per_s p)"] length_fmt_u [of "p_pid p"]
      length_fmt_u [of "p_restarts p"] length_fmt_u [of "p_rss_kb p + mix (sy_now_s s div 10 + of_nat i) mod 64"]
    by (simp add: line_simps short_number_def)
  then show ?thesis
    by (intro synth_lineI [OF t])
      (use n c in \<open>simp_all add: str_def num_def is_name_def is_ident_def char_le_nat fmt_u_short short_literals,
        simp_all add: str_ok_def\<close>)
qed

section \<open>Replies\<close>

text \<open>A whole reply of the source: synthetic records and an ok, or an error alone.\<close>

definition synth_reply :: "string \<Rightarrow> bool" where
  "synth_reply t \<longleftrightarrow>
     (\<exists>ls. t = reply_text ls \<and> (\<forall>l \<in> set ls. record_fits l \<and> kv_get l ''src'' = Some ''synth'' \<and> kv_get l ''tag'' = None)) \<or>
     (\<exists>l. reply t KV_ERR l)"

lemma synth_lines_reply: "\<forall>t \<in> set ts. synth_line t \<Longrightarrow> synth_reply (concat (ts @ [''ok'' @ nl]))"
proof -
  assume "\<forall>t \<in> set ts. synth_line t"
  then have "\<exists>ls. concat ts = concat (map (\<lambda>l. line_text l @ nl) ls) \<and>
      (\<forall>l \<in> set ls. record_fits l \<and> kv_get l ''src'' = Some ''synth'' \<and> kv_get l ''tag'' = None)"
  proof (induction ts)
    case (Cons t ts)
    then obtain ls where ls: "concat ts = concat (map (\<lambda>l. line_text l @ nl) ls)"
        "\<forall>l \<in> set ls. record_fits l \<and> kv_get l ''src'' = Some ''synth'' \<and> kv_get l ''tag'' = None" by auto
    obtain l where "t = line_text l @ nl" "record_fits l" "kv_get l ''src'' = Some ''synth''" "kv_get l ''tag'' = None"
      using Cons.prems by (auto simp: synth_line_def)
    then show ?case using ls by (intro exI [of _ "l # ls"]) simp
  qed (intro exI [of _ "[]"], simp)
  then show ?thesis by (auto simp: synth_reply_def reply_text_def)
qed

lemma err_text_reply:
  assumes "is_name code KV_MAX_CODE" and "str_ok reason" and "reason \<noteq> []" and "hd reason \<noteq> CHR '' ''" and "last reason \<noteq> CHR '' ''"
  shows "synth_reply (''err '' @ code @ '' '' @ reason @ nl)"
proof -
  let ?l = "\<lparr>tag = [], flds = [], err_code = code, err_reason = reason\<rparr>"
  let ?s = "''err '' @ code @ '' '' @ reason"
  have "err_line ?s ?l" using assms by (auto simp: err_line_def str_ok_def list_all_iff)
  moreover have "length ?s \<le> KV_MAX_LINE" using assms(1,2) by (simp add: is_name_def str_ok_def)
  ultimately have "kv_parse_line ?s = (KV_ERR, ?l)" by (simp add: err_line_parses)
  then have "reply (?s @ nl) KV_ERR ?l" by (intro reply.final [of ?s]) (simp_all add: eol_of_def)
  then show ?thesis by (auto simp: synth_reply_def)
qed

section \<open>The sample loop\<close>

text \<open>Where no sample time can wrap around, the loop ends and writes one line per sample time.\<close>

lemma sample_loop_ends:
  assumes "0 < step" and "unat to0 + unat step < 2 ^ 64"
  shows "\<exists>ts. sample_loop D k to0 step t ob = Some (fold outf (map (sample_line D k) ts) ob) \<and> (\<forall>x \<in> set ts. x \<le> to0)"
proof (induction "unat to0 + 1 - unat t" arbitrary: t ob rule: less_induct)
  case less
  show ?case
  proof (cases "t \<le> to0")
    case False
    then show ?thesis by (subst sample_loop.simps) (intro exI [of _ "[]"], simp)
  next
    case True
    have "unat (t + step) = unat t + unat step"
      using assms(2) True by (intro unat_add_lem [THEN iffD1]) (simp add: word_le_nat_alt)
    moreover have "0 < unat step" using assms(1) by (simp add: unat_gt_0)
    ultimately have "unat to0 + 1 - unat (t + step) < unat to0 + 1 - unat t" using True by (simp add: word_le_nat_alt)
    from less [OF this, of "outf (sample_line D k t) ob"] obtain ts where
      "sample_loop D k to0 step (t + step) (outf (sample_line D k t) ob) =
         Some (fold outf (map (sample_line D k) ts) (outf (sample_line D k t) ob))" "\<forall>x \<in> set ts. x \<le> to0" by blast
    then show ?thesis using True by (subst sample_loop.simps) (intro exI [of _ "t # ts"], simp)
  qed
qed

lemma step_bound:
  fixes from0 to0 :: u64
  assumes "to0 - from0 \<le> MAX_WINDOW_S"
  shows "0 < (to0 - from0) div MAX_SAMPLES + 1" "unat ((to0 - from0) div MAX_SAMPLES + 1) \<le> 13"
proof -
  have "unat ((to0 - from0) div MAX_SAMPLES) \<le> 12" using assms by (simp add: unat_div word_le_nat_alt)
  then have "unat ((to0 - from0) div MAX_SAMPLES + 1) = unat ((to0 - from0) div MAX_SAMPLES) + 1"
    by (subst unat_add_lem [THEN iffD1]) simp_all
  then show "0 < (to0 - from0) div MAX_SAMPLES + 1" "unat ((to0 - from0) div MAX_SAMPLES + 1) \<le> 13"
    using \<open>unat ((to0 - from0) div MAX_SAMPLES) \<le> 12\<close> by (simp_all add: word_less_nat_alt)
qed

text \<open>The times a request can name: up to the clock's, or twelve digits.\<close>

lemma parse_when_bound: "parse_when req k dflt now = Some t \<Longrightarrow> unat t \<le> max (unat now) (10 ^ 12)"
proof -
  assume p: "parse_when req k dflt now = Some t"
  have digits: "read_digits 10 s < 10 ^ length s" if "list_all is_digit s" for s
    using that
  proof (induction s rule: rev_induct)
    case (snoc c s)
    have "the (digit_val 10 c) < 10" using snoc.prems by (auto simp: is_digit_def char_le_nat digit_val_def Let_def)
    then show ?case using snoc by (simp add: read_digits_snoc)
  qed (simp add: read_digits_def)
  have num: "unat (of_nat (read_digits 10 s) :: u64) \<le> 10 ^ 12" if "list_all is_digit s" "length s \<le> 12" for s
  proof -
    have "read_digits 10 s < 10 ^ 12" using digits [OF that(1)] power_increasing [OF that(2), of "10 :: nat"] by simp
    then show ?thesis by (simp add: unsigned_of_nat take_bit_nat_eq_self)
  qed
  have sub: "unat (now - c) \<le> unat now" if "\<not> now < c" for c using that by (simp add: unat_sub not_less)
  have text0: "unat t \<le> unat now" if "parse_text s now = Some t" for s
    using that by (auto simp: parse_text_def Let_def sub split: if_splits list.splits)
  define s where "s = (case find_field req k of Some f \<Rightarrow> val f | None \<Rightarrow> dflt)"
  have "parse_text s now = Some t \<or> list_all is_digit s \<and> length s \<le> 12 \<and> t = of_nat (read_digits 10 s)"
    using p by (simp add: parse_when_def s_def [symmetric] Let_def split: if_splits)
  then show ?thesis using num [of s] text0 [of s] by (auto simp: le_max_iff_disj)
qed

section \<open>Every request is answered\<close>

definition time_ok :: "synth \<Rightarrow> bool" where
  "time_ok s \<longleftrightarrow> unat (sy_now_s s) < 2 ^ 63"

text \<open>What a finished reply holds.\<close>

definition replied :: "nat \<Rightarrow> out_buf \<Rightarrow> bool" where
  "replied cap ob \<longleftrightarrow> (\<not> o_over ob \<longrightarrow> synth_reply (o_buf ob) \<and> length (o_buf ob) < cap)"

abbreviation (input) fresh_out :: "nat \<Rightarrow> out_buf" where
  "fresh_out cap \<equiv> \<lparr>o_cap = cap, o_buf = [], o_over = False\<rparr>"

lemma replied_lines:
  assumes "\<forall>t \<in> set ts. synth_line t"
  shows "replied cap (outf (''ok'' @ nl) (fold outf ts (fresh_out cap)))"
proof -
  have "outf (''ok'' @ nl) (fold outf ts (fresh_out cap)) = fold outf (ts @ [''ok'' @ nl]) (fresh_out cap)" by simp
  then show ?thesis
    using fold_outf_text [of "ts @ [''ok'' @ nl]" "fresh_out cap"] synth_lines_reply [OF assms]
    unfolding replied_def by auto
qed

lemma replied_err:
  assumes "is_name code KV_MAX_CODE" and "str_ok reason" and "reason \<noteq> []" and "hd reason \<noteq> CHR '' ''" and "last reason \<noteq> CHR '' ''"
  shows "replied cap (reply_err code reason (fresh_out cap))"
  using outf_text [of "''err '' @ code @ '' '' @ reason @ nl" "fresh_out cap"] err_text_reply [OF assms]
  by (auto simp: replied_def reply_err_def)

lemma errors_replied:
  "replied cap (reply_err ''usage'' ''series needs a pid'' (fresh_out cap))"
  "replied cap (reply_err ''unknown_pid'' ''no such pid'' (fresh_out cap))"
  "replied cap (reply_err ''usage'' ''bad from or to'' (fresh_out cap))"
  "replied cap (reply_err ''usage'' ''window must be 1 to 3600 seconds'' (fresh_out cap))"
  "replied cap (reply_err ''usage'' ''malformed request'' (fresh_out cap))"
  "replied cap (reply_err ''unavailable'' ''baseline is not served yet'' (fresh_out cap))"
  "replied cap (reply_err ''unknown_verb'' ''no such verb'' (fresh_out cap))"
  by (rule replied_err; simp add: is_name_def is_ident_def char_le_nat str_ok_def)+

lemma status_replied:
  assumes "prints_numbers D"
  shows "replied cap (reply_status D s (fresh_out cap))"
proof -
  let ?ts = "map (proc_line D s) [0..<length procs] @ [ring_line ''obd'' (mix (sy_now_s s + 1) mod 40),
      ring_line ''ambient'' (mix (sy_now_s s + 2) mod 3), link_line, srcmix_line s]"
  have "\<forall>t \<in> set ?ts. synth_line t"
    using proc_line_synth [OF assms] ring_line_synth link_line_synth srcmix_line_synth by (auto simp: str_ok_def)
  moreover have "reply_status D s (fresh_out cap) = outf (''ok'' @ nl) (fold outf ?ts (fresh_out cap))"
    by (simp add: reply_status_def fold_map comp_def Let_def)
  ultimately show ?thesis using replied_lines by metis
qed

lemma faults_replied: "replied cap (reply_faults s (fresh_out cap))"
proof -
  have "\<forall>t \<in> set (map (fault_line s) events). synth_line t"
    by (auto simp: events_def intro!: fault_line_synth) (simp_all add: str_ok_def)
  moreover have "reply_faults s (fresh_out cap) = outf (''ok'' @ nl) (fold outf (map (fault_line s) events) (fresh_out cap))"
    by (simp add: reply_faults_def fold_map comp_def)
  ultimately show ?thesis using replied_lines by metis
qed

lemma verdicts_replied: "replied cap (reply_verdicts s (fresh_out cap))"
proof -
  let ?a = "[num ''id'' ''1'', str ''area'' ''cooling'', str ''sensors'' ''coolant,intake'', num ''residual'' ''3.4'',
    str ''state'' ''active'', num ''start_s'' (fmt_u (ago (sy_now_s s) 420)), \<lparr>key = ''end_s'', val = ''null'', ftype = KV_NULL\<rparr>,
    str ''src'' ''synth'']"
  let ?b = "[num ''id'' ''2'', str ''area'' ''air_fuel'', str ''sensors'' ''ltft,maf'', num ''residual'' ''2.6'',
    str ''state'' ''ended'', num ''start_s'' (fmt_u (ago (sy_now_s s) 5400)), num ''end_s'' (fmt_u (ago (sy_now_s s) 4200)),
    str ''src'' ''synth'']"
  let ?ts = "[''verdict'' @ show_fields ?a @ nl, ''verdict'' @ show_fields ?b @ nl]"
  have len: "length (''verdict'' @ show_fields ?a) \<le> KV_MAX_LINE" "length (''verdict'' @ show_fields ?b) \<le> KV_MAX_LINE"
    using length_fmt_u64 [of "ago (sy_now_s s) 420"] length_fmt_u64 [of "ago (sy_now_s s) 5400"]
      length_fmt_u64 [of "ago (sy_now_s s) 4200"] by (simp_all add: line_simps)
  have "synth_line (''verdict'' @ show_fields ?a @ nl)"
    by (rule synth_lineI [OF refl])
      (use len(1) in \<open>simp_all add: str_def num_def is_name_def is_ident_def char_le_nat fmt_u_short short_literals,
        simp_all add: str_ok_def\<close>)
  moreover have "synth_line (''verdict'' @ show_fields ?b @ nl)"
    by (rule synth_lineI [OF refl])
      (use len(2) in \<open>simp_all add: str_def num_def is_name_def is_ident_def char_le_nat fmt_u_short short_literals,
        simp_all add: str_ok_def\<close>)
  ultimately have "\<forall>t \<in> set ?ts. synth_line t" by simp
  moreover have "reply_verdicts s (fresh_out cap) = outf (''ok'' @ nl) (fold outf ?ts (fresh_out cap))"
    by (simp add: reply_verdicts_def line_simps Let_def)
  ultimately show ?thesis using replied_lines by metis
qed

lemma series_replied:
  assumes "prints_numbers D" and "time_ok s"
  shows "\<exists>ob. reply_series D s req (fresh_out cap) = Some ob \<and> replied cap ob"
proof (cases "find_field req ''pid''")
  case None
  then show ?thesis using errors_replied(1) by (simp add: reply_series_def)
next
  case (Some pid)
  define k where "k = length (takeWhile (\<lambda>g. g_pid g \<noteq> val pid) signals)"
  define from0 where "from0 = parse_when req ''from'' ''-5m'' (sy_now_s s)"
  define to0 where "to0 = parse_when req ''to'' ''now'' (sy_now_s s)"
  show ?thesis
  proof (cases "ftype pid = KV_STR \<and> k \<noteq> length signals \<and> from0 \<noteq> None \<and> to0 \<noteq> None \<and>
      \<not> (the from0 \<ge> the to0 \<or> the to0 - the from0 > MAX_WINDOW_S)")
    case False
    then show ?thesis
      using Some errors_replied by (auto simp: reply_series_def k_def from0_def to0_def Let_def split: option.splits)
  next
    case True
    then obtain a b where ab: "from0 = Some a" "to0 = Some b" "b - a \<le> MAX_WINDOW_S" by (auto simp: not_less)
    define step where "step = (b - a) div MAX_SAMPLES + 1"
    have "unat b \<le> max (unat (sy_now_s s)) (10 ^ 12)" using ab(2) parse_when_bound by (simp add: to0_def)
    then have "unat b + unat step < 2 ^ 64" using step_bound(2) [OF ab(3)] assms(2) by (simp add: step_def time_ok_def)
    then obtain ts where ts: "sample_loop D k b step ((a + step - 1) div step * step) (fresh_out cap) =
        Some (fold outf (map (sample_line D k) ts) (fresh_out cap))"
      using sample_loop_ends step_bound(1) [OF ab(3)] unfolding step_def by blast
    have "k < length signals" using True length_takeWhile_le [of "\<lambda>g. g_pid g \<noteq> val pid" signals] by (simp add: k_def)
    then have "\<forall>t \<in> set (map (sample_line D k) ts). synth_line t" using sample_line_synth [OF assms(1)] by simp
    from replied_lines [OF this] show ?thesis
      using True Some ts ab by (simp add: reply_series_def k_def [symmetric] from0_def [symmetric] to0_def [symmetric] step_def [symmetric])
  qed
qed

lemma synth_query_replies:
  assumes "prints_numbers D" and "time_ok s"
  shows "\<exists>ob. synth_query D s request cap = Some (if o_over ob then None else Some (o_buf ob)) \<and> replied cap ob"
proof -
  obtain k req where p: "kv_parse_line request = (k, req)" by fastforce
  obtain ob where s: "reply_series D s req (fresh_out cap) = Some ob" "replied cap ob"
    using series_replied [OF assms] by blast
  have "\<exists>ob. synth_dispatch D s k req (fresh_out cap) = Some ob \<and> replied cap ob"
    using s errors_replied(5-7) status_replied [OF assms(1)] faults_replied verdicts_replied by (simp add: synth_dispatch_def)
  then show ?thesis by (auto simp: synth_query_def p)
qed

section \<open>The contract of a source\<close>

lemma ok_reply: "reply t k l \<Longrightarrow> k = KV_OK \<Longrightarrow> l = empty_line"
  by (induction rule: reply.induct) (auto simp: parse_line_iff(3))

text \<open>What \<open>source.h\<close> promises: a reply that fits is a whole one. \<open>st\<close> stands for a source and its
  context, \<open>good\<close> for the states in which it keeps the promise.\<close>

locale reply_source =
  fixes ask :: "'s \<Rightarrow> string \<Rightarrow> nat \<Rightarrow> string option"
    and good :: "'s \<Rightarrow> bool"
  assumes whole: "good st \<Longrightarrow> ask st line cap = Some t \<Longrightarrow> (\<exists>k l. reply t k l) \<and> length t < cap"
begin

text \<open>From such a source the routes never take a reply for malformed.\<close>

lemma answered:
  assumes "good st" and "ask st line cap = Some t"
  shows "(kv_reply_check t = Some (KV_OK, Some empty_line) \<or> (\<exists>l. kv_reply_check t = Some (KV_ERR, Some l) \<and>
      answer_reply resp (ask st line cap) = set_error resp (status_for_code (err_code l)) (err_code l) (err_reason l)))"
proof -
  obtain k l where r: "reply t k l" using whole [OF assms] by blast
  have c: "kv_reply_check t = Some (k, Some l)" "k = KV_OK \<or> k = KV_ERR" using r reply_check_iff by blast+
  have "l = empty_line" if "k = KV_OK" using ok_reply [OF r that] .
  then show ?thesis using c assms(2) by (auto simp: answer_reply_def)
qed

end

text \<open>The synthetic source keeps the contract while \<open>%.1f\<close> prints its values and the clock is sane.\<close>

definition synth_ask :: "'d doubles \<times> synth \<Rightarrow> string \<Rightarrow> nat \<Rightarrow> string option" where
  "synth_ask st line cap = the (synth_query (fst st) (snd st) line cap)"

definition synth_good :: "'d doubles \<times> synth \<Rightarrow> bool" where
  "synth_good st \<longleftrightarrow> prints_numbers (fst st) \<and> time_ok (snd st)"

lemma synth_reply_whole: "synth_reply t \<Longrightarrow> \<exists>k l. reply t k l"
  using reply_text_ok by (auto simp: synth_reply_def)

interpretation synth: reply_source synth_ask synth_good
proof
  fix st :: "'d doubles \<times> synth" and line :: string and cap :: nat and t :: string
  assume g: "synth_good st" and a: "synth_ask st line cap = Some t"
  obtain ob where "synth_query (fst st) (snd st) line cap = Some (if o_over ob then None else Some (o_buf ob))" "replied cap ob"
    using synth_query_replies g unfolding synth_good_def by blast
  then show "(\<exists>k l. reply t k l) \<and> length t < cap"
    using a synth_reply_whole by (auto simp: synth_ask_def replied_def split: if_splits)
qed

section \<open>Properties of the synthetic source\<close>

text \<open>C35: The synthetic source answers every request, the loop over the samples included: with a clock
  below 2^63 seconds and \<open>%.1f\<close> printing its values as short numbers, \<open>synth_query\<close> returns, and what
  it returns is -1 or a whole reply that fits the buffer with its NUL, made of records that each
  carry src="synth" and an ok, or of one error line.\<close>

theorem synth_query_returns:
  assumes "prints_numbers D" and "time_ok s"
  shows "\<exists>r. synth_query D s request cap = Some r \<and> (\<forall>t. r = Some t \<longrightarrow> synth_reply t \<and> length t < cap)"
proof -
  obtain ob where "synth_query D s request cap = Some (if o_over ob then None else Some (o_buf ob))" "replied cap ob"
    using synth_query_replies [OF assms] by blast
  then show ?thesis by (auto simp: replied_def)
qed

text \<open>The library for one toy machine's doubles: every value prints as one digit and a tenth.\<close>

definition unit_doubles :: "unit doubles" where
  "unit_doubles = \<lparr>d_lit = \<lambda>_. (), d_of = \<lambda>_. (), d_add = \<lambda>_ _. (), d_sub = \<lambda>_ _. (), d_mul = \<lambda>_ _. (), d_div = \<lambda>_ _. (),
     d_sin = \<lambda>_. (), d_fmt1 = \<lambda>_. ''1.0''\<rparr>"

lemma unit_doubles_print: "prints_numbers unit_doubles"
proof -
  have "short_number ''1.0''" by code_simp
  then show ?thesis by (simp add: prints_numbers_def unit_doubles_def)
qed

lemma synth_query_returns_witness:
  "\<exists>r. synth_query unit_doubles (synth_init 1800000000) ''series'' 100 = Some r \<and> (\<forall>t. r = Some t \<longrightarrow> synth_reply t \<and> length t < 100)"
  by (rule synth_query_returns [OF unit_doubles_print]) (simp add: time_ok_def synth_init_def)

lemma set_error_status: "status \<noteq> HTTP_STATUS_OK \<Longrightarrow> rs_status (set_error r status code reason) \<noteq> HTTP_STATUS_OK"
  by (simp add: set_error_json set_empty_500_def)

lemma synth_ask_reply: "synth_good st \<Longrightarrow> synth_ask st line cap = Some t \<Longrightarrow> synth_reply t"
proof -
  assume g: "synth_good st" and a: "synth_ask st line cap = Some t"
  obtain ob where "synth_query (fst st) (snd st) line cap = Some (if o_over ob then None else Some (o_buf ob))" "replied cap ob"
    using synth_query_replies g unfolding synth_good_def by blast
  then show ?thesis using a by (auto simp: synth_ask_def replied_def split: if_splits)
qed

lemma synth_answer_ok:
  assumes "synth_good st" and "rs_status (answer_reply resp (synth_ask st line cap)) = HTTP_STATUS_OK"
  shows "\<exists>ls. json_read (rs_body (answer_reply resp (synth_ask st line cap))) = Some (reply_json ls) \<and>
    (\<forall>l \<in> set ls. kv_get l ''src'' = Some ''synth'')"
proof -
  obtain t where t: "synth_ask st line cap = Some t"
    using assms(2) set_error_status by (cases "synth_ask st line cap") (auto simp: answer_reply_def)
  have "status_for_code c \<noteq> HTTP_STATUS_OK" for c by (simp add: status_for_code_def)
  then have ok: "kv_reply_check t = Some (KV_OK, Some empty_line)"
    using synth.answered [OF assms(1) t, of resp] assms(2) set_error_status by auto
  then have "\<nexists>l. reply t KV_ERR l" using reply_check_iff [of t KV_ERR] by auto
  then obtain ls where ls: "t = reply_text ls" "\<forall>l \<in> set ls. record_fits l \<and> kv_get l ''src'' = Some ''synth'' \<and> kv_get l ''tag'' = None"
    using synth_ask_reply [OF assms(1) t] by (auto simp: synth_reply_def)
  have recs: "reply_records t = ls" using ls reply_records_text by blast
  then have wf: "\<forall>l \<in> set ls. well_formed l" using reply_records_wf by blast
  have "answer_reply resp (Some t) = resp\<lparr>rs_status := HTTP_STATUS_OK, rs_ctype := Some ''application/json'', rs_body := render (reply_json ls)\<rparr>"
    using assms(2) t ok ls(2) set_error_status
    by (auto simp: answer_reply_def records_to_json_calls recs Let_def split: if_splits)
  then show ?thesis using t ls(2) json_read_render [OF jresult_ok [OF reply_calls_result [OF wf] reply_calls_ok]] by auto
qed

text \<open>No number without its provenance: on the synthetic source every request under /api/ gets a
  JSON answer, and when its status is 200 the answer is the records of the source, every one of them
  with src="synth".\<close>

lemma route_synth_marked:
  assumes "synth_good st" and "take 5 (path req) = ''/api/''" and "rs_cap resp \<ge> 512"
  shows "json_answer (route_handle page_html (synth_ask st) req resp) \<and>
    (rs_status (route_handle page_html (synth_ask st) req resp) = HTTP_STATUS_OK \<longrightarrow>
      (\<exists>ls. json_read (rs_body (route_handle page_html (synth_ask st) req resp)) = Some (reply_json ls) \<and>
        (\<forall>l \<in> set ls. kv_get l ''src'' = Some ''synth'')))"
proof (intro conjI impI)
  let ?r = "route_handle page_html (synth_ask st) req resp"
  show "json_answer ?r" using assms(2,3) by (rule route_api_json)
  assume ok: "rs_status ?r = HTTP_STATUS_OK"
  have "path req \<noteq> ''/''" using assms(2) by auto
  then obtain line where "?r = answer_reply resp (synth_ask st line ROUTE_REPLY_MAX)"
    using ok assms(2) set_error_status [of _ resp]
    by (auto simp: route_handle_def Let_def split: if_splits sum.splits)
  then show "\<exists>ls. json_read (rs_body ?r) = Some (reply_json ls) \<and> (\<forall>l \<in> set ls. kv_get l ''src'' = Some ''synth'')"
    using ok synth_answer_ok [OF assms(1)] by simp
qed

end
