(* ===== verification/Log_Line.thy ===== *)
theory Log_Line
  imports Log_Src C_Text
begin

text \<open>
  The log line of \<open>src/common/log.c\<close>: its three static variables, the stamp, the line and the heartbeat. The clock,
  the process and the numbers of \<open>/proc/self/statm\<close> are arguments; the message is the text \<open>vprintf\<close> makes of the
  format; what is printed is the result.
\<close>

section \<open>State\<close>

text \<open>The three static variables of \<open>log.c\<close>, with the values they start with.\<close>

record log_state =
  g_component :: string
  g_min :: log_level
  g_src :: u8

definition log_start :: log_state where
  "log_start = \<lparr>g_component = ''?'', g_min = LOG_INFO, g_src = SRC_LIVE\<rparr>"

fun level_val :: "log_level \<Rightarrow> nat" where
  "level_val LOG_DEBUG = 0" | "level_val LOG_INFO = 1" | "level_val LOG_WARN = 2"
| "level_val LOG_ERROR = 3" | "level_val LOG_FATAL = 4"

fun level_name :: "log_level \<Rightarrow> string" where
  "level_name LOG_DEBUG = ''DEBUG''" | "level_name LOG_INFO = ''INFO''" | "level_name LOG_WARN = ''WARN''"
| "level_name LOG_ERROR = ''ERROR''" | "level_name LOG_FATAL = ''FATAL''"

definition log_init :: "string \<Rightarrow> log_level \<Rightarrow> log_state \<Rightarrow> log_state" where
  "log_init component m st = st\<lparr>g_component := component, g_min := m\<rparr>"

definition log_set_src :: "u8 \<Rightarrow> log_state \<Rightarrow> log_state" where
  "log_set_src src st = st\<lparr>g_src := src\<rparr>"

definition log_get_src :: "log_state \<Rightarrow> u8" where
  "log_get_src st = g_src st"

definition log_src_name :: "u8 \<Rightarrow> string" where
  "log_src_name src =
     (if src = SRC_LIVE then ''live'' else if src = SRC_REPLAY then ''replay'' else if src = SRC_SYNTH then ''synth''
      else ''invalid'')"

section \<open>Lines\<close>

text \<open>\<open>%-5s\<close>: padding on the right to a minimum width.\<close>

definition pad_right :: "nat \<Rightarrow> string \<Rightarrow> string" where
  "pad_right n s = s @ replicate (n - length s) CHR '' ''"

text \<open>The broken-down time of \<open>gmtime_r\<close>, and what \<open>strftime\<close> makes of it with \<open>%Y-%m-%dT%H:%M:%S\<close>: nothing when
  the text does not fit.\<close>

record tm =
  tm_year :: nat
  tm_mon :: nat
  tm_mday :: nat
  tm_hour :: nat
  tm_min :: nat
  tm_sec :: nat

definition two :: "nat \<Rightarrow> string" where
  "two n = zero_pad 2 (print_nat 10 n)"

definition strftime :: "nat \<Rightarrow> tm \<Rightarrow> string" where
  "strftime n t =
     (let s = print_nat 10 (tm_year t + 1900) @ ''-'' @ two (tm_mon t + 1) @ ''-'' @ two (tm_mday t) @ ''T'' @
              two (tm_hour t) @ '':'' @ two (tm_min t) @ '':'' @ two (tm_sec t)
      in if length s < n then s else [])"

text \<open>\<open>clock\<close> is the time that the two calls gave, with its nanoseconds, or \<open>None\<close> when one failed.\<close>

definition stamp :: "nat \<Rightarrow> (tm \<times> nat) option \<Rightarrow> string" where
  "stamp n clock =
     (case clock of
        None \<Rightarrow> fst (snprintf n ''----------T--:--:--.---Z'')
      | Some (t, tv_nsec) \<Rightarrow>
          let s = strftime n t
          in s @ fst (snprintf (n - length s) (''.'' @ zero_pad 3 (print_nat 10 (tv_nsec div 1000000)) @ ''Z'')))"

definition log_emit :: "log_state \<Rightarrow> (tm \<times> nat) option \<Rightarrow> u32 \<Rightarrow> log_level \<Rightarrow> string \<Rightarrow> string" where
  "log_emit st clock pid lvl message =
     (if level_val lvl < level_val (g_min st) then []
      else stamp 40 clock @ '' '' @ pad_right 5 (level_name lvl) @ '' '' @ pad_right 10 (g_component st) @ '' src='' @
           pad_right 6 (log_src_name (g_src st)) @ '' pid='' @ fmt_d pid @ '' '' @ message @ [CHR 0x0A])"

text \<open>\<open>statm\<close> are the two numbers read from \<open>/proc/self/statm\<close>, or \<open>None\<close> when it could not be read; a page
  has \<open>page_size\<close> bytes.\<close>

definition rss_kib :: "(64 word \<times> 64 word) option \<Rightarrow> 64 word \<Rightarrow> 64 word" where
  "rss_kib statm page_size = (case statm of None \<Rightarrow> -1 | Some (total_pages, res) \<Rightarrow> res * (page_size div 1024))"

definition log_heartbeat :: "log_state \<Rightarrow> (tm \<times> nat) option \<Rightarrow> u32 \<Rightarrow> (64 word \<times> 64 word) option \<Rightarrow> 64 word \<Rightarrow> u64 \<Rightarrow> u64 \<Rightarrow> string" where
  "log_heartbeat st clock pid statm page_size events drops =
     log_emit st clock pid LOG_INFO
       (''heartbeat rss_kib='' @ fmt_d (rss_kib statm page_size) @ '' events='' @ fmt_u events @ '' drops='' @ fmt_u drops)"

section \<open>Reading a line\<close>

text \<open>The next field of a line and what follows its blanks; and the first \<open>n\<close> fields.\<close>

definition next_field :: "string \<Rightarrow> string \<times> string" where
  "next_field s = (takeWhile (\<lambda>c. c \<noteq> CHR '' '') s, dropWhile (\<lambda>c. c = CHR '' '') (dropWhile (\<lambda>c. c \<noteq> CHR '' '') s))"

fun fields :: "nat \<Rightarrow> string \<Rightarrow> string list \<times> string" where
  "fields 0 s = ([], s)"
| "fields (Suc n) s = (let (f, r) = next_field s; (fs, rest) = fields n r in (f # fs, rest))"

lemma next_field_word:
  assumes "CHR '' '' \<notin> set f" and "s \<noteq> []" and "hd s \<noteq> CHR '' ''" and "k > 0"
  shows "next_field (f @ replicate k CHR '' '' @ s) = (f, s)"
proof -
  obtain j where k: "k = Suc j" using assms(4) by (cases k) auto
  obtain c t where s: "s = c # t" "c \<noteq> CHR '' ''" using assms(2,3) by (cases s) auto
  have a: "takeWhile (\<lambda>c. c \<noteq> CHR '' '') (f @ CHR '' '' # u) = f \<and> dropWhile (\<lambda>c. c \<noteq> CHR '' '') (f @ CHR '' '' # u) = CHR '' '' # u" for u
    using assms(1) by (induction f) auto
  have "dropWhile (\<lambda>c. c = CHR '' '') (replicate n CHR '' '' @ s) = s" for n using s by (induction n) auto
  then show ?thesis using a k by (simp add: next_field_def)
qed

lemma next_field_padded:
  assumes "CHR '' '' \<notin> set f" and "s \<noteq> []" and "hd s \<noteq> CHR '' ''"
  shows "next_field (pad_right n f @ '' '' @ s) = (f, s)"
  using next_field_word [OF assms, of "Suc (n - length f)"] by (simp add: pad_right_def replicate_app_Cons_same)

lemma pad_right_prefix: "p @ pad_right n f = pad_right (length p + n) (p @ f)"
  by (simp add: pad_right_def)

text \<open>The characters of a stamp.\<close>

lemma digits_plain: "c \<in> set (print_nat 10 n) \<Longrightarrow> c \<noteq> CHR '' '' \<and> c \<noteq> CHR 0x0A"
  using print_nat_digits [of 10 c n] by (auto simp: digit_val_def)

lemma stamp_plain: "c \<in> set (stamp n clock) \<Longrightarrow> c \<noteq> CHR '' '' \<and> c \<noteq> CHR 0x0A"
proof -
  have two: "c \<in> set (two k) \<Longrightarrow> c \<noteq> CHR '' '' \<and> c \<noteq> CHR 0x0A" for c k
    using digits_plain by (auto simp: two_def zero_pad_def)
  have s: "c \<in> set (strftime m t) \<Longrightarrow> c \<noteq> CHR '' '' \<and> c \<noteq> CHR 0x0A" for c m t
    using two digits_plain by (auto simp: strftime_def Let_def split: if_splits)
  have z: "c \<in> set (zero_pad 3 (print_nat 10 k)) \<Longrightarrow> c \<noteq> CHR '' '' \<and> c \<noteq> CHR 0x0A" for c k
    using digits_plain by (auto simp: zero_pad_def)
  assume "c \<in> set (stamp n clock)"
  then show ?thesis
    by (auto simp: stamp_def snprintf_def Let_def split: option.splits dest!: in_set_takeD dest: s z)
qed

lemma level_name_plain: "c \<in> set (level_name lvl) \<Longrightarrow> c \<noteq> CHR '' '' \<and> c \<noteq> CHR 0x0A" "level_name lvl \<noteq> []" "hd (level_name lvl) \<noteq> CHR '' ''"
  by (cases lvl; auto)+

lemma src_name_plain: "c \<in> set (log_src_name src) \<Longrightarrow> c \<noteq> CHR '' '' \<and> c \<noteq> CHR 0x0A"
  by (auto simp: log_src_name_def split: if_splits)

lemma log_emit_fields:
  assumes "level_val (g_min st) \<le> level_val lvl" and "CHR '' '' \<notin> set (g_component st)" and "g_component st \<noteq> []"
  shows "fields 4 (log_emit st clock pid lvl message) =
    ([stamp 40 clock, level_name lvl, g_component st, ''src='' @ log_src_name (g_src st)],
     ''pid='' @ fmt_d pid @ '' '' @ message @ [CHR 0x0A])"
proof -
  let ?rest = "''pid='' @ fmt_d pid @ '' '' @ message @ [CHR 0x0A]"
  let ?c = "pad_right 10 (g_component st)" and ?s = "pad_right 10 (''src='' @ log_src_name (g_src st))"
  have "log_emit st clock pid lvl message =
    stamp 40 clock @ replicate 1 CHR '' '' @ pad_right 5 (level_name lvl) @ '' '' @ ?c @ '' '' @ ?s @ '' '' @ ?rest"
    using assms(1) pad_right_prefix [of "''src=''" 6 "log_src_name (g_src st)"] by (simp add: log_emit_def not_less)
  moreover have "next_field (stamp 40 clock @ replicate 1 CHR '' '' @ pad_right 5 (level_name lvl) @ '' '' @ ?c @ '' '' @ ?s @ '' '' @ ?rest) =
    (stamp 40 clock, pad_right 5 (level_name lvl) @ '' '' @ ?c @ '' '' @ ?s @ '' '' @ ?rest)"
    using stamp_plain level_name_plain(2,3) by (intro next_field_word) (auto simp: pad_right_def)
  moreover have "next_field (pad_right 5 (level_name lvl) @ '' '' @ ?c @ '' '' @ ?s @ '' '' @ ?rest) = (level_name lvl, ?c @ '' '' @ ?s @ '' '' @ ?rest)"
    using level_name_plain(1) assms(2,3) by (intro next_field_padded) (auto simp: pad_right_def hd_append dest: hd_in_set)
  moreover have "next_field (?c @ '' '' @ ?s @ '' '' @ ?rest) = (g_component st, ?s @ '' '' @ ?rest)"
    using assms(2) by (intro next_field_padded) (auto simp: pad_right_def)
  moreover have "next_field (?s @ '' '' @ ?rest) = (''src='' @ log_src_name (g_src st), ?rest)"
    using src_name_plain by (intro next_field_padded) auto
  ultimately show ?thesis by (simp add: numeral_eq_Suc)
qed

text \<open>C40: A log line reads back: when the component's name has no blank, the first four blank-separated fields of
  every line that is written are the time, the level, the component and the provenance label, and the process and the
  message follow. So no line goes out without its label.\<close>

theorem log_line_reads_back:
  assumes "level_val (g_min st) \<le> level_val lvl" and "CHR '' '' \<notin> set (g_component st)" and "g_component st \<noteq> []"
  shows "fields 4 (log_emit st clock pid lvl message) =
    ([stamp 40 clock, level_name lvl, g_component st, ''src='' @ log_src_name (g_src st)],
     ''pid='' @ fmt_d pid @ '' '' @ message @ [CHR 0x0A])"
  by (rule log_emit_fields [OF assms])

lemma log_line_reads_back_witness:
  "fields 4 (log_emit (log_set_src 3 (log_init ''statusd'' LOG_INFO log_start)) None 7 LOG_WARN ''x'') =
     ([''----------T--:--:--.---Z'', ''WARN'', ''statusd'', ''src=synth''], ''pid=7 x'' @ [CHR 0x0A])"
proof -
  let ?st = "log_set_src 3 (log_init ''statusd'' LOG_INFO log_start)"
  have "stamp 40 None = ''----------T--:--:--.---Z''" "fmt_d (7 :: u32) = ''7''" by code_simp+
  moreover have "fields 4 (log_emit ?st None 7 LOG_WARN ''x'') =
      ([stamp 40 None, level_name LOG_WARN, g_component ?st, ''src='' @ log_src_name (g_src ?st)],
       ''pid='' @ fmt_d (7 :: u32) @ '' '' @ ''x'' @ [CHR 0x0A])"
    using log_line_reads_back [of ?st LOG_WARN None 7 "''x''"] by (auto simp: log_set_src_def log_init_def log_start_def)
  ultimately show ?thesis by (simp add: log_set_src_def log_init_def log_src_name_def)
qed


end
