(* ===== verification/Statusd.thy ===== *)
theory Statusd
  imports Server_Run Synth_Replies Log_Line
begin

text \<open>
  The daemon \<open>statusd\<close> (\<open>src/interface/statusd_main.c\<close>): its arguments, the live source (the synthetic one moved to
  the time of each request), the handler that the server calls, and \<open>main\<close>. \<open>inet_pton\<close>, the page and the
  doubles are parameters; the clocks and the network are given round by round. The texts on standard output and
  standard error are left out.
\<close>

section \<open>Arguments\<close>

abbreviation (input) DEFAULT_BIND :: string where "DEFAULT_BIND \<equiv> ''127.0.0.1''"
abbreviation (input) DEFAULT_PORT :: u16 where "DEFAULT_PORT \<equiv> 8080"
abbreviation (input) DEFAULT_HEARTBEAT_S :: u32 where "DEFAULT_HEARTBEAT_S \<equiv> 3600"
abbreviation (input) MAX_HEARTBEAT_S :: u64 where "MAX_HEARTBEAT_S \<equiv> 86400"

record args =
  a_bind :: string
  a_port :: u16
  a_heartbeat_s :: u32

datatype args_result = ARGS_OK | ARGS_HELP | ARGS_USAGE

text \<open>\<open>strtoul\<close> reads the digits; it reports \<open>ERANGE\<close> when their value does not fit.\<close>

definition parse_number :: "string \<Rightarrow> u64 \<Rightarrow> u64 option" where
  "parse_number s limit =
     (if s = [] \<or> \<not> is_digit (hd s) then None
      else let ds = takeWhile is_digit s; v = read_digits 10 ds
           in if v \<ge> 2 ^ 64 then None
              else if drop (length ds) s \<noteq> [] then None
              else if of_nat v \<le> limit then Some (of_nat v) else None)"

text \<open>\<open>inet_pton\<close> tells whether a text is an IPv4 address. The arguments are those after the program's name.\<close>

fun parse_args_from :: "(string \<Rightarrow> bool) \<Rightarrow> string list \<Rightarrow> args \<Rightarrow> args_result \<times> args" where
  "parse_args_from inet_pton [] a = (ARGS_OK, a)"
| "parse_args_from inet_pton (flag # rest) a =
     (if flag = ''--help'' \<or> flag = ''-h'' then (ARGS_HELP, a)
      else if rest = [] \<or> (flag \<noteq> ''--bind'' \<and> flag \<noteq> ''--port'' \<and> flag \<noteq> ''--heartbeat-s'') then (ARGS_USAGE, a)
      else let value = hd rest
           in if flag = ''--bind'' then
                if \<not> inet_pton value then (ARGS_USAGE, a)
                else parse_args_from inet_pton (tl rest) (a\<lparr>a_bind := value\<rparr>)
              else if flag = ''--port'' then
                case parse_number value 65535 of
                  None \<Rightarrow> (ARGS_USAGE, a)
                | Some n \<Rightarrow> parse_args_from inet_pton (tl rest) (a\<lparr>a_port := ucast n\<rparr>)
              else
                case parse_number value MAX_HEARTBEAT_S of
                  None \<Rightarrow> (ARGS_USAGE, a)
                | Some n \<Rightarrow>
                    if n = 0 then (ARGS_USAGE, a)
                    else parse_args_from inet_pton (tl rest) (a\<lparr>a_heartbeat_s := ucast n\<rparr>))"

definition parse_args :: "(string \<Rightarrow> bool) \<Rightarrow> string list \<Rightarrow> args_result \<times> args" where
  "parse_args inet_pton argv =
     parse_args_from inet_pton argv \<lparr>a_bind = DEFAULT_BIND, a_port = DEFAULT_PORT, a_heartbeat_s = DEFAULT_HEARTBEAT_S\<rparr>"

section \<open>The source\<close>

text \<open>The live source: the synthetic one, the static variable of \<open>wall_seconds\<close>, and the seconds that the
  calls of \<open>clock_gettime\<close> to come will read, \<open>None\<close> for one that fails.\<close>

record live =
  lv_synth :: synth
  lv_last :: u64
  lv_clock :: "u64 option list"

definition wall_seconds :: "live \<Rightarrow> u64 \<times> live" where
  "wall_seconds l =
     (let now = (case lv_clock l of Some t # _ \<Rightarrow> t | _ \<Rightarrow> lv_last l)
      in (now, l\<lparr>lv_last := now, lv_clock := tl (lv_clock l)\<rparr>))"

definition clocked_query :: "'d doubles \<Rightarrow> live \<Rightarrow> string \<Rightarrow> nat \<Rightarrow> string option \<times> live" where
  "clocked_query D l request cap =
     (let (now, l1) = wall_seconds l;
          l2 = l1\<lparr>lv_synth := synth_set_time (lv_synth l1) now\<rparr>
      in (synth_ask (D, lv_synth l2) request cap, l2))"

text \<open>The line that \<open>route_handle\<close> sends to its source for a request, if it sends one.\<close>

definition route_line :: "http_request \<Rightarrow> string option" where
  "route_line req =
     (if path req = ''/'' \<or> take 5 (path req) \<noteq> ''/api/'' \<or> found_api (path req) = length api then None
      else case request_line req (found_api (path req)) of Inl _ \<Rightarrow> None | Inr line \<Rightarrow> Some line)"

text \<open>\<open>route_handle\<close> on the live source: its one query, if it makes one, moves the source's clock.\<close>

definition statusd_handle :: "'d doubles \<Rightarrow> string \<Rightarrow> live handler" where
  "statusd_handle D page_html l req resp =
     (route_handle page_html (\<lambda>line cap. fst (clocked_query D l line cap)) req resp,
      case route_line req of None \<Rightarrow> l | Some line \<Rightarrow> snd (clocked_query D l line ROUTE_REPLY_MAX))"

section \<open>The daemon\<close>

text \<open>What happens in one turn of the main loop: the network, the clock of the server before and after its
  wait, the monotonic clock when the heartbeat is checked and when the next is set, and \<open>g_stop\<close> at the end.\<close>

record round =
  rd_poll :: "nat option list \<Rightarrow> u64 \<Rightarrow> poll_result"
  rd_before :: u64
  rd_after :: u64
  rd_recv :: "recv_result list"
  rd_send :: "send_result list"
  rd_accept :: "accept_result list"
  rd_check :: u64
  rd_set :: u64
  rd_signal :: nat

text \<open>The result: the exit status, the network and the heartbeats; \<open>None\<close> while the daemon still runs when the
  rounds are used up.\<close>

fun statusd_loop :: "'h handler \<Rightarrow> u64 \<Rightarrow> round list \<Rightarrow> u64 \<Rightarrow> nat \<Rightarrow> 'h server \<Rightarrow> net \<Rightarrow> (u64 \<times> u64) list \<Rightarrow>
    (int \<times> 'h server \<times> net \<times> (u64 \<times> u64) list) option" where
  "statusd_loop handler every_ms rounds next_heartbeat g_stop s w beats =
     (if g_stop \<noteq> 0 then Some (0, s, w, beats)
      else case rounds of
          [] \<Rightarrow> None
        | r # rs \<Rightarrow>
            (case server_step handler (rd_poll r) (rd_before r) (rd_after r) 1000 s
                    (w\<lparr>n_recv := rd_recv r, n_send := rd_send r, n_accept := rd_accept r\<rparr>) of
               (k, s1, w1) \<Rightarrow>
                 if k < 0 then Some (1, s1, w1, beats)
                 else if rd_check r \<ge> next_heartbeat
                 then statusd_loop handler every_ms rs (rd_set r + every_ms) (rd_signal r) s1 w1 (beats @ [(server_served s1, server_drops s1)])
                 else statusd_loop handler every_ms rs next_heartbeat (rd_signal r) s1 w1 beats))"

declare statusd_loop.simps [simp del]

text \<open>The results of the calls of \<open>sigaction\<close> for SIGTERM, SIGINT and SIGPIPE.\<close>

definition install_signals :: "bool \<times> bool \<times> bool \<Rightarrow> int" where
  "install_signals k = (case k of (term_ok, int_ok, pipe_ok) \<Rightarrow> if \<not> term_ok \<or> \<not> int_ok then -1 else if \<not> pipe_ok then -1 else 0)"

text \<open>What \<open>main\<close> meets: the calls that install the signal handlers, the calls of \<open>server_open\<close>, the clocks.\<close>

record start =
  st_signals :: "bool \<times> bool \<times> bool"
  st_open :: open_calls
  st_clock :: "u64 option list"
  st_mono :: u64
  st_signal :: nat

definition live_start :: "u64 option list \<Rightarrow> live" where
  "live_start clock =
     (let (now, l) = wall_seconds \<lparr>lv_synth = synth_init 0, lv_last = 0, lv_clock = clock\<rparr>
      in l\<lparr>lv_synth := synth_init now\<rparr>)"

definition statusd_main :: "'d doubles \<Rightarrow> string \<Rightarrow> (string \<Rightarrow> bool) \<Rightarrow> string list \<Rightarrow> start \<Rightarrow> round list \<Rightarrow> net \<Rightarrow>
    (int \<times> net \<times> (u64 \<times> u64) list) option" where
  "statusd_main D page_html inet_pton argv st rounds w =
     (case parse_args inet_pton argv of
        (ARGS_HELP, _) \<Rightarrow> Some (0, w, [])
      | (ARGS_USAGE, _) \<Rightarrow> Some (2, w, [])
      | (ARGS_OK, args) \<Rightarrow>
          if install_signals (st_signals st) < 0 then Some (1, w, [])
          else case server_open ((st_open st)\<lparr>k_pton := inet_pton (a_bind args)\<rparr>) (live_start (st_clock st)) w of
              (False, s, w1) \<Rightarrow> Some (1, w1, [])
            | (True, s, w1) \<Rightarrow>
                let every_ms = ucast (a_heartbeat_s args) * 1000
                in map_option (\<lambda>(status, s2, w2, beats). (status, snd (server_close s2 w2), beats))
                     (statusd_loop (statusd_handle D page_html) every_ms rounds (st_mono st + every_ms) (st_signal st)
                        s w1 [(server_served s, server_drops s)]))"


end
