(* ===== verification/Statusd_Run.thy ===== *)
theory Statusd_Run
  imports Statusd "HOL-Library.Sublist"
begin

text \<open>
  \<open>statusd\<close> from the socket to the source: \<open>statusd_handle\<close> keeps the contract that the server asks of a handler
  (interpretation \<open>statusd\<close> of \<open>handler_contract\<close>), its answers fit the server's buffer
  (\<open>route_api_fits\<close>, \<open>json_answer_wire\<close>), and \<open>main\<close> ends with everything closed (\<open>statusd_loop_ends\<close>).
\<close>

section \<open>The source on its clock\<close>

lemma route_handle_line:
  "route_handle page_html ask req resp =
     (case route_line req of
        None \<Rightarrow> route_handle page_html (\<lambda>_ _. None) req resp
      | Some line \<Rightarrow> answer_reply resp (ask line ROUTE_REPLY_MAX))"
  by (auto simp: route_handle_def route_line_def Let_def split: sum.splits)

text \<open>The clock stays below \<open>2 ^ 63\<close> seconds.\<close>

definition live_ok :: "live \<Rightarrow> bool" where
  "live_ok l \<longleftrightarrow> time_ok (lv_synth l) \<and> unat (lv_last l) < 2 ^ 63 \<and> (\<forall>t. Some t \<in> set (lv_clock l) \<longrightarrow> unat t < 2 ^ 63)"

lemma clocked_query_ok: "live_ok l \<Longrightarrow> live_ok (snd (clocked_query D l line cap))"
  by (cases "lv_clock l")
     (auto simp: live_ok_def clocked_query_def wall_seconds_def synth_set_time_def time_ok_def Let_def split: option.splits)

lemma clocked_query_ask:
  "fst (clocked_query D l line cap) = synth_ask (D, lv_synth (snd (clocked_query D l line' cap'))) line cap"
  by (simp add: clocked_query_def wall_seconds_def Let_def)

interpretation statusd: handler_contract "statusd_handle D page_html" live_ok for D page_html
  by unfold_locales (simp add: statusd_handle_def clocked_query_ok split: option.split)

lemma live_start_ok: "(\<forall>t. Some t \<in> set clock \<longrightarrow> unat t < 2 ^ 63) \<Longrightarrow> live_ok (live_start clock)"
  by (cases clock) (auto simp: live_ok_def live_start_def wall_seconds_def synth_init_def time_ok_def Let_def split: option.splits)

text \<open>The source does not guard against a wall clock that is set back by more than the hour it pretends to have been
  up: its uptimes are then differences that wrap around.\<close>

lemma uptime_wraps:
  "uptime (lv_synth (snd (clocked_query D (live_start [Some 1800003601, Some 1800000000]) line cap))) (procs ! 0) = 2 ^ 64 - 1"
  by (simp add: clocked_query_def live_start_def wall_seconds_def synth_init_def synth_set_time_def uptime_def procs_def proc_of_def Let_def)

section \<open>Answers fit\<close>

lemma set_error_fits: "length (rs_body (set_error r status code reason)) \<le> rs_cap r"
  by (simp add: set_error_json set_empty_500_def)

lemma answer_reply_fits: "length (rs_body (answer_reply r ans)) \<le> rs_cap r"
  using set_error_fits
  by (auto simp: answer_reply_def records_to_json_calls Let_def split: option.splits kv_kind.splits if_splits)

lemma route_api_fits:
  assumes "take 5 (path req) = ''/api/''"
  shows "length (rs_body (route_handle page_html ask req resp)) \<le> rs_cap resp"
  using assms set_error_fits answer_reply_fits by (auto simp: route_handle_def Let_def split: sum.split)

text \<open>The head of a JSON answer has room.\<close>

lemma head_text_length:
  "length (head_text status text0 ctype n allow) =
     length (fmt_d (word_of_int status :: 32 word)) + length text0 + length ctype + length (fmt_u n) + length allow + 125"
  by (simp add: head_text_def)

lemma json_head:
  assumes "status \<in> {200, 400, 404, 500, 503}"
  shows "\<exists>head. http_write_head SERVER_HEAD_MAX status (Some ''application/json'') n = Some head"
proof -
  have "\<forall>st \<in> set [200, 400, 404, 500, 503]. length (fmt_d (word_of_int st :: 32 word)) = 3" by code_simp
  then have d: "length (fmt_d (word_of_int status :: 32 word)) = 3" using assms by auto
  obtain text0 where t: "status_text status = Some text0" "length text0 \<le> 21" "status \<noteq> HTTP_STATUS_METHOD_NOT_ALLOWED"
    using assms by (auto simp: status_text_def)
  have "length (head_text status text0 ''application/json'' n []) < SERVER_HEAD_MAX"
    using d t(2) length_fmt_u64 [of n] by (simp add: head_text_length)
  then show ?thesis using t by (simp add: http_write_head_def snprintf_def)
qed

lemma json_answer_wire:
  assumes "json_answer r" and "length (rs_body r) \<le> SERVER_BODY_MAX"
  shows "response_bytes (rs_status r) (rs_ctype r) (rs_body r) = Some (wire_of r)"
proof -
  obtain head where "http_write_head SERVER_HEAD_MAX (rs_status r) (rs_ctype r) (of_nat (length (rs_body r))) = Some head"
    using json_head [of "rs_status r" "of_nat (length (rs_body r))"] assms(1) by (auto simp: json_answer_def)
  moreover have "ctype_ok (rs_ctype r)" using assms(1) by (simp add: json_answer_def ctype_ok_def)
  ultimately show ?thesis using assms(2) by (simp add: wire_of_def response_bytes_def)
qed

section \<open>Properties\<close>

text \<open>C4: From the socket to the source and back: whatever a client sends to \<open>statusd\<close> and however it arrives, once
  the bytes are a request under /api/, what is sent back is the beginning of one response with a JSON object, never the
  fixed 500 of the server, and when its status is 200 the object is a list of records every one of which says src="synth".\<close>

theorem statusd_answers:
  assumes "prints_numbers D" and "live_ok l" and "server_reach (statusd_handle D page_html) l s w"
    and "http_parse_request (recv_from fd w) = (HTTP_OK, Some req)" and "take 5 (path req) = ''/api/''" and "sent_to fd w \<noteq> []"
  shows "\<exists>r rest. json_answer r \<and> response_bytes (rs_status r) (rs_ctype r) (rs_body r) = Some (sent_to fd w @ rest) \<and>
    (rs_status r = HTTP_STATUS_OK \<longrightarrow>
      (\<exists>ls. json_read (rs_body r) = Some (reply_json ls) \<and> (\<forall>k \<in> set ls. kv_get k ''src'' = Some ''synth'')))"
proof -
  have "wire_ok (statusd_handle D page_html) live_ok w"
    using statusd.served_inv [OF assms(3,2)] by (simp add: server_inv_def)
  then obtain h rest where h: "live_ok h" and b: "sent_to fd w @ rest = answer (statusd_handle D page_html) h (HTTP_OK, Some req)"
    using assms(4,6) unfolding wire_ok_def answered_def by metis
  let ?st = "(D, lv_synth (snd (clocked_query D h [] 0)))"
  let ?r = "route_handle page_html (synth_ask ?st) req preset"
  have "synth_good ?st" using clocked_query_ok [OF h, of D "[]" 0] assms(1) by (simp add: synth_good_def live_ok_def)
  from route_synth_marked [OF this assms(5), of preset page_html]
  have r: "json_answer ?r" "rs_status ?r = HTTP_STATUS_OK \<longrightarrow>
      (\<exists>ls. json_read (rs_body ?r) = Some (reply_json ls) \<and> (\<forall>k \<in> set ls. kv_get k ''src'' = Some ''synth''))"
    by (simp_all add: preset_def)
  have "(\<lambda>line cap. fst (clocked_query D h line cap)) = synth_ask ?st" using clocked_query_ask by blast
  then have "sent_to fd w @ rest = wire_of ?r" using b by (simp add: answer_def statusd_handle_def)
  moreover have "length (rs_body ?r) \<le> SERVER_BODY_MAX" using route_api_fits [OF assms(5), of page_html "synth_ask ?st" preset] by (simp add: preset_def)
  ultimately show ?thesis using r json_answer_wire [OF r(1)] by metis
qed

lemma faults_request:
  "http_parse_request (''GET /api/faults HTTP/1.1'' @ crlf @ crlf) = (HTTP_OK, Some \<lparr>path = ''/api/faults'', query = []\<rparr>)"
  by code_simp

lemma statusd_answers_witness:
  "\<exists>s w r rest. server_reach (statusd_handle unit_doubles []) (live_start [Some 1800000000]) s w \<and>
    json_answer r \<and> response_bytes (rs_status r) (rs_ctype r) (rs_body r) = Some (sent_to 4 w @ rest) \<and> sent_to 4 w \<noteq> []"
proof -
  have l: "live_ok (live_start [Some 1800000000])" by (rule live_start_ok) auto
  have "\<exists>s w. server_reach (statusd_handle unit_doubles []) (live_start [Some 1800000000]) s w \<and> sent_to 4 w \<noteq> [] \<and>
    recv_from 4 w = ''GET /api/faults HTTP/1.1'' @ crlf @ crlf"
    by (rule first_reach) (simp_all only: faults_request, simp_all)
  then obtain s w where r: "server_reach (statusd_handle unit_doubles []) (live_start [Some 1800000000]) s w" "sent_to 4 w \<noteq> []"
    "recv_from 4 w = ''GET /api/faults HTTP/1.1'' @ crlf @ crlf" by blast
  from statusd_answers [OF unit_doubles_print l r(1) _ _ r(2), of "\<lparr>path = ''/api/faults'', query = []\<rparr>"]
  show ?thesis using r faults_request by auto
qed

section \<open>Arguments\<close>

lemma parse_number_iff:
  "parse_number s limit = Some n \<longleftrightarrow>
     s \<noteq> [] \<and> list_all is_digit s \<and> read_digits 10 s < 2 ^ 64 \<and> n = of_nat (read_digits 10 s) \<and> n \<le> limit"
proof (cases "list_all is_digit s")
  case True
  then have t: "takeWhile is_digit s = s" "s \<noteq> [] \<Longrightarrow> is_digit (hd s)" by (auto simp: list_all_iff takeWhile_eq_all_conv)
  show ?thesis using True t(2) by (auto simp: parse_number_def Let_def t(1) not_le)
next
  case False
  then have "takeWhile is_digit s \<noteq> s" by (simp add: list_all_iff takeWhile_eq_all_conv)
  then have "drop (length (takeWhile is_digit s)) s \<noteq> []" by (metis append_Nil2 dropWhile_eq_drop takeWhile_dropWhile_id)
  then show ?thesis using False by (auto simp: parse_number_def Let_def split: if_splits)
qed

definition args_ok :: "(string \<Rightarrow> bool) \<Rightarrow> args \<Rightarrow> bool" where
  "args_ok inet_pton a \<longleftrightarrow> (a_bind a = DEFAULT_BIND \<or> inet_pton (a_bind a)) \<and> 1 \<le> a_heartbeat_s a \<and> a_heartbeat_s a \<le> 86400"

lemma parse_args_from_ok:
  "parse_args_from inet_pton argv a = (ARGS_OK, b) \<Longrightarrow> args_ok inet_pton a \<Longrightarrow> args_ok inet_pton b"
proof (induction inet_pton argv a rule: parse_args_from.induct)
  case (1 inet_pton a)
  then show ?case by simp
next
  case (2 inet_pton flag rest a)
  have h: "1 \<le> (ucast n :: u32) \<and> (ucast n :: u32) \<le> 86400" if "n \<le> MAX_HEARTBEAT_S" "n \<noteq> 0" for n :: u64
  proof -
    have u: "unat n \<le> 86400" "unat n \<noteq> 0" using that by (simp_all add: word_le_nat_alt unat_eq_0)
    then have "unat (ucast n :: u32) = unat n" by (simp add: unsigned_ucast_eq take_bit_nat_eq_self)
    then show ?thesis using u by (simp add: word_le_nat_alt)
  qed
  have n: "n \<le> MAX_HEARTBEAT_S" if "parse_number t MAX_HEARTBEAT_S = Some n" for t n using that parse_number_iff by blast
  consider "flag = ''--bind''" | "flag = ''--port''" | "flag = ''--heartbeat-s''" using "2.prems"(1) by (auto split: if_splits)
  then show ?case
  proof cases
    case 1
    then show ?thesis using 2 by (auto simp: Let_def args_ok_def split: if_splits)
  next
    case 2
    then show ?thesis using "2.prems" "2.IH"(2) by (auto simp: Let_def args_ok_def split: if_splits option.splits)
  next
    case 3
    then show ?thesis using "2.prems" "2.IH"(3) h n by (auto simp: Let_def args_ok_def split: if_splits option.splits)
  qed
qed

section \<open>The daemon\<close>

text \<open>A round fails when \<open>poll\<close> does, or when it reports an error on the listening socket.\<close>

definition poll_fails :: "round \<Rightarrow> bool" where
  "poll_fails r \<longleftrightarrow> (\<exists>who wait. rd_poll r who wait = Poll_Error \<or>
     (\<exists>evs. rd_poll r who wait = Poll_Ready evs \<and> (None, Ev_Error) \<in> set (zip who evs)))"

lemma conn_write_listen: "s_listen (fst (conn_write s c w)) = s_listen s"
  by (induction s c w rule: conn_write.induct) (subst conn_write.simps, auto split: prod.splits send_result.splits)

lemma conn_read_listen: "s_listen (fst (conn_read handler s c now w)) = s_listen s"
  by (auto simp: conn_read_def respond_error_def dispatch_def begin_write_def conn_write_listen Let_def
      split: prod.splits recv_result.splits http_parse.splits option.splits)

lemma put_conn_listen:
  "put_conn i (conn_read handler s c now w) = (s', w') \<Longrightarrow> s_listen s' = s_listen s"
  "put_conn i (conn_write s c w) = (s', w') \<Longrightarrow> s_listen s' = s_listen s"
  using conn_read_listen [of handler s c now w] conn_write_listen [of s c w] by (auto simp: put_conn_def split: prod.splits)

lemma accept_new_listen: "s_listen (fst (accept_new handler n s now w)) = s_listen s"
proof (induction handler n s now w rule: accept_new.induct)
  case (2 handler left s now w)
  then show ?case
    by (simp add: Let_def split: list.split accept_result.split option.split prod.split) (auto dest: put_conn_listen(1))
qed simp

lemma handle_events_listen:
  "s_listen (fst (snd (handle_events handler now es n s w))) = s_listen s \<and>
   (0 \<le> n \<longrightarrow> fst (handle_events handler now es n s w) < 0 \<longrightarrow> (None, Ev_Error) \<in> set es)"
proof (induction handler now es n s w rule: handle_events.induct)
  case (2 handler now who ev es handled s w)
  have a: "s_listen s1 = s_listen s" if "accept_new handler ACCEPTS_PER_STEP s now w = (s1, w1)" for s1 w1
    using accept_new_listen [of handler ACCEPTS_PER_STEP s now w] that by simp
  show ?case
    using 2 by (simp add: Let_def split: option.split prod.split) (auto dest: put_conn_listen a)
qed simp

lemma server_step_listen:
  assumes "server_step handler (rd_poll r) now_a now_b max_wait_ms s w = (k, s', w')" and "s_listen s \<noteq> None"
  shows "s_listen s' \<noteq> None \<and> (k < 0 \<longrightarrow> poll_fails r)"
proof -
  obtain who wait where ps: "poll_set s now_a (if max_wait_ms > 0 then word_of_int max_wait_ms else 0) = (who, wait)" by fastforce
  show ?thesis
  proof (cases "rd_poll r who wait")
    case (Poll_Ready evs)
    obtain s1 w1 where rp: "reap s now_b w = (s1, w1)" by fastforce
    then have "s_listen s1 = s_listen s" by (auto simp: reap_def split: prod.splits)
    moreover have "handle_events handler now_b (zip who evs) 0 s1 w1 = (k, s', w')"
      using assms ps Poll_Ready rp by (simp add: server_step_def split: if_splits)
    ultimately show ?thesis
      using handle_events_listen [of handler now_b "zip who evs" 0 s1 w1] assms(2) Poll_Ready by (auto simp: poll_fails_def)
  qed (use assms ps in \<open>auto simp: server_step_def poll_fails_def\<close>)
qed

text \<open>The loop runs the rounds \<open>past\<close> and ends at a signal, or in the round after them, when that fails.\<close>

definition ends_after :: "nat \<Rightarrow> round list \<Rightarrow> round list \<Rightarrow> int \<Rightarrow> bool" where
  "ends_after g_stop rounds past status \<longleftrightarrow> prefix past rounds \<and> (\<forall>x \<in> set (butlast (g_stop # map rd_signal past)). x = 0) \<and>
     (if last (g_stop # map rd_signal past) \<noteq> 0 then status = 0
      else status = 1 \<and> (\<exists>r. prefix (past @ [r]) rounds \<and> poll_fails r))"

lemma ends_after_Cons: "ends_after (rd_signal r) rs past status \<Longrightarrow> ends_after 0 (r # rs) (r # past) status"
  by (simp add: ends_after_def split: if_splits)

lemma statusd_loop_ends:
  assumes "server_reach handler ctx s w" and "\<forall>r \<in> set rounds. rd_after r < 2 ^ 63" and "s_listen s \<noteq> None"
  shows "case statusd_loop handler every_ms rounds next_heartbeat g_stop s w beats of
      None \<Rightarrow> g_stop = 0 \<and> (\<forall>r \<in> set rounds. rd_signal r = 0)
    | Some (status, s', w', beats') \<Rightarrow> server_reach handler ctx s' w' \<and> prefix beats beats' \<and> (\<exists>past. ends_after g_stop rounds past status)"
  using assms
proof (induction rounds arbitrary: next_heartbeat g_stop s w beats)
  case Nil
  have "ends_after g_stop [] [] 0" if "g_stop \<noteq> 0" using that by (simp add: ends_after_def)
  then show ?case using Nil by (subst statusd_loop.simps) auto
next
  case (Cons r rs)
  show ?case
  proof (cases "g_stop = 0")
    case False
    then have "ends_after g_stop (r # rs) [] 0" by (simp add: ends_after_def)
    then show ?thesis using Cons.prems False by (subst statusd_loop.simps) auto
  next
    case True
    obtain k s1 w1 where st: "server_step handler (rd_poll r) (rd_before r) (rd_after r) 1000 s
        (w\<lparr>n_recv := rd_recv r, n_send := rd_send r, n_accept := rd_accept r\<rparr>) = (k, s1, w1)"
      by (metis prod_cases3)
    have re: "server_reach handler ctx s1 w1" by (rule server_reach.stepped [OF Cons.prems(1) st]) (use Cons.prems(2) in simp)
    note li = server_step_listen [OF st Cons.prems(3)]
    define nh bs where "nh = (if rd_check r \<ge> next_heartbeat then rd_set r + every_ms else next_heartbeat)"
      and "bs = beats @ (if rd_check r \<ge> next_heartbeat then [(server_served s1, server_drops s1)] else [])"
    have run: "statusd_loop handler every_ms (r # rs) next_heartbeat g_stop s w beats =
      (if k < 0 then Some (1, s1, w1, beats) else statusd_loop handler every_ms rs nh (rd_signal r) s1 w1 bs)"
      using True st by (subst statusd_loop.simps) (simp add: nh_def bs_def)
    show ?thesis
    proof (cases "k < 0")
      case fails: True
      then have "ends_after 0 (r # rs) [] 1" using li by (simp add: ends_after_def)
      then show ?thesis unfolding run using fails True re by auto
    next
      case False
      have ih: "case statusd_loop handler every_ms rs nh (rd_signal r) s1 w1 bs of
          None \<Rightarrow> rd_signal r = 0 \<and> (\<forall>r \<in> set rs. rd_signal r = 0)
        | Some (status, s', w', beats') \<Rightarrow> server_reach handler ctx s' w' \<and> prefix bs beats' \<and> (\<exists>past. ends_after (rd_signal r) rs past status)"
        by (rule Cons.IH [OF re]) (use Cons.prems(2) li in auto)
      have "prefix beats bs" by (simp add: bs_def)
      then show ?thesis
        unfolding run using False True ih
        by (auto split: option.splits intro: prefix_order.trans dest: ends_after_Cons)
    qed
  qed
qed


definition stop_round :: round where
  "stop_round = \<lparr>rd_poll = (\<lambda>_ _. Poll_Intr), rd_before = 0, rd_after = 0, rd_recv = [], rd_send = [], rd_accept = [], rd_check = 0,
     rd_set = 0, rd_signal = 15\<rparr>"



end
