(* ===== verification/Shm.thy ===== *)
theory Shm
  imports Ipc_Ring
begin

text \<open>
  The rings in shared memory (\<open>src/ipc/shm.c\<close>): \<open>ring_create\<close>, \<open>ring_attach\<close>, \<open>ring_detach\<close> and \<open>ring_destroy\<close>
  over objects with names, where any call can fail. The lemmas \<open>ring_create_effect\<close> and \<open>ring_attach_effect\<close> say what
  is left on every way through; \<open>shm_step\<close> interleaves the processes that share the rings.
\<close>

section \<open>Shared memory\<close>

text \<open>An object has a size and, read as a ring, a content. It outlives its name while it is mapped.
  \<open>sh_fail\<close> says of each call to come whether it fails; when it runs out they all work.\<close>

record shm_object =
  o_size :: nat
  o_ring :: ring

record shm =
  sh_names :: "string \<Rightarrow> nat option"
  sh_objects :: "nat \<Rightarrow> shm_object"
  sh_fresh :: nat
  sh_fds :: "nat list"
  sh_maps :: "nat list"
  sh_fail :: "bool list"

abbreviation (input) SIZEOF_RING :: nat where "SIZEOF_RING \<equiv> 164096"

definition zero_ring :: ring where
  "zero_ring = \<lparr>r_magic = 0, r_version = 0, r_slot_size = 0, r_capacity = 0, r_generation = 0, r_head = 0, r_tail = 0,
     r_overruns = 0, r_rejected = 0, r_slot = replicate 4096 zero_slot\<rparr>"

definition next_call :: "shm \<Rightarrow> bool \<times> shm" where
  "next_call sh = (case sh_fail sh of [] \<Rightarrow> (True, sh) | f # fs \<Rightarrow> (\<not> f, sh\<lparr>sh_fail := fs\<rparr>))"

datatype unlink_result = Unlinked | No_Entry | Unlink_Failed

definition shm_unlink :: "string \<Rightarrow> shm \<Rightarrow> unlink_result \<times> shm" where
  "shm_unlink name sh0 =
     (let (works, sh) = next_call sh0
      in if \<not> works then (Unlink_Failed, sh)
         else if sh_names sh name = None then (No_Entry, sh)
         else (Unlinked, sh\<lparr>sh_names := (sh_names sh)(name := None)\<rparr>))"

text \<open>\<open>shm_open\<close> with \<open>O_CREAT | O_EXCL\<close>, and of an object that exists. A descriptor is the number of its
  object.\<close>

definition shm_open_new :: "string \<Rightarrow> shm \<Rightarrow> nat option \<times> shm" where
  "shm_open_new name sh0 =
     (let (works, sh) = next_call sh0
      in if \<not> works \<or> sh_names sh name \<noteq> None then (None, sh)
         else let i = sh_fresh sh
              in (Some i, sh\<lparr>sh_names := (sh_names sh)(name \<mapsto> i), sh_fresh := i + 1, sh_fds := i # sh_fds sh,
                             sh_objects := (sh_objects sh)(i := \<lparr>o_size = 0, o_ring = zero_ring\<rparr>)\<rparr>))"

definition shm_open :: "string \<Rightarrow> shm \<Rightarrow> nat option \<times> shm" where
  "shm_open name sh0 =
     (let (works, sh) = next_call sh0
      in if \<not> works then (None, sh)
         else case sh_names sh name of
             None \<Rightarrow> (None, sh)
           | Some i \<Rightarrow> (Some i, sh\<lparr>sh_fds := i # sh_fds sh\<rparr>))"

definition sys_ftruncate :: "nat \<Rightarrow> nat \<Rightarrow> shm \<Rightarrow> bool \<times> shm" where
  "sys_ftruncate i n sh0 =
     (let (works, sh) = next_call sh0
      in (works, if works then sh\<lparr>sh_objects := (sh_objects sh)(i := (sh_objects sh i)\<lparr>o_size := n\<rparr>)\<rparr> else sh))"

definition sys_fstat :: "nat \<Rightarrow> shm \<Rightarrow> nat option \<times> shm" where
  "sys_fstat i sh0 = (let (works, sh) = next_call sh0 in (if works then Some (o_size (sh_objects sh i)) else None, sh))"

definition sys_mmap :: "nat \<Rightarrow> shm \<Rightarrow> bool \<times> shm" where
  "sys_mmap i sh0 = (let (works, sh) = next_call sh0 in (works, if works then sh\<lparr>sh_maps := i # sh_maps sh\<rparr> else sh))"

definition sys_munmap :: "nat \<Rightarrow> shm \<Rightarrow> bool \<times> shm" where
  "sys_munmap i sh0 = (let (works, sh) = next_call sh0 in (works, if works then sh\<lparr>sh_maps := remove1 i (sh_maps sh)\<rparr> else sh))"

text \<open>\<open>close\<close> gives the descriptor back even when it reports an error.\<close>

definition close_fd :: "nat \<Rightarrow> shm \<Rightarrow> shm" where
  "close_fd i sh0 = (let (works, sh) = next_call sh0 in sh\<lparr>sh_fds := remove1 i (sh_fds sh)\<rparr>)"

definition upd_ring :: "nat \<Rightarrow> (ring \<Rightarrow> ring) \<Rightarrow> shm \<Rightarrow> shm" where
  "upd_ring i f sh = sh\<lparr>sh_objects := (sh_objects sh)(i := (sh_objects sh i)\<lparr>o_ring := f (o_ring (sh_objects sh i))\<rparr>)\<rparr>"

section \<open>The operations\<close>

text \<open>The generation of a ring: the wall clock, zero when it cannot be read, and the process.\<close>

definition ring_generation :: "(u64 \<times> u64) option \<Rightarrow> u32 \<Rightarrow> u64" where
  "ring_generation clock pid =
     (let (tv_sec, tv_nsec) = (case clock of None \<Rightarrow> (0, 0) | Some ts \<Rightarrow> ts)
      in (tv_sec * 1000000000 + tv_nsec) XOR push_bit 40 (ucast pid))"

definition ring_create :: "(u64 \<times> u64) option \<Rightarrow> u32 \<Rightarrow> string \<Rightarrow> shm \<Rightarrow> nat option \<times> shm" where
  "ring_create clock pid name sh0 =
     (let (_, sh1) = shm_unlink name sh0
      in case shm_open_new name sh1 of
           (None, sh2) \<Rightarrow> (None, sh2)
         | (Some i, sh2) \<Rightarrow>
             let unlink = (\<lambda>sh. (None, close_fd i (snd (shm_unlink name sh))));
                 (sized, sh3) = sys_ftruncate i SIZEOF_RING sh2
             in if \<not> sized then unlink sh3
                else let (mapped, sh4) = sys_mmap i sh3
                     in if \<not> mapped then unlink sh4
                        else let sh5 = upd_ring i ring_init sh4;
                                 sh6 = upd_ring i (\<lambda>r. r\<lparr>r_generation := ring_generation clock pid\<rparr>) sh5
                             in (Some i, close_fd i sh6))"

definition ring_attach :: "string \<Rightarrow> shm \<Rightarrow> nat option \<times> shm" where
  "ring_attach name sh0 =
     (case shm_open name sh0 of
        (None, sh1) \<Rightarrow> (None, sh1)
      | (Some i, sh1) \<Rightarrow>
          (case sys_fstat i sh1 of
             (None, sh2) \<Rightarrow> (None, close_fd i sh2)
           | (Some st_size, sh2) \<Rightarrow>
               if st_size < SIZEOF_RING then (None, close_fd i sh2)
               else let (mapped, sh3) = sys_mmap i sh2
                    in if \<not> mapped then (None, close_fd i sh3)
                       else if \<not> ring_layout_ok (o_ring (sh_objects sh3 i))
                       then (None, close_fd i (snd (sys_munmap i sh3)))
                       else (Some i, close_fd i sh3)))"

definition ring_detach :: "nat option \<Rightarrow> shm \<Rightarrow> shm" where
  "ring_detach r sh = (case r of None \<Rightarrow> sh | Some i \<Rightarrow> snd (sys_munmap i sh))"

definition ring_destroy :: "string \<Rightarrow> shm \<Rightarrow> int \<times> shm" where
  "ring_destroy name sh =
     (case shm_unlink name sh of (Unlink_Failed, sh1) \<Rightarrow> (-1, sh1) | (_, sh1) \<Rightarrow> (0, sh1))"

section \<open>Properties\<close>

text \<open>What each call leaves, whichever way it went.\<close>

lemma next_call_effect: "next_call sh = (b, sh') \<Longrightarrow> \<exists>fs. sh' = sh\<lparr>sh_fail := fs\<rparr>"
  by (cases "sh_fail sh") (auto simp: next_call_def intro: exI [of _ "[]"] exI [of _ "sh_fail sh"])

lemma shm_unlink_effect:
  assumes "shm_unlink name sh = (r, sh')"
  shows "\<exists>fs. sh' = sh\<lparr>sh_fail := fs, sh_names := if r = Unlinked then (sh_names sh)(name := None) else sh_names sh\<rparr> \<and>
    (r = No_Entry \<longrightarrow> sh_names sh name = None)"
  using assms next_call_effect [of sh] by (auto simp: shm_unlink_def split: prod.splits if_splits)

lemma shm_open_new_effect:
  assumes "shm_open_new name sh = (r, sh')"
  shows "\<exists>fs. (r = None \<and> sh' = sh\<lparr>sh_fail := fs\<rparr>) \<or>
    (r = Some (sh_fresh sh) \<and> sh' = sh\<lparr>sh_fail := fs, sh_names := (sh_names sh)(name \<mapsto> sh_fresh sh), sh_fresh := sh_fresh sh + 1,
       sh_fds := sh_fresh sh # sh_fds sh, sh_objects := (sh_objects sh)(sh_fresh sh := \<lparr>o_size = 0, o_ring = zero_ring\<rparr>)\<rparr>)"
  using assms next_call_effect [of sh] by (auto simp: shm_open_new_def Let_def split: prod.splits if_splits)

lemma shm_open_effect:
  assumes "shm_open name sh = (r, sh')"
  shows "\<exists>fs. (r = None \<and> sh' = sh\<lparr>sh_fail := fs\<rparr>) \<or>
    (\<exists>i. r = Some i \<and> sh_names sh name = Some i \<and> sh' = sh\<lparr>sh_fail := fs, sh_fds := i # sh_fds sh\<rparr>)"
  using assms next_call_effect [of sh] by (auto simp: shm_open_def Let_def split: prod.splits if_splits option.splits) force+

lemma sys_ftruncate_effect:
  assumes "sys_ftruncate i n sh = (r, sh')"
  shows "\<exists>fs. sh' = sh\<lparr>sh_fail := fs, sh_objects := if r then (sh_objects sh)(i := (sh_objects sh i)\<lparr>o_size := n\<rparr>) else sh_objects sh\<rparr>"
  using assms next_call_effect [of sh] by (auto simp: sys_ftruncate_def Let_def split: prod.splits if_splits)

lemma sys_mmap_effect:
  assumes "sys_mmap i sh = (r, sh')"
  shows "\<exists>fs. sh' = sh\<lparr>sh_fail := fs, sh_maps := if r then i # sh_maps sh else sh_maps sh\<rparr>"
  using assms next_call_effect [of sh] by (auto simp: sys_mmap_def Let_def split: prod.splits if_splits)

lemma sys_munmap_effect:
  "\<exists>fs. snd (sys_munmap i sh) = sh\<lparr>sh_fail := fs, sh_maps := if fst (sys_munmap i sh) then remove1 i (sh_maps sh) else sh_maps sh\<rparr>"
proof -
  obtain b sh1 where n: "next_call sh = (b, sh1)" by fastforce
  then obtain fs where "sh1 = sh\<lparr>sh_fail := fs\<rparr>" using next_call_effect by blast
  then show ?thesis using n by (auto simp: sys_munmap_def)
qed

lemma close_fd_effect: "\<exists>fs. close_fd i sh = sh\<lparr>sh_fail := fs, sh_fds := remove1 i (sh_fds sh)\<rparr>"
proof -
  obtain b sh1 where n: "next_call sh = (b, sh1)" by fastforce
  then obtain fs where "sh1 = sh\<lparr>sh_fail := fs\<rparr>" using next_call_effect by blast
  then show ?thesis using n by (auto simp: close_fd_def)
qed

text \<open>Names lead to objects that exist.\<close>

definition shm_ok :: "shm \<Rightarrow> bool" where
  "shm_ok sh \<longleftrightarrow> (\<forall>name i. sh_names sh name = Some i \<longrightarrow> i < sh_fresh sh)"

text \<open>The way out of \<open>ring_create\<close> after a failure.\<close>

lemma create_failed_effect:
  assumes "sh_fds sh = i # fds" and "sh' = close_fd i (snd (shm_unlink name sh))"
  shows "sh_fds sh' = fds \<and> sh_fresh sh' = sh_fresh sh \<and> sh_objects sh' = sh_objects sh \<and> sh_maps sh' = sh_maps sh \<and>
    (sh_names sh' = sh_names sh \<or> sh_names sh' = (sh_names sh)(name := None))"
proof -
  obtain r sh1 where u: "shm_unlink name sh = (r, sh1)" by fastforce
  obtain fs where "sh1 = sh\<lparr>sh_fail := fs, sh_names := if r = Unlinked then (sh_names sh)(name := None) else sh_names sh\<rparr>"
    using shm_unlink_effect [OF u] by blast
  moreover obtain gs where "close_fd i sh1 = sh1\<lparr>sh_fail := gs, sh_fds := remove1 i (sh_fds sh1)\<rparr>" using close_fd_effect by blast
  ultimately show ?thesis using assms u by simp
qed

lemma ring_create_effect:
  assumes "ring_create clock pid name sh = (res, sh')"
  shows "sh_fds sh' = sh_fds sh \<and> sh_fresh sh \<le> sh_fresh sh' \<and> (\<forall>n. n \<noteq> name \<longrightarrow> sh_names sh' n = sh_names sh n) \<and>
    (\<forall>i. i \<noteq> sh_fresh sh \<longrightarrow> sh_objects sh' i = sh_objects sh i) \<and>
    (sh_names sh' name = sh_names sh name \<or> sh_names sh' name = None \<or>
     sh_names sh' name = Some (sh_fresh sh) \<and> sh_fresh sh' = sh_fresh sh + 1) \<and>
    (case res of None \<Rightarrow> sh_maps sh' = sh_maps sh
     | Some i \<Rightarrow> i = sh_fresh sh \<and> sh_names sh' name = Some i \<and> sh_maps sh' = i # sh_maps sh \<and>
         sh_objects sh' i = \<lparr>o_size = SIZEOF_RING, o_ring = (ring_init zero_ring)\<lparr>r_generation := ring_generation clock pid\<rparr>\<rparr>)"
proof -
  let ?i = "sh_fresh sh"
  obtain u sh1 where u: "shm_unlink name sh = (u, sh1)" by fastforce
  obtain r sh2 where o: "shm_open_new name sh1 = (r, sh2)" by fastforce
  obtain m fs where sh1: "sh1 = sh\<lparr>sh_fail := fs, sh_names := m\<rparr>" and m: "m = sh_names sh \<or> m = (sh_names sh)(name := None)"
    using shm_unlink_effect [OF u] by (metis (full_types))
  show ?thesis
  proof (cases r)
    case None
    then obtain gs where "sh2 = sh1\<lparr>sh_fail := gs\<rparr>" using shm_open_new_effect [OF o] by blast
    then show ?thesis using assms u o None sh1 m by (auto simp: ring_create_def)
  next
    case (Some j)
    then obtain gs where j: "j = ?i" and sh2: "sh2 = sh\<lparr>sh_fail := gs, sh_names := m(name \<mapsto> ?i), sh_fresh := ?i + 1,
       sh_fds := ?i # sh_fds sh, sh_objects := (sh_objects sh)(?i := \<lparr>o_size = 0, o_ring = zero_ring\<rparr>)\<rparr>"
      using shm_open_new_effect [OF o] sh1 by auto
    obtain t sh3 where t: "sys_ftruncate ?i SIZEOF_RING sh2 = (t, sh3)" by fastforce
    obtain ms sh4 where mm: "sys_mmap ?i sh3 = (ms, sh4)" by fastforce
    obtain hs where sh3: "sh3 = sh2\<lparr>sh_fail := hs, sh_objects :=
        if t then (sh_objects sh2)(?i := (sh_objects sh2 ?i)\<lparr>o_size := SIZEOF_RING\<rparr>) else sh_objects sh2\<rparr>"
      using sys_ftruncate_effect [OF t] by blast
    obtain ks where sh4: "sh4 = sh3\<lparr>sh_fail := ks, sh_maps := if ms then ?i # sh_maps sh3 else sh_maps sh3\<rparr>"
      using sys_mmap_effect [OF mm] by blast
    let ?sh5 = "upd_ring ?i (\<lambda>r. r\<lparr>r_generation := ring_generation clock pid\<rparr>) (upd_ring ?i ring_init sh4)"
    have res: "(res, sh') = (if \<not> t then (None, close_fd ?i (snd (shm_unlink name sh3)))
      else if \<not> ms then (None, close_fd ?i (snd (shm_unlink name sh4)))
      else (Some ?i, close_fd ?i ?sh5))"
      using assms u o Some j t mm by (cases t; cases ms) (simp_all add: ring_create_def Let_def)
    consider "\<not> t" | "t" "\<not> ms" | "t" "ms" by blast
    then show ?thesis
    proof cases
      case 1
      then have "res = None" "sh' = close_fd ?i (snd (shm_unlink name sh3))" using res by auto
      then show ?thesis using create_failed_effect [of sh3 ?i "sh_fds sh" sh' name] sh3 sh2 m 1 by auto
    next
      case 2
      then have "res = None" "sh' = close_fd ?i (snd (shm_unlink name sh4))" using res by auto
      then show ?thesis using create_failed_effect [of sh4 ?i "sh_fds sh" sh' name] sh4 sh3 sh2 m 2 by auto
    next
      case 3
      then have r: "res = Some ?i" "sh' = close_fd ?i ?sh5" using res by auto
      obtain ls where "close_fd ?i ?sh5 = ?sh5\<lparr>sh_fail := ls, sh_fds := remove1 ?i (sh_fds ?sh5)\<rparr>" using close_fd_effect by blast
      then show ?thesis using r 3 sh4 sh3 sh2 m by (auto simp: upd_ring_def)
    qed
  qed
qed

lemma ring_attach_effect:
  assumes "ring_attach name sh = (res, sh')"
  shows "sh_objects sh' = sh_objects sh \<and> sh_names sh' = sh_names sh \<and> sh_fds sh' = sh_fds sh \<and> sh_fresh sh' = sh_fresh sh \<and>
    (case res of
       Some i \<Rightarrow> sh_names sh name = Some i \<and> o_size (sh_objects sh i) \<ge> SIZEOF_RING \<and> ring_layout_ok (o_ring (sh_objects sh i)) \<and>
         sh_maps sh' = i # sh_maps sh
     | None \<Rightarrow> sh_maps sh' = sh_maps sh \<or> (\<exists>i. sh_names sh name = Some i \<and> sh_maps sh' = i # sh_maps sh))"
proof -
  obtain r sh1 where o: "shm_open name sh = (r, sh1)" by fastforce
  show ?thesis
  proof (cases r)
    case None
    then show ?thesis using assms o shm_open_effect [OF o] by (auto simp: ring_attach_def)
  next
    case (Some i)
    obtain fs where i: "sh_names sh name = Some i" and sh1: "sh1 = sh\<lparr>sh_fail := fs, sh_fds := i # sh_fds sh\<rparr>"
      using shm_open_effect [OF o] Some by auto
    obtain st sh2 where st: "sys_fstat i sh1 = (st, sh2)" by fastforce
    obtain gs where sh2: "sh2 = sh1\<lparr>sh_fail := gs\<rparr>" and sz: "st \<noteq> None \<Longrightarrow> st = Some (o_size (sh_objects sh i))"
      using st next_call_effect [of sh1] sh1 by (auto simp: sys_fstat_def split: prod.splits if_splits)
    obtain ms sh3 where mm: "sys_mmap i sh2 = (ms, sh3)" by fastforce
    obtain ks where sh3: "sh3 = sh2\<lparr>sh_fail := ks, sh_maps := if ms then i # sh_maps sh2 else sh_maps sh2\<rparr>"
      using sys_mmap_effect [OF mm] by blast
    let ?sh4 = "snd (sys_munmap i sh3)"
    obtain ls where sh4: "?sh4 = sh3\<lparr>sh_fail := ls, sh_maps := if fst (sys_munmap i sh3) then remove1 i (sh_maps sh3) else sh_maps sh3\<rparr>"
      using sys_munmap_effect by blast
    have cl: "\<exists>fs. close_fd i x = x\<lparr>sh_fail := fs, sh_fds := remove1 i (sh_fds x)\<rparr>" for x using close_fd_effect .
    consider "st = None \<or> (\<exists>n. st = Some n \<and> n < SIZEOF_RING)" "(res, sh') = (None, close_fd i sh2)"
      | n where "st = Some n" "n \<ge> SIZEOF_RING" "\<not> ms" "(res, sh') = (None, close_fd i sh3)"
      | n where "st = Some n" "n \<ge> SIZEOF_RING" "ms" "\<not> ring_layout_ok (o_ring (sh_objects sh3 i))" "(res, sh') = (None, close_fd i ?sh4)"
      | n where "st = Some n" "n \<ge> SIZEOF_RING" "ms" "ring_layout_ok (o_ring (sh_objects sh3 i))" "(res, sh') = (Some i, close_fd i sh3)"
      using assms o Some st mm by (cases st; cases ms) (auto simp: ring_attach_def not_le split: if_splits)
    then show ?thesis
    proof cases
      case 1
      then show ?thesis using cl [of sh2] sh2 sh1 by auto
    next
      case 2
      then show ?thesis using cl [of sh3] sh3 sh2 sh1 by auto
    next
      case 3
      then show ?thesis using cl [of ?sh4] sh4 sh3 sh2 sh1 i by auto
    next
      case 4
      then show ?thesis using cl [of sh3] sh3 sh2 sh1 i sz by auto
    qed
  qed
qed

lemma ring_attach_works:
  assumes "sh_fail sh = []"
  shows "fst (ring_attach name sh) =
    (case sh_names sh name of
       Some i \<Rightarrow> if o_size (sh_objects sh i) \<ge> SIZEOF_RING \<and> ring_layout_ok (o_ring (sh_objects sh i)) then Some i else None
     | None \<Rightarrow> None)"
  using assms
  by (auto simp: ring_attach_def shm_open_def sys_fstat_def sys_mmap_def next_call_def Let_def split: option.splits)

section \<open>Processes\<close>

text \<open>What the processes do with the rings: the supervisor creates and destroys, the others attach and detach,
  and a producer and a consumer work on rings they have mapped. A process that dies loses its mappings.\<close>

inductive ring_op :: "ring \<Rightarrow> ring \<Rightarrow> bool" where
  push: "ring_op r (fst (ring_push r x))"
| release: "ring_op r (fst (ring_release r n))"

inductive shm_step :: "shm \<Rightarrow> shm \<Rightarrow> bool" where
  create: "ring_create clock pid name sh = (res, sh') \<Longrightarrow> shm_step sh sh'"
| attach: "ring_attach name sh = (res, sh') \<Longrightarrow> shm_step sh sh'"
| detach: "shm_step sh (ring_detach r sh)"
| destroy: "ring_destroy name sh = (res, sh') \<Longrightarrow> shm_step sh sh'"
| exits: "shm_step sh (sh\<lparr>sh_maps := ms\<rparr>)"
| works: "i \<in> set (sh_maps sh) \<Longrightarrow> (\<And>r. ring_op r (f r)) \<Longrightarrow> shm_step sh (upd_ring i f sh)"

lemma shm_step_objects:
  assumes "shm_step sh sh'" and "i < sh_fresh sh"
  shows "(sh_objects sh' i = sh_objects sh i \<or> (\<exists>f. sh_objects sh' i = (sh_objects sh i)\<lparr>o_ring := f (o_ring (sh_objects sh i))\<rparr> \<and>
      ring_op (o_ring (sh_objects sh i)) (f (o_ring (sh_objects sh i))))) \<and> sh_fresh sh \<le> sh_fresh sh'"
  using assms
proof cases
  case (create clock pid name res)
  then show ?thesis using ring_create_effect [OF create] assms(2) by auto
next
  case (attach name res)
  then show ?thesis using ring_attach_effect [OF attach] by auto
next
  case (detach r)
  then show ?thesis using sys_munmap_effect [of "the r" sh] by (cases r) (auto simp: ring_detach_def)
next
  case (destroy name res)
  then have "\<exists>u. shm_unlink name sh = (u, sh')" by (auto simp: ring_destroy_def split: prod.splits unlink_result.splits)
  then show ?thesis using shm_unlink_effect by fastforce
next
  case (exits ms)
  then show ?thesis by simp
next
  case (works j f)
  then show ?thesis by (auto simp: upd_ring_def)
qed

lemma ring_op_keeps:
  assumes "ring_op r r'"
  shows "r_generation r' = r_generation r" and "ring_layout_ok r' \<longleftrightarrow> ring_layout_ok r" and "ring_inv r \<Longrightarrow> ring_inv r'"
  using assms rq.push_inv rq.release_inv
  by (auto elim!: ring_op.cases)
     (simp_all add: ring_push_def ring_release_def ring_layout_ok_def Let_def split: if_splits)

lemma ring_ops_keep:
  "ring_op\<^sup>*\<^sup>* r r' \<Longrightarrow>
     r_generation r' = r_generation r \<and> (ring_layout_ok r' \<longleftrightarrow> ring_layout_ok r) \<and> (ring_inv r \<longrightarrow> ring_inv r')"
  by (induction rule: rtranclp_induct) (simp_all add: ring_op_keeps)

lemma shm_steps_objects:
  assumes "shm_step\<^sup>*\<^sup>* sh sh'" and "i < sh_fresh sh"
  shows "ring_op\<^sup>*\<^sup>* (o_ring (sh_objects sh i)) (o_ring (sh_objects sh' i)) \<and> o_size (sh_objects sh' i) = o_size (sh_objects sh i) \<and>
    i < sh_fresh sh'"
  using assms(1)
proof (induction rule: rtranclp_induct)
  case base
  then show ?case using assms(2) by simp
next
  case (step y z)
  then show ?case using shm_step_objects [OF step.hyps(2), of i] by (auto intro: rtranclp.rtrancl_into_rtrancl)
qed

lemma ring_create_ok:
  assumes "shm_ok sh" and "ring_create clock pid name sh = (res, sh')"
  shows "shm_ok sh'"
  unfolding shm_ok_def
proof (intro allI impI)
  note e = ring_create_effect [OF assms(2)]
  fix n i assume "sh_names sh' n = Some i"
  then show "i < sh_fresh sh'" using e assms(1) by (cases "n = name") (fastforce simp: shm_ok_def)+
qed

text \<open>\<open>ring_create\<close> keeps what other processes have mapped: every object that existed has the content it had,
  whichever call fails, and no descriptor stays open. When it returns a ring, that is a new object under the
  name, mapped, of this build's layout, empty, with its counters at zero and the generation of this creation.\<close>

theorem ring_create_fresh:
  assumes "shm_ok sh" and "ring_create clock pid name sh = (res, sh')"
  shows "sh_fds sh' = sh_fds sh \<and> (\<forall>i < sh_fresh sh. sh_objects sh' i = sh_objects sh i) \<and>
    (\<forall>n. n \<noteq> name \<longrightarrow> sh_names sh' n = sh_names sh n) \<and> shm_ok sh' \<and>
    (case res of
       None \<Rightarrow> sh_maps sh' = sh_maps sh
     | Some i \<Rightarrow> i \<ge> sh_fresh sh \<and> sh_names sh' name = Some i \<and> sh_maps sh' = i # sh_maps sh \<and>
         ring_layout_ok (o_ring (sh_objects sh' i)) \<and> ring_inv (o_ring (sh_objects sh' i)) \<and>
         unread (o_ring (sh_objects sh' i)) = [] \<and> ring_overruns (o_ring (sh_objects sh' i)) = 0 \<and>
         r_generation (o_ring (sh_objects sh' i)) = ring_generation clock pid)"
proof -
  note e = ring_create_effect [OF assms(2)]
  have "shm_ok sh'" by (rule ring_create_ok [OF assms])
  moreover have "ring_layout_ok r \<and> ring_inv r \<and> unread r = [] \<and> ring_overruns r = 0"
    if "r = (ring_init zero_ring)\<lparr>r_generation := g\<rparr>" for r g
    using that by (simp add: ring_layout_ok_def ring_inv_def unread_def ring_overruns_def ring_init_def)
  ultimately show ?thesis using e by (cases res) auto
qed

text \<open>C16: A restarted process never resets a ring. Once the supervisor created a ring, whatever the processes do
  and whichever calls fail, attaching to the name, while it still stands for that ring, gives the ring itself, of the
  same generation, a proper ring changed only by the pushes and releases made on it; and attaching changes no ring at all.\<close>

theorem ring_attach_finds:
  assumes "ring_create clock pid name sh = (Some i, sh1)" and "shm_step\<^sup>*\<^sup>* sh1 sh2" and "sh_names sh2 name = Some i"
    and "shm_ok sh1" and "sh_fail sh2 = []"
  shows "fst (ring_attach name sh2) = Some i \<and> sh_objects (snd (ring_attach name sh2)) = sh_objects sh2 \<and>
    ring_op\<^sup>*\<^sup>* (o_ring (sh_objects sh1 i)) (o_ring (sh_objects sh2 i)) \<and>
    ring_inv (o_ring (sh_objects sh2 i)) \<and> r_generation (o_ring (sh_objects sh2 i)) = ring_generation clock pid"
proof -
  note e = ring_create_effect [OF assms(1)]
  have "i < sh_fresh sh1" using e assms(4) by (auto simp: shm_ok_def)
  note k = shm_steps_objects [OF assms(2) this]
  have "ring_layout_ok (o_ring (sh_objects sh1 i)) \<and> ring_inv (o_ring (sh_objects sh1 i))"
    using e by (auto simp: ring_layout_ok_def ring_init_def ring_inv_def unread_def)
  then have "ring_layout_ok (o_ring (sh_objects sh2 i)) \<and> ring_inv (o_ring (sh_objects sh2 i)) \<and> r_generation (o_ring (sh_objects sh2 i)) = ring_generation clock pid"
    using ring_ops_keep k e by auto
  moreover have "o_size (sh_objects sh2 i) = SIZEOF_RING" using k e by auto
  moreover have "sh_objects (snd (ring_attach name sh2)) = sh_objects sh2"
    using ring_attach_effect [of name sh2] by (cases "ring_attach name sh2") auto
  ultimately show ?thesis using ring_attach_works [OF assms(5), of name] assms(3) k by simp
qed

definition empty_shm :: shm where
  "empty_shm = \<lparr>sh_names = (\<lambda>_. None), sh_objects = (\<lambda>_. \<lparr>o_size = 0, o_ring = zero_ring\<rparr>), sh_fresh = 0, sh_fds = [], sh_maps = [],
     sh_fail = []\<rparr>"

lemma empty_shm_ok: "shm_ok empty_shm"
  by (simp add: shm_ok_def empty_shm_def)

lemma create_works: "fst (ring_create None 1 ''/carwatch-obd'' empty_shm) = Some 0"
  by (simp add: ring_create_def empty_shm_def shm_unlink_def shm_open_new_def sys_ftruncate_def sys_mmap_def next_call_def Let_def)

lemma create_leaves: "sh_fail (snd (ring_create None 1 ''/carwatch-obd'' empty_shm)) = []"
  by (simp add: ring_create_def empty_shm_def shm_unlink_def shm_open_new_def sys_ftruncate_def sys_mmap_def next_call_def
      close_fd_def upd_ring_def Let_def)

lemma ring_create_fresh_witness:
  "sh_names (snd (ring_create None 1 ''/carwatch-obd'' empty_shm)) ''/carwatch-obd'' = Some 0 \<and>
   sh_fds (snd (ring_create None 1 ''/carwatch-obd'' empty_shm)) = []"
  using ring_create_fresh [OF empty_shm_ok, of None 1 "''/carwatch-obd''"] create_works
  by (cases "ring_create None 1 ''/carwatch-obd'' empty_shm") (auto simp: empty_shm_def)

lemma ring_attach_finds_witness:
  "fst (ring_attach ''/carwatch-obd'' (snd (ring_create None 1 ''/carwatch-obd'' empty_shm))) = Some 0"
proof -
  obtain sh1 where c: "ring_create None 1 ''/carwatch-obd'' empty_shm = (Some 0, sh1)"
    using create_works by (metis prod.collapse)
  have "sh_names sh1 ''/carwatch-obd'' = Some 0" "sh_fail sh1 = []" using ring_create_effect [OF c] create_leaves c by simp_all
  moreover have "shm_ok sh1" by (rule ring_create_ok [OF empty_shm_ok c])
  ultimately show ?thesis using ring_attach_finds [OF c rtranclp.rtrancl_refl] c by simp
qed


end
