(* ===== verification/Page.thy ===== *)
theory Page
  imports Carwatch_Prelude "HOL-Library.Sublist" "HOL-Library.AList"
begin

text \<open>
  The status page (\<open>src/interface/page.c\<close>): the text itself, a reader of its markup, and its script over the document
  that the markup gives. \<open>page_self_contained\<close> is about the text, \<open>page_script_runs\<close> about the script.
\<close>

section \<open>The text\<close>

text \<open>The string literals between two line ends are one element of the list.\<close>

definition page_lines :: "string list" where
  "page_lines =
    [''<!doctype html>'',
     ''<html lang='en'><head><meta charset='utf-8'>'',
     ''<meta name='viewport' content='width=device-width, initial-scale=1'>'',
     ''<meta name='theme-color' content='#5b6470'>'',
     ''<title>carwatch</title>'',
     ''<style>'',
     '':root{--bg:#fff;--fg:#111;--mut:#555;--line:#d0d0d0;--green:#1b7f3b;--red:#c0262d;'' @
     ''--grey:#5b6470;--warn:#5c3d00;--warnbg:#ffe9a8}'',
     ''@media(prefers-color-scheme:dark){:root{--bg:#121316;--fg:#eee;--mut:#9aa0a6;'' @
     ''--line:#2c2f36;--warn:#ffe9a8;--warnbg:#4a3a00}}'',
     ''*{box-sizing:border-box}'',
     ''body{margin:0;background:var(--bg);color:var(--fg);'' @
     ''font:16px/1.4 system-ui,sans-serif;padding-bottom:4.5rem}'',
     ''.top{position:sticky;top:0;z-index:1}'',
     ''.bar{display:flex;align-items:center;gap:.75rem;min-height:56px;padding:.5rem 16px;'' @
     ''color:#fff;text-decoration:none;user-select:none}'',
     ''.bar.green{background:var(--green)}'',
     ''.bar.red{background:var(--red)}'',
     ''.bar.grey{background:var(--grey)}'',
     ''.icon{font-size:1.6rem;font-weight:700;width:2rem;text-align:center}'',
     ''.head{font-size:1.2rem;font-weight:700}'',
     ''.sub{font-size:.85rem;opacity:.9}'',
     ''.synth{background:var(--warnbg);color:var(--warn);padding:.25rem 16px;'' @
     ''font-size:.8rem;font-weight:700;letter-spacing:.04em}'',
     ''main{padding:16px;max-width:60rem;margin:0 auto}'',
     ''h1{font-size:1.3rem;margin:.2rem 0 .6rem}'',
     ''.mut{color:var(--mut)}'',
     ''nav{position:fixed;bottom:0;left:0;right:0;display:flex;background:var(--bg);'' @
     ''border-top:1px solid var(--line)}'',
     ''nav a{flex:1;text-align:center;padding:.9rem 0;color:var(--mut);'' @
     ''text-decoration:none;font-weight:600;user-select:none}'',
     ''nav a[aria-current='page']{color:var(--fg);box-shadow:inset 0 3px 0 var(--fg)}'',
     ''[hidden]{display:none}'',
     ''</style></head>'',
     ''<body>'',
     ''<div class='top'>'',
     ''<a id='bar' class='bar grey' href='#faults' draggable='false' role='status' '' @
     ''aria-live='polite'>'' @
     ''<span id='bar-icon' class='icon'>?</span>'' @
     ''<span><span id='bar-head' class='head'>Connecting</span><br>'' @
     ''<span id='bar-sub' class='sub'></span></span></a>'',
     ''<div id='synth' class='synth'>SYNTHETIC DATA: nothing on this page is from a car</div>'',
     ''</div>'',
     ''<noscript><p style='padding:16px'>This page needs JavaScript to show its tabs and '' @
     ''its status.</p></noscript>'',
     ''<main>'',
     ''<section id='now' class='panel'><h1>Now</h1>'' @
     ''<p class='mut'>Latest values and active verdicts. Not built yet.</p></section>'',
     ''<section id='trends' class='panel' hidden><h1>Trends</h1>'' @
     ''<p class='mut'>One signal at a time, over a window you pick. Not built yet.</p></section>'',
     ''<section id='faults' class='panel' hidden><h1>Faults</h1>'' @
     ''<p class='mut'>Verdicts, active and past, and the event timeline. Not built yet.</p>'' @
     ''</section>'',
     ''<section id='system' class='panel' hidden><h1>System</h1>'' @
     ''<p class='mut'>Processes, rings, links and the data sources. Not built yet.</p>'' @
     ''</section>'',
     ''</main>'',
     ''<nav>'' @
     ''<a id='tab-now' href='#now' draggable='false'>Now</a>'' @
     ''<a id='tab-trends' href='#trends' draggable='false'>Trends</a>'' @
     ''<a id='tab-faults' href='#faults' draggable='false'>Faults</a>'' @
     ''<a id='tab-system' href='#system' draggable='false'>System</a>'' @
     ''</nav>'',
     ''<script>'',
     ''(function(){'use strict';'',
     ''var TABS=['now','trends','faults','system'];'',
     [],
     ''/* Tabs: the hash picks the panel, an unknown or empty hash picks the first. */'',
     ''function showTab(){'',
     ''  var want=location.hash.slice(1);'',
     ''  if(TABS.indexOf(want)<0)want=TABS[0];'',
     ''  TABS.forEach(function(name){'',
     ''    document.getElementById(name).hidden=(name!==want);'',
     ''    var link=document.getElementById('tab-'+name);'',
     ''    if(name===want)link.setAttribute('aria-current','page');'',
     ''    else link.removeAttribute('aria-current');'',
     ''  });'',
     ''}'',
     ''window.addEventListener('hashchange',showTab);'',
     ''showTab();'',
     [],
     ''/* The status bar. Its colors mean health and nothing else: green, red, or grey for'',
     ''   'the page cannot reach the box'. */'',
     ''var LOOKS={'',
     ''  green:{icon:'' @ [CHR 0x27, CHR 0x5C] @ ''u2713',head:'Normal',sub:'' @ [CHR 0x27, CHR 0x27] @ '',color:'#1b7f3b'},'',
     ''  red:{icon:'!',head:'Issue',sub:'' @ [CHR 0x27, CHR 0x27] @ '',color:'#c0262d'},'',
     ''  grey:{icon:'?',head:'Cannot reach the box','',
     ''        sub:'It may be off, out of range, or not running',color:'#5b6470'}'',
     ''};'',
     ''function setBar(level,note){'',
     ''  var look=LOOKS[level];'',
     ''  document.getElementById('bar').className='bar '+level;'',
     ''  document.getElementById('bar-icon').textContent=look.icon;'',
     ''  document.getElementById('bar-head').textContent=look.head;'',
     ''  document.getElementById('bar-sub').textContent=note||look.sub;'',
     ''  document.querySelector('meta[name=theme-color]').setAttribute('content',look.color);'',
     ''  document.title=(level==='green'?'' @ [CHR 0x27, CHR 0x27] @ '':'! ')+'carwatch';'',
     ''}'',
     [],
     ''/* TODO(ctlsource): in production the bar's level comes from the source's `light` field,'',
     ''   the same value that drives the box's light, so the two cannot disagree. This page'',
     ''   must not work health out for itself. Until the real source exists, DEMO_CYCLE steps'',
     ''   through all three colors every 2 s so each can be seen. It says so in the bar.'',
     ''   Delete this block, and the setBar call below it, with that change. */'',
     ''var DEMO_CYCLE=true;'',
     ''var DEMO_ORDER=['green','red','grey'];'',
     ''var demoAt=0;'',
     ''function demoStep(){'',
     ''  setBar(DEMO_ORDER[demoAt],'DEMO: colors cycle every 2 s, this is not real health');'',
     ''  demoAt=(demoAt+1)%DEMO_ORDER.length;'',
     ''}'',
     ''if(DEMO_CYCLE){demoStep();setInterval(demoStep,2000);}'',
     ''else setBar('grey');'',
     ''})();'',
     ''</script>'',
     ''</body></html>'']"

definition page_html :: string where
  "page_html = concat (map (\<lambda>l. l @ [CHR 0x0A]) page_lines)"

section \<open>Markup\<close>

text \<open>The tokens of a document: start tags with their attributes, end tags and the text between them. The content of a
  style or a script is passed over; values stand in single quotes.\<close>

datatype token = Start string "(string \<times> string) list" | End string | Text string

datatype mode =
  Data string | Doctype | Less | Raw | Raw_Less
| Tag string
| Attrs string "(string \<times> string) list"
| Attr string "(string \<times> string) list" string
| Equals string "(string \<times> string) list" string
| Value string "(string \<times> string) list" string string
| End_Tag string

definition content :: "string \<Rightarrow> mode" where
  "content t = (if t = ''style'' \<or> t = ''script'' then Raw else Data [])"

fun lex_char :: "mode \<Rightarrow> char \<Rightarrow> (token list \<times> mode) option" where
  "lex_char (Data s) c = Some (if c = CHR ''<'' then ([Text s], Less) else ([], Data (s @ [c])))"
| "lex_char Doctype c = Some ([], if c = CHR ''>'' then Data [] else Doctype)"
| "lex_char Less c = Some ([], if c = CHR ''!'' then Doctype else if c = CHR ''/'' then End_Tag [] else Tag [c])"
| "lex_char Raw c = Some ([], if c = CHR ''<'' then Raw_Less else Raw)"
| "lex_char Raw_Less c = Some ([], if c = CHR ''/'' then End_Tag [] else Raw)"
| "lex_char (Tag t) c =
     Some (if c = CHR ''>'' then ([Start t []], content t) else ([], if c = CHR '' '' then Attrs t [] else Tag (t @ [c])))"
| "lex_char (Attrs t as) c =
     Some (if c = CHR ''>'' then ([Start t as], content t) else ([], if c = CHR '' '' then Attrs t as else Attr t as [c]))"
| "lex_char (Attr t as a) c =
     Some (if c = CHR ''>'' then ([Start t (as @ [(a, [])])], content t)
           else ([], if c = CHR ''='' then Equals t as a else if c = CHR '' '' then Attrs t (as @ [(a, [])]) else Attr t as (a @ [c])))"
| "lex_char (Equals t as a) c = (if c = CHR 0x27 then Some ([], Value t as a []) else None)"
| "lex_char (Value t as a v) c = Some ([], if c = CHR 0x27 then Attrs t (as @ [(a, v)]) else Value t as a (v @ [c]))"
| "lex_char (End_Tag t) c = Some (if c = CHR ''>'' then ([End t], Data []) else ([], End_Tag (t @ [c])))"

fun lex_from :: "mode \<Rightarrow> string \<Rightarrow> (token list \<times> mode) option" where
  "lex_from m [] = Some ([], m)"
| "lex_from m (c # cs) =
     (case lex_char m c of None \<Rightarrow> None | Some (ts, m') \<Rightarrow> map_option (apfst ((@) ts)) (lex_from m' cs))"

definition tokens :: "string \<Rightarrow> token list option" where
  "tokens s = (case lex_from (Data []) s of Some (ts, Data r) \<Rightarrow> Some ts | _ \<Rightarrow> None)"

text \<open>Every end tag closes the element opened last; \<open>meta\<close> and \<open>br\<close> have no end tag.\<close>

fun nest :: "string list \<Rightarrow> token list \<Rightarrow> string list option" where
  "nest open_tags [] = Some open_tags"
| "nest open_tags (Start t as # ts) = nest (if t = ''meta'' \<or> t = ''br'' then open_tags else t # open_tags) ts"
| "nest open_tags (End t # ts) = (case open_tags of [] \<Rightarrow> None | u # us \<Rightarrow> if u = t then nest us ts else None)"
| "nest open_tags (Text s # ts) = nest open_tags ts"

definition values_of :: "string \<Rightarrow> (string \<times> string) list \<Rightarrow> string list" where
  "values_of a as = map snd (filter (\<lambda>p. fst p = a) as)"

fun attr_values :: "string \<Rightarrow> token list \<Rightarrow> string list" where
  "attr_values a [] = []"
| "attr_values a (Start t as # ts) = values_of a as @ attr_values a ts"
| "attr_values a (_ # ts) = attr_values a ts"

section \<open>The document\<close>

text \<open>What the script reads and writes of the document: the elements by their ids, which of them are hidden or marked as
  current, their text and class, the color of the theme, the title; and the script's own \<open>demoAt\<close>.\<close>

record dom =
  d_ids :: "string list"
  d_hidden :: "string list"
  d_current :: "string list"
  d_class :: "(string \<times> string) list"
  d_text :: "(string \<times> string) list"
  d_theme :: "string option"
  d_title :: string
  d_demoAt :: nat

fun load :: "token list \<Rightarrow> dom" where
  "load [] = \<lparr>d_ids = [], d_hidden = [], d_current = [], d_class = [], d_text = [], d_theme = None, d_title = [], d_demoAt = 0\<rparr>"
| "load (Start t as # ts) =
     (let d = load ts; ids = values_of ''id'' as; body = (case ts of Text s # _ \<Rightarrow> s | _ \<Rightarrow> [])
      in d\<lparr>d_ids := ids @ d_ids d,
           d_hidden := (if map_of as ''hidden'' = None then [] else ids) @ d_hidden d,
           d_class := List.product ids (values_of ''class'' as) @ d_class d,
           d_text := map (\<lambda>i. (i, body)) ids @ d_text d,
           d_theme := (if map_of as ''name'' = Some ''theme-color'' then map_of as ''content'' else d_theme d),
           d_title := (if t = ''title'' then body else d_title d)\<rparr>)"
| "load (_ # ts) = load ts"

definition page_dom :: "dom option" where
  "page_dom = map_option load (tokens page_html)"

section \<open>The script\<close>

text \<open>\<open>None\<close> is an exception: the script used an element that does not exist.\<close>

definition set_in :: "bool \<Rightarrow> string \<Rightarrow> string list \<Rightarrow> string list" where
  "set_in b x xs = (if b then x # removeAll x xs else removeAll x xs)"

definition TABS :: "string list" where
  "TABS = [''now'', ''trends'', ''faults'', ''system'']"

definition wanted :: "string \<Rightarrow> string" where
  "wanted hash = (let want = drop 1 hash in if want \<in> set TABS then want else TABS ! 0)"

definition show_panel :: "string \<Rightarrow> string \<Rightarrow> dom \<Rightarrow> dom option" where
  "show_panel want name d =
     (if name \<notin> set (d_ids d) \<or> ''tab-'' @ name \<notin> set (d_ids d) then None
      else Some (d\<lparr>d_hidden := set_in (name \<noteq> want) name (d_hidden d),
                    d_current := set_in (name = want) (''tab-'' @ name) (d_current d)\<rparr>))"

fun for_each :: "('a \<Rightarrow> 'b \<Rightarrow> 'b option) \<Rightarrow> 'a list \<Rightarrow> 'b \<Rightarrow> 'b option" where
  "for_each f [] d = Some d"
| "for_each f (x # xs) d = (case f x d of None \<Rightarrow> None | Some d' \<Rightarrow> for_each f xs d')"

definition showTab :: "string \<Rightarrow> dom \<Rightarrow> dom option" where
  "showTab hash = for_each (show_panel (wanted hash)) TABS"

record look =
  l_icon :: string
  l_head :: string
  l_sub :: string
  l_color :: string

text \<open>The check mark of the green look is \<open>U+2713\<close>, here in UTF-8.\<close>

definition LOOKS :: "(string \<times> look) list" where
  "LOOKS =
     [(''green'', \<lparr>l_icon = [CHR 0xE2, CHR 0x9C, CHR 0x93], l_head = ''Normal'', l_sub = [], l_color = ''#1b7f3b''\<rparr>),
      (''red'', \<lparr>l_icon = ''!'', l_head = ''Issue'', l_sub = [], l_color = ''#c0262d''\<rparr>),
      (''grey'', \<lparr>l_icon = ''?'', l_head = ''Cannot reach the box'', l_sub = ''It may be off, out of range, or not running'',
         l_color = ''#5b6470''\<rparr>)]"

definition setBar :: "string \<Rightarrow> string \<Rightarrow> dom \<Rightarrow> dom option" where
  "setBar level note0 d =
     (case map_of LOOKS level of
        None \<Rightarrow> None
      | Some lk \<Rightarrow>
          if \<not> set [''bar'', ''bar-icon'', ''bar-head'', ''bar-sub''] \<subseteq> set (d_ids d) \<or> d_theme d = None then None
          else Some (d\<lparr>d_class := AList.update ''bar'' (''bar '' @ level) (d_class d),
                        d_text := AList.update ''bar-sub'' (if note0 = [] then l_sub lk else note0)
                          (AList.update ''bar-head'' (l_head lk) (AList.update ''bar-icon'' (l_icon lk) (d_text d))),
                        d_theme := Some (l_color lk),
                        d_title := (if level = ''green'' then [] else ''! '') @ ''carwatch''\<rparr>))"

definition DEMO_ORDER :: "string list" where
  "DEMO_ORDER = [''green'', ''red'', ''grey'']"

definition demo_note :: string where
  "demo_note = ''DEMO: colors cycle every 2 s, this is not real health''"

definition demoStep :: "dom \<Rightarrow> dom option" where
  "demoStep d =
     map_option (\<lambda>d'. d'\<lparr>d_demoAt := (d_demoAt d' + 1) mod length DEMO_ORDER\<rparr>) (setBar (DEMO_ORDER ! d_demoAt d) demo_note d)"

text \<open>The script when it is loaded at a URL with a hash, and what runs it afterwards: a change of the hash and the
  timer of two seconds.\<close>

datatype page_event = Hash_Change string | Interval

definition page_start :: "string \<Rightarrow> dom \<Rightarrow> dom option" where
  "page_start hash d = (case showTab hash d of None \<Rightarrow> None | Some d' \<Rightarrow> demoStep d')"

fun page_step :: "page_event \<Rightarrow> dom \<Rightarrow> dom option" where
  "page_step (Hash_Change hash) d = showTab hash d"
| "page_step Interval d = demoStep d"

definition page_run :: "string \<Rightarrow> page_event list \<Rightarrow> dom \<Rightarrow> dom option" where
  "page_run hash es d = (case page_start hash d of None \<Rightarrow> None | Some d' \<Rightarrow> for_each page_step es d')"

section \<open>Reading by lines\<close>

lemma lex_append:
  "lex_from m (s @ t) =
     (case lex_from m s of None \<Rightarrow> None | Some (ts, m') \<Rightarrow> map_option (apfst ((@) ts)) (lex_from m' t))"
proof (induction s arbitrary: m)
  case Nil
  have "apfst ((@) []) = (id :: token list \<times> mode \<Rightarrow> _)" by auto
  then show ?case by (simp add: option.map_id)
next
  case (Cons c s)
  have "apfst ((@) ts) (apfst ((@) us) x) = apfst ((@) (ts @ us)) x" for ts us :: "token list" and x :: "token list \<times> mode"
    by (cases x) simp
  then show ?case using Cons by (auto split: option.split simp: option.map_comp o_def)
qed

fun lex_lines :: "mode \<Rightarrow> string list \<Rightarrow> (token list \<times> mode) option" where
  "lex_lines m [] = Some ([], m)"
| "lex_lines m (l # ls) =
     (case lex_from m (l @ [CHR 0x0A]) of None \<Rightarrow> None | Some (ts, m') \<Rightarrow> map_option (apfst ((@) ts)) (lex_lines m' ls))"

lemma lex_concat: "lex_from m (concat (map (\<lambda>l. l @ [CHR 0x0A]) ls)) = lex_lines m ls"
proof (induction ls arbitrary: m)
  case (Cons l ls)
  show ?case unfolding list.map concat.simps lex_append Cons.IH lex_lines.simps ..
qed simp

definition line_tokens :: "string list \<Rightarrow> token list option" where
  "line_tokens ls = (case lex_lines (Data []) ls of Some (ts, Data r) \<Rightarrow> Some ts | _ \<Rightarrow> None)"

lemma page_tokens: "tokens page_html = line_tokens page_lines"
  by (simp add: tokens_def line_tokens_def page_html_def lex_concat)

lemma sublist_line:
  assumes "CHR 0x0A \<notin> set p" and "p \<noteq> []"
  shows "sublist p (s @ CHR 0x0A # r) \<longleftrightarrow> sublist p s \<or> sublist p r"
proof -
  have no: "u = []" if "prefix u (CHR 0x0A # r)" "CHR 0x0A \<notin> set u" for u
    using that by (cases u) auto
  have "sublist p (CHR 0x0A # r) \<longleftrightarrow> sublist p r"
    using no assms by (auto simp: sublist_Cons_right)
  moreover have "(\<exists>u v. p = u @ v \<and> suffix u s \<and> prefix v (CHR 0x0A # r)) \<longrightarrow> sublist p s"
    using no assms(1) by fastforce
  ultimately show ?thesis by (auto simp: sublist_append)
qed

lemma sublist_lines:
  assumes "CHR 0x0A \<notin> set p" and "p \<noteq> []"
  shows "sublist p (concat (map (\<lambda>l. l @ [CHR 0x0A]) ls)) \<longleftrightarrow> list_ex (sublist p) ls"
  using assms by (induction ls) (simp_all add: sublist_line)

lemma length_lines: "list_all (\<lambda>l. length l \<le> n) ls \<Longrightarrow> length (concat (map (\<lambda>l. l @ [CHR 0x0A]) ls)) \<le> length ls * (n + 1)"
  by (induction ls) auto

fun within :: "'a list \<Rightarrow> int \<Rightarrow> bool" where
  "within [] n \<longleftrightarrow> 0 \<le> n"
| "within (x # xs) n \<longleftrightarrow> within xs (n - 1)"

lemma within_length: "within xs n \<longleftrightarrow> int (length xs) \<le> n"
  by (induction xs arbitrary: n) auto

lemma page_line_lengths: "list_all (\<lambda>l. within l 255) page_lines \<and> within page_lines 100" by code_simp

lemma page_length: "length page_html \<le> 25600"
proof -
  have "list_all (\<lambda>l. length l \<le> 255) page_lines" "length page_lines \<le> 100"
    using page_line_lengths by (simp_all add: within_length list_all_iff)
  from length_lines [OF this(1)] this(2) show ?thesis unfolding page_html_def by simp
qed

lemma page_line_texts: "list_all (\<lambda>l. \<not> sublist ''//'' l \<and> \<not> sublist ''HTML'' l \<and> \<not> sublist ''write'' l) page_lines" by code_simp

lemma page_lexed:
  "case line_tokens page_lines of
     Some ts \<Rightarrow>
       nest [] ts = Some [] \<and> distinct (attr_values ''id'' ts) \<and> attr_values ''src'' ts = [] \<and>
       list_all (\<lambda>h. h \<noteq> [] \<and> hd h = CHR ''#'' \<and> tl h \<in> set (attr_values ''id'' ts)) (attr_values ''href'' ts)
   | None \<Rightarrow> False"
  by code_simp

lemma page_loaded:
  "case line_tokens page_lines of
     Some ts \<Rightarrow>
       (let d = load ts
        in d_ids d = [''bar'', ''bar-icon'', ''bar-head'', ''bar-sub'', ''synth''] @ TABS @ map ((@) ''tab-'') TABS \<and>
           d_theme d = Some ''#5b6470'' \<and> d_demoAt d = 0)
   | None \<Rightarrow> False"
  by code_simp

section \<open>Runs of the script\<close>

definition script_ids :: "string list" where
  "script_ids = [''bar'', ''bar-icon'', ''bar-head'', ''bar-sub''] @ TABS @ map ((@) ''tab-'') TABS"

definition ready :: "dom \<Rightarrow> bool" where
  "ready d \<longleftrightarrow> set script_ids \<subseteq> set (d_ids d) \<and> d_theme d \<noteq> None"

text \<open>The panels in view and the links marked as current.\<close>

definition panels :: "dom \<Rightarrow> string list" where
  "panels d = filter (\<lambda>t. t \<notin> set (d_hidden d)) TABS"

definition marked :: "dom \<Rightarrow> string list" where
  "marked d = filter (\<lambda>t. ''tab-'' @ t \<in> set (d_current d)) TABS"

definition bar_shows :: "string \<Rightarrow> dom \<Rightarrow> bool" where
  "bar_shows level d \<longleftrightarrow> map_of (d_class d) ''bar'' = Some (''bar '' @ level) \<and> map_of (d_text d) ''bar-sub'' = Some demo_note \<and>
     d_title d = (if level = ''green'' then ''carwatch'' else ''! carwatch'')"

text \<open>The state after the hash \<open>hash\<close> and \<open>k\<close> intervals.\<close>

definition shows_tab :: "string \<Rightarrow> dom \<Rightarrow> bool" where
  "shows_tab hash d \<longleftrightarrow> panels d = [wanted hash] \<and> marked d = [wanted hash]"

lemma wanted_in: "wanted hash \<in> set TABS"
  by (auto simp: wanted_def TABS_def Let_def)

lemma set_in_iff [simp]: "x \<in> set (set_in b y xs) \<longleftrightarrow> (if x = y then b else x \<in> set xs)"
  by (auto simp: set_in_def)

lemma show_panels_effect:
  assumes "set ts \<union> (@) ''tab-'' ` set ts \<subseteq> set (d_ids d)"
  shows "\<exists>hs cs. for_each (show_panel w) ts d = Some (d\<lparr>d_hidden := hs, d_current := cs\<rparr>) \<and>
    (\<forall>t. t \<in> set hs \<longleftrightarrow> (if t \<in> set ts then t \<noteq> w else t \<in> set (d_hidden d))) \<and>
    (\<forall>t. ''tab-'' @ t \<in> set cs \<longleftrightarrow> (if t \<in> set ts then t = w else ''tab-'' @ t \<in> set (d_current d)))"
  using assms
proof (induction ts arbitrary: d)
  case Nil
  show ?case by (intro exI [of _ "d_hidden d"] exI [of _ "d_current d"]) simp
next
  case (Cons t ts)
  let ?d = "d\<lparr>d_hidden := set_in (t \<noteq> w) t (d_hidden d), d_current := set_in (t = w) (''tab-'' @ t) (d_current d)\<rparr>"
  have s: "show_panel w t d = Some ?d" using Cons.prems by (simp add: show_panel_def)
  obtain hs cs where r: "for_each (show_panel w) ts ?d = Some (?d\<lparr>d_hidden := hs, d_current := cs\<rparr>)"
    "\<forall>u. u \<in> set hs \<longleftrightarrow> (if u \<in> set ts then u \<noteq> w else u \<in> set (d_hidden ?d))"
    "\<forall>u. ''tab-'' @ u \<in> set cs \<longleftrightarrow> (if u \<in> set ts then u = w else ''tab-'' @ u \<in> set (d_current ?d))"
    using Cons.IH [of ?d] Cons.prems by auto
  then show ?case using s by (intro exI [of _ hs] exI [of _ cs]) auto
qed

lemma filter_one: "distinct xs \<Longrightarrow> x \<in> set xs \<Longrightarrow> filter (\<lambda>y. y = x) xs = [x]"
  by (induction xs) (auto simp: filter_empty_conv)

lemma showTab_effect:
  assumes "ready d"
  shows "\<exists>hs cs. showTab hash d = Some (d\<lparr>d_hidden := hs, d_current := cs\<rparr>) \<and> shows_tab hash (d\<lparr>d_hidden := hs, d_current := cs\<rparr>)"
proof -
  obtain hs cs where e: "showTab hash d = Some (d\<lparr>d_hidden := hs, d_current := cs\<rparr>)"
    "\<forall>t \<in> set TABS. t \<in> set hs \<longleftrightarrow> t \<noteq> wanted hash" "\<forall>t \<in> set TABS. ''tab-'' @ t \<in> set cs \<longleftrightarrow> t = wanted hash"
    using show_panels_effect [of TABS d "wanted hash"] assms by (auto simp: ready_def script_ids_def showTab_def)
  have "filter (\<lambda>t. t = wanted hash) TABS = [wanted hash]" using wanted_in by (intro filter_one) (simp_all add: TABS_def)
  moreover have "filter (\<lambda>t. t \<notin> set hs) TABS = filter (\<lambda>t. t = wanted hash) TABS"
    "filter (\<lambda>t. ''tab-'' @ t \<in> set cs) TABS = filter (\<lambda>t. t = wanted hash) TABS"
    using e(2,3) by (auto intro: filter_cong)
  ultimately have "shows_tab hash (d\<lparr>d_hidden := hs, d_current := cs\<rparr>)" by (simp add: shows_tab_def panels_def marked_def)
  then show ?thesis using e(1) by blast
qed

lemma demoStep_effect:
  assumes "ready d" and "d_demoAt d < 3"
  shows "\<exists>d'. demoStep d = Some d' \<and> ready d' \<and> d_demoAt d' = (d_demoAt d + 1) mod 3 \<and> bar_shows (DEMO_ORDER ! d_demoAt d) d' \<and>
    d_hidden d' = d_hidden d \<and> d_current d' = d_current d"
proof -
  have "d_demoAt d \<in> {0, 1, 2}" using assms(2) by auto
  then show ?thesis using assms(1)
    by (auto simp: demoStep_def setBar_def LOOKS_def DEMO_ORDER_def demo_note_def ready_def script_ids_def bar_shows_def update_conv')
qed

definition page_inv :: "string \<Rightarrow> nat \<Rightarrow> dom \<Rightarrow> bool" where
  "page_inv hash k d \<longleftrightarrow> ready d \<and> shows_tab hash d \<and> d_demoAt d = (k + 1) mod 3 \<and> bar_shows (DEMO_ORDER ! (k mod 3)) d"

fun last_hash :: "string \<Rightarrow> page_event list \<Rightarrow> string" where
  "last_hash hash [] = hash"
| "last_hash hash (Hash_Change h # es) = last_hash h es"
| "last_hash hash (Interval # es) = last_hash hash es"

lemma page_start_inv:
  assumes "ready d" and "d_demoAt d = 0"
  shows "\<exists>d'. page_start hash d = Some d' \<and> page_inv hash 0 d'"
proof -
  obtain hs cs where t: "showTab hash d = Some (d\<lparr>d_hidden := hs, d_current := cs\<rparr>)" "shows_tab hash (d\<lparr>d_hidden := hs, d_current := cs\<rparr>)"
    using showTab_effect [OF assms(1)] by blast
  have "ready (d\<lparr>d_hidden := hs, d_current := cs\<rparr>)" using assms(1) by (simp add: ready_def)
  from demoStep_effect [OF this] assms(2) t show ?thesis
    by (auto simp: page_start_def page_inv_def shows_tab_def panels_def marked_def)
qed

lemma page_step_inv:
  assumes "page_inv hash k d"
  shows "\<exists>d'. page_step e d = Some d' \<and> page_inv (last_hash hash [e]) (k + (if e = Interval then 1 else 0)) d'"
proof (cases e)
  case (Hash_Change h)
  obtain hs cs where "showTab h d = Some (d\<lparr>d_hidden := hs, d_current := cs\<rparr>)" "shows_tab h (d\<lparr>d_hidden := hs, d_current := cs\<rparr>)"
    using showTab_effect [of d h] assms by (auto simp: page_inv_def)
  then show ?thesis using Hash_Change assms by (auto simp: page_inv_def ready_def bar_shows_def)
next
  case Interval
  have "ready d" "d_demoAt d < 3" using assms by (simp_all add: page_inv_def)
  from demoStep_effect [OF this] assms Interval show ?thesis
    by (auto simp: page_inv_def shows_tab_def panels_def marked_def mod_Suc_eq)
qed

lemma last_hash_Cons: "last_hash hash (e # es) = last_hash (last_hash hash [e]) es"
  by (cases e) simp_all

lemma page_steps_inv:
  "page_inv hash k d \<Longrightarrow> \<exists>d'. for_each page_step es d = Some d' \<and> page_inv (last_hash hash es) (k + count_list es Interval) d'"
proof (induction es arbitrary: hash k d)
  case (Cons e es)
  obtain d1 where d1: "page_step e d = Some d1" "page_inv (last_hash hash [e]) (k + (if e = Interval then 1 else 0)) d1"
    using page_step_inv [OF Cons.prems] by blast
  from Cons.IH [OF d1(2)] d1(1) show ?case unfolding last_hash_Cons [of hash e es] by (auto split: if_splits)
qed simp

lemma page_ready:
  obtains d where "page_dom = Some d" and "ready d" and "d_demoAt d = 0"
proof -
  obtain ts where l: "line_tokens page_lines = Some ts" using page_loaded by (auto split: option.splits)
  then have "tokens page_html = Some ts" by (simp add: page_tokens)
  moreover have "ready (load ts)" "d_demoAt (load ts) = 0"
    using page_loaded unfolding l by (simp_all add: Let_def ready_def script_ids_def TABS_def)
  ultimately show ?thesis using that by (simp add: page_dom_def)
qed

text \<open>C37: The page's script never fails on the page, whatever the hash of its URL, the changes of the hash and the
  timer: exactly one panel is in view and exactly its link is marked, the one the last hash names or the first one; the
  bar goes around the three colors, says at each that it is a demonstration, and the title has the mark exactly when the
  bar is not green.\<close>

theorem page_script_runs:
  "\<exists>d0 d. page_dom = Some d0 \<and> page_run hash es d0 = Some d \<and> panels d = [wanted (last_hash hash es)] \<and>
     marked d = [wanted (last_hash hash es)] \<and> bar_shows (DEMO_ORDER ! (count_list es Interval mod 3)) d"
proof -
  obtain d0 where d0: "page_dom = Some d0" "ready d0" "d_demoAt d0 = 0" by (rule page_ready)
  obtain d1 where d1: "page_start hash d0 = Some d1" "page_inv hash 0 d1" using page_start_inv [OF d0(2,3)] by blast
  from page_steps_inv [OF d1(2), of es] d0(1) d1(1) show ?thesis
    by (auto simp: page_run_def page_inv_def shows_tab_def)
qed

text \<open>The page is one well-formed document that needs no other: its tags nest, no two elements have the same id, every
  link leads to an element of the page, nothing in it can name another host or put text in as markup, and it fits the
  server's buffer.\<close>

theorem page_self_contained:
  "\<exists>ts. tokens page_html = Some ts \<and> nest [] ts = Some [] \<and> distinct (attr_values ''id'' ts) \<and> attr_values ''src'' ts = [] \<and>
     set (attr_values ''href'' ts) \<subseteq> (\<lambda>i. CHR ''#'' # i) ` set (attr_values ''id'' ts) \<and>
     \<not> sublist ''//'' page_html \<and> \<not> sublist ''HTML'' page_html \<and> \<not> sublist ''write'' page_html \<and> length page_html \<le> 49152"
proof -
  obtain ts where l: "line_tokens page_lines = Some ts" using page_lexed by (auto split: option.splits)
  have ts: "nest [] ts = Some []" "distinct (attr_values ''id'' ts)" "attr_values ''src'' ts = []"
    "\<And>h. h \<in> set (attr_values ''href'' ts) \<Longrightarrow> h \<noteq> [] \<and> hd h = CHR ''#'' \<and> tl h \<in> set (attr_values ''id'' ts)"
    using page_lexed unfolding l by (auto simp: list_all_iff)
  have "tokens page_html = Some ts" using l by (simp add: page_tokens)
  moreover have "set (attr_values ''href'' ts) \<subseteq> (\<lambda>i. CHR ''#'' # i) ` set (attr_values ''id'' ts)"
  proof
    fix h assume "h \<in> set (attr_values ''href'' ts)"
    from ts(4) [OF this] show "h \<in> (\<lambda>i. CHR ''#'' # i) ` set (attr_values ''id'' ts)"
      by (auto intro: image_eqI [of _ _ "tl h"] simp: neq_Nil_conv)
  qed
  moreover have "\<not> sublist p page_html" if "p \<in> {''//'', ''HTML'', ''write''}" for p
    using page_line_texts that by (auto simp: page_html_def sublist_lines list_all_iff list_ex_iff)
  ultimately show ?thesis using ts(1-3) page_length by auto
qed


end
