(* ===== verification/Scaffolds.thy ===== *)
theory Scaffolds
  imports Log_Line
begin

text \<open>
  The programs that are scaffolds so far: \<open>obdctl\<close> (\<open>src/interface/main.c\<close>) with its verbs and its usage message, and
  \<open>obdd\<close>, \<open>analyzed\<close> and the supervisor (\<open>src/obd/main.c\<close>, \<open>src/analysis/main.c\<close>, \<open>src/supervisor/main.c\<close>).
\<close>

section \<open>obdctl\<close>

text \<open>The dash of the messages is \<open>U+2014\<close>, in the UTF-8 of the source file.\<close>

definition scaffold_message :: string where
  "scaffold_message = ''not implemented '' @ [CHR 0xE2, CHR 0x80, CHR 0x94] @ '' M0 scaffold''"

text \<open>What a program that ends leaves: its exit status, what it printed on \<open>stdout\<close> and on \<open>stderr\<close>.\<close>

record outcome =
  oc_status :: int
  oc_stdout :: string
  oc_stderr :: string

definition obdctl_usage :: outcome where
  "obdctl_usage =
     \<lparr>oc_status = 2, oc_stdout = [],
      oc_stderr = concat (map (\<lambda>l. l @ [CHR 0x0A])
        [''usage: obdctl <verb>'',
         ''  status                     liveness, per-process RSS, event counts'',
         ''  verdicts [--since WHEN]    current and historical diagnoses'',
         ''  series PID --from --to     raw or binned history'',
         ''  baseline PID               learned model for an operating-point bin'',
         ''  faults                     detection / degradation / recovery events''])\<rparr>"

definition obdctl_verbs :: "string list" where
  "obdctl_verbs = [''status'', ''verdicts'', ''series'', ''baseline'', ''faults'']"

text \<open>\<open>argv\<close> without the name of the program.\<close>

fun obdctl_loop :: "string \<Rightarrow> string list \<Rightarrow> outcome" where
  "obdctl_loop arg [] = obdctl_usage"
| "obdctl_loop arg (v # vs) =
     (if arg = v then \<lparr>oc_status = 0, oc_stdout = v @ '': '' @ scaffold_message @ [CHR 0x0A], oc_stderr = []\<rparr>
      else obdctl_loop arg vs)"

fun obdctl_main :: "string list \<Rightarrow> log_state \<Rightarrow> outcome \<times> log_state" where
  "obdctl_main [] st = (obdctl_usage, st)"
| "obdctl_main (arg # rest) st = (obdctl_loop arg obdctl_verbs, log_init ''obdctl'' LOG_WARN st)"

section \<open>The daemons to come\<close>

text \<open>\<open>obdd\<close>, \<open>analyzed\<close> and the supervisor: two log lines and exit status 0. \<open>c1\<close> and \<open>c2\<close> are the clock at the
  two lines.\<close>

definition scaffold_main :: "string \<Rightarrow> (tm \<times> nat) option \<Rightarrow> (tm \<times> nat) option \<Rightarrow> u32 \<Rightarrow> outcome" where
  "scaffold_main component c1 c2 pid =
     (let st = log_init component LOG_INFO log_start
      in \<lparr>oc_status = 0,
          oc_stdout = log_emit st c1 pid LOG_INFO ''start'' @ log_emit st c2 pid LOG_WARN scaffold_message,
          oc_stderr = []\<rparr>)"

definition obdd_main :: "(tm \<times> nat) option \<Rightarrow> (tm \<times> nat) option \<Rightarrow> u32 \<Rightarrow> outcome" where
  "obdd_main = scaffold_main ''obdd''"

definition analyzed_main :: "(tm \<times> nat) option \<Rightarrow> (tm \<times> nat) option \<Rightarrow> u32 \<Rightarrow> outcome" where
  "analyzed_main = scaffold_main ''analyzed''"

definition supervisor_main :: "(tm \<times> nat) option \<Rightarrow> (tm \<times> nat) option \<Rightarrow> u32 \<Rightarrow> outcome" where
  "supervisor_main = scaffold_main ''supervisor''"

section \<open>Properties\<close>

text \<open>The lines of a text, and the first word of a line.\<close>

fun lines_of :: "string \<Rightarrow> string list" where
  "lines_of [] = []"
| "lines_of (c # cs) =
     (if c = CHR 0x0A then [] # lines_of cs
      else case lines_of cs of [] \<Rightarrow> [[c]] | l # ls \<Rightarrow> (c # l) # ls)"

definition first_word :: "string \<Rightarrow> string" where
  "first_word l = takeWhile (\<lambda>c. c \<noteq> CHR '' '') (dropWhile (\<lambda>c. c = CHR '' '') l)"

definition usage_verbs :: "string list" where
  "usage_verbs = map first_word (tl (lines_of (oc_stderr obdctl_usage)))"

lemma usage_verbs_all: "usage_verbs = obdctl_verbs"
  by code_simp

lemma obdctl_loop_effect:
  "obdctl_loop arg vs =
     (if arg \<in> set vs then \<lparr>oc_status = 0, oc_stdout = arg @ '': '' @ scaffold_message @ [CHR 0x0A], oc_stderr = []\<rparr> else obdctl_usage)"
  by (induction vs) auto

text \<open>\<open>obdctl\<close> takes exactly the verbs that its usage message lists: for such a verb it prints one line, which begins
  with the verb, and ends with status 0; in every other case, without an argument too, it prints nothing but the usage
  message, on \<open>stderr\<close>, and ends with status 2.\<close>

theorem obdctl_verbs_as_documented:
  "fst (obdctl_main argv st) =
     (if argv \<noteq> [] \<and> hd argv \<in> set usage_verbs
      then \<lparr>oc_status = 0, oc_stdout = hd argv @ '': '' @ scaffold_message @ [CHR 0x0A], oc_stderr = []\<rparr>
      else obdctl_usage) \<and>
   oc_status obdctl_usage = 2 \<and> oc_stdout obdctl_usage = []"
  by (cases argv) (simp_all add: obdctl_loop_effect usage_verbs_all, simp_all add: obdctl_usage_def)

lemma lines_of_line: "CHR 0x0A \<notin> set l \<Longrightarrow> lines_of (l @ CHR 0x0A # r) = l # lines_of r"
  by (induction l) auto

lemma fmt_d_plain: "CHR 0x0A \<notin> set (fmt_d (v :: u32))"
  using digits_plain by (auto simp: fmt_d_def Let_def split: if_splits)

lemma log_emit_line:
  assumes "level_val (g_min st) \<le> level_val lvl" and "CHR 0x0A \<notin> set (g_component st)" and "CHR 0x0A \<notin> set message"
  shows "\<exists>l. log_emit st clock pid lvl message = l @ [CHR 0x0A] \<and> CHR 0x0A \<notin> set l"
proof -
  have "CHR 0x0A \<notin> set (stamp 40 clock)" "CHR 0x0A \<notin> set (level_name lvl)" "CHR 0x0A \<notin> set (log_src_name (g_src st))"
    using stamp_plain level_name_plain(1) src_name_plain by blast+
  then show ?thesis using assms fmt_d_plain [of pid] by (auto simp: log_emit_def pad_right_def)
qed

text \<open>A scaffold prints two lines, and both name the component and the provenance of live data.\<close>

lemma scaffold_logs:
  assumes "CHR '' '' \<notin> set component" and "CHR 0x0A \<notin> set component" and "component \<noteq> []"
  shows "\<exists>l1 l2. lines_of (oc_stdout (scaffold_main component c1 c2 pid)) = [l1, l2] \<and>
    fst (Log_Line.fields 4 (l1 @ [CHR 0x0A])) = [stamp 40 c1, ''INFO'', component, ''src=live''] \<and>
    fst (Log_Line.fields 4 (l2 @ [CHR 0x0A])) = [stamp 40 c2, ''WARN'', component, ''src=live'']"
proof -
  let ?st = "log_init component LOG_INFO log_start"
  have st: "g_component ?st = component" "g_min ?st = LOG_INFO" "log_src_name (g_src ?st) = ''live''"
    by (simp_all add: log_init_def log_start_def log_src_name_def)
  obtain l1 l2 where l: "log_emit ?st c1 pid LOG_INFO ''start'' = l1 @ [CHR 0x0A]" "CHR 0x0A \<notin> set l1"
    "log_emit ?st c2 pid LOG_WARN scaffold_message = l2 @ [CHR 0x0A]" "CHR 0x0A \<notin> set l2"
    using log_emit_line [of ?st LOG_INFO "''start''" c1 pid] log_emit_line [of ?st LOG_WARN scaffold_message c2 pid] assms(2)
    by (auto simp: st scaffold_message_def)
  have f: "Log_Line.fields 4 (l1 @ [CHR 0x0A]) = ([stamp 40 c1, ''INFO'', component, ''src=live''], ''pid='' @ fmt_d pid @ '' '' @ ''start'' @ [CHR 0x0A])"
    "Log_Line.fields 4 (l2 @ [CHR 0x0A]) = ([stamp 40 c2, ''WARN'', component, ''src=live''], ''pid='' @ fmt_d pid @ '' '' @ scaffold_message @ [CHR 0x0A])"
    using log_emit_fields [of ?st LOG_INFO c1 pid "''start''"] log_emit_fields [of ?st LOG_WARN c2 pid scaffold_message] assms(1,3)
    unfolding l(1,3) st by simp_all
  have "lines_of (oc_stdout (scaffold_main component c1 c2 pid)) = [l1, l2]"
    using lines_of_line [OF l(2), of "l2 @ [CHR 0x0A]"] lines_of_line [OF l(4), of "[]"] by (simp add: scaffold_main_def Let_def l(1,3))
  then show ?thesis using f by auto
qed


end
