(* ===== verification/Spec2Isabelle.thy ===== *)
theory Spec2Isabelle
  imports Storaged_Restart Ring_Interleaving Statusd_Run Shm Page Scaffolds
begin

text \<open>
  carwatch records a car's engine sensors and shows them on a phone. This library models its C sources
  (\<open>src/\<close> and \<open>include/\<close>) and proves what makes them correct.

  \<^bold>\<open>The parts and how they interact.\<close> A capture process pushes samples into a ring in shared memory; the storage
  daemon \<open>storaged\<close> drains the rings into a write-ahead log of checksummed records, and gives a slot back to the
  producer only once its batch is durable. The page server \<open>statusd\<close> answers HTTP requests: its server reads one request
  per connection, the routes turn it into one line for a source, and the source's reply lines become JSON. Until
  the real source exists, a synthetic one answers, and says so in every record. Every daemon writes one kind of log line.

  \<^bold>\<open>Theories and sources.\<close>
  \<^item> \<open>Carwatch_Prelude\<close>: word types, little-endian fields, shared rule collections. \<open>C_Text\<close>: the number printing,
    \<open>snprintf\<close>, \<open>sscanf\<close>, \<open>memchr\<close>, \<open>memmem\<close> and \<open>strcspn\<close> of the C library.
  \<^item> \<open>Crc32\<close> (\<open>crc32.c\<close>), \<open>Store_Record\<close> (\<open>record.c\<close>, \<open>record.h\<close>): the records on disk as byte lists.
  \<^item> \<open>Log_Src\<close>, \<open>Log_Line\<close> (\<open>log.h\<close>, \<open>log.c\<close>): labels, levels, the log line, the heartbeat.
  \<^item> \<open>Ipc_Ring\<close>, \<open>Ring_Interleaving\<close> (\<open>ring.c\<close>, \<open>ring.h\<close>): the ring's calls run to their end, and cut at their
    atomic accesses with producer, consumer and observer in every order. \<open>Shm\<close> (\<open>shm.c\<close>): creating and attaching.
  \<^item> \<open>Files\<close>: the file system as the log sees it. \<open>Wal_Scan\<close>, \<open>Wal\<close>, \<open>Wal_Commit\<close>, \<open>Wal_Open\<close> (\<open>wal.c\<close>, \<open>wal.h\<close>): the
    scan of a segment, the operations, commits under failures and power cuts, opening and closing.
  \<^item> \<open>Storaged\<close>, \<open>Storaged_Run\<close>, \<open>Storaged_Restart\<close> (\<open>store/main.c\<close>): the storage daemon, its runs, and runs that are killed
    and started again.
  \<^item> \<open>Json\<close>, \<open>Json_Tree\<close>, \<open>Json_Text\<close> (\<open>json.c\<close>): the writer, the tree machine it refines, and a reader of its text.
  \<^item> \<open>Kv\<close>, \<open>Kv_Text\<close> (\<open>kv.c\<close>): the reply lines, and the grammar the parser accepts.
  \<^item> \<open>Http\<close>, \<open>Http_Safety\<close> (\<open>http.c\<close>): requests, queries and response heads.
  \<^item> \<open>Route\<close>, \<open>Route_Answers\<close> (\<open>route.c\<close>): the handler, and what it answers.
  \<^item> \<open>Synth_Source\<close>, \<open>Synth_Replies\<close> (\<open>synth_source.c\<close>): the synthetic source, and that it keeps the contract of a source.
  \<^item> \<open>Server\<close>, \<open>Server_Conn\<close>, \<open>Server_Run\<close> (\<open>server.c\<close>, \<open>server.h\<close>): the connection loop, one connection, the rounds.
  \<^item> \<open>Statusd\<close>, \<open>Statusd_Run\<close> (\<open>statusd_main.c\<close>): the page daemon, from its arguments to its exit.
  \<^item> \<open>Page\<close> (\<open>page.c\<close>): the text of the page, a reader of its markup, its script. \<open>Scaffolds\<close> (\<open>interface/main.c\<close>,
    \<open>obd/main.c\<close>, \<open>analysis/main.c\<close>, \<open>supervisor/main.c\<close>): \<open>obdctl\<close> and the daemons to come.

  A C struct is a record with a prefix on its fields, an enumeration a datatype, a fixed-width integer a word, a buffer
  a list of its bytes. A function with an output parameter returns it; a function that changes an object returns the
  new one. A failing system call takes its outcome from a script, so a theorem for all scripts covers all failures. The world of the log
  also keeps the list of refused truncations (\<open>wd_refused\<close>), which no operation reads: it is there for theorems to name
  the calls that failed.

  \<^bold>\<open>Interfaces.\<close> Each is a locale, interpreted on the model's own definitions: the linear step of a CRC (\<open>crc\<close>), a record codec under the scan (\<open>rc\<close>), the
  bounded queue that the ring implements (\<open>rq\<close>), the contract of a reply source (\<open>synth\<close>), and what a server needs of a
  handler, taken for every handler (\<open>untrusted\<close>) and for \<open>statusd\<close>'s own (\<open>statusd\<close>).

  \<^bold>\<open>What is shown.\<close>
  \<^item> Records: what is encoded is decoded, from any torn prefix nothing is; up to four damaged bytes are detected; the
    table-driven CRC is the bitwise one.
  \<^item> The ring: in every interleaving the consumer reads exactly what was pushed, in order, and never a slot being
    written; a refused push is counted; a restarted process finds the ring as it was.
  \<^item> The log: wherever a process or the power stops, recovery keeps whole batches, all those acknowledged among them; what
    each operation does on success and on failure; closing leaves a clean end.
  \<^item> \<open>storaged\<close>: a slot released is durable, in every run in which the system refuses no truncation that undoes a failed
    commit; what \<open>drain\<close> takes from a ring; a restart takes up exactly where the log ends, when the log notes the ring's
    generation, the last batch has not filled its segment and the ring's counter has not wrapped; and kills in one power session lose no slot that a ring
    accepted. The histories of that theorem begin with a log
    that notes no position yet, their starts complete, the newest segment is the one last written to or one just begun, a kill finds a segment open,
    and the counters of a ring do not pass \<open>2 ^ 64\<close>; a refused truncation ends them, and the clean stop is
    not among their steps. What can happen outside these conditions is shown by the lemmas on faults below.
  \<^item> JSON, reply lines, HTTP: each printer and parser against its grammar, with round trips, termination, and the
    refusal of everything else.
  \<^item> The server: whatever the handler and the network do, what is sent on a connection begins one well-formed answer to
    the request received on it, no descriptor is lost, and no client holds a slot for ten seconds.
  \<^item> \<open>statusd\<close>: a request under /api/ gets JSON whose records all carry their provenance, from the socket to the source
    and back; / gets the page, whole; every way out leaves nothing open and has its exit status.
  \<^item> The page: well-formed, on its own, with links that lead somewhere; its script never fails on it and always shows one
    panel and the one tab that goes with it.
  \<^item> Six faults of the code are proved as lemmas: \<open>undo_failure_loses_acknowledged_batch\<close>,
    \<open>rollover_failure_hides_durable_batch\<close>, \<open>rolled_segment_never_skips\<close>, \<open>stale_position_loses_slots\<close>,
    \<open>series_leading_zero_refused\<close> and \<open>uptime_wraps\<close>.

  \<^bold>\<open>Bounds and fuel.\<close> No definition has fuel. Loops are recursive functions with a measure, or recursion over a script;
  the one loop whose end depends on the numbers it meets, over the samples of a series, is a partial function in the
  option type, and it is proved to return. A scripted call whose script has run out would block (the network) or stops the
  process (the disk). Clocks are assumed below \<open>2 ^ 63\<close> where a deadline is added to them, and a segment below
  \<open>2 ^ 63\<close> bytes.

  \<^bold>\<open>Not modelled.\<close> The arithmetic and printing of doubles and \<open>inet_pton\<close> are parameters: the JSON writer sees a double as what
  \<open>isfinite\<close>, \<open>%.*g\<close> and \<open>strtod\<close> make of it (\<open>dbl\<close>), with the documented form of the text as a hypothesis (\<open>double_ok\<close>). The page is a parameter of the
  routes, given its text in this theory. Producers push between the turns of \<open>storaged\<close>, not during one, and its pauses
  are left out; \<open>newest_segment\<close> reads the whole directory, a \<open>readdir\<close> that fails part-way is not considered. \<open>obdd\<close>, \<open>analyzed\<close>, the supervisor and the verbs of \<open>obdctl\<close> are scaffolds in
  the sources, so there is no more of them to model; of the browser there is what the script of the page uses. Weak memory is left out: the atomic accesses of the ring are taken in one order.
  Log lines are modelled as such, not at the places where the daemons write them, the heartbeats apart.
\<close>

section \<open>The page from the binary to the client\<close>

lemma page_head_text:
  "\<exists>head. http_write_head SERVER_HEAD_MAX HTTP_STATUS_OK (Some ''text/html; charset=utf-8'') n = Some head"
proof -
  have "length (fmt_d (word_of_int 200 :: 32 word)) = 3" by code_simp
  then have "length (head_text 200 ''OK'' ''text/html; charset=utf-8'' n []) < SERVER_HEAD_MAX"
    using length_fmt_u64 [of n] by (simp add: head_text_length)
  then show ?thesis by (simp add: http_write_head_def snprintf_def status_text_def)
qed

lemma page_wire:
  assumes "rs_status r = HTTP_STATUS_OK" and "rs_ctype r = Some ''text/html; charset=utf-8''" and "rs_body r = page_html"
  shows "response_bytes HTTP_STATUS_OK (Some ''text/html; charset=utf-8'') page_html = Some (wire_of r)"
proof -
  have "ctype_ok (Some ''text/html; charset=utf-8'')" by code_simp
  then show ?thesis
    using page_head_text [of "of_nat (length page_html)"] page_length assms
    by (auto simp: wire_of_def response_bytes_def)
qed

text \<open>C36: Whoever asks \<open>statusd\<close> for / gets the page: whatever else happens on the network and in the source, what is sent back
  is the beginning of one response with status 200 and the whole text of \<open>page_html\<close>, which therefore always fits.\<close>

theorem statusd_serves_page:
  assumes "live_ok l" and "server_reach (statusd_handle D page_html) l s w"
    and "http_parse_request (recv_from fd w) = (HTTP_OK, Some req)" and "path req = ''/''" and "query req = []"
    and "sent_to fd w \<noteq> []"
  shows "\<exists>rest. response_bytes HTTP_STATUS_OK (Some ''text/html; charset=utf-8'') page_html = Some (sent_to fd w @ rest)"
proof -
  have "wire_ok (statusd_handle D page_html) live_ok w"
    using statusd.served_inv [OF assms(2,1)] by (simp add: server_inv_def)
  then obtain h rest where b: "sent_to fd w @ rest = answer (statusd_handle D page_html) h (HTTP_OK, Some req)"
    using assms(3,6) unfolding wire_ok_def answered_def by metis
  let ?r = "route_handle page_html (\<lambda>line cap. fst (clocked_query D h line cap)) req preset"
  have "length page_html \<le> rs_cap preset" using page_length by (simp add: preset_def)
  then have "rs_status ?r = HTTP_STATUS_OK" "rs_ctype ?r = Some ''text/html; charset=utf-8''" "rs_body ?r = page_html"
    using assms(4,5) by (simp_all add: route_handle_def set_text_def)
  from page_wire [OF this] b show ?thesis by (intro exI [of _ rest]) (simp add: answer_def statusd_handle_def)
qed

lemma root_request: "http_parse_request (''GET / HTTP/1.1'' @ crlf @ crlf) = (HTTP_OK, Some \<lparr>path = ''/'', query = []\<rparr>)"
  by code_simp

lemma statusd_serves_page_witness:
  "\<exists>s w rest. server_reach (statusd_handle unit_doubles page_html) (live_start [Some 1800000000]) s w \<and> sent_to 4 w \<noteq> [] \<and>
    response_bytes HTTP_STATUS_OK (Some ''text/html; charset=utf-8'') page_html = Some (sent_to 4 w @ rest)"
proof -
  have l: "live_ok (live_start [Some 1800000000])" by (rule live_start_ok) auto
  have "\<exists>s w. server_reach (statusd_handle unit_doubles page_html) (live_start [Some 1800000000]) s w \<and> sent_to 4 w \<noteq> [] \<and>
    recv_from 4 w = ''GET / HTTP/1.1'' @ crlf @ crlf"
    by (rule first_reach) (simp_all only: root_request, simp_all)
  then obtain s w where r: "server_reach (statusd_handle unit_doubles page_html) (live_start [Some 1800000000]) s w" "sent_to 4 w \<noteq> []"
    "recv_from 4 w = ''GET / HTTP/1.1'' @ crlf @ crlf" by blast
  from statusd_serves_page [OF l r(1) _ _ _ r(2), of "\<lparr>path = ''/'', query = []\<rparr>"]
  show ?thesis using r root_request by auto
qed

end
